(* ===== verification/Prelude.thy ===== *)
theory Prelude
  imports Main "HOL-Library.Word"
begin

unbundle bit_operations_syntax

text \<open>
  Shared vocabulary of the development: the C integer types as words of their width, byte
  splitting and joining, little-endian loads and stores on byte buffers, bounded \<open>for\<close>
  loops, and busy-wait loops on volatile hardware as a partial function (\<open>None\<close> is "never
  leaves the loop"). The component theories build on these names only.
\<close>

section \<open>Integer types\<close>

type_synonym u8 = "8 word"
type_synonym u16 = "16 word"
type_synonym u32 = "32 word"
type_synonym u64 = "64 word"

named_theorems bytes_simps \<open>splitting a word into bytes and joining it again\<close>
named_theorems loop_simps \<open>unfolding of the loop combinators on concrete bounds\<close>

section \<open>Bytes of words\<close>

definition lowByte :: "u16 \<Rightarrow> u8" where
  "lowByte w = ucast (w AND 0xff)"

definition highByte :: "u16 \<Rightarrow> u8" where
  "highByte w = ucast (drop_bit 8 w)"

definition makeWord :: "u8 \<Rightarrow> u8 \<Rightarrow> u16" where
  "makeWord h l = push_bit 8 (ucast h) OR ucast l"

lemma bit_lowByte: "bit (lowByte w) n \<longleftrightarrow> n < 8 \<and> bit w n"
  using bit_mask_iff [where ?'a = "16 word", of 8 n]
  by (auto simp: lowByte_def bit_simps mask_eq_exp_minus_1)

lemma bit_highByte: "bit (highByte w) n \<longleftrightarrow> n < 8 \<and> bit w (n + 8)"
  by (auto simp: highByte_def bit_simps add.commute)

lemma bit_makeWord: "bit (makeWord h l) n \<longleftrightarrow> (if n < 8 then bit l n else n < 16 \<and> bit h (n - 8))"
  by (auto simp: makeWord_def bit_simps not_less dest: bit_imp_le_length)

lemma makeWord_high_low [bytes_simps]: "makeWord (highByte w) (lowByte w) = w"
  by (rule bit_word_eqI) (auto simp: bit_makeWord bit_highByte bit_lowByte)

lemma lowByte_makeWord [bytes_simps]: "lowByte (makeWord h l) = l"
  by (rule bit_word_eqI) (auto simp: bit_makeWord bit_lowByte)

lemma highByte_makeWord [bytes_simps]: "highByte (makeWord h l) = h"
  by (rule bit_word_eqI) (auto simp: bit_makeWord bit_highByte)

lemma bytes_eq_iff: "lowByte v = lowByte w \<and> highByte v = highByte w \<longleftrightarrow> v = w"
  by (metis makeWord_high_low)

section \<open>Little-endian loads and stores\<close>

definition le32 :: "u32 \<Rightarrow> u8 list" where
  "le32 w = [ucast w, ucast (drop_bit 8 w), ucast (drop_bit 16 w), ucast (drop_bit 24 w)]"

fun of_le32 :: "u8 list \<Rightarrow> u32" where
  "of_le32 [a, b, c, d] =
     ucast a OR push_bit 8 (ucast b) OR push_bit 16 (ucast c) OR push_bit 24 (ucast d)"
| "of_le32 _ = 0"

lemma length_le32 [simp]: "length (le32 w) = 4"
  by (simp add: le32_def)

lemma of_le32_le32 [simp]: "of_le32 (le32 w) = w"
proof (rule bit_word_eqI)
  fix n
  assume "n < LENGTH(32)"
  then have "n < 8 \<or> 8 \<le> n \<and> n < 16 \<or> 16 \<le> n \<and> n < 24 \<or> 24 \<le> n \<and> n < 32"
    by auto
  then show "bit (of_le32 (le32 w)) n \<longleftrightarrow> bit w n"
    by (elim disjE) (auto simp: le32_def bit_simps)
qed

definition store :: "'a list \<Rightarrow> nat \<Rightarrow> 'a list \<Rightarrow> 'a list" where
  "store buf i bs = take i buf @ bs @ drop (i + length bs) buf"

definition load :: "'a list \<Rightarrow> nat \<Rightarrow> nat \<Rightarrow> 'a list" where
  "load buf i n = take n (drop i buf)"

lemma length_store [simp]: "i + length bs \<le> length buf \<Longrightarrow> length (store buf i bs) = length buf"
  by (simp add: store_def)

lemma length_load [simp]: "i + n \<le> length buf \<Longrightarrow> length (load buf i n) = n"
  by (simp add: load_def)

lemma load_store_same [simp]:
  "i + length bs \<le> length buf \<Longrightarrow> n = length bs \<Longrightarrow> load (store buf i bs) i n = bs"
  by (simp add: load_def store_def)

lemma nth_store:
  "i + length bs \<le> length buf \<Longrightarrow> k < length buf \<Longrightarrow>
   store buf i bs ! k = (if i \<le> k \<and> k < i + length bs then bs ! (k - i) else buf ! k)"
  by (auto simp: store_def nth_append min_def not_less add.commute)

lemma nth_load: "i + n \<le> length buf \<Longrightarrow> k < n \<Longrightarrow> load buf i n ! k = buf ! (i + k)"
  by (simp add: load_def)

lemma load_store_other:
  assumes "i + length bs \<le> length buf" and "j + n \<le> length buf"
    and "j + n \<le> i \<or> i + length bs \<le> j"
  shows "load (store buf i bs) j n = load buf j n"
  using assms by (intro nth_equalityI) (auto simp: nth_load nth_store)

section \<open>Busy-wait loops\<close>

text \<open>
  \<open>while(!stop);\<close> on a volatile location: each evaluation of the guard gives the environment
  one step. The environment is an argument, as it is not code of the repository.
\<close>

partial_function (option) wait_until :: "('s \<Rightarrow> bool) \<Rightarrow> ('s \<Rightarrow> 's) \<Rightarrow> 's \<Rightarrow> 's option" where
  "wait_until stop env s = (if stop s then Some s else wait_until stop env (env s))"

lemma wait_until_now [simp]: "stop s \<Longrightarrow> wait_until stop env s = Some s"
  by (simp add: wait_until.simps)

lemma wait_until_later: "\<not> stop s \<Longrightarrow> wait_until stop env s = wait_until stop env (env s)"
  by (simp add: wait_until.simps [of stop env s])

lemma wait_until_after:
  "(\<forall>k < n. \<not> stop ((env ^^ k) s)) \<Longrightarrow> stop ((env ^^ n) s) \<Longrightarrow>
   wait_until stop env s = Some ((env ^^ n) s)"
proof (induction n arbitrary: s)
  case 0
  then show ?case by simp
next
  case (Suc n)
  have now: "\<not> stop s"
    using Suc.prems(1) by (metis funpow_0 zero_less_Suc)
  have "\<forall>k < n. \<not> stop ((env ^^ k) (env s))"
    using Suc.prems(1) by (metis Suc_mono comp_apply funpow_Suc_right)
  moreover have "stop ((env ^^ n) (env s))"
    using Suc.prems(2) by (metis comp_apply funpow_Suc_right)
  ultimately have "wait_until stop env (env s) = Some ((env ^^ n) (env s))"
    by (rule Suc.IH)
  with now show ?case
    by (metis comp_apply funpow_Suc_right wait_until_later)
qed

lemma wait_until_result:
  assumes "wait_until stop env s = Some t"
  shows "stop t \<and> (\<exists>n. t = (env ^^ n) s)"
proof (rule wait_until.raw_induct [where P = "\<lambda>stop env s t. stop t \<and> (\<exists>n. t = (env ^^ n) s)", OF _ assms])
  fix f stop env s t
  assume IH: "\<And>stop env s t. f stop env s = Some t \<Longrightarrow> stop t \<and> (\<exists>n. t = (env ^^ n) s)"
    and eq: "(if stop s then Some s else f stop env (env s)) = Some t"
  show "stop t \<and> (\<exists>n. t = (env ^^ n) s)"
  proof (cases "stop s")
    case True
    with eq have "t = (env ^^ 0) s \<and> stop t" by simp
    then show ?thesis by blast
  next
    case False
    with eq have "f stop env (env s) = Some t" by simp
    with IH obtain n where "stop t" and "t = (env ^^ n) (env s)" by blast
    then have "t = (env ^^ Suc n) s" by (metis comp_apply funpow_Suc_right)
    with \<open>stop t\<close> show ?thesis by blast
  qed
qed

theorem wait_until_returns_iff:
  "(\<exists>t. wait_until stop env s = Some t) \<longleftrightarrow> (\<exists>n. stop ((env ^^ n) s))"
proof
  assume "\<exists>t. wait_until stop env s = Some t"
  then show "\<exists>n. stop ((env ^^ n) s)"
    by (metis wait_until_result)
next
  assume ex: "\<exists>n. stop ((env ^^ n) s)"
  define n where "n = (LEAST n. stop ((env ^^ n) s))"
  have "stop ((env ^^ n) s)"
    unfolding n_def using ex by (rule LeastI_ex)
  moreover have "\<forall>k < n. \<not> stop ((env ^^ k) s)"
    unfolding n_def by (blast dest: not_less_Least)
  ultimately have "wait_until stop env s = Some ((env ^^ n) s)"
    by (intro wait_until_after)
  then show "\<exists>t. wait_until stop env s = Some t" by blast
qed

text \<open>An invariant that the environment keeps holds when the loop is left.\<close>

lemma wait_until_invariant:
  assumes "wait_until stop env s = Some t" and "P s" and "\<And>s. P s \<Longrightarrow> P (env s)"
  shows "P t \<and> stop t"
proof -
  from wait_until_result [OF assms(1)] obtain n where t: "t = (env ^^ n) s" and "stop t"
    by blast
  have "P ((env ^^ n) s)"
    by (induction n) (simp_all add: assms(2,3))
  with t \<open>stop t\<close> show ?thesis by simp
qed

section \<open>Counted loops\<close>

text \<open>\<open>for(i = 0; i < n; i++) s = body(i, s)\<close>.\<close>

primrec for_upto :: "nat \<Rightarrow> (nat \<Rightarrow> 's \<Rightarrow> 's) \<Rightarrow> 's \<Rightarrow> 's" where
  "for_upto 0 body s = s"
| "for_upto (Suc n) body s = body n (for_upto n body s)"

lemma for_upto_numeral [loop_simps]:
  "for_upto (numeral k) body s = body (pred_numeral k) (for_upto (pred_numeral k) body s)"
  by (simp add: numeral_eq_Suc)

lemma for_upto_invariant:
  "P 0 s \<Longrightarrow> (\<And>i s. i < n \<Longrightarrow> P i s \<Longrightarrow> P (Suc i) (body i s)) \<Longrightarrow> P n (for_upto n body s)"
  by (induction n) auto

lemma for_upto_list_update:
  assumes "n \<le> length xs"
  shows "for_upto n (\<lambda>i ys. ys[i := f i]) xs = map f [0..<n] @ drop n xs"
  using assms
proof (induction n)
  case 0
  then show ?case by simp
next
  case (Suc n)
  then have "for_upto n (\<lambda>i ys. ys[i := f i]) xs = map f [0..<n] @ drop n xs" by simp
  moreover have "drop n xs = xs ! n # drop (Suc n) xs"
    using Suc.prems by (simp add: Cons_nth_drop_Suc)
  ultimately show ?case
    by (simp add: list_update_append)
qed

end
