(* ===== verification/Crc16.thy ===== *)
theory Crc16
  imports Prelude
begin

unbundle bit_operations_syntax

text \<open>
  \<open>util/crc16.h\<close> and \<open>util/word.h\<close> (the same text under \<open>ModbusMeter\<close> and \<open>ModbusFlow\<close>):
  the Modbus CRC-16 update and the word splitters. The theorems give what a receiver needs from
  the checksum: a frame followed by its own CRC leaves the register at 0, and any change confined
  to two adjacent bytes changes the CRC.
\<close>

section \<open>The code\<close>

text \<open>One turn of the \<open>for\<close> loop of \<open>crc16_update\<close>.\<close>

definition crc16_shift :: "u16 \<Rightarrow> u16" where
  "crc16_shift crc =
     (if crc AND 1 \<noteq> 0 then drop_bit 1 crc XOR 0xA001 else drop_bit 1 crc)"

definition crc16_update :: "u16 \<Rightarrow> u8 \<Rightarrow> u16" where
  "crc16_update crc a = for_upto 8 (\<lambda>i. crc16_shift) (crc XOR ucast a)"

definition lowWord :: "u32 \<Rightarrow> u16" where
  "lowWord ww = ucast (ww AND 0xFFFF)"

definition highWord :: "u32 \<Rightarrow> u16" where
  "highWord ww = ucast (drop_bit 16 ww)"

text \<open>The loop \<open>for (i = 0; i < n; i++) u16CRC = crc16_update(u16CRC, adu[i])\<close>.\<close>

definition crc16_bytes :: "u16 \<Rightarrow> u8 list \<Rightarrow> u16" where
  "crc16_bytes = foldl crc16_update"

section \<open>The shift step is linear and injective\<close>

lemma bit_crc16_poly: "bit (0xA001 :: u16) n \<longleftrightarrow> n = 0 \<or> n = 13 \<or> n = 15"
proof (cases "n < 16")
  case True
  then have "n \<in> set [0..<16]" by simp
  then show ?thesis
    by (simp add: upt_rec del: set_upt) (elim disjE; simp)
next
  case False
  then have "\<not> bit (0xA001 :: u16) n"
    by (auto dest: bit_imp_le_length)
  with False show ?thesis by auto
qed

lemma and_one_word_iff: "w AND 1 \<noteq> 0 \<longleftrightarrow> bit w 0" for w :: "'a::len word"
  by (simp add: bit_0 and_one_eq odd_iff_mod_2_eq_one)

lemma bit_crc16_shift:
  "bit (crc16_shift c) n \<longleftrightarrow> bit c (Suc n) \<noteq> (bit c 0 \<and> (n = 0 \<or> n = 13 \<or> n = 15))"
  unfolding crc16_shift_def
  by (cases "bit c 0")
     (simp_all only: and_one_word_iff bit_drop_bit_eq bit_xor_iff bit_crc16_poly if_True if_False
        simp_thms plus_1_eq_Suc comp_apply)

lemma crc16_shift_xor: "crc16_shift (a XOR b) = crc16_shift a XOR crc16_shift b"
  by (rule bit_word_eqI) (auto simp: bit_crc16_shift bit_xor_iff)

lemma crc16_shift_0 [simp]: "crc16_shift 0 = 0"
  by (simp add: crc16_shift_def)

lemma crc16_shift_eq_0: "crc16_shift a = 0 \<Longrightarrow> a = 0"
proof -
  assume z: "crc16_shift a = 0"
  have top: "\<not> bit a 16"
    by (auto dest: bit_imp_le_length)
  have b0: "\<not> bit a 0"
  proof
    assume "bit a 0"
    then have "bit (crc16_shift a) 15"
      using top by (simp add: bit_crc16_shift)
    with z show False by simp
  qed
  show "a = 0"
  proof (rule bit_word_eqI)
    fix n
    show "bit a n \<longleftrightarrow> bit (0 :: u16) n"
    proof (cases n)
      case 0
      with b0 show ?thesis by simp
    next
      case (Suc m)
      have "\<not> bit (crc16_shift a) m" by (simp add: z)
      with b0 Suc show ?thesis by (simp add: bit_crc16_shift)
    qed
  qed
qed


definition crc16_shifts :: "nat \<Rightarrow> u16 \<Rightarrow> u16" where
  "crc16_shifts n c = (crc16_shift ^^ n) c"

lemma for_upto_crc16_shift: "for_upto n (\<lambda>i. crc16_shift) c = crc16_shifts n c"
  by (induction n) (simp_all add: crc16_shifts_def)

lemma crc16_shifts_xor: "crc16_shifts n (a XOR b) = crc16_shifts n a XOR crc16_shifts n b"
  by (induction n) (simp_all add: crc16_shifts_def crc16_shift_xor)

lemma crc16_shifts_eq_0: "crc16_shifts n a = 0 \<Longrightarrow> a = 0"
  by (induction n) (auto simp: crc16_shifts_def dest: crc16_shift_eq_0)

lemma crc16_shifts_add: "crc16_shifts m (crc16_shifts n a) = crc16_shifts (m + n) a"
  by (simp add: crc16_shifts_def funpow_add)

lemma crc16_shifts_inj: "crc16_shifts n a = crc16_shifts n b \<longleftrightarrow> a = b"
proof
  assume "crc16_shifts n a = crc16_shifts n b"
  then have "crc16_shifts n (a XOR b) = 0" by (simp add: crc16_shifts_xor)
  then have "a XOR b = 0" by (rule crc16_shifts_eq_0)
  then show "a = b" by (simp add: bit_eq_iff bit_xor_iff)
qed simp

lemma crc16_shifts_0 [simp]: "crc16_shifts n 0 = 0"
  by (induction n) (simp_all add: crc16_shifts_def)

lemma crc16_update_eq: "crc16_update c a = crc16_shifts 8 (c XOR ucast a)"
  by (simp add: crc16_update_def for_upto_crc16_shift)

text \<open>While the low bits are 0 the shift step is a plain shift.\<close>

lemma crc16_shifts_plain:
  "(\<forall>k < n. \<not> bit a k) \<Longrightarrow> crc16_shifts n a = drop_bit n a"
proof (induction n)
  case 0
  then show ?case by (simp add: crc16_shifts_def)
next
  case (Suc n)
  then have "crc16_shifts n a = drop_bit n a" and "\<not> bit a n" by auto
  then show ?case
    by (intro bit_word_eqI) (simp add: crc16_shifts_def bit_crc16_shift bit_drop_bit_eq)
qed

lemma crc16_shifts_push:
  "crc16_shifts 8 (push_bit 8 (ucast (b :: u8))) = ucast b"
proof -
  have "crc16_shifts 8 (push_bit 8 (ucast b)) = drop_bit 8 (push_bit 8 (ucast b) :: u16)"
    by (intro crc16_shifts_plain) (auto simp: bit_simps)
  also have "\<dots> = ucast b"
    by (rule bit_word_eqI) (auto simp: bit_simps dest: bit_imp_le_length)
  finally show ?thesis .
qed

section \<open>What the checksum gives a receiver\<close>

lemma crc16_bytes_Nil [simp]: "crc16_bytes c [] = c"
  by (simp add: crc16_bytes_def)

lemma crc16_bytes_Cons [simp]: "crc16_bytes c (b # bs) = crc16_bytes (crc16_update c b) bs"
  by (simp add: crc16_bytes_def)

lemma crc16_bytes_append: "crc16_bytes c (bs @ cs) = crc16_bytes (crc16_bytes c bs) cs"
  by (simp add: crc16_bytes_def)

text \<open>Two bytes act as one 16-bit value: the register takes both in before the 16 shifts.\<close>

lemma crc16_two_bytes:
  "crc16_update (crc16_update c a) b = crc16_shifts 16 (c XOR makeWord b a)"
proof -
  have split: "c XOR makeWord b a = (c XOR ucast a) XOR push_bit 8 (ucast b)"
    by (rule bit_word_eqI) (auto simp: bit_makeWord bit_simps not_less dest: bit_imp_le_length)
  have "crc16_shifts 16 (c XOR makeWord b a)
      = crc16_shifts 8 (crc16_shifts 8 (c XOR ucast a) XOR ucast b)"
    by (simp add: split crc16_shifts_add [of 8 8, symmetric, simplified] crc16_shifts_xor
        crc16_shifts_push)
  then show ?thesis by (simp add: crc16_update_eq)
qed

lemma crc16_residue: "crc16_update (crc16_update c (lowByte c)) (highByte c) = 0"
  by (simp add: crc16_two_bytes makeWord_high_low crc16_shifts_0)

text \<open>
  A message followed by its CRC, low byte first as \<open>masterTransaction\<close> sends it, has CRC 0.
\<close>

theorem crc16_frame_residue:
  "crc16_bytes init (msg @ [lowByte (crc16_bytes init msg), highByte (crc16_bytes init msg)]) = 0"
  by (simp add: crc16_bytes_append crc16_residue)

lemma xor_right_cancel: "a XOR c = b XOR c \<longleftrightarrow> a = b" for a b :: "'a::len word"
proof
  assume "a XOR c = b XOR c"
  then have "(a XOR c) XOR c = (b XOR c) XOR c" by simp
  then show "a = b" by (simp add: xor.assoc)
qed simp

lemma xor_left_cancel: "c XOR a = c XOR b \<longleftrightarrow> a = b" for a b :: "'a::len word"
  using xor_right_cancel [of a c b] by (simp add: xor.commute)

lemma crc16_update_inj: "crc16_update c a = crc16_update d a \<longleftrightarrow> c = d"
  by (simp add: crc16_update_eq crc16_shifts_inj xor_right_cancel)

lemma ucast_u8_u16_inj: "(ucast a :: u16) = ucast b \<longleftrightarrow> a = b" for a b :: u8
proof
  assume "(ucast a :: u16) = ucast b"
  then have "lowByte (ucast a) = lowByte (ucast b)" by simp
  moreover have "lowByte (ucast c) = c" for c :: u8
    by (rule bit_word_eqI) (auto simp: bit_lowByte bit_simps)
  ultimately show "a = b" by simp
qed simp

lemma crc16_update_inj_byte: "crc16_update c a = crc16_update c b \<longleftrightarrow> a = b"
  by (simp only: crc16_update_eq crc16_shifts_inj xor_left_cancel ucast_u8_u16_inj)

lemma crc16_bytes_inj: "crc16_bytes c bs = crc16_bytes d bs \<longleftrightarrow> c = d"
  by (induction bs arbitrary: c d) (simp_all add: crc16_update_inj)

lemma crc16_two_bytes_inj:
  "crc16_update (crc16_update c a) b = crc16_update (crc16_update c a') b' \<longleftrightarrow> a = a' \<and> b = b'"
  by (simp add: crc16_two_bytes crc16_shifts_inj xor_left_cancel)
     (metis lowByte_makeWord highByte_makeWord)

lemma crc16_bytes_burst:
  assumes "length old = length new" and "length old \<le> 2"
    and "crc16_bytes init (pre @ old @ post) = crc16_bytes init (pre @ new @ post)"
  shows "old = new"
proof -
  let ?c = "crc16_bytes init pre"
  from assms(3) have same: "crc16_bytes ?c old = crc16_bytes ?c new"
    by (simp add: crc16_bytes_append crc16_bytes_inj)
  consider "old = []" "new = []" | a b where "old = [a]" "new = [b]"
    | a a' b b' where "old = [a, a']" "new = [b, b']"
    using assms(1,2) by (cases old rule: remdups_adj.cases; cases new rule: remdups_adj.cases) auto
  then show ?thesis
    by cases (use same in \<open>simp_all add: crc16_update_inj_byte crc16_two_bytes_inj\<close>)
qed

text \<open>
  Two messages of one length that differ in at most two adjacent bytes have different CRCs, from
  any initial value: every error burst confined to two bytes is seen.
\<close>

theorem crc16_detects_burst:
  assumes "length old = length new" and "length old \<le> 2"
    and "crc16_bytes init (pre @ old @ post) = crc16_bytes init (pre @ new @ post)"
  shows "old = new"
  using assms by (rule crc16_bytes_burst)

lemma crc16_detects_burst_witness:
  "crc16_bytes 0xFFFF ([1, 3] @ [2, 4] @ [0]) \<noteq> crc16_bytes 0xFFFF ([1, 3] @ [2, 5] @ [0])"
  using crc16_detects_burst [of "[2, 4]" "[2, 5]" "0xFFFF" "[1, 3]" "[0]"] by auto

end
