(* ===== verification/Modbus.thy ===== *)
theory Modbus
  imports Crc16
begin

unbundle bit_operations_syntax

text \<open>
  The Modbus RTU master of \<open>ModbusMeter.cpp\<close> (\<open>ModbusFlow.cpp\<close> holds the same text):
  \<open>masterTransaction\<close> builds the request, drives the RS-485 direction callbacks, collects the
  response byte by byte into a 256-byte local array indexed by a \<open>uint8_t\<close>, checks slave,
  function and CRC, and unpacks the registers into the response buffer.

  The UART driver (\<open>uart_write_bytes\<close>, \<open>uart_read_bytes\<close>), the clock and the stack are the
  environment: a run is given the outcome of every read together with the \<open>millis()\<close> value read
  after it, the start time of every transaction and the contents of its uninitialised array.
  \<open>None\<close> is a transaction still waiting when the given outcomes are used up.
\<close>

section \<open>State and environment\<close>

record modbus =
  responseBuffer :: "u16 list"   \<comment> \<open>\<open>_u16ResponseBuffer\<close>, 128 words\<close>
  preSet :: bool                 \<comment> \<open>\<open>_preTransmission\<close> is not null\<close>
  postSet :: bool
  debugSet :: bool

text \<open>What \<open>uart_read_bytes(\<dots>, 1, 1000)\<close> did: one byte (1), nothing in time (0), an error (-1).\<close>

datatype rx = RxByte u8 | RxNone | RxFail

datatype bus_out = PreTransmission | PostTransmission | TxByte u8 | DebugByte u8 | Delay nat

record bus =
  calls :: "(u32 \<times> (nat \<Rightarrow> u8)) list"  \<comment> \<open>start time and stack contents of each transaction\<close>
  reads :: "(rx \<times> u32) list"            \<comment> \<open>outcome of each read, and the clock after it\<close>
  outs :: "bus_out list"                \<comment> \<open>what was done on the bus so far\<close>

abbreviation (input) ku8MBSuccess :: u8 where "ku8MBSuccess \<equiv> 0x00"
abbreviation (input) ku8MBInvalidSlaveID :: u8 where "ku8MBInvalidSlaveID \<equiv> 0xE0"
abbreviation (input) ku8MBInvalidFunction :: u8 where "ku8MBInvalidFunction \<equiv> 0xE1"
abbreviation (input) ku8MBResponseTimedOut :: u8 where "ku8MBResponseTimedOut \<equiv> 0xE2"
abbreviation (input) ku8MBInvalidCRC :: u8 where "ku8MBInvalidCRC \<equiv> 0xE3"

abbreviation (input) ku8MBReadCoils :: u8 where "ku8MBReadCoils \<equiv> 0x01"
abbreviation (input) ku8MBReadDiscreteInputs :: u8 where "ku8MBReadDiscreteInputs \<equiv> 0x02"
abbreviation (input) ku8MBReadHoldingRegisters :: u8 where "ku8MBReadHoldingRegisters \<equiv> 0x03"
abbreviation (input) ku8MBReadInputRegisters :: u8 where "ku8MBReadInputRegisters \<equiv> 0x04"
abbreviation (input) ku8MBWriteSingleCoil :: u8 where "ku8MBWriteSingleCoil \<equiv> 0x05"
abbreviation (input) ku8MBWriteSingleRegister :: u8 where "ku8MBWriteSingleRegister \<equiv> 0x06"
abbreviation (input) ku8MBWriteMultipleCoils :: u8 where "ku8MBWriteMultipleCoils \<equiv> 0x0F"
abbreviation (input) ku8MBWriteMultipleRegisters :: u8 where "ku8MBWriteMultipleRegisters \<equiv> 0x10"
abbreviation (input) ku8MBMaskWriteRegister :: u8 where "ku8MBMaskWriteRegister \<equiv> 0x16"
abbreviation (input) ku8MBReadWriteMultipleRegisters :: u8 where "ku8MBReadWriteMultipleRegisters \<equiv> 0x17"
abbreviation (input) ku8MaxBufferSize :: nat where "ku8MaxBufferSize \<equiv> 128"
abbreviation (input) ku16MBResponseTimeout :: u32 where "ku16MBResponseTimeout \<equiv> 500"

definition getResponseBuffer :: "modbus \<Rightarrow> u8 \<Rightarrow> u16" where
  "getResponseBuffer m i =
     (if unat i < ku8MaxBufferSize then responseBuffer m ! unat i else 0xFFFF)"

text \<open>
  The constructor and the setters. The constructor leaves the buffer and \<open>_debug\<close> as the memory
  was; \<open>begin\<close> leaves the callbacks alone (its greeting on the debug stream is not modelled).
\<close>

definition modbus_new :: "modbus \<Rightarrow> modbus" where
  "modbus_new mem = mem\<lparr>preSet := False, postSet := False\<rparr>"

definition begin_serial :: "modbus \<Rightarrow> modbus" where
  "begin_serial m = m"

definition begin_debug :: "modbus \<Rightarrow> modbus" where
  "begin_debug m = m\<lparr>debugSet := True\<rparr>"

definition set_preTransmission :: "bool \<Rightarrow> modbus \<Rightarrow> modbus" where
  "set_preTransmission f m = m\<lparr>preSet := f\<rparr>"

definition set_postTransmission :: "bool \<Rightarrow> modbus \<Rightarrow> modbus" where
  "set_postTransmission f m = m\<lparr>postSet := f\<rparr>"

section \<open>The request\<close>

definition request_frame :: "u8 \<Rightarrow> u16 \<Rightarrow> u16 \<Rightarrow> u8 \<Rightarrow> u8 list" where
  "request_frame slave startAddress readQty fnRead =
     (let body = [slave, fnRead, highByte startAddress, lowByte startAddress,
                  highByte readQty, lowByte readQty];
          u16CRC = crc16_bytes 0xFFFF body
      in body @ [lowByte u16CRC, highByte u16CRC])"

text \<open>The bytes go out between the two direction callbacks, each echoed on the debug stream.\<close>

definition transmit :: "modbus \<Rightarrow> u8 list \<Rightarrow> bus_out list" where
  "transmit m bs =
     (if preSet m then [PreTransmission] else []) @
     concat (map (\<lambda>b. if debugSet m then [TxByte b, DebugByte b] else [TxByte b]) bs) @
     (if postSet m then [Delay 10, PostTransmission] else [])"

section \<open>Receiving\<close>

record rx_state =
  adu :: "u8 list"     \<comment> \<open>\<open>u8ModbusADU[256]\<close>\<close>
  aduSize :: u8        \<comment> \<open>\<open>u8ModbusADUSize\<close>, also the next index\<close>
  bytesLeft :: u8
  mbStatus :: u8

text \<open>
  \<open>if(uart_read_bytes(UART_NUM_2, &u8ModbusADU[u8ModbusADUSize++], 1, 1000)) u8BytesLeft--;\<close>
  The index advances whether or not a byte came; an error return counts as a byte.
\<close>

definition rx_read :: "rx \<Rightarrow> rx_state \<Rightarrow> rx_state" where
  "rx_read r s =
     (case r of
        RxByte b \<Rightarrow> s\<lparr>adu := (adu s)[unat (aduSize s) := b], aduSize := aduSize s + 1,
                      bytesLeft := bytesLeft s - 1\<rparr>
      | RxNone \<Rightarrow> s\<lparr>aduSize := aduSize s + 1\<rparr>
      | RxFail \<Rightarrow> s\<lparr>aduSize := aduSize s + 1, bytesLeft := bytesLeft s - 1\<rparr>)"

text \<open>The checks made when five bytes are in; the flag is \<open>break\<close>.\<close>

definition rx_inspect :: "u8 \<Rightarrow> u8 \<Rightarrow> rx_state \<Rightarrow> rx_state \<times> bool" where
  "rx_inspect slave fnRead s =
     (if aduSize s = 5 then
        if adu s ! 0 \<noteq> slave then (s\<lparr>mbStatus := ku8MBInvalidSlaveID\<rparr>, True)
        else if adu s ! 1 AND 0x7F \<noteq> fnRead then (s\<lparr>mbStatus := ku8MBInvalidFunction\<rparr>, True)
        else if bit (adu s ! 1) 7 then (s\<lparr>mbStatus := adu s ! 2\<rparr>, True)
        else if adu s ! 1 \<in> {ku8MBReadCoils, ku8MBReadDiscreteInputs, ku8MBReadInputRegisters,
                              ku8MBReadHoldingRegisters, ku8MBReadWriteMultipleRegisters}
          then (s\<lparr>bytesLeft := adu s ! 2\<rparr>, False)
        else if adu s ! 1 \<in> {ku8MBWriteSingleCoil, ku8MBWriteMultipleCoils,
                              ku8MBWriteSingleRegister, ku8MBWriteMultipleRegisters}
          then (s\<lparr>bytesLeft := 3\<rparr>, False)
        else if adu s ! 1 = ku8MBMaskWriteRegister then (s\<lparr>bytesLeft := 5\<rparr>, False)
        else (s, False)
      else (s, False))"

definition rx_timeout :: "u32 \<Rightarrow> u32 \<Rightarrow> rx_state \<Rightarrow> rx_state" where
  "rx_timeout start now s =
     (if now - start > ku16MBResponseTimeout then s\<lparr>mbStatus := ku8MBResponseTimedOut\<rparr> else s)"

definition rx_stop :: "rx_state \<Rightarrow> bool" where
  "rx_stop s \<longleftrightarrow> bytesLeft s = 0 \<or> mbStatus s \<noteq> 0"

text \<open>\<open>while (u8BytesLeft && !u8MBStatus)\<close>; the second component is what is left unread.\<close>

fun rx_loop :: "u8 \<Rightarrow> u8 \<Rightarrow> u32 \<Rightarrow> (rx \<times> u32) list \<Rightarrow> rx_state \<Rightarrow>
    (rx_state \<times> (rx \<times> u32) list) option" where
  "rx_loop slave fnRead start [] s = (if rx_stop s then Some (s, []) else None)"
| "rx_loop slave fnRead start ((r, now) # evs) s =
     (if rx_stop s then Some (s, (r, now) # evs)
      else let (s', brk) = rx_inspect slave fnRead (rx_read r s)
           in if brk then Some (s', evs)
              else rx_loop slave fnRead start evs (rx_timeout start now s'))"

definition rx_check_crc :: "rx_state \<Rightarrow> rx_state" where
  "rx_check_crc s =
     (if mbStatus s = 0 \<and> 5 \<le> aduSize s then
        let n = unat (aduSize s); u16CRC = crc16_bytes 0xFFFF (take (n - 2) (adu s))
        in if lowByte u16CRC \<noteq> adu s ! (n - 2) \<or> highByte u16CRC \<noteq> adu s ! (n - 1)
           then s\<lparr>mbStatus := ku8MBInvalidCRC\<rparr> else s
      else s)"

text \<open>
  Reading \<open>u8ModbusADU[n]\<close>: the array has 256 bytes, what lies behind it is whatever the stack
  holds there.
\<close>

definition adu_read :: "(nat \<Rightarrow> u8) \<Rightarrow> u8 list \<Rightarrow> nat \<Rightarrow> u8" where
  "adu_read stack a n = (if n < 256 then a ! n else stack n)"

definition unpack :: "(nat \<Rightarrow> u8) \<Rightarrow> rx_state \<Rightarrow> u16 list \<Rightarrow> u16 list" where
  "unpack stack s buf =
     (let a = adu_read stack (adu s); half = unat (drop_bit 1 (a 2))
      in if a 1 \<in> {ku8MBReadCoils, ku8MBReadDiscreteInputs} then
           let buf' = for_upto half (\<lambda>i b. if i < ku8MaxBufferSize
                        then b[i := makeWord (a (2 * i + 4)) (a (2 * i + 3))] else b) buf
           in if unat (a 2) mod 2 \<noteq> 0 then
                if half < ku8MaxBufferSize then buf'[half := makeWord 0 (a (2 * half + 3))] else buf'
              else buf'
         else if a 1 \<in> {ku8MBReadInputRegisters, ku8MBReadHoldingRegisters,
                         ku8MBReadWriteMultipleRegisters} then
           for_upto half (\<lambda>i b. if i < ku8MaxBufferSize
             then b[i := makeWord (a (2 * i + 3)) (a (2 * i + 4))] else b) buf
         else buf)"

section \<open>The transaction\<close>

definition rx_start :: "(nat \<Rightarrow> u8) \<Rightarrow> u8 list \<Rightarrow> rx_state" where
  "rx_start stack frame =
     \<lparr>adu = store (map stack [0..<256]) 0 (frame @ [0]), aduSize = 0, bytesLeft = 8,
      mbStatus = ku8MBSuccess\<rparr>"

definition masterTransaction ::
    "u8 \<Rightarrow> u16 \<Rightarrow> u16 \<Rightarrow> u8 \<Rightarrow> modbus \<Rightarrow> bus \<Rightarrow> (u8 \<times> modbus \<times> bus) option" where
  "masterTransaction slave startAddress readQty fnRead m w =
     (case calls w of
        [] \<Rightarrow> None
      | (start, stack) # rest \<Rightarrow>
          let frame = request_frame slave startAddress readQty fnRead
          in case rx_loop slave fnRead start (reads w) (rx_start stack frame) of
               None \<Rightarrow> None
             | Some (s, evs) \<Rightarrow>
                 let s' = rx_check_crc s;
                     m' = (if mbStatus s' = 0
                           then m\<lparr>responseBuffer := unpack stack s' (responseBuffer m)\<rparr> else m)
                 in Some (mbStatus s', m',
                          w\<lparr>calls := rest, reads := evs, outs := outs w @ transmit m frame\<rparr>))"

end
