(* ===== verification/Transaction.thy ===== *)
theory Transaction
  imports Modbus
begin

unbundle bit_operations_syntax

text \<open>
  What \<open>masterTransaction\<close> guarantees: the result on every complete response to a read function,
  what an accepted response must have been, the responses accepted with no CRC check, and that a
  transaction ends on a bus whose reads time out.
\<close>

section \<open>Runs of the receive loop\<close>

definition bytes_at :: "(u8 \<times> u32) list \<Rightarrow> (rx \<times> u32) list" where
  "bytes_at = map (\<lambda>(b, t). (RxByte b, t))"

definition in_time :: "u32 \<Rightarrow> (u8 \<times> u32) list \<Rightarrow> bool" where
  "in_time start bts \<longleftrightarrow> (\<forall>(b, t) \<in> set bts. t - start \<le> ku16MBResponseTimeout)"

text \<open>The array after the bytes went in at consecutive \<open>uint8_t\<close> indices.\<close>

primrec adu_fill :: "u8 list \<Rightarrow> u8 \<Rightarrow> u8 list \<Rightarrow> u8 list" where
  "adu_fill a k [] = a"
| "adu_fill a k (b # bs) = adu_fill (a[unat k := b]) (k + 1) bs"

lemma length_adu_fill [simp]: "length (adu_fill a k bs) = length a"
  by (induction bs arbitrary: a k) simp_all

lemma bytes_at_simps [simp]:
  "bytes_at [] = []" "bytes_at ((b, t) # bts) = (RxByte b, t) # bytes_at bts"
  by (simp_all add: bytes_at_def)

lemma in_time_simps [simp]:
  "in_time start []"
  "in_time start ((b, t) # bts) \<longleftrightarrow> t - start \<le> ku16MBResponseTimeout \<and> in_time start bts"
  by (auto simp: in_time_def)

lemma in_time_append [simp]: "in_time start (xs @ ys) \<longleftrightarrow> in_time start xs \<and> in_time start ys"
  by (auto simp: in_time_def)

lemma bytes_at_append [simp]: "bytes_at (xs @ ys) = bytes_at xs @ bytes_at ys"
  by (simp add: bytes_at_def)

lemma rx_inspect_early [simp]: "aduSize s \<noteq> 5 \<Longrightarrow> rx_inspect slave fn s = (s, False)"
  by (simp add: rx_inspect_def)

lemma rx_timeout_simps [simp]:
  "t - start \<le> ku16MBResponseTimeout \<Longrightarrow> rx_timeout start t s = s"
  by (simp add: rx_timeout_def)

text \<open>
  Bytes that arrive in time and do not make the index 5 just fill the array.
\<close>

definition rx_filled :: "rx_state \<Rightarrow> u8 list \<Rightarrow> rx_state" where
  "rx_filled s bs = s\<lparr>adu := adu_fill (adu s) (aduSize s) bs,
     aduSize := aduSize s + of_nat (length bs), bytesLeft := bytesLeft s - of_nat (length bs)\<rparr>"

lemma rx_filled_Nil [simp]: "rx_filled s [] = s"
  by (simp add: rx_filled_def)

lemma rx_filled_Cons: "rx_filled s (b # bs) = rx_filled (rx_read (RxByte b) s) bs"
  by (simp add: rx_filled_def rx_read_def algebra_simps)

definition misses_five :: "u8 \<Rightarrow> nat \<Rightarrow> bool" where
  "misses_five k n \<longleftrightarrow> (\<forall>j < n. k + of_nat (Suc j) \<noteq> 5)"

lemma misses_five_Suc:
  "misses_five k (Suc n) \<longleftrightarrow> k + 1 \<noteq> 5 \<and> misses_five (k + 1) n"
  unfolding misses_five_def
  by (simp add: All_less_Suc2 add.assoc)

lemma rx_loop_fill:
  assumes "misses_five (aduSize s) (length bts)" and "length bts \<le> unat (bytesLeft s)"
    and "mbStatus s = 0" and "in_time start bts"
  shows "rx_loop slave fn start (bytes_at bts @ evs) s
       = rx_loop slave fn start evs (rx_filled s (map fst bts))"
  using assms
proof (induction bts arbitrary: s)
  case Nil
  then show ?case by simp
next
  case (Cons bt bts)
  obtain b t where bt: "bt = (b, t)" by (cases bt)
  let ?s = "rx_read (RxByte b) s"
  have pos: "0 < unat (bytesLeft s)" using Cons.prems(2) by simp
  then have go: "\<not> rx_stop s"
    using Cons.prems(3) by (auto simp: rx_stop_def)
  have left: "unat (bytesLeft ?s) = unat (bytesLeft s) - 1"
    using pos by (subst unat_minus_one [symmetric]) (auto simp: rx_read_def)
  have "rx_loop slave fn start (bytes_at bts @ evs) ?s
      = rx_loop slave fn start evs (rx_filled ?s (map fst bts))"
  proof (rule Cons.IH)
    show "misses_five (aduSize ?s) (length bts)"
      using Cons.prems(1) by (simp add: misses_five_Suc rx_read_def)
    show "length bts \<le> unat (bytesLeft ?s)"
      using Cons.prems(2) left by simp
    show "mbStatus ?s = 0" using Cons.prems(3) by (simp add: rx_read_def)
    show "in_time start bts" using Cons.prems(4) bt by simp
  qed
  moreover have "aduSize ?s \<noteq> 5"
    using Cons.prems(1) by (simp add: misses_five_Suc rx_read_def)
  ultimately show ?case
    using go Cons.prems(4) bt by (simp add: rx_filled_Cons)
qed


lemma rx_loop_stop [simp]: "rx_stop s \<Longrightarrow> rx_loop slave fn start evs s = Some (s, evs)"
  by (cases evs) auto

text \<open>A run that ends without an error did not time out after any byte.\<close>

lemma rx_timeout_success:
  assumes "rx_loop slave fn start evs (rx_timeout start t s) = Some (s', rest)" and "mbStatus s' = 0"
  shows "rx_timeout start t s = s"
proof (rule ccontr)
  assume "rx_timeout start t s \<noteq> s"
  then have "mbStatus (rx_timeout start t s) = ku8MBResponseTimedOut"
    by (auto simp: rx_timeout_def split: if_splits)
  moreover from this have "rx_stop (rx_timeout start t s)" by (simp add: rx_stop_def)
  ultimately show False using assms by auto
qed

text \<open>A run of bytes that ends without an error has taken at least the bytes still missing.\<close>

lemma rx_loop_success_split:
  assumes "rx_loop slave fn start (bytes_at bts) s = Some (s', rest)" and "mbStatus s' = 0"
    and "mbStatus s = 0" and "misses_five (aduSize s) k" and "k \<le> unat (bytesLeft s)"
  shows "\<exists>xs ys. bts = xs @ ys \<and> length xs = k \<and>
           rx_loop slave fn start (bytes_at ys) (rx_filled s (map fst xs)) = Some (s', rest)"
  using assms
proof (induction k arbitrary: bts s)
  case 0
  then show ?case by (intro exI [of _ "[]"] exI [of _ bts]) simp
next
  case (Suc k)
  have left: "bytesLeft s \<noteq> 0" using Suc.prems(5) by auto
  then obtain b t bts' where bts: "bts = (b, t) # bts'"
    using Suc.prems(1,3) by (cases bts) (auto simp: rx_stop_def split: if_splits)
  let ?s = "rx_read (RxByte b) s"
  have miss: "aduSize ?s \<noteq> 5" "misses_five (aduSize ?s) k"
    using Suc.prems(4) by (simp_all add: misses_five_Suc rx_read_def)
  have step: "rx_loop slave fn start (bytes_at bts') (rx_timeout start t ?s) = Some (s', rest)"
    using Suc.prems(1,3) left miss(1) bts by (simp add: rx_stop_def)
  have k: "k \<le> unat (bytesLeft ?s)"
    using Suc.prems(5) left by (simp add: rx_read_def unat_minus_one)
  have "mbStatus ?s = 0" using Suc.prems(3) by (simp add: rx_read_def)
  moreover have "rx_loop slave fn start (bytes_at bts') ?s = Some (s', rest)"
    using step rx_timeout_success [OF step Suc.prems(2)] by simp
  ultimately obtain xs ys where "bts' = xs @ ys" "length xs = k"
      "rx_loop slave fn start (bytes_at ys) (rx_filled ?s (map fst xs)) = Some (s', rest)"
    using Suc.IH [of bts' ?s] Suc.prems(2) miss(2) k by auto
  then show ?case
    using bts by (intro exI [of _ "(b, t) # xs"] exI [of _ ys]) (simp add: rx_filled_Cons)
qed

lemma adu_fill_store:
  "unat k + length bs \<le> 256 \<Longrightarrow> unat k + length bs \<le> length a \<Longrightarrow>
   adu_fill a k bs = store a (unat k) bs"
proof (induction bs arbitrary: a k)
  case Nil
  then show ?case by (simp add: store_def)
next
  case (Cons b bs)
  show ?case
  proof (cases "bs = []")
    case True
    with Cons.prems show ?thesis by (simp add: store_def upd_conv_take_nth_drop)
  next
    case False
    then have "0 < length bs" by simp
    moreover have "unat k + Suc (length bs) \<le> 256" using Cons.prems(1) by simp
    ultimately have "unat k + 1 < 256" by linarith
    then have k: "unat (k + 1) = unat k + 1" by (simp add: unat_word_ariths)
    then have "adu_fill a k (b # bs) = store (a[unat k := b]) (unat k + 1) bs"
      using Cons.prems by (simp add: Cons.IH)
    also have "\<dots> = store a (unat k) (b # bs)"
      using Cons.prems
      by (intro nth_equalityI) (auto simp: nth_store nth_list_update nth_Cons')
    finally show ?thesis .
  qed
qed

lemma misses_five_from_five: "n \<le> 255 \<Longrightarrow> misses_five 5 n"
  unfolding misses_five_def
proof (intro allI impI notI)
  fix j
  assume n: "n \<le> 255" and j: "j < n" and "(5 :: u8) + of_nat (Suc j) = 5"
  then have "unat (of_nat (Suc j) :: u8) = 0" by (simp del: of_nat_Suc)
  then have "Suc j mod 256 = 0" by (simp add: unat_of_nat del: of_nat_Suc)
  with n j show False by (simp del: of_nat_Suc)
qed

lemma misses_five_0 [simp]: "misses_five k 0"
  by (simp add: misses_five_def)

lemma misses_five_start: "misses_five 0 (Suc (Suc (Suc (Suc 0))))"
  by (simp only: misses_five_Suc misses_five_0) simp

lemma lowByte_highByte_residue:
  "lowByte c = x \<and> highByte c = y \<longleftrightarrow> crc16_update (crc16_update c x) y = 0"
proof -
  have "crc16_update (crc16_update c x) y = 0 \<longleftrightarrow> c XOR makeWord y x = c XOR c"
    using crc16_shifts_inj [of 16 "c XOR makeWord y x" 0] by (simp add: crc16_two_bytes)
  also have "\<dots> \<longleftrightarrow> makeWord y x = c" by (simp only: xor_left_cancel)
  also have "\<dots> \<longleftrightarrow> lowByte c = x \<and> highByte c = y"
    by (metis makeWord_high_low lowByte_makeWord highByte_makeWord)
  finally show ?thesis by simp
qed


lemma adu_fill_append:
  "adu_fill a k (xs @ ys) = adu_fill (adu_fill a k xs) (k + of_nat (length xs)) ys"
  by (induction xs arbitrary: a k) (simp_all add: algebra_simps)

lemma rx_filled_append: "rx_filled s (xs @ ys) = rx_filled (rx_filled s xs) ys"
  by (simp add: rx_filled_def adu_fill_append algebra_simps)

abbreviation (input) read_functions :: "u8 set" where
  "read_functions \<equiv> {ku8MBReadCoils, ku8MBReadDiscreteInputs, ku8MBReadInputRegisters,
     ku8MBReadHoldingRegisters, ku8MBReadWriteMultipleRegisters}"

lemma length_request_frame [simp]: "length (request_frame slave addr qty fn) = 8"
  by (simp add: request_frame_def Let_def)

lemma rx_start_simps [simp]:
  "aduSize (rx_start stack frame) = 0" "bytesLeft (rx_start stack frame) = 8"
  "mbStatus (rx_start stack frame) = 0"
  by (simp_all add: rx_start_def)

lemma length_adu_rx_start [simp]:
  "length frame = 8 \<Longrightarrow> length (adu (rx_start stack frame)) = 256"
  by (simp add: rx_start_def)

lemma rx_inspect_read:
  assumes "aduSize s = 5" and "adu s ! 0 = slave" and "adu s ! 1 = fn" and "adu s ! 2 = n"
    and "fn \<in> read_functions"
  shows "rx_inspect slave fn s = (s\<lparr>bytesLeft := n\<rparr>, False)"
proof -
  have "bit fn 7 = False" "fn AND 0x7F = fn" using assms(5) by auto
  with assms show ?thesis by (auto simp: rx_inspect_def)
qed

text \<open>The first five bytes of a response to a read function.\<close>

lemma rx_loop_header:
  assumes "fn \<in> read_functions" and "length frame = 8"
    and "in_time start [(slave, t0), (fn, t1), (n, t2), (x, t3), (y, t4)]"
  shows "rx_loop slave fn start
           (bytes_at [(slave, t0), (fn, t1), (n, t2), (x, t3), (y, t4)] @ evs) (rx_start stack frame)
       = rx_loop slave fn start evs
           ((rx_filled (rx_start stack frame) [slave, fn, n, x, y])\<lparr>bytesLeft := n\<rparr>)"
proof -
  let ?s = "rx_start stack frame"
  let ?s4 = "rx_filled ?s [slave, fn, n, x]"
  let ?s5 = "rx_read (RxByte y) ?s4"
  have four: "rx_loop slave fn start
      (bytes_at [(slave, t0), (fn, t1), (n, t2), (x, t3)] @ (RxByte y, t4) # evs) ?s
    = rx_loop slave fn start ((RxByte y, t4) # evs) ?s4"
    using assms(3) misses_five_start
    by (subst rx_loop_fill) simp_all
  have s5: "?s5 = rx_filled ?s [slave, fn, n, x, y]"
    by (simp add: rx_filled_def rx_read_def)
  have a5: "adu ?s5 ! 0 = slave" "adu ?s5 ! 1 = fn" "adu ?s5 ! 2 = n"
    using assms(2) by (simp_all add: rx_filled_def rx_read_def)
  have "aduSize ?s5 = 5" by (simp add: rx_filled_def rx_read_def)
  then have inspect: "rx_inspect slave fn ?s5 = (?s5\<lparr>bytesLeft := n\<rparr>, False)"
    using a5 assms(1) by (rule rx_inspect_read)
  have "\<not> rx_stop ?s4" by (simp add: rx_stop_def rx_filled_def)
  then have "rx_loop slave fn start ((RxByte y, t4) # evs) ?s4
      = rx_loop slave fn start evs (?s5\<lparr>bytesLeft := n\<rparr>)"
    using assms(3) inspect by simp
  with four show ?thesis by (simp add: s5)
qed

lemma rx_loop_read_response:
  assumes "fn \<in> read_functions" and "length frame = 8" and "in_time start bts"
    and "map fst bts = slave # fn # n # payload" and "length payload = unat n + 2"
  shows "rx_loop slave fn start (bytes_at bts @ evs) (rx_start stack frame)
       = Some (\<lparr>adu = adu_fill (adu (rx_start stack frame)) 0 (map fst bts),
                aduSize = of_nat (unat n + 5), bytesLeft = 0, mbStatus = 0\<rparr>, evs)"
proof -
  let ?s = "rx_start stack frame"
  from assms(4,5) obtain t0 t1 t2 x t3 y t4 tail where
    bts: "bts = [(slave, t0), (fn, t1), (n, t2), (x, t3), (y, t4)] @ tail"
    and len: "length tail = unat n"
    by (auto simp: map_eq_Cons_conv length_Suc_conv)
  let ?s5 = "(rx_filled ?s [slave, fn, n, x, y])\<lparr>bytesLeft := n\<rparr>"
  have n: "unat n \<le> 255" using unsigned_less [of n, where ?'a = nat] by simp
  have "rx_loop slave fn start (bytes_at bts @ evs) ?s
      = rx_loop slave fn start (bytes_at tail @ evs) ?s5"
    using assms(1-3) bts rx_loop_header [of fn frame start slave t0 t1 n t2 x t3 y t4] by simp
  also have "\<dots> = rx_loop slave fn start evs (rx_filled ?s5 (map fst tail))"
    using assms(3) bts len n misses_five_from_five [OF n]
    by (intro rx_loop_fill) (simp_all add: rx_filled_def)
  also have "rx_filled ?s5 (map fst tail) =
      \<lparr>adu = adu_fill (adu ?s) 0 (map fst bts), aduSize = of_nat (unat n + 5), bytesLeft = 0,
       mbStatus = 0\<rparr>"
    using len by (simp add: rx_filled_def bts adu_fill_append [of _ _ "[slave, fn, n, x, y]", simplified])
  finally show ?thesis by (simp add: rx_stop_def)
qed


text \<open>The outcome of a transaction whose response came in whole.\<close>

definition received :: "(nat \<Rightarrow> u8) \<Rightarrow> u8 list \<Rightarrow> u8 list \<Rightarrow> u8 \<Rightarrow> rx_state" where
  "received stack frame bs n =
     \<lparr>adu = adu_fill (adu (rx_start stack frame)) 0 bs, aduSize = of_nat (unat n + 5),
      bytesLeft = 0, mbStatus = 0\<rparr>"

lemma split_last_two:
  assumes "2 \<le> length bs"
  obtains m x y where "bs = m @ [x, y]"
proof -
  obtain m' y where m': "bs = m' @ [y]" using assms by (cases bs rule: rev_cases) auto
  obtain m x where "m' = m @ [x]" using assms m' by (cases m' rule: rev_cases) auto
  with m' that show thesis by simp
qed

text \<open>The check on a filled array: it compares the last two bytes with the CRC of the others.\<close>

lemma rx_check_crc_filled:
  assumes "mbStatus s = 0" and "length a = 256"
    and "adu s = adu_fill a 0 bs" and "aduSize s = of_nat (length bs)" and "5 \<le> length bs"
    and "length bs \<le> 255"
  shows "rx_check_crc s = (if crc16_bytes 0xFFFF bs = 0 then s
           else s\<lparr>mbStatus := ku8MBInvalidCRC\<rparr>)"
proof -
  obtain m x y where bs: "bs = m @ [x, y]"
    using assms(5) by (elim split_last_two [rotated]) simp
  have a: "adu s = store a 0 bs" using assms(2,3,6) by (simp add: adu_fill_store)
  have "unat (aduSize s) = length bs" using assms(4,6) by (simp add: unat_of_nat)
  then have size: "unat (aduSize s) = length m + 2" using bs by simp
  then have "5 \<le> aduSize s" using assms(5) bs by (simp add: word_le_nat_alt)
  moreover have "take (length m) (adu s) = m" "adu s ! length m = x" "adu s ! (length m + 1) = y"
    using bs assms(2,6) unfolding a by (simp_all add: store_def nth_append)
  moreover have "lowByte (crc16_bytes 0xFFFF m) = x \<and> highByte (crc16_bytes 0xFFFF m) = y
      \<longleftrightarrow> crc16_bytes 0xFFFF bs = 0"
    by (simp add: lowByte_highByte_residue bs crc16_bytes_append)
  ultimately show ?thesis
    using assms(1) size by (auto simp: rx_check_crc_def Let_def)
qed

lemma rx_check_crc_received:
  assumes "length frame = 8" and "length bs = unat n + 5" and "unat n \<le> 250"
  shows "rx_check_crc (received stack frame bs n) =
    (if crc16_bytes 0xFFFF bs = 0 then received stack frame bs n
     else (received stack frame bs n)\<lparr>mbStatus := ku8MBInvalidCRC\<rparr>)"
  using assms
  by (intro rx_check_crc_filled [where a = "adu (rx_start stack frame)"])
    (simp_all add: received_def)

lemma masterTransaction_received:
  assumes "fn \<in> read_functions" and "calls w = (start, stack) # rest"
    and "reads w = bytes_at bts @ evs" and "in_time start bts"
    and "map fst bts = slave # fn # n # payload" and "length payload = unat n + 2"
  shows "masterTransaction slave addr qty fn m w =
    (let frame = request_frame slave addr qty fn;
         s = rx_check_crc (received stack frame (map fst bts) n);
         m' = (if mbStatus s = 0 then m\<lparr>responseBuffer := unpack stack s (responseBuffer m)\<rparr> else m)
     in Some (mbStatus s, m', w\<lparr>calls := rest, reads := evs, outs := outs w @ transmit m frame\<rparr>))"
proof -
  have "rx_loop slave fn start (reads w) (rx_start stack (request_frame slave addr qty fn))
      = Some (received stack (request_frame slave addr qty fn) (map fst bts) n, evs)"
    unfolding received_def assms(3)
    using assms by (intro rx_loop_read_response) simp_all
  then show ?thesis
    using assms(2) by (simp add: masterTransaction_def Let_def)
qed

lemma for_upto_update_guard:
  assumes "n \<le> length xs"
  shows "for_upto n (\<lambda>i ys. if i < length xs then ys[i := f i] else ys) xs = map f [0..<n] @ drop n xs"
proof -
  have "for_upto k (\<lambda>i ys. if i < length xs then ys[i := f i] else ys) xs
      = for_upto k (\<lambda>i ys. ys[i := f i]) xs" if "k \<le> n" for k
    using that assms by (induction k) auto
  then show ?thesis using for_upto_list_update [OF assms, of f] by simp
qed

text \<open>Register words of a payload, high byte first.\<close>

fun reg_words :: "u8 list \<Rightarrow> u16 list" where
  "reg_words (h # l # bs) = makeWord h l # reg_words bs"
| "reg_words _ = []"

lemma reg_words_nth:
  "reg_words bs = map (\<lambda>i. makeWord (bs ! (2 * i)) (bs ! (2 * i + 1))) [0..<length bs div 2]"
proof (induction bs rule: reg_words.induct)
  case (1 h l bs)
  have "[0..<Suc (length bs div 2)] = 0 # map Suc [0..<length bs div 2]"
    by (simp add: upt_conv_Cons map_Suc_upt)
  with 1 show ?case by simp
qed simp_all


text \<open>What is unpacked for a 16-bit read function, when the payload lies inside the array.\<close>

lemma unpack_received:
  assumes "fn \<in> {ku8MBReadInputRegisters, ku8MBReadHoldingRegisters, ku8MBReadWriteMultipleRegisters}"
    and "length frame = 8" and "bs = slave # fn # n # payload" and "length payload = unat n + 2"
    and "unat n \<le> 250" and "length buf = ku8MaxBufferSize"
  shows "unpack stack (received stack frame bs n) buf =
    reg_words (take (unat n) payload) @ drop (unat n div 2) buf"
proof -
  let ?a = "adu (received stack frame bs n)"
  have len: "length bs \<le> 256" using assms by simp
  have a: "?a = store (adu (rx_start stack frame)) 0 bs"
    using len assms(2) by (simp add: received_def adu_fill_store)
  have rd: "adu_read stack ?a k = bs ! k" if "k < length bs" for k
    using that len assms(2) by (simp add: adu_read_def a nth_store)
  have half: "unat (drop_bit 1 n) = unat n div 2"
    unfolding drop_bit_eq_div by (simp add: unat_div)
  have a1: "adu_read stack ?a 1 = fn" "adu_read stack ?a 2 = n"
    using rd [of 1] rd [of 2] assms(3) by simp_all
  have "unpack stack (received stack frame bs n) buf
      = for_upto (unat n div 2) (\<lambda>i b. if i < length buf
          then b[i := makeWord (adu_read stack ?a (2 * i + 3)) (adu_read stack ?a (2 * i + 4))] else b) buf"
    using assms(1,6) by (auto simp: unpack_def Let_def a1 half simp del: One_nat_def)
  also have "\<dots> = map (\<lambda>i. makeWord (adu_read stack ?a (2 * i + 3)) (adu_read stack ?a (2 * i + 4)))
      [0..<unat n div 2] @ drop (unat n div 2) buf"
    using assms(5,6) by (intro for_upto_update_guard) simp
  also have "map (\<lambda>i. makeWord (adu_read stack ?a (2 * i + 3)) (adu_read stack ?a (2 * i + 4)))
      [0..<unat n div 2] = reg_words (take (unat n) payload)"
    unfolding reg_words_nth
  proof (intro map_cong)
    show "[0..<unat n div 2] = [0..<length (take (unat n) payload) div 2]"
      using assms(4) by simp
    fix i
    assume "i \<in> set [0..<length (take (unat n) payload) div 2]"
    then have i: "2 * i + 1 < unat n" using assms(4) by auto
    then have "adu_read stack ?a (2 * i + 3) = payload ! (2 * i)"
      "adu_read stack ?a (2 * i + 4) = payload ! (2 * i + 1)"
      using rd [of "2 * i + 3"] rd [of "2 * i + 4"] assms(3,4)
      by (simp_all add: eval_nat_numeral)
    with i show "makeWord (adu_read stack ?a (2 * i + 3)) (adu_read stack ?a (2 * i + 4))
        = makeWord (take (unat n) payload ! (2 * i)) (take (unat n) payload ! (2 * i + 1))"
      by simp
  qed
  finally show ?thesis .
qed

lemma masterTransaction_response:
  assumes "fn \<in> {ku8MBReadInputRegisters, ku8MBReadHoldingRegisters, ku8MBReadWriteMultipleRegisters}"
    and "length (responseBuffer m) = ku8MaxBufferSize"
    and "calls w = (start, stack) # rest"
    and "reads w = bytes_at bts @ evs" and "in_time start bts"
    and "map fst bts = slave # fn # n # payload" and "length payload = unat n + 2"
    and "unat n \<le> 250"
  shows "masterTransaction slave addr qty fn m w =
    Some (if crc16_bytes 0xFFFF (map fst bts) = 0 then ku8MBSuccess else ku8MBInvalidCRC,
          if crc16_bytes 0xFFFF (map fst bts) = 0
          then m\<lparr>responseBuffer := reg_words (take (unat n) payload)
                                    @ drop (unat n div 2) (responseBuffer m)\<rparr>
          else m,
          w\<lparr>calls := rest, reads := evs,
            outs := outs w @ transmit m (request_frame slave addr qty fn)\<rparr>)"
proof -
  let ?s = "received stack (request_frame slave addr qty fn) (map fst bts) n"
  have "rx_check_crc ?s = (if crc16_bytes 0xFFFF (map fst bts) = 0 then ?s
        else ?s\<lparr>mbStatus := ku8MBInvalidCRC\<rparr>)"
    using assms by (intro rx_check_crc_received) simp_all
  moreover have "unpack stack ?s (responseBuffer m) =
      reg_words (take (unat n) payload) @ drop (unat n div 2) (responseBuffer m)"
    using assms by (intro unpack_received) simp_all
  ultimately show ?thesis
    using assms by (subst masterTransaction_received) (auto simp: Let_def received_def)
qed

text \<open>
  C12: A complete response to a register read, arrived in time: with a good CRC the status is
  success, the registers of the payload stand at the front of the response buffer and the rest of
  the buffer is unchanged; with a bad CRC the status is \<open>ku8MBInvalidCRC\<close> and the buffer is
  untouched. The bus carries the request frame, and exactly the response has been consumed.
\<close>

theorem masterTransaction_read_registers:
  assumes "fn \<in> {ku8MBReadInputRegisters, ku8MBReadHoldingRegisters, ku8MBReadWriteMultipleRegisters}"
    and "length (responseBuffer m) = ku8MaxBufferSize"
    and "calls w = (start, stack) # rest"
    and "reads w = bytes_at bts @ evs" and "in_time start bts"
    and "map fst bts = slave # fn # n # payload" and "length payload = unat n + 2"
    and "unat n \<le> 250"
  shows "masterTransaction slave addr qty fn m w =
    Some (if crc16_bytes 0xFFFF (map fst bts) = 0 then ku8MBSuccess else ku8MBInvalidCRC,
          if crc16_bytes 0xFFFF (map fst bts) = 0
          then m\<lparr>responseBuffer := reg_words (take (unat n) payload)
                                    @ drop (unat n div 2) (responseBuffer m)\<rparr>
          else m,
          w\<lparr>calls := rest, reads := evs,
            outs := outs w @ transmit m (request_frame slave addr qty fn)\<rparr>)"
  using assms by (rule masterTransaction_response)

text \<open>
  The byte count of a response is not compared with the quantity asked for: a well-formed empty
  response is a success that leaves the buffer as an earlier transaction filled it.
\<close>

theorem masterTransaction_accepts_empty_reply:
  assumes "fn \<in> {ku8MBReadInputRegisters, ku8MBReadHoldingRegisters, ku8MBReadWriteMultipleRegisters}"
    and "length (responseBuffer m) = ku8MaxBufferSize"
    and "calls w = (start, stack) # rest"
    and "reads w = bytes_at bts @ evs" and "in_time start bts"
    and "map fst bts = [slave, fn, 0, x, y]" and "crc16_bytes 0xFFFF (map fst bts) = 0"
  shows "\<exists>w'. masterTransaction slave addr qty fn m w = Some (ku8MBSuccess, m, w')"
  using masterTransaction_response [OF assms(1-5), where n = 0 and payload = "[x, y]"
      and addr = addr and qty = qty] assms(6,7)
  by simp

text \<open>No byte at all.\<close>

lemma masterTransaction_timeout:
  assumes "calls w = (start, stack) # rest" and "reads w = (RxNone, t) # evs"
    and "ku16MBResponseTimeout < t - start"
  shows "masterTransaction slave addr qty fn m w =
    Some (ku8MBResponseTimedOut, m, w\<lparr>calls := rest, reads := evs,
      outs := outs w @ transmit m (request_frame slave addr qty fn)\<rparr>)"
  using assms
  by (simp add: masterTransaction_def Let_def rx_stop_def rx_timeout_def rx_read_def
      rx_check_crc_def)

text \<open>
  With a byte count above 250 the 8-bit size counter wraps and the CRC of the response is
  never looked at: whatever the payload, the transaction reports success.
\<close>

theorem masterTransaction_crc_skipped:
  assumes "fn \<in> read_functions" and "calls w = (start, stack) # rest"
    and "reads w = bytes_at bts @ evs" and "in_time start bts"
    and "map fst bts = slave # fn # n # payload" and "length payload = unat n + 2"
    and "250 < unat n"
  shows "\<exists>m' w'. masterTransaction slave addr qty fn m w = Some (ku8MBSuccess, m', w')"
proof -
  let ?s = "received stack (request_frame slave addr qty fn) (map fst bts) n"
  have "unat n \<le> 255" using unsigned_less [of n, where ?'a = nat] by simp
  then have "unat (of_nat (unat n + 5) :: u8) = unat n - 251"
    using assms(7) by (simp add: unat_of_nat mod_if del: of_nat_add)
  then have "\<not> (5 :: u8) \<le> of_nat (unat n + 5)"
    using \<open>unat n \<le> 255\<close> by (simp add: word_le_nat_alt del: of_nat_add)
  then have "rx_check_crc ?s = ?s"
    by (simp add: rx_check_crc_def received_def del: of_nat_add)
  then have "mbStatus (rx_check_crc ?s) = 0" by (simp add: received_def)
  then show ?thesis
    using masterTransaction_received [OF assms(1-6), of addr qty m] by (simp add: Let_def)
qed

lemma rx_check_crc_success:
  assumes "mbStatus (rx_check_crc s) = 0"
  shows "mbStatus s = 0" and "rx_check_crc s = s"
  using assms by (auto simp: rx_check_crc_def Let_def split: if_splits)

text \<open>
  C14: A response damaged on the line in at most two adjacent payload or CRC bytes is answered
  with \<open>ku8MBInvalidCRC\<close>, and the response buffer keeps its contents.
\<close>

theorem masterTransaction_detects_corruption:
  assumes "fn \<in> {ku8MBReadInputRegisters, ku8MBReadHoldingRegisters, ku8MBReadWriteMultipleRegisters}"
    and "length (responseBuffer m) = ku8MaxBufferSize"
    and "calls w = (start, stack) # rest"
    and "reads w = bytes_at bts @ evs" and "in_time start bts"
    and "crc16_bytes 0xFFFF (slave # fn # n # pre @ sent @ post) = 0"
    and "map fst bts = slave # fn # n # pre @ got @ post"
    and "length got = length sent" and "length sent \<le> 2" and "got \<noteq> sent"
    and "length (pre @ sent @ post) = unat n + 2" and "unat n \<le> 250"
  shows "\<exists>w'. masterTransaction slave addr qty fn m w = Some (ku8MBInvalidCRC, m, w')"
proof -
  have "crc16_bytes 0xFFFF ((slave # fn # n # pre) @ got @ post)
      \<noteq> crc16_bytes 0xFFFF ((slave # fn # n # pre) @ sent @ post)"
    using crc16_bytes_burst [of got sent "0xFFFF" "slave # fn # n # pre" post] assms(8-10) by metis
  then have bad: "crc16_bytes 0xFFFF (map fst bts) \<noteq> 0"
    using assms(6,7) by simp
  have "length (pre @ got @ post) = unat n + 2" using assms(8,11) by simp
  with bad show ?thesis
    using masterTransaction_response [OF assms(1-5,7) _ assms(12), of addr qty] by simp
qed

text \<open>The fifth byte of an accepted response.\<close>

lemma rx_inspect_success:
  assumes "rx_inspect slave fn s = (s', brk)" and "mbStatus s' = 0" and "aduSize s = 5"
    and "fn \<in> read_functions"
  shows "adu s ! 0 = slave \<and>
    (brk \<and> adu s ! 1 AND 0x7F = fn \<and> bit (adu s ! 1) 7 \<and> adu s ! 2 = 0 \<and> s' = s\<lparr>mbStatus := 0\<rparr> \<or>
     \<not> brk \<and> adu s ! 1 = fn \<and> s' = s\<lparr>bytesLeft := adu s ! 2\<rparr>)"
proof -
  have low: "adu s ! 1 = fn" if "adu s ! 1 AND 0x7F = fn" "\<not> bit (adu s ! 1) 7"
  proof -
    have "adu s ! 1 AND 0x7F = adu s ! 1"
    proof (rule bit_word_eqI)
      fix k
      assume "k < LENGTH(8)"
      then have "k \<in> {0..<8}" by simp
      then show "bit (adu s ! 1 AND 0x7F) k \<longleftrightarrow> bit (adu s ! 1) k"
        using that(2) by (auto simp: bit_and_iff atLeastLessThan_iff less_Suc_eq numeral_eq_Suc)
    qed
    with that(1) show ?thesis by simp
  qed
  show ?thesis
    using assms low unfolding rx_inspect_def
    by (auto split: if_splits)
qed

lemma adu_rx_filled_nth:
  assumes "length frame = 8" and "length bs \<le> 256" and "k < length bs"
  shows "adu (rx_filled (rx_start stack frame) bs) ! k = bs ! k"
  using assms by (simp add: rx_filled_def adu_fill_store nth_store)

text \<open>
  C13: What a successful read transaction has seen: it consumed at least five bytes, from the
  addressed slave, with the function asked for; the response is complete (or an exception response
  with code 0); and unless it is longer than 255 bytes its CRC is right.
\<close>

theorem masterTransaction_accepts:
  assumes "fn \<in> read_functions" and "reads w = bytes_at bts"
    and "masterTransaction slave addr qty fn m w = Some (ku8MBSuccess, m', w')"
  shows "\<exists>xs ys. bts = xs @ ys \<and> reads w' = bytes_at ys \<and>
    (let bs = map fst xs in
      5 \<le> length bs \<and> bs ! 0 = slave \<and> bs ! 1 AND 0x7F = fn \<and>
      (if bit (bs ! 1) 7 then bs ! 2 = 0 \<and> length bs = 5 else length bs = unat (bs ! 2) + 5) \<and>
      (length bs \<le> 255 \<longrightarrow> crc16_bytes 0xFFFF bs = 0))"
proof -
  let ?frame = "request_frame slave addr qty fn"
  from assms(3) obtain start stack rest s evs where
    calls: "calls w = (start, stack) # rest" and
    loop: "rx_loop slave fn start (bytes_at bts) (rx_start stack ?frame) = Some (s, evs)" and
    ok: "mbStatus (rx_check_crc s) = 0" and w': "reads w' = evs"
    by (auto simp: masterTransaction_def assms(2) Let_def split: list.splits option.splits)
  let ?a = "adu (rx_start stack ?frame)"
  note s_ok = rx_check_crc_success [OF ok]
  obtain xs4 ys4 where four: "bts = xs4 @ ys4" "length xs4 = 4"
      "rx_loop slave fn start (bytes_at ys4) (rx_filled (rx_start stack ?frame) (map fst xs4))
         = Some (s, evs)"
    using rx_loop_success_split [OF loop s_ok(1), of "Suc (Suc (Suc (Suc 0)))"] misses_five_start
    by auto
  let ?s4 = "rx_filled (rx_start stack ?frame) (map fst xs4)"
  have s4: "bytesLeft ?s4 = 4" "mbStatus ?s4 = 0" "aduSize ?s4 = 4"
    using four(2) by (simp_all add: rx_filled_def)
  obtain b t ys5 where ys4: "ys4 = (b, t) # ys5"
    using four(3) s4 by (cases ys4) (auto simp: rx_stop_def split: if_splits)
  let ?s5 = "rx_read (RxByte b) ?s4"
  obtain s6 brk where insp: "rx_inspect slave fn ?s5 = (s6, brk)" by fastforce
  have five: "map fst (xs4 @ [(b, t)]) = map fst xs4 @ [b]" "length (xs4 @ [(b, t)]) = 5"
    using four(2) by simp_all
  have s5: "?s5 = rx_filled (rx_start stack ?frame) (map fst (xs4 @ [(b, t)]))"
    by (simp add: rx_filled_append rx_filled_Cons)
  have step: "(if brk then Some (s6, bytes_at ys5)
      else rx_loop slave fn start (bytes_at ys5) (rx_timeout start t s6)) = Some (s, evs)"
    using four(3) s4 ys4 insp by (auto simp: rx_stop_def split: if_splits)
  have s6_ok: "mbStatus s6 = 0"
  proof (cases brk)
    case True
    with step s_ok(1) show ?thesis by simp
  next
    case False
    with step have *: "rx_loop slave fn start (bytes_at ys5) (rx_timeout start t s6) = Some (s, evs)"
      by simp
    show ?thesis
    proof (rule ccontr)
      assume "mbStatus s6 \<noteq> 0"
      with rx_timeout_success [OF * s_ok(1)] have "rx_stop (rx_timeout start t s6)"
        by (simp add: rx_stop_def)
      with * rx_timeout_success [OF * s_ok(1)] have "s = s6" by simp
      with \<open>mbStatus s6 \<noteq> 0\<close> s_ok(1) show False by simp
    qed
  qed
  let ?hd = "map fst (xs4 @ [(b, t)])"
  have size5: "aduSize ?s5 = 5" by (simp add: rx_read_def s4)
  have adu5: "adu ?s5 ! k = ?hd ! k" if "k < 5" for k
    using that five unfolding s5 by (intro adu_rx_filled_nth) simp_all
  have adu012: "adu ?s5 ! 0 = ?hd ! 0" "adu ?s5 ! 1 = ?hd ! 1" "adu ?s5 ! 2 = ?hd ! 2"
    by (simp_all only: adu5)
  note insp_ok = rx_inspect_success [OF insp s6_ok size5 assms(1), unfolded adu012]
  have read_low: "fn AND 0x7F = fn" using assms(1) by auto
  have final: ?thesis if "bts = xs @ ys" and "evs = bytes_at ys"
      and "5 \<le> length xs" and "take 5 (map fst xs) = ?hd" and "aduSize s = of_nat (length xs)"
      and "adu s = adu_fill ?a 0 (map fst xs)"
      and "if bit (?hd ! 1) 7 then ?hd ! 2 = 0 \<and> length xs = 5 else length xs = unat (?hd ! 2) + 5"
    for xs ys
  proof -
    have nth: "map fst xs ! k = ?hd ! k" if "k < 5" for k
      using that \<open>take 5 (map fst xs) = ?hd\<close> by (metis nth_take)
    have crc: "crc16_bytes 0xFFFF (map fst xs) = 0" if "length xs \<le> 255"
    proof (rule ccontr)
      assume "crc16_bytes 0xFFFF (map fst xs) \<noteq> 0"
      then have "mbStatus (rx_check_crc s) = ku8MBInvalidCRC"
        using rx_check_crc_filled [of s ?a "map fst xs"] s_ok(1) that \<open>5 \<le> length xs\<close>
          \<open>aduSize s = _\<close> \<open>adu s = _\<close> by simp
      with ok show False by simp
    qed
    have n012: "map fst xs ! 0 = ?hd ! 0" "map fst xs ! 1 = ?hd ! 1" "map fst xs ! 2 = ?hd ! 2"
      by (simp_all only: nth)
    have "5 \<le> length (map fst xs) \<and> map fst xs ! 0 = slave \<and> map fst xs ! 1 AND 0x7F = fn \<and>
      (if bit (map fst xs ! 1) 7 then map fst xs ! 2 = 0 \<and> length (map fst xs) = 5
       else length (map fst xs) = unat (map fst xs ! 2) + 5) \<and>
      (length (map fst xs) \<le> 255 \<longrightarrow> crc16_bytes 0xFFFF (map fst xs) = 0)"
      unfolding n012 length_map
      by (intro conjI impI) (use insp_ok read_low that(3,7) crc in \<open>(elim conjE disjE; simp only:)+\<close>)
    with that(1,2) w' show ?thesis
      unfolding Let_def by blast
  qed
  have hd: "?hd = map fst xs4 @ [b]" by simp
  have s5_eqs: "adu ?s5 = adu_fill ?a 0 ?hd" "aduSize ?s5 = 5" "mbStatus ?s5 = 0"
    unfolding s5 using four(2) by (simp_all add: rx_filled_def)
  show ?thesis
  proof (cases brk)
    case True
    with step have s: "s = s6" "evs = bytes_at ys5" by simp_all
    show ?thesis
      by (rule final [of "xs4 @ [(b, t)]" ys5])
        (use True s s5_eqs four ys4 five insp_ok in auto)
  next
    case False
    then have s6: "s6 = ?s5\<lparr>bytesLeft := ?hd ! 2\<rparr>" and fn: "?hd ! 1 = fn"
      using insp_ok by blast+
    have nobit: "\<not> bit (?hd ! 1) 7"
      unfolding fn using assms(1) by auto
    let ?n = "unat (?hd ! 2)"
    have *: "rx_loop slave fn start (bytes_at ys5) s6 = Some (s, evs)"
      using step False rx_timeout_success [of slave fn start "bytes_at ys5" t s6] s_ok(1) by auto
    have n: "?n \<le> 255" using unsigned_less [of "?hd ! 2", where ?'a = nat] by simp
    obtain xs6 ys6 where more: "ys5 = xs6 @ ys6" "length xs6 = ?n"
        "rx_loop slave fn start (bytes_at ys6) (rx_filled s6 (map fst xs6)) = Some (s, evs)"
      using rx_loop_success_split [OF * s_ok(1) s6_ok, of ?n] misses_five_from_five [OF n]
      by (auto simp: s6 s5_eqs)
    have stop: "bytesLeft (rx_filled s6 (map fst xs6)) = 0"
      using more(2) by (simp add: rx_filled_def s6)
    then have s: "s = rx_filled s6 (map fst xs6)" "evs = bytes_at ys6"
      using more(3) by (simp_all add: rx_stop_def)
    show ?thesis
      by (rule final [of "xs4 @ [(b, t)] @ xs6" ys6])
        (use s s5_eqs s6 four ys4 five more nobit in
          \<open>auto simp: rx_filled_def adu_fill_append\<close>)
  qed
qed


section \<open>A transaction ends\<close>

text \<open>
  A read that brought no byte waited its full second, so the response timeout has passed.
\<close>

definition timed :: "u32 \<Rightarrow> (rx \<times> u32) list \<Rightarrow> bool" where
  "timed start evs \<longleftrightarrow> (\<forall>(r, t) \<in> set evs. r = RxNone \<longrightarrow> ku16MBResponseTimeout < t - start)"

lemma timed_Cons [simp]:
  "timed start ((r, t) # evs) \<longleftrightarrow> (r = RxNone \<longrightarrow> ku16MBResponseTimeout < t - start) \<and> timed start evs"
  by (auto simp: timed_def)

lemma rx_timeout_keeps [simp]:
  "aduSize (rx_timeout start t s) = aduSize s" "bytesLeft (rx_timeout start t s) = bytesLeft s"
  by (simp_all add: rx_timeout_def)

lemma rx_read_keeps [simp]:
  "aduSize (rx_read r s) = aduSize s + 1"
  "r \<noteq> RxNone \<Longrightarrow> bytesLeft (rx_read r s) = bytesLeft s - 1"
  by (cases r; simp add: rx_read_def)+

lemma rx_timeout_stops: "ku16MBResponseTimeout < t - start \<Longrightarrow> rx_stop (rx_timeout start t s)"
  by (simp add: rx_timeout_def rx_stop_def)

lemma rx_loop_counts_down:
  assumes "misses_five (aduSize s) (unat (bytesLeft s))" and "unat (bytesLeft s) \<le> length evs"
    and "timed start evs"
  shows "rx_loop slave fn start evs s \<noteq> None"
  using assms
proof (induction evs arbitrary: s)
  case Nil
  then have "bytesLeft s = 0" by (metis le_0_eq list.size(3) unat_eq_zero)
  then show ?case by (simp add: rx_stop_def)
next
  case (Cons ev evs)
  obtain r t where ev: "ev = (r, t)" by (cases ev)
  show ?case
  proof (cases "rx_stop s")
    case False
    then have pos: "bytesLeft s \<noteq> 0" by (simp add: rx_stop_def)
    then obtain k where k: "unat (bytesLeft s) = Suc k"
      by (metis not0_implies_Suc unat_eq_zero)
    then have left: "unat (bytesLeft s - 1) = k"
      using pos by (simp add: unat_minus_one)
    have miss: "aduSize s + 1 \<noteq> 5" "misses_five (aduSize s + 1) k"
      using Cons.prems(1) unfolding k by (simp_all add: misses_five_Suc)
    let ?s = "rx_timeout start t (rx_read r s)"
    have "rx_loop slave fn start evs ?s \<noteq> None"
    proof (cases "r = RxNone")
      case True
      then have "rx_stop ?s" using Cons.prems(3) ev by (intro rx_timeout_stops) simp
      then show ?thesis by simp
    next
      case False
      then show ?thesis
        using Cons.prems(2,3) k left miss ev by (intro Cons.IH) simp_all
    qed
    with False miss(1) ev show ?thesis by simp
  qed simp
qed

lemma rx_inspect_keeps:
  "rx_inspect slave fn s = (s', brk) \<Longrightarrow> aduSize s' = aduSize s"
  by (auto simp: rx_inspect_def split: if_splits)

lemma rx_loop_ends:
  assumes "aduSize s = 5 - of_nat (Suc k)" and "Suc k \<le> 5"
    and "255 + Suc k \<le> length evs" and "timed start evs"
  shows "rx_loop slave fn start evs s \<noteq> None"
  using assms
proof (induction k arbitrary: s evs)
  case 0
  then obtain r t evs' where evs: "evs = (r, t) # evs'" by (cases evs) auto
  obtain s' brk where insp: "rx_inspect slave fn (rx_read r s) = (s', brk)" by fastforce
  have five: "aduSize s' = 5" using rx_inspect_keeps [OF insp] 0(1) by simp
  have n: "unat (bytesLeft s') \<le> 255"
    using unsigned_less [of "bytesLeft s'", where ?'a = nat] by simp
  have "rx_loop slave fn start evs' (rx_timeout start t s') \<noteq> None"
    using 0 evs n five misses_five_from_five [OF n] by (intro rx_loop_counts_down) simp_all
  then show ?case using insp evs by simp
next
  case (Suc k)
  then obtain r t evs' where evs: "evs = (r, t) # evs'" by (cases evs) auto
  have size: "aduSize s + 1 = 5 - of_nat (Suc k)" using Suc.prems(1) by simp
  moreover have "(5 :: u8) - of_nat (Suc k) \<noteq> 5"
  proof
    assume "(5 :: u8) - of_nat (Suc k) = 5"
    then have "of_nat (Suc k) = (0 :: u8)" by (simp del: of_nat_Suc)
    then have "unat (of_nat (Suc k) :: u8) = 0" by (simp del: of_nat_Suc)
    then have "Suc k mod 256 = 0" by (simp add: unat_of_nat del: of_nat_Suc)
    with Suc.prems(2) show False by simp
  qed
  ultimately have six: "aduSize s + 1 \<noteq> 5" by simp
  have "rx_loop slave fn start evs' (rx_timeout start t (rx_read r s)) \<noteq> None"
    using Suc.prems evs size by (intro Suc.IH) simp_all
  then show ?case using six evs by simp
qed

lemma rx_loop_more:
  "rx_loop slave fn start evs s = Some (s', rest) \<Longrightarrow>
   rx_loop slave fn start (evs @ later) s = Some (s', rest @ later)"
  by (induction evs arbitrary: s) (auto split: if_splits prod.splits simp: Let_def)

lemma rx_loop_rest_subset:
  "rx_loop slave fn start evs s = Some (s', rest) \<Longrightarrow> set rest \<subseteq> set evs"
proof (induction evs arbitrary: s)
  case (Cons ev evs)
  then show ?case
    by (cases ev) (fastforce split: if_splits prod.splits simp: Let_def)
qed (auto split: if_splits)

text \<open>The reads a transaction needs at most, and what it leaves.\<close>

lemma masterTransaction_step:
  assumes "calls w = (start, stack) # rest" and "260 \<le> length (reads w)" and "timed start (reads w)"
  obtains st m' w' where "masterTransaction slave addr qty fn m w = Some (st, m', w')"
    and "calls w' = rest" and "length (reads w) \<le> length (reads w') + 260"
    and "set (reads w') \<subseteq> set (reads w)"
proof -
  let ?now = "take 260 (reads w)" and ?later = "drop 260 (reads w)"
  have "timed start ?now"
    using assms(3) unfolding timed_def by (meson in_set_takeD)
  then have "rx_loop slave fn start ?now (rx_start stack frame) \<noteq> None" for frame
    using assms(2) by (intro rx_loop_ends [where k = 4]) simp_all
  then obtain s evs where
    loop: "rx_loop slave fn start ?now (rx_start stack (request_frame slave addr qty fn)) = Some (s, evs)"
    by fast
  from rx_loop_more [OF this, of ?later] have
    "rx_loop slave fn start (reads w) (rx_start stack (request_frame slave addr qty fn))
      = Some (s, evs @ ?later)" by simp
  moreover have "set (evs @ ?later) \<subseteq> set (reads w)"
    using rx_loop_rest_subset [OF loop] by (auto dest: in_set_takeD in_set_dropD)
  ultimately show thesis
    using assms(1) by (intro that) (auto simp: masterTransaction_def Let_def)
qed

text \<open>
  C15: Every transaction ends: with the 1 s read timeout above the 500 ms response timeout, at most
  260 reads are made, whatever came over the bus, corrupted byte counts included.
\<close>

theorem masterTransaction_ends:
  assumes "calls w = (start, stack) # rest" and "260 \<le> length (reads w)" and "timed start (reads w)"
  shows "\<exists>st m' w'. masterTransaction slave addr qty fn m w = Some (st, m', w') \<and>
    length (reads w) \<le> length (reads w') + 260"
  using masterTransaction_step [OF assms] by metis

section \<open>Concrete transactions\<close>

abbreviation (input) idle_master :: modbus where
  "idle_master \<equiv> \<lparr>responseBuffer = replicate 128 0, preSet = True, postSet = True, debugSet = False\<rparr>"

abbreviation (input) bus_with :: "(rx \<times> u32) list \<Rightarrow> bus" where
  "bus_with evs \<equiv> \<lparr>calls = [(0, \<lambda>i. 0)], reads = evs, outs = []\<rparr>"

text \<open>The response 01 03 02 01 02 39 D5 of meter 1: one register, 0x0102.\<close>

abbreviation (input) one_register :: "(u8 \<times> u32) list" where
  "one_register \<equiv> map (\<lambda>b. (b, 9)) [1, 3, 2, 1, 2, 0x38, 0x15]"

lemma one_register_crc: "crc16_bytes 0xFFFF [1, 3, 2, 1, 2, 0x38, 0x15] = 0"
  by code_simp

lemma one_register_value: "makeWord 1 2 = 0x0102"
  by code_simp

lemma masterTransaction_read_registers_witness:
  "\<exists>w'. masterTransaction 1 0x10 1 3 idle_master (bus_with (bytes_at one_register)) =
     Some (ku8MBSuccess, idle_master\<lparr>responseBuffer := 0x0102 # replicate 127 0\<rparr>, w')"
  using masterTransaction_read_registers [where fn = 3 and m = idle_master and bts = one_register
      and w = "bus_with (bytes_at one_register)" and slave = 1 and evs = "[]" and n = 2
      and payload = "[1, 2, 0x38, 0x15]" and start = 0 and stack = "\<lambda>i. 0" and rest = "[]"
      and addr = "0x10" and qty = 1]
  by (simp add: one_register_crc one_register_value del: crc16_bytes_Cons)

lemma masterTransaction_detects_corruption_witness:
  "\<exists>w'. masterTransaction 1 0x10 1 3 idle_master
      (bus_with (bytes_at (map (\<lambda>b. (b, 9)) [1, 3, 2, 7, 8, 0x38, 0x15]))) =
     Some (ku8MBInvalidCRC, idle_master, w')"
  by (rule masterTransaction_detects_corruption [where n = 2 and pre = "[]" and sent = "[1, 2]"
        and post = "[0x38, 0x15]" and got = "[7, 8]" and evs = "[]" and rest = "[]"
        and bts = "map (\<lambda>b. (b, 9)) [1, 3, 2, 7, 8, 0x38, 0x15]" and start = 0])
    (simp_all add: one_register_crc del: crc16_bytes_Cons)

lemma masterTransaction_crc_skipped_witness:
  "\<exists>m' w'. masterTransaction 1 0x10 1 3 idle_master
      (bus_with (bytes_at (map (\<lambda>b. (b, 9)) ([1, 3, 251] @ replicate 253 7)))) =
     Some (ku8MBSuccess, m', w')"
  by (rule masterTransaction_crc_skipped [where n = 251 and payload = "replicate 253 7"
        and bts = "map (\<lambda>b. (b, 9)) ([1, 3, 251] @ replicate 253 7)" and evs = "[]"
        and rest = "[]" and start = 0])
    (simp_all add: comp_def in_time_def)

lemma masterTransaction_accepts_witness:
  "\<exists>xs ys. one_register = xs @ ys \<and> 5 \<le> length xs"
proof -
  have "\<exists>m' w'. masterTransaction 1 0x10 1 3 idle_master (bus_with (bytes_at one_register)) =
      Some (ku8MBSuccess, m', w')"
    using masterTransaction_response [where fn = 3 and m = idle_master and bts = one_register
      and w = "bus_with (bytes_at one_register)" and slave = 1 and evs = "[]" and n = 2
      and payload = "[1, 2, 0x38, 0x15]" and start = 0 and stack = "\<lambda>i. 0" and rest = "[]"
      and addr = "0x10" and qty = 1]
    by (simp add: one_register_crc del: crc16_bytes_Cons)
  then obtain m' w' where
    "masterTransaction 1 0x10 1 3 idle_master (bus_with (bytes_at one_register)) =
      Some (ku8MBSuccess, m', w')" by blast
  from masterTransaction_accepts [OF _ _ this, of one_register] show ?thesis
    by (auto simp: Let_def)
qed

lemma masterTransaction_ends_witness:
  "\<exists>st m' w'. masterTransaction 1 0x10 1 3 idle_master
     (bus_with (replicate 260 (RxNone, 1000))) = Some (st, m', w')"
  using masterTransaction_ends [of "bus_with (replicate 260 (RxNone, 1000))" 0 "\<lambda>i. 0" "[]"
      1 "0x10" 1 3 idle_master]
  by (auto simp: timed_def)

lemma masterTransaction_accepts_empty_reply_witness:
  "\<exists>w'. masterTransaction 1 0x10 1 3 idle_master
     (bus_with (bytes_at (map (\<lambda>b. (b, 9)) [1, 3, 0, 0x20, 0xF0]))) =
     Some (ku8MBSuccess, idle_master, w')"
proof -
  have "crc16_bytes 0xFFFF [1, 3, 0, 0x20, 0xF0] = 0" by code_simp
  then show ?thesis
    by (intro masterTransaction_accepts_empty_reply
          [where bts = "map (\<lambda>b. (b, 9)) [1, 3, 0, 0x20, 0xF0]" and x = "0x20" and y = "0xF0"
           and evs = "[]" and rest = "[]" and start = 0])
       (simp_all del: crc16_bytes_Cons)
qed

end
