(* ===== verification/Drivers.thy ===== *)
theory Drivers
  imports Transaction
begin

unbundle bit_operations_syntax

text \<open>
  The device drivers on top of \<open>masterTransaction\<close>: \<open>ModbusMeter::readMeterData\<close> with its seven
  meter types and \<open>ModbusFlow::readFlowData\<close>. A driver is the sequence of its transactions, each
  with the assignments made from its response, in the order of the code.

  A \<open>float\<close> is its 32-bit pattern. The arithmetic the compiler does on floats and doubles is a
  parameter, the record \<open>fpu\<close>; nothing is assumed of it. \<open>time_t\<close> has 32 bits on this target.
\<close>

section \<open>Data\<close>

record meterData =
  md_mdt :: u32
  md_watt :: u32
  md_wattHour :: u32
  md_pf :: u32
  md_varh :: u32
  md_i0 :: u32
  md_i1 :: u32
  md_i2 :: u32
  md_v0 :: u32
  md_v1 :: u32
  md_v2 :: u32

record flowData =
  fd_mdt :: u32
  fd_inst_flux :: u32
  fd_ins_heat_flow :: u32
  fd_tm1 :: u32
  fd_tm2 :: u32
  fd_signal_ratio :: u32
  fd_reynolds :: u32
  fd_q_str :: u32
  fd_up_str :: u32
  fd_down_str :: u32

record fpu =
  fmul :: "u32 \<Rightarrow> u32 \<Rightarrow> u32"          \<comment> \<open>\<open>float * float\<close>\<close>
  fint :: "u32 \<Rightarrow> u32 \<Rightarrow> u32"          \<comment> \<open>\<open>int * float\<close>\<close>
  fint64 :: "u64 \<Rightarrow> u32 \<Rightarrow> u32"        \<comment> \<open>\<open>int64_t * float\<close>\<close>
  fquot :: "u32 \<Rightarrow> nat \<Rightarrow> u32 \<Rightarrow> u32"  \<comment> \<open>\<open>(x/d.00) * a\<close> in double, stored as float\<close>
  fpercent :: "u32 \<Rightarrow> u32 \<Rightarrow> u32"      \<comment> \<open>\<open>((x/4095.)*100.0) * a\<close> in double, stored as float\<close>
  flt :: "u32 \<Rightarrow> u32 \<Rightarrow> bool"          \<comment> \<open>\<open>a < b\<close>\<close>
  fsub :: "u32 \<Rightarrow> u32 \<Rightarrow> u32"          \<comment> \<open>\<open>a - b\<close> in double, stored as float\<close>

abbreviation (input) f32_one :: u32 where "f32_one \<equiv> 0x3F800000"
abbreviation (input) f32_minus_one :: u32 where "f32_minus_one \<equiv> 0xBF800000"
abbreviation (input) f32_two :: u32 where "f32_two \<equiv> 0x40000000"
abbreviation (input) f32_minus_two :: u32 where "f32_minus_two \<equiv> 0xC0000000"

text \<open>The two unions: \<open>wd[0]\<close> is the low half of the 32 bits.\<close>

definition wordToFloat :: "u16 \<Rightarrow> u16 \<Rightarrow> u32" where
  "wordToFloat h l = push_bit 16 (ucast h) OR ucast l"

definition u16Tou32 :: "u16 \<Rightarrow> u16 \<Rightarrow> u32" where
  "u16Tou32 h l = push_bit 16 (ucast l) OR ucast h"

text \<open>The 64-bit counters of the iEM3255, most significant register first.\<close>

definition four_words :: "u16 \<Rightarrow> u16 \<Rightarrow> u16 \<Rightarrow> u16 \<Rightarrow> u64" where
  "four_words a b c d =
     push_bit 48 (ucast a) OR push_bit 32 (ucast b) OR push_bit 16 (ucast c) OR ucast d"

text \<open>The two corrections of a power factor outside \<open>[-1, 1]\<close>.\<close>

definition fold_pf :: "fpu \<Rightarrow> u32 \<Rightarrow> u32" where
  "fold_pf fp pf =
     (let pf1 = (if flt fp pf f32_minus_one then fsub fp f32_minus_two pf else pf)
      in if flt fp f32_one pf1 then fsub fp f32_two pf1 else pf1)"

section \<open>Drivers as step sequences\<close>

text \<open>
  \<open>Ask addr qty fn upd\<close> is \<open>result = masterTransaction(slave, addr, qty, fn); if (result) return
  result;\<close> followed by the assignments \<open>upd\<close>, which read the response buffer; \<open>Pause\<close> is
  \<open>delay\<close>.
\<close>

datatype 'd mb_step = Ask u16 u16 u8 "(u8 \<Rightarrow> u16) \<Rightarrow> 'd \<Rightarrow> 'd" | Pause nat

fun run_steps ::
    "(u8 \<Rightarrow> u16 \<Rightarrow> u16 \<Rightarrow> u8 \<Rightarrow> 's \<Rightarrow> (u8 \<times> 's) option) \<Rightarrow> ('s \<Rightarrow> u8 \<Rightarrow> u16) \<Rightarrow> (nat \<Rightarrow> 's \<Rightarrow> 's) \<Rightarrow>
     u8 \<Rightarrow> 'd mb_step list \<Rightarrow> 'd \<Rightarrow> 's \<Rightarrow> (u8 \<times> 'd \<times> 's) option" where
  "run_steps transact response pause slave [] d s = Some (0, d, s)"
| "run_steps transact response pause slave (Ask addr qty fn upd # steps) d s =
     (case transact slave addr qty fn s of
        None \<Rightarrow> None
      | Some (result, s') \<Rightarrow>
          if result \<noteq> 0 then Some (result, d, s')
          else run_steps transact response pause slave steps (upd (response s') d) s')"
| "run_steps transact response pause slave (Pause t # steps) d s =
     run_steps transact response pause slave steps d (pause t s)"

type_synonym link = "modbus \<times> bus"

definition mb_transact :: "u8 \<Rightarrow> u16 \<Rightarrow> u16 \<Rightarrow> u8 \<Rightarrow> link \<Rightarrow> (u8 \<times> link) option" where
  "mb_transact slave addr qty fn s =
     map_option (\<lambda>(result, m, w). (result, (m, w))) (masterTransaction slave addr qty fn (fst s) (snd s))"

definition mb_response :: "link \<Rightarrow> u8 \<Rightarrow> u16" where
  "mb_response s = getResponseBuffer (fst s)"

definition mb_pause :: "nat \<Rightarrow> link \<Rightarrow> link" where
  "mb_pause t s = (fst s, (snd s)\<lparr>outs := outs (snd s) @ [Delay t]\<rparr>)"

section \<open>The meter types\<close>

text \<open>\<open>case dts353\<close>, a 3-phase meter\<close>

definition dts353_steps :: "fpu \<Rightarrow> u32 list \<Rightarrow> meterData mb_step list" where
  "dts353_steps fp adj =
    [Ask 0x000E 6 ku8MBReadHoldingRegisters
        (\<lambda>b d. d\<lparr>md_v0 := fmul fp (wordToFloat (b 0) (b 1)) (adj ! 7),
          md_v1 := fmul fp (wordToFloat (b 2) (b 3)) (adj ! 8),
          md_v2 := fmul fp (wordToFloat (b 4) (b 5)) (adj ! 9)\<rparr>),
     Ask 0x0016 8 ku8MBReadHoldingRegisters
        (\<lambda>b d. d\<lparr>md_i0 := fmul fp (wordToFloat (b 0) (b 1)) (adj ! 4),
          md_i1 := fmul fp (wordToFloat (b 2) (b 3)) (adj ! 5),
          md_i2 := fmul fp (wordToFloat (b 4) (b 5)) (adj ! 6),
          md_watt := fmul fp (wordToFloat (b 6) (b 7)) (adj ! 0)\<rparr>),
     Ask 0x0034 2 ku8MBReadHoldingRegisters
        (\<lambda>b d. d\<lparr>md_pf := fmul fp (wordToFloat (b 0) (b 1)) (adj ! 2)\<rparr>),
     Ask 0x0100 2 ku8MBReadHoldingRegisters
        (\<lambda>b d. d\<lparr>md_wattHour := fmul fp (wordToFloat (b 0) (b 1)) (adj ! 1)\<rparr>),
     Ask 0x0118 2 ku8MBReadHoldingRegisters
        (\<lambda>b d. d\<lparr>md_varh := fmul fp (wordToFloat (b 0) (b 1)) (adj ! 3)\<rparr>)]"

text \<open>\<open>case eastron\<close>: the addresses wrap at 16 bits\<close>

definition eastron_steps :: "fpu \<Rightarrow> u32 list \<Rightarrow> u8 \<Rightarrow> meterData mb_step list" where
  "eastron_steps fp adj slaveIndex =
    [Ask (0x0000 + 2000 * ucast slaveIndex) 12 ku8MBReadInputRegisters
        (\<lambda>b d. d\<lparr>md_v0 := fmul fp (wordToFloat (b 0) (b 1)) (adj ! 7),
          md_v1 := fmul fp (wordToFloat (b 2) (b 3)) (adj ! 8),
          md_v2 := fmul fp (wordToFloat (b 4) (b 5)) (adj ! 9),
          md_i0 := fmul fp (wordToFloat (b 6) (b 7)) (adj ! 4),
          md_i1 := fmul fp (wordToFloat (b 8) (b 9)) (adj ! 5),
          md_i2 := fmul fp (wordToFloat (b 10) (b 11)) (adj ! 6)\<rparr>),
     Ask (0x0034 + 2000 * ucast slaveIndex) 2 ku8MBReadInputRegisters
        (\<lambda>b d. d\<lparr>md_watt := fmul fp (wordToFloat (b 0) (b 1)) (adj ! 0)\<rparr>),
     Ask (0x003E + 2000 * ucast slaveIndex) 2 ku8MBReadInputRegisters
        (\<lambda>b d. d\<lparr>md_pf := fmul fp (wordToFloat (b 0) (b 1)) (adj ! 2)\<rparr>),
     Ask (0x0156 + 2000 * ucast slaveIndex) 4 ku8MBReadInputRegisters
        (\<lambda>b d. d\<lparr>md_wattHour := fmul fp (wordToFloat (b 0) (b 1)) (adj ! 1),
          md_varh := fmul fp (wordToFloat (b 2) (b 3)) (adj ! 3)\<rparr>)]"

text \<open>\<open>case iem3255\<close>\<close>

definition iem3255_steps :: "fpu \<Rightarrow> u32 list \<Rightarrow> meterData mb_step list" where
  "iem3255_steps fp adj =
    [Ask 2999 6 ku8MBReadHoldingRegisters
        (\<lambda>b d. d\<lparr>md_i0 := fmul fp (wordToFloat (b 0) (b 1)) (adj ! 4),
          md_i1 := fmul fp (wordToFloat (b 2) (b 3)) (adj ! 5),
          md_i2 := fmul fp (wordToFloat (b 4) (b 5)) (adj ! 6)\<rparr>),
     Pause 10,
     Ask 3027 6 ku8MBReadHoldingRegisters
        (\<lambda>b d. d\<lparr>md_v0 := fmul fp (wordToFloat (b 0) (b 1)) (adj ! 7),
          md_v1 := fmul fp (wordToFloat (b 2) (b 3)) (adj ! 8),
          md_v2 := fmul fp (wordToFloat (b 4) (b 5)) (adj ! 9)\<rparr>),
     Pause 10,
     Ask 3059 2 ku8MBReadHoldingRegisters
        (\<lambda>b d. d\<lparr>md_watt := fmul fp (wordToFloat (b 0) (b 1)) (adj ! 0)\<rparr>),
     Pause 10,
     Ask 3083 2 ku8MBReadHoldingRegisters
        (\<lambda>b d. d\<lparr>md_pf := fold_pf fp (fmul fp (wordToFloat (b 0) (b 1)) (adj ! 2))\<rparr>),
     Pause 10,
     Ask 3203 4 ku8MBReadHoldingRegisters
        (\<lambda>b d. d\<lparr>md_wattHour := fint64 fp (four_words (b 0) (b 1) (b 2) (b 3)) (adj ! 1)\<rparr>),
     Pause 10,
     Ask 3219 4 ku8MBReadHoldingRegisters
        (\<lambda>b d. d\<lparr>md_varh := fint64 fp (four_words (b 0) (b 1) (b 2) (b 3)) (adj ! 3)\<rparr>)]"

text \<open>\<open>case heyuan3\<close>: addresses and function from the configuration table\<close>

definition heyuan3_steps :: "fpu \<Rightarrow> u32 list \<Rightarrow> u16 list \<Rightarrow> meterData mb_step list" where
  "heyuan3_steps fp adj mt =
    [Ask (mt ! 0) 1 (ucast (mt ! 10))
        (\<lambda>b d. d\<lparr>md_watt := fquot fp (ucast (b 0)) 100 (adj ! 0)\<rparr>),
     Pause 5,
     Ask (mt ! 1) 2 (ucast (mt ! 10))
        (\<lambda>b d. d\<lparr>md_wattHour := fquot fp (u16Tou32 (b 0) (b 1)) 100 (adj ! 1)\<rparr>),
     Pause 5,
     Ask (mt ! 2) 1 (ucast (mt ! 10))
        (\<lambda>b d. d\<lparr>md_pf := fquot fp (ucast (b 0)) 1000 (adj ! 2)\<rparr>),
     Pause 5,
     Ask (mt ! 3) 2 (ucast (mt ! 10))
        (\<lambda>b d. d\<lparr>md_varh := fquot fp (u16Tou32 (b 0) (b 1)) 100 (adj ! 3)\<rparr>),
     Pause 5,
     Ask (mt ! 4) 1 (ucast (mt ! 10))
        (\<lambda>b d. d\<lparr>md_i0 := fquot fp (ucast (b 0)) 10000 (adj ! 4)\<rparr>),
     Pause 5,
     Ask (mt ! 5) 1 (ucast (mt ! 10))
        (\<lambda>b d. d\<lparr>md_i1 := fquot fp (ucast (b 0)) 10000 (adj ! 5)\<rparr>),
     Pause 5,
     Ask (mt ! 6) 1 (ucast (mt ! 10))
        (\<lambda>b d. d\<lparr>md_i2 := fquot fp (ucast (b 0)) 10000 (adj ! 6)\<rparr>),
     Pause 5,
     Ask (mt ! 7) 1 (ucast (mt ! 10))
        (\<lambda>b d. d\<lparr>md_v0 := fquot fp (ucast (b 0)) 100 (adj ! 7)\<rparr>),
     Pause 5,
     Ask (mt ! 8) 1 (ucast (mt ! 10))
        (\<lambda>b d. d\<lparr>md_v1 := fquot fp (ucast (b 0)) 100 (adj ! 8)\<rparr>),
     Pause 5,
     Ask (mt ! 9) 1 (ucast (mt ! 10))
        (\<lambda>b d. d\<lparr>md_v2 := fquot fp (ucast (b 0)) 100 (adj ! 9)\<rparr>)]"

text \<open>\<open>case heyuan1\<close>: one phase\<close>

definition heyuan1_steps :: "fpu \<Rightarrow> u32 list \<Rightarrow> u16 list \<Rightarrow> meterData mb_step list" where
  "heyuan1_steps fp adj mt =
    [Ask (mt ! 0) 1 (ucast (mt ! 10))
        (\<lambda>b d. d\<lparr>md_watt := fquot fp (ucast (b 0)) 100 (adj ! 0)\<rparr>),
     Pause 5,
     Ask (mt ! 1) 2 (ucast (mt ! 10))
        (\<lambda>b d. d\<lparr>md_wattHour := fquot fp (u16Tou32 (b 0) (b 1)) 100 (adj ! 1)\<rparr>),
     Pause 5,
     Ask (mt ! 2) 1 (ucast (mt ! 10))
        (\<lambda>b d. d\<lparr>md_pf := fquot fp (ucast (b 0)) 1000 (adj ! 2)\<rparr>),
     Pause 5,
     Ask (mt ! 3) 2 (ucast (mt ! 10))
        (\<lambda>b d. d\<lparr>md_varh := fquot fp (u16Tou32 (b 0) (b 1)) 100 (adj ! 3)\<rparr>),
     Pause 5,
     Ask (mt ! 4) 1 (ucast (mt ! 10))
        (\<lambda>b d. d\<lparr>md_i0 := fquot fp (ucast (b 0)) 10000 (adj ! 4),
          md_i1 := 0,
          md_i2 := 0\<rparr>),
     Pause 5,
     Ask (mt ! 7) 1 (ucast (mt ! 10))
        (\<lambda>b d. d\<lparr>md_v0 := fquot fp (ucast (b 0)) 100 (adj ! 7),
          md_v1 := 0,
          md_v2 := 0\<rparr>)]"

text \<open>\<open>case generic3\<close>\<close>

definition generic3_steps :: "fpu \<Rightarrow> u32 list \<Rightarrow> u16 list \<Rightarrow> meterData mb_step list" where
  "generic3_steps fp adj mt =
    [Ask (mt ! 0) 2 (ucast (mt ! 10))
        (\<lambda>b d. d\<lparr>md_watt := fmul fp (wordToFloat (b 0) (b 1)) (adj ! 0)\<rparr>),
     Ask (mt ! 1) 2 (ucast (mt ! 10))
        (\<lambda>b d. d\<lparr>md_wattHour := fmul fp (wordToFloat (b 0) (b 1)) (adj ! 1)\<rparr>),
     Ask (mt ! 2) 2 (ucast (mt ! 10))
        (\<lambda>b d. d\<lparr>md_pf := fmul fp (wordToFloat (b 0) (b 1)) (adj ! 2)\<rparr>),
     Ask (mt ! 3) 2 (ucast (mt ! 10))
        (\<lambda>b d. d\<lparr>md_varh := fmul fp (wordToFloat (b 0) (b 1)) (adj ! 3)\<rparr>),
     Ask (mt ! 4) 2 (ucast (mt ! 10))
        (\<lambda>b d. d\<lparr>md_i0 := fmul fp (wordToFloat (b 0) (b 1)) (adj ! 4)\<rparr>),
     Ask (mt ! 5) 2 (ucast (mt ! 10))
        (\<lambda>b d. d\<lparr>md_i1 := fmul fp (wordToFloat (b 0) (b 1)) (adj ! 5)\<rparr>),
     Ask (mt ! 6) 2 (ucast (mt ! 10))
        (\<lambda>b d. d\<lparr>md_i2 := fmul fp (wordToFloat (b 0) (b 1)) (adj ! 6)\<rparr>),
     Ask (mt ! 7) 2 (ucast (mt ! 10))
        (\<lambda>b d. d\<lparr>md_v0 := fmul fp (wordToFloat (b 0) (b 1)) (adj ! 7)\<rparr>),
     Ask (mt ! 8) 2 (ucast (mt ! 10))
        (\<lambda>b d. d\<lparr>md_v1 := fmul fp (wordToFloat (b 0) (b 1)) (adj ! 8)\<rparr>),
     Ask (mt ! 9) 2 (ucast (mt ! 10))
        (\<lambda>b d. d\<lparr>md_v2 := fmul fp (wordToFloat (b 0) (b 1)) (adj ! 9)\<rparr>)]"

text \<open>\<open>case generic1\<close>\<close>

definition generic1_steps :: "fpu \<Rightarrow> u32 list \<Rightarrow> u16 list \<Rightarrow> meterData mb_step list" where
  "generic1_steps fp adj mt =
    [Ask (mt ! 0) 2 (ucast (mt ! 10))
        (\<lambda>b d. d\<lparr>md_watt := fmul fp (wordToFloat (b 0) (b 1)) (adj ! 0)\<rparr>),
     Ask (mt ! 1) 2 (ucast (mt ! 10))
        (\<lambda>b d. d\<lparr>md_wattHour := fmul fp (wordToFloat (b 0) (b 1)) (adj ! 1)\<rparr>),
     Ask (mt ! 2) 2 (ucast (mt ! 10))
        (\<lambda>b d. d\<lparr>md_pf := fmul fp (wordToFloat (b 0) (b 1)) (adj ! 2)\<rparr>),
     Ask (mt ! 3) 2 (ucast (mt ! 10))
        (\<lambda>b d. d\<lparr>md_varh := fmul fp (wordToFloat (b 0) (b 1)) (adj ! 3)\<rparr>),
     Ask (mt ! 4) 2 (ucast (mt ! 10))
        (\<lambda>b d. d\<lparr>md_i0 := fmul fp (wordToFloat (b 0) (b 1)) (adj ! 4),
          md_i1 := 0,
          md_i2 := 0\<rparr>),
     Ask (mt ! 7) 2 (ucast (mt ! 10))
        (\<lambda>b d. d\<lparr>md_v0 := fmul fp (wordToFloat (b 0) (b 1)) (adj ! 7),
          md_v1 := 0,
          md_v2 := 0\<rparr>)]"

abbreviation (input) dts353 :: u8 where "dts353 \<equiv> 0x01"
abbreviation (input) eastron :: u8 where "eastron \<equiv> 0x02"
abbreviation (input) iem3255 :: u8 where "iem3255 \<equiv> 0x03"
abbreviation (input) heyuan3 :: u8 where "heyuan3 \<equiv> 0x04"
abbreviation (input) heyuan1 :: u8 where "heyuan1 \<equiv> 0x05"
abbreviation (input) generic3 :: u8 where "generic3 \<equiv> 0x09"
abbreviation (input) generic1 :: u8 where "generic1 \<equiv> 0x0A"

text \<open>The \<open>switch\<close>; \<open>None\<close> is a type with no case.\<close>

definition meter_steps ::
    "fpu \<Rightarrow> u8 \<Rightarrow> u8 \<Rightarrow> u32 list \<Rightarrow> u16 list \<Rightarrow> meterData mb_step list option" where
  "meter_steps fp slaveIndex mType adj mt =
     (if mType = dts353 then Some (dts353_steps fp adj)
      else if mType = eastron then Some (eastron_steps fp adj slaveIndex)
      else if mType = iem3255 then Some (iem3255_steps fp adj)
      else if mType = heyuan3 then Some (heyuan3_steps fp adj mt)
      else if mType = heyuan1 then Some (heyuan1_steps fp adj mt)
      else if mType = generic3 then Some (generic3_steps fp adj mt)
      else if mType = generic1 then Some (generic1_steps fp adj mt)
      else None)"

text \<open>
  \<open>readMeterData\<close> works on \<open>md[index]\<close> in place: assignments made before a failing transaction
  stay. The stamp \<open>md[index].mdt = mdt\<close> is the last statement of every case.
\<close>

definition readMeterData ::
    "fpu \<Rightarrow> u8 \<Rightarrow> u8 \<Rightarrow> u8 \<Rightarrow> u8 \<Rightarrow> u32 \<Rightarrow> u32 list \<Rightarrow> u16 list \<Rightarrow> meterData list \<Rightarrow> link \<Rightarrow>
     (u8 \<times> meterData list \<times> link) option" where
  "readMeterData fp index slave slaveIndex mType mdt adj mt md s =
     (case meter_steps fp slaveIndex mType adj mt of
        None \<Rightarrow> Some (0, md, s)
      | Some steps \<Rightarrow>
          (case run_steps mb_transact mb_response mb_pause slave steps (md ! unat index) s of
             None \<Rightarrow> None
           | Some (result, d, s') \<Rightarrow>
               Some (result,
                     md[unat index := (if result \<noteq> 0 then d else d\<lparr>md_mdt := mdt\<rparr>)], s')))"

section \<open>The flow meter\<close>

definition flow_steps :: "fpu \<Rightarrow> u32 list \<Rightarrow> flowData mb_step list" where
  "flow_steps fp adj =
    [Ask 1 4 ku8MBReadHoldingRegisters (\<lambda>b d. d\<lparr>
          fd_inst_flux := fmul fp (wordToFloat (b 0) (b 1)) (adj ! 0),
          fd_ins_heat_flow := fmul fp (wordToFloat (b 2) (b 3)) (adj ! 1)\<rparr>),
     Ask 33 4 ku8MBReadHoldingRegisters (\<lambda>b d. d\<lparr>
          fd_tm1 := fmul fp (wordToFloat (b 0) (b 1)) (adj ! 2),
          fd_tm2 := fmul fp (wordToFloat (b 2) (b 3)) (adj ! 3)\<rparr>),
     Ask 91 3 ku8MBReadHoldingRegisters (\<lambda>b d. d\<lparr>
          fd_q_str := fint fp (ucast (b 0) AND 0xFF) (adj ! 6),
          fd_up_str := fpercent fp (ucast (b 1)) (adj ! 7),
          fd_down_str := fpercent fp (ucast (b 2)) (adj ! 8)\<rparr>),
     Ask 97 4 ku8MBReadHoldingRegisters (\<lambda>b d. d\<lparr>
          fd_signal_ratio := fmul fp (wordToFloat (b 0) (b 1)) (adj ! 4),
          fd_reynolds := fmul fp (wordToFloat (b 2) (b 3)) (adj ! 5)\<rparr>)]"

definition readFlowData ::
    "fpu \<Rightarrow> u8 \<Rightarrow> u32 \<Rightarrow> u32 list \<Rightarrow> flowData \<Rightarrow> link \<Rightarrow> (u8 \<times> flowData \<times> link) option" where
  "readFlowData fp slave mdt adj fd s =
     (case run_steps mb_transact mb_response mb_pause slave (flow_steps fp adj) fd s of
        None \<Rightarrow> None
      | Some (result, d, s') \<Rightarrow>
          Some (result, (if result \<noteq> 0 then d else d\<lparr>fd_mdt := mdt\<rparr>), s'))"


section \<open>Runs of a step sequence\<close>

primrec asks :: "'d mb_step list \<Rightarrow> nat" where
  "asks [] = 0"
| "asks (st # steps) = (case st of Ask _ _ _ _ \<Rightarrow> Suc (asks steps) | Pause _ \<Rightarrow> asks steps)"

text \<open>All assignments of a sequence, given the response buffer seen by each transaction.\<close>

fun apply_all :: "'d mb_step list \<Rightarrow> (u8 \<Rightarrow> u16) list \<Rightarrow> 'd \<Rightarrow> 'd" where
  "apply_all [] bs d = d"
| "apply_all (Ask _ _ _ upd # steps) bs d = apply_all steps (tl bs) (upd (hd bs) d)"
| "apply_all (Pause _ # steps) bs d = apply_all steps bs d"

lemma run_steps_success:
  "run_steps transact response pause slave steps d s = Some (0, d', s') \<Longrightarrow>
   \<exists>bs. length bs = asks steps \<and> d' = apply_all steps bs d \<and>
     (\<forall>e. run_steps transact response pause slave steps e s = Some (0, apply_all steps bs e, s'))"
proof (induction steps arbitrary: d s)
  case (Cons st steps)
  show ?case
  proof (cases st)
    case (Ask addr qty fn upd)
    with Cons.prems obtain s1 where t: "transact slave addr qty fn s = Some (0, s1)"
      and r: "run_steps transact response pause slave steps (upd (response s1) d) s1 = Some (0, d', s')"
      by (auto split: option.splits if_splits)
    from Cons.IH [OF r] obtain bs where "length bs = asks steps"
      "d' = apply_all steps bs (upd (response s1) d)"
      "\<forall>e. run_steps transact response pause slave steps e s1 = Some (0, apply_all steps bs e, s')"
      by blast
    with Ask t show ?thesis by (intro exI [of _ "response s1 # bs"]) simp
  next
    case (Pause t)
    with Cons show ?thesis by auto
  qed
qed simp

text \<open>A part of the data that no assignment touches keeps its value, whatever the result.\<close>

lemma run_steps_keeps:
  assumes "run_steps transact response pause slave steps d s = Some (result, d', s')"
    and "\<forall>addr qty fn upd b d. Ask addr qty fn upd \<in> set steps \<longrightarrow> f (upd b d) = f d"
  shows "f d' = f d"
  using assms
  by (induction steps arbitrary: d s rule: list.induct)
     (auto split: option.splits if_splits mb_step.splits elim!: run_steps.elims)

section \<open>The bus as an interface\<close>

text \<open>
  What a driver relies on: with \<open>ready n\<close>, \<open>n\<close> more transactions end. A pause costs nothing.
\<close>

locale register_bus =
  fixes transact :: "u8 \<Rightarrow> u16 \<Rightarrow> u16 \<Rightarrow> u8 \<Rightarrow> 's \<Rightarrow> (u8 \<times> 's) option"
    and response :: "'s \<Rightarrow> u8 \<Rightarrow> u16"
    and pause :: "nat \<Rightarrow> 's \<Rightarrow> 's"
    and ready :: "nat \<Rightarrow> 's \<Rightarrow> bool"
  assumes transact_ends:
      "ready (Suc n) s \<Longrightarrow> \<exists>result s'. transact slave addr qty fn s = Some (result, s') \<and> ready n s'"
    and pause_ready: "ready n s \<Longrightarrow> ready n (pause t s)"
begin

lemma run_steps_ends:
  "ready (asks steps) s \<Longrightarrow>
   \<exists>result d' s'. run_steps transact response pause slave steps d s = Some (result, d', s')"
proof (induction steps arbitrary: d s)
  case (Cons st steps)
  show ?case
  proof (cases st)
    case (Ask addr qty fn upd)
    with Cons.prems obtain result s' where
      "transact slave addr qty fn s = Some (result, s')" "ready (asks steps) s'"
      using transact_ends [of "asks steps" s slave addr qty fn] by auto
    with Ask Cons.IH [of s'] show ?thesis by simp
  next
    case (Pause t)
    with Cons pause_ready show ?thesis by simp
  qed
qed simp

end

text \<open>
  The bus of this program: a start time for each transaction, 260 read outcomes for each, and every
  empty read later than the response timeout of every transaction (in \<open>uint32_t\<close> arithmetic).
\<close>

definition bus_ready :: "nat \<Rightarrow> link \<Rightarrow> bool" where
  "bus_ready n s \<longleftrightarrow> n \<le> length (calls (snd s)) \<and> 260 * n \<le> length (reads (snd s)) \<and>
     (\<forall>(start, stack) \<in> set (calls (snd s)). timed start (reads (snd s)))"

lemma timed_subset: "timed start evs \<Longrightarrow> set evs' \<subseteq> set evs \<Longrightarrow> timed start evs'"
  by (auto simp: timed_def)

interpretation modbus_link: register_bus mb_transact mb_response mb_pause bus_ready
proof
  fix n s slave addr qty fn t
  show "bus_ready n (mb_pause t s)" if "bus_ready n s"
    using that by (auto simp: bus_ready_def mb_pause_def)
  assume r: "bus_ready (Suc n) s"
  obtain m w where s: "s = (m, w)" by (cases s)
  obtain start stack rest where c: "calls w = (start, stack) # rest"
    using r s by (cases "calls w") (auto simp: bus_ready_def)
  have "260 \<le> length (reads w)" "timed start (reads w)"
    using r s c by (auto simp: bus_ready_def)
  then obtain st m' w' where fin: "masterTransaction slave addr qty fn m w = Some (st, m', w')"
    "calls w' = rest" "length (reads w) \<le> length (reads w') + 260" "set (reads w') \<subseteq> set (reads w)"
    by (rule masterTransaction_step [OF c])
  have "bus_ready n (m', w')"
    using r s c fin timed_subset [OF _ fin(4)] by (auto simp: bus_ready_def)
  with fin(1) s
  show "\<exists>result s'. mb_transact slave addr qty fn s = Some (result, s') \<and> bus_ready n s'"
    by (simp add: mb_transact_def)
qed

section \<open>The drivers\<close>

lemmas meter_step_defs = dts353_steps_def eastron_steps_def iem3255_steps_def heyuan3_steps_def
  heyuan1_steps_def generic3_steps_def generic1_steps_def

lemma meter_steps_cases:
  assumes "meter_steps fp slaveIndex mType adj mt = Some steps"
  obtains "steps = dts353_steps fp adj" | "steps = eastron_steps fp adj slaveIndex"
    | "steps = iem3255_steps fp adj" | "steps = heyuan3_steps fp adj mt"
    | "steps = heyuan1_steps fp adj mt" | "steps = generic3_steps fp adj mt"
    | "steps = generic1_steps fp adj mt"
  using assms unfolding meter_steps_def by (auto split: if_splits)

text \<open>
  A meter is read in bounded time: whatever its type and whatever the device answers,
  \<open>readMeterData\<close> returns after at most ten transactions.
\<close>

theorem readMeterData_returns:
  assumes "bus_ready 10 s"
  shows "\<exists>result md' s'. readMeterData fp index slave slaveIndex mType mdt adj mt md s =
    Some (result, md', s')"
proof (cases "meter_steps fp slaveIndex mType adj mt")
  case None
  then show ?thesis by (simp add: readMeterData_def)
next
  case (Some steps)
  then have "asks steps \<le> 10"
    by (rule meter_steps_cases) (simp_all add: meter_step_defs)
  with assms have "bus_ready (asks steps) s" by (auto simp: bus_ready_def)
  then obtain result d s' where
    "run_steps mb_transact mb_response mb_pause slave steps (md ! unat index) s = Some (result, d, s')"
    using modbus_link.run_steps_ends [of steps s slave "md ! unat index"] by blast
  with Some show ?thesis by (simp add: readMeterData_def)
qed

text \<open>The assignments of a driver: the stamp is not among them, everything else is.\<close>

lemma meter_steps_keep_mdt:
  assumes "meter_steps fp slaveIndex mType adj mt = Some steps"
  shows "\<forall>addr qty fn upd b d. Ask addr qty fn upd \<in> set steps \<longrightarrow> md_mdt (upd b d) = md_mdt d"
  using assms by (rule meter_steps_cases) (auto simp: meter_step_defs)

lemma meterData_eq_if_stamped:
  "(d\<lparr>md_mdt := t\<rparr> = e\<lparr>md_mdt := t\<rparr>) \<longleftrightarrow>
   md_watt d = md_watt e \<and> md_wattHour d = md_wattHour e \<and> md_pf d = md_pf e \<and>
   md_varh d = md_varh e \<and> md_i0 d = md_i0 e \<and> md_i1 d = md_i1 e \<and> md_i2 d = md_i2 e \<and>
   md_v0 d = md_v0 e \<and> md_v1 d = md_v1 e \<and> md_v2 d = md_v2 e" for d e :: meterData
  by (cases d; cases e) auto

lemma meter_steps_overwrite:
  assumes "meter_steps fp slaveIndex mType adj mt = Some steps"
  shows "(apply_all steps bs d)\<lparr>md_mdt := t\<rparr> = (apply_all steps bs e)\<lparr>md_mdt := t\<rparr>"
  using assms
  by (rule meter_steps_cases; simp add: meter_step_defs meterData_eq_if_stamped)

text \<open>
  A failed reading keeps the time stamp: the slot's \<open>mdt\<close> is what it was and no other slot
  changes, so a failed meter is never reported with a new time.
\<close>

theorem readMeterData_failure_keeps_stamp:
  assumes "readMeterData fp index slave slaveIndex mType mdt adj mt md s = Some (result, md', s')"
    and "result \<noteq> 0" and "unat index < length md"
  shows "md_mdt (md' ! unat index) = md_mdt (md ! unat index) \<and> length md' = length md \<and>
    (\<forall>j. j \<noteq> unat index \<longrightarrow> md' ! j = md ! j)"
proof -
  from assms(1,2) obtain steps d where
    steps: "meter_steps fp slaveIndex mType adj mt = Some steps" and
    run: "run_steps mb_transact mb_response mb_pause slave steps (md ! unat index) s = Some (result, d, s')"
      "md' = md[unat index := d]"
    by (auto simp: readMeterData_def split: option.splits)
  from run_steps_keeps [OF run(1) meter_steps_keep_mdt [OF steps]] run(2) assms(3)
  show ?thesis by simp
qed

text \<open>
  C16: A successful reading of a known meter type replaces the whole record: the slot gets the new
  stamp, and its contents depend on the responses alone, not on what the slot held before.
\<close>

theorem readMeterData_success_is_fresh:
  assumes "readMeterData fp index slave slaveIndex mType mdt adj mt md s = Some (0, md', s')"
    and "mType \<in> {dts353, eastron, iem3255, heyuan3, heyuan1, generic3, generic1}"
    and "unat index < length md"
  shows "\<exists>d. md_mdt d = mdt \<and> md' = md[unat index := d] \<and>
    (\<forall>old. length old = length md \<longrightarrow>
      readMeterData fp index slave slaveIndex mType mdt adj mt old s
        = Some (0, old[unat index := d], s'))"
proof -
  obtain steps where steps: "meter_steps fp slaveIndex mType adj mt = Some steps"
    using assms(2) by (auto simp: meter_steps_def)
  from assms(1) steps obtain d0 where
    "run_steps mb_transact mb_response mb_pause slave steps (md ! unat index) s = Some (0, d0, s')"
    and md': "md' = md[unat index := d0\<lparr>md_mdt := mdt\<rparr>]"
    by (auto simp: readMeterData_def split: option.splits)
  from run_steps_success [OF this(1)] obtain bs where
    d0: "d0 = apply_all steps bs (md ! unat index)" and
    all: "\<And>e. run_steps mb_transact mb_response mb_pause slave steps e s
            = Some (0, apply_all steps bs e, s')"
    by blast
  have "readMeterData fp index slave slaveIndex mType mdt adj mt old s
      = Some (0, old[unat index := d0\<lparr>md_mdt := mdt\<rparr>], s')" for old
    using steps all meter_steps_overwrite [OF steps, where bs = bs and d = "old ! unat index" and t = mdt
        and e = "md ! unat index"]
    by (simp add: readMeterData_def d0)
  with md' show ?thesis by (intro exI [of _ "d0\<lparr>md_mdt := mdt\<rparr>"]) simp
qed

text \<open>
  A meter type with no case reports success at once, with no transaction and the old data in
  place: the caller takes the stale slot for a reading.
\<close>

theorem readMeterData_unknown_type:
  assumes "mType \<notin> {dts353, eastron, iem3255, heyuan3, heyuan1, generic3, generic1}"
  shows "readMeterData fp index slave slaveIndex mType mdt adj mt md s = Some (0, md, s)"
  using assms by (simp add: readMeterData_def meter_steps_def)

lemma flow_steps_overwrite:
  "(apply_all (flow_steps fp adj) bs d)\<lparr>fd_mdt := t\<rparr> = (apply_all (flow_steps fp adj) bs e)\<lparr>fd_mdt := t\<rparr>"
  by (cases d; cases e) (simp add: flow_steps_def)

text \<open>
  C17: The flow meter's driver: it returns within four transactions; a failure keeps the stamp; a
  success stamps the record and replaces every field.
\<close>

theorem readFlowData_correct:
  assumes "bus_ready 4 s"
  shows "\<exists>result fd' s'. readFlowData fp slave mdt adj fd s = Some (result, fd', s') \<and>
    (if result = 0
     then fd_mdt fd' = mdt \<and> (\<forall>old. readFlowData fp slave mdt adj old s = Some (0, fd', s'))
     else fd_mdt fd' = fd_mdt fd)"
proof -
  let ?run = "run_steps mb_transact mb_response mb_pause slave (flow_steps fp adj)"
  have "asks (flow_steps fp adj) = 4" by (simp add: flow_steps_def)
  then obtain result d s' where run: "?run fd s = Some (result, d, s')"
    using modbus_link.run_steps_ends [of "flow_steps fp adj" s slave fd] assms by auto
  show ?thesis
  proof (cases "result = 0")
    case True
    with run have "?run fd s = Some (0, d, s')" by simp
    from run_steps_success [OF this] obtain bs where "d = apply_all (flow_steps fp adj) bs fd"
      "\<And>e. ?run e s = Some (0, apply_all (flow_steps fp adj) bs e, s')" by blast
    with True run show ?thesis
      using flow_steps_overwrite [where fp = fp and adj = adj and bs = bs and t = mdt and e = fd] by (simp add: readFlowData_def)
  next
    case False
    have "fd_mdt d = fd_mdt fd"
      by (rule run_steps_keeps [OF run]) (auto simp: flow_steps_def)
    with False run show ?thesis by (simp add: readFlowData_def)
  qed
qed

lemma lowWord_eq: "lowWord w = ucast w"
proof -
  have m: "(0xFFFF :: u32) = mask 16" by (simp add: mask_eq_exp_minus_1)
  show ?thesis
    unfolding lowWord_def m by (rule bit_word_eqI) (simp add: bit_simps)
qed

text \<open>
  The word order of the meters: the two registers \<open>highWord f\<close>, \<open>lowWord f\<close> give back the float
  \<open>f\<close>; \<open>u16Tou32\<close> takes its words the other way round.
\<close>

theorem wordToFloat_words:
  "wordToFloat (highWord f) (lowWord f) = f \<and> u16Tou32 (lowWord f) (highWord f) = f \<and>
   highWord (wordToFloat h l) = h \<and> lowWord (wordToFloat h l) = l"
proof (intro conjI)
  show a: "wordToFloat (highWord f) (lowWord f) = f"
    by (rule bit_word_eqI)
       (auto simp: wordToFloat_def highWord_def lowWord_eq bit_simps dest: bit_imp_le_length)
  show "u16Tou32 (lowWord f) (highWord f) = f"
    using a by (simp add: u16Tou32_def wordToFloat_def)
  show "highWord (wordToFloat h l) = h"
    by (rule bit_word_eqI)
       (auto simp: wordToFloat_def highWord_def bit_simps dest: bit_imp_le_length)
  show "lowWord (wordToFloat h l) = l"
    by (rule bit_word_eqI)
       (auto simp: wordToFloat_def lowWord_eq bit_simps dest: bit_imp_le_length)
qed


section \<open>Concrete runs\<close>

text \<open>A bus on which nobody answers, and one on which meter 1 answers everything with one register.\<close>

definition dead_bus :: "nat \<Rightarrow> bus" where
  "dead_bus n = \<lparr>calls = replicate n (0, \<lambda>i. 0), reads = replicate (260 * n) (RxNone, 1000), outs = []\<rparr>"

definition live_bus :: "nat \<Rightarrow> link \<Rightarrow> bool" where
  "live_bus n s \<longleftrightarrow> length (responseBuffer (fst s)) = ku8MaxBufferSize \<and>
     calls (snd s) = replicate n (0, \<lambda>i. 0) \<and>
     reads (snd s) = concat (replicate n (bytes_at one_register))"

lemma bus_ready_dead: "bus_ready n (m, dead_bus n)"
  by (auto simp: bus_ready_def dead_bus_def timed_def)

lemma dead_bus_reads: "reads (dead_bus (Suc n)) = (RxNone, 1000) # replicate (259 + 260 * n) (RxNone, 1000)"
proof -
  have "260 * Suc n = Suc (259 + 260 * n)" by simp
  then show ?thesis by (simp only: dead_bus_def bus.simps replicate_Suc)
qed

lemma dead_bus_transact:
  "\<exists>s'. mb_transact slave addr qty fn (m, dead_bus (Suc n)) = Some (ku8MBResponseTimedOut, s')"
  using masterTransaction_timeout [OF _ dead_bus_reads, of n 0 "\<lambda>i. 0" "replicate n (0, \<lambda>i. 0)"]
  by (simp add: mb_transact_def dead_bus_def)

definition live_link :: "nat \<Rightarrow> link" where
  "live_link n = (idle_master, \<lparr>calls = replicate n (0, \<lambda>i. 0),
     reads = concat (replicate n (bytes_at one_register)), outs = []\<rparr>)"

lemma live_link: "live_bus n (live_link n)"
  by (simp add: live_bus_def live_link_def)

lemma live_bus_transact:
  assumes "live_bus (Suc n) s"
  shows "\<exists>s'. mb_transact 1 addr qty 3 s = Some (0, s') \<and> live_bus n s'"
proof -
  obtain m w where s: "s = (m, w)" by (cases s)
  with assms have "masterTransaction 1 addr qty 3 m w =
    Some (ku8MBSuccess, m\<lparr>responseBuffer := reg_words (take (unat (2 :: u8)) [1, 2, 0x38, 0x15])
                                    @ drop (unat (2 :: u8) div 2) (responseBuffer m)\<rparr>,
      w\<lparr>calls := replicate n (0, \<lambda>i. 0), reads := concat (replicate n (bytes_at one_register)),
        outs := outs w @ transmit m (request_frame 1 addr qty 3)\<rparr>)"
    using masterTransaction_response [where fn = 3 and m = m and bts = one_register
      and w = w and slave = 1 and evs = "concat (replicate n (bytes_at one_register))" and n = 2
      and payload = "[1, 2, 0x38, 0x15]" and start = 0 and stack = "\<lambda>i. 0"
      and rest = "replicate n (0, \<lambda>i. 0)" and addr = addr and qty = qty]
    by (simp add: live_bus_def one_register_crc del: crc16_bytes_Cons)
  with s assms show ?thesis by (simp add: mb_transact_def live_bus_def)
qed

lemma live_bus_run:
  "live_bus (asks steps) s \<Longrightarrow> \<forall>addr qty fn upd. Ask addr qty fn upd \<in> set steps \<longrightarrow> fn = 3 \<Longrightarrow>
   \<exists>d' s'. run_steps mb_transact mb_response mb_pause 1 steps d s = Some (0, d', s')"
proof (induction steps arbitrary: d s)
  case (Cons st steps)
  show ?case
  proof (cases st)
    case (Ask addr qty fn upd)
    have rest: "\<forall>addr qty fn upd. Ask addr qty fn upd \<in> set steps \<longrightarrow> fn = 3"
      using Cons.prems(2) by auto
    have fn: "fn = 3" using Cons.prems(2) Ask by auto
    have "live_bus (Suc (asks steps)) s" using Cons.prems(1) Ask by simp
    then obtain s' where "mb_transact 1 addr qty 3 s = Some (0, s')" "live_bus (asks steps) s'"
      using live_bus_transact by blast
    moreover from Cons.IH [OF this(2) rest] obtain d' s'' where
      "run_steps mb_transact mb_response mb_pause 1 steps (upd (mb_response s') d) s' = Some (0, d', s'')"
      by blast
    ultimately show ?thesis using Ask fn by simp
  next
    case (Pause t)
    then have "live_bus (asks steps) (mb_pause t s)"
      using Cons.prems(1) by (simp add: mb_pause_def live_bus_def)
    then show ?thesis using Cons.IH Cons.prems(2) Pause by simp
  qed
qed simp

abbreviation (input) any_fpu :: fpu where
  "any_fpu \<equiv> \<lparr>fmul = (\<lambda>a b. a), fint = (\<lambda>a b. a), fint64 = (\<lambda>a b. ucast a), fquot = (\<lambda>a n b. a),
     fpercent = (\<lambda>a b. a), flt = (\<lambda>a b. False), fsub = (\<lambda>a b. a)\<rparr>"

abbreviation (input) no_data :: meterData where
  "no_data \<equiv> \<lparr>md_mdt = 77, md_watt = 0, md_wattHour = 0, md_pf = 0, md_varh = 0, md_i0 = 0,
     md_i1 = 0, md_i2 = 0, md_v0 = 0, md_v1 = 0, md_v2 = 0\<rparr>"

lemma readMeterData_returns_witness:
  "\<exists>result md' s'. readMeterData any_fpu 0 1 0 heyuan3 5 (replicate 10 0) (replicate 11 3)
     [no_data] (idle_master, dead_bus 10) = Some (result, md', s')"
  by (rule readMeterData_returns) (rule bus_ready_dead)

lemma readMeterData_failure_keeps_stamp_witness:
  "\<exists>result md' s'. readMeterData any_fpu 0 1 0 dts353 5 (replicate 10 0) [] [no_data]
     (idle_master, dead_bus 1) = Some (result, md', s') \<and> result \<noteq> 0 \<and> md_mdt (md' ! 0) = 77"
proof -
  obtain s1 where "mb_transact 1 0x0E 6 3 (idle_master, dead_bus (Suc 0)) = Some (0xE2, s1)"
    using dead_bus_transact [of 1 "0x0E" 6 3 idle_master 0] by auto
  then have "readMeterData any_fpu 0 1 0 dts353 5 (replicate 10 0) [] [no_data]
     (idle_master, dead_bus 1) = Some (0xE2, [no_data], s1)"
    by (simp add: readMeterData_def meter_steps_def dts353_steps_def)
  from this readMeterData_failure_keeps_stamp [OF this]
  show ?thesis by auto
qed

lemma readMeterData_success_is_fresh_witness:
  "\<exists>md' s'. readMeterData any_fpu 0 1 0 generic1 5 (replicate 10 0) (replicate 11 3) [no_data]
     (live_link 6) = Some (0, md', s') \<and> md_mdt (md' ! 0) = 5"
proof -
  let ?steps = "generic1_steps any_fpu (replicate 10 0) (replicate 11 3)"
  have "\<exists>d' s'. run_steps mb_transact mb_response mb_pause 1 ?steps no_data (live_link 6) =
      Some (0, d', s')"
  proof (rule live_bus_run)
    have "asks ?steps = 6" by (simp add: generic1_steps_def)
    then show "live_bus (asks ?steps) (live_link 6)" by (simp only: live_link)
  qed (auto simp: generic1_steps_def)
  then obtain d' s' where "readMeterData any_fpu 0 1 0 generic1 5 (replicate 10 0) (replicate 11 3)
      [no_data] (live_link 6) = Some (0, [d'\<lparr>md_mdt := 5\<rparr>], s')"
    by (auto simp: readMeterData_def meter_steps_def)
  from this readMeterData_success_is_fresh [OF this] show ?thesis by auto
qed

lemma readMeterData_unknown_type_witness:
  "readMeterData any_fpu 0 1 0 6 5 [] [] [no_data] (idle_master, dead_bus 0) =
     Some (0, [no_data], (idle_master, dead_bus 0))"
  by (rule readMeterData_unknown_type) simp

lemma readFlowData_correct_witness:
  "\<exists>result fd' s'. readFlowData any_fpu 1 5 (replicate 9 0)
     \<lparr>fd_mdt = 7, fd_inst_flux = 0, fd_ins_heat_flow = 0, fd_tm1 = 0, fd_tm2 = 0,
      fd_signal_ratio = 0, fd_reynolds = 0, fd_q_str = 0, fd_up_str = 0, fd_down_str = 0\<rparr>
     (idle_master, dead_bus 4) = Some (result, fd', s')"
  using readFlowData_correct [OF bus_ready_dead, of any_fpu 1 5 "replicate 9 0" _ idle_master]
  by blast

end
