(* ===== verification/SpiFlash.thy ===== *)
theory SpiFlash
  imports Prelude
begin

unbundle bit_operations_syntax

text \<open>
  \<open>SPIFlash.cpp\<close>, the NOR flash driver under the record store: status polling with its timeouts,
  the write-enable handshake, the address check, the check that cells are erased, page-wise
  programming with read-back, reading, sector erase and the identification of the chip.

  The chip is hardware behind four operations: the chip-select line, the exchange of a byte and the
  millisecond clock. They are the parameter \<open>chip_ops\<close>; what the driver relies on is stated by the
  locale \<open>nor_flash\<close>, and the locale is interpreted on a chip with real timing.
\<close>

section \<open>The chip and the state of the driver\<close>

record 'c chip_ops =
  cs_low :: "'c \<Rightarrow> 'c"
  cs_high :: "'c \<Rightarrow> 'c"
  xfer :: "u8 \<Rightarrow> 'c \<Rightarrow> u8 \<times> 'c"
  millis :: "'c \<Rightarrow> u32 \<times> 'c"

record 'c spiflash =
  chip :: 'c
  currentAddress :: u32
  status :: u8            \<comment> \<open>\<open>state\<close>, the last status register read\<close>
  errorcode :: u8
  SPIBusState :: bool
  manufacturerID :: u8
  memoryTypeID :: u8
  capacityID :: u8
  supported :: u16
  sfdp :: u32
  capacity :: u32
  eraseTime :: u32
  pageOverflow :: bool

abbreviation (input) PAGEPROG :: u8 where "PAGEPROG \<equiv> 0x02"
abbreviation (input) READDATA :: u8 where "READDATA \<equiv> 0x03"
abbreviation (input) FASTREAD :: u8 where "FASTREAD \<equiv> 0x0B"
abbreviation (input) READSTAT1 :: u8 where "READSTAT1 \<equiv> 0x05"
abbreviation (input) WRITEENABLE :: u8 where "WRITEENABLE \<equiv> 0x06"
abbreviation (input) SECTORERASE :: u8 where "SECTORERASE \<equiv> 0x20"
abbreviation (input) JEDECID :: u8 where "JEDECID \<equiv> 0x9F"
abbreviation (input) READSFDP :: u8 where "READSFDP \<equiv> 0x5A"
abbreviation (input) NULLBYTE :: u8 where "NULLBYTE \<equiv> 0x00"
abbreviation (input) DUMMYBYTE :: u8 where "DUMMYBYTE \<equiv> 0xEE"
abbreviation (input) WINBOND_MANID :: u8 where "WINBOND_MANID \<equiv> 0xEF"
abbreviation (input) MICROCHIP_MANID :: u8 where "MICROCHIP_MANID \<equiv> 0xBF"
abbreviation (input) CALLBEGIN :: u8 where "CALLBEGIN \<equiv> 0x01"
abbreviation (input) UNKNOWNCHIP :: u8 where "UNKNOWNCHIP \<equiv> 0x02"
abbreviation (input) UNKNOWNCAP :: u8 where "UNKNOWNCAP \<equiv> 0x03"
abbreviation (input) CHIPBUSY :: u8 where "CHIPBUSY \<equiv> 0x04"
abbreviation (input) OUTOFBOUNDS :: u8 where "OUTOFBOUNDS \<equiv> 0x05"
abbreviation (input) CANTENWRITE :: u8 where "CANTENWRITE \<equiv> 0x06"
abbreviation (input) NORESPONSE :: u8 where "NORESPONSE \<equiv> 0x0C"
abbreviation (input) BUSY_TIMEOUT :: u32 where "BUSY_TIMEOUT \<equiv> 10"

section \<open>Bytes on the bus\<close>

primrec xfers :: "('c, 'z) chip_ops_scheme \<Rightarrow> u8 list \<Rightarrow> 'c \<Rightarrow> u8 list \<times> 'c" where
  "xfers io [] c = ([], c)"
| "xfers io (d # ds) c =
     (let (r, c1) = xfer io d c; (rs, c2) = xfers io ds c1 in (r # rs, c2))"

text \<open>\<open>_transferAddress\<close> sends 24 bits.\<close>

definition address_bytes :: "u32 \<Rightarrow> u8 list" where
  "address_bytes a = [ucast (drop_bit 16 a), ucast (drop_bit 8 a), ucast a]"

text \<open>What \<open>_beginSPI\<close> sends after selecting the chip.\<close>

definition opcode_bytes :: "u8 \<Rightarrow> u32 \<Rightarrow> u8 list" where
  "opcode_bytes opcode a =
     (if opcode = FASTREAD then [opcode, DUMMYBYTE] @ address_bytes a
      else if opcode = READDATA \<or> opcode = PAGEPROG then opcode # address_bytes a
      else [opcode])"

definition beginSPI :: "('c, 'z) chip_ops_scheme \<Rightarrow> u8 \<Rightarrow> 'c spiflash \<Rightarrow> 'c spiflash" where
  "beginSPI io opcode f =
     f\<lparr>SPIBusState := True,
       chip := snd (xfers io (opcode_bytes opcode (currentAddress f)) (cs_low io (chip f)))\<rparr>"

definition chip_deselect :: "('c, 'z) chip_ops_scheme \<Rightarrow> 'c spiflash \<Rightarrow> 'c spiflash" where
  "chip_deselect io f = f\<lparr>chip := cs_high io (chip f)\<rparr>"

definition endSPI :: "('c, 'z) chip_ops_scheme \<Rightarrow> 'c spiflash \<Rightarrow> 'c spiflash" where
  "endSPI io f = (chip_deselect io f)\<lparr>SPIBusState := False\<rparr>"

definition nextBytes :: "('c, 'z) chip_ops_scheme \<Rightarrow> u8 list \<Rightarrow> 'c spiflash \<Rightarrow> u8 list \<times> 'c spiflash" where
  "nextBytes io ds f = (let (rs, c) = xfers io ds (chip f) in (rs, f\<lparr>chip := c\<rparr>))"

section \<open>Status polling and write enable\<close>

text \<open>One \<open>_readStat1\<close>, on the chip alone.\<close>

definition stat1 :: "('c, 'z) chip_ops_scheme \<Rightarrow> 'c \<Rightarrow> u8 \<times> 'c" where
  "stat1 io c =
     (let (rs, c1) = xfers io [READSTAT1] (cs_low io c); (b, c2) = xfer io NULLBYTE c1
      in (b, cs_high io c2))"

text \<open>
  The \<open>do\<close>-loop of \<open>_notBusy\<close>, from its start time on: the flag is false after a timeout. The
  value \<open>None\<close> is a loop that does not end.
\<close>

partial_function (option) poll ::
    "('c, 'z) chip_ops_scheme \<Rightarrow> u32 \<Rightarrow> u32 \<Rightarrow> 'c \<Rightarrow> (bool \<times> u8 \<times> 'c) option" where
  "poll io timeout start c =
     (let (b, c1) = stat1 io c; (t, c2) = millis io c1
      in if t - start > timeout then Some (False, b, c2)
         else if bit b 0 then poll io timeout start c2
         else Some (True, b, c2))"

definition wait_ready ::
    "('c, 'z) chip_ops_scheme \<Rightarrow> u32 \<Rightarrow> 'c \<Rightarrow> (bool \<times> u8 \<times> 'c) option" where
  "wait_ready io timeout c = (let (start, c1) = millis io c in poll io timeout start c1)"

definition notBusy ::
    "('c, 'z) chip_ops_scheme \<Rightarrow> u32 \<Rightarrow> 'c spiflash \<Rightarrow> (bool \<times> 'c spiflash) option" where
  "notBusy io timeout f =
     (case wait_ready io timeout (chip f) of
        None \<Rightarrow> None
      | Some (ok, b, c) \<Rightarrow>
          let f1 = f\<lparr>SPIBusState := True, chip := c, status := b\<rparr>
          in Some (if ok then (True, f1) else (False, endSPI io (f1\<lparr>errorcode := CHIPBUSY\<rparr>))))"

text \<open>The \<open>do\<close>-loop of \<open>_writeEnable\<close>.\<close>

partial_function (option) enable ::
    "('c, 'z) chip_ops_scheme \<Rightarrow> u32 \<Rightarrow> u32 \<Rightarrow> 'c \<Rightarrow> (bool \<times> u8 \<times> 'c) option" where
  "enable io timeout start c =
     (let (rs, c1) = xfers io [WRITEENABLE] (cs_low io c);
          (b, c2) = stat1 io (cs_high io c1);
          (t, c3) = millis io c2
      in if t - start > timeout then Some (False, b, c3)
         else if \<not> bit b 1 then enable io timeout start c3
         else Some (True, b, c3))"

definition wait_enabled ::
    "('c, 'z) chip_ops_scheme \<Rightarrow> u32 \<Rightarrow> u8 \<Rightarrow> 'c \<Rightarrow> (bool \<times> u8 \<times> 'c) option" where
  "wait_enabled io timeout b c =
     (let (start, c1) = millis io c
      in if \<not> bit b 1 then enable io timeout start c1 else Some (True, b, c1))"

definition writeEnable ::
    "('c, 'z) chip_ops_scheme \<Rightarrow> 'c spiflash \<Rightarrow> (bool \<times> 'c spiflash) option" where
  "writeEnable io f =
     (case wait_enabled io 10 (status f) (chip f) of
        None \<Rightarrow> None
      | Some (ok, b, c) \<Rightarrow>
          let f1 = f\<lparr>SPIBusState := (SPIBusState f \<or> \<not> bit (status f) 1), chip := c, status := b\<rparr>
          in Some (if ok then (True, f1) else (False, endSPI io (f1\<lparr>errorcode := CANTENWRITE\<rparr>))))"

text \<open>The condition \<open>_notBusy() && _writeEnable()\<close>.\<close>

definition ready_to_write ::
    "('c, 'z) chip_ops_scheme \<Rightarrow> 'c spiflash \<Rightarrow> (bool \<times> 'c spiflash) option" where
  "ready_to_write io f =
     (case notBusy io BUSY_TIMEOUT f of
        None \<Rightarrow> None
      | Some (ok, f1) \<Rightarrow> if ok then writeEnable io f1 else Some (False, f1))"

section \<open>Checks before an access\<close>

definition addressCheck :: "u32 \<Rightarrow> u32 \<Rightarrow> 'c spiflash \<Rightarrow> bool \<times> 'c spiflash" where
  "addressCheck address sz f =
     (if errorcode f = UNKNOWNCAP \<or> errorcode f = NORESPONSE then (False, f)
      else if eraseTime f = 0 then (False, f\<lparr>errorcode := CALLBEGIN\<rparr>)
      else if list_ex (\<lambda>i. capacity f \<le> address + of_nat i) [0..<unat sz] then
        if \<not> pageOverflow f then (False, f\<lparr>errorcode := OUTOFBOUNDS\<rparr>)
        else (True, f\<lparr>currentAddress := 0\<rparr>)
      else (True, f\<lparr>currentAddress := address\<rparr>))"

text \<open>Reads until a byte is not 0xFF; every way out deselects the chip.\<close>

primrec all_erased :: "('c, 'z) chip_ops_scheme \<Rightarrow> nat \<Rightarrow> 'c \<Rightarrow> bool \<times> 'c" where
  "all_erased io 0 c = (True, c)"
| "all_erased io (Suc n) c =
     (let (b, c1) = xfer io NULLBYTE c in if b \<noteq> 0xFF then (False, c1) else all_erased io n c1)"

definition notPrevWritten :: "('c, 'z) chip_ops_scheme \<Rightarrow> u32 \<Rightarrow> 'c spiflash \<Rightarrow> bool \<times> 'c spiflash" where
  "notPrevWritten io sz f =
     (let f1 = beginSPI io READDATA f; (ok, c) = all_erased io (unat sz) (chip f1)
      in (ok, f1\<lparr>chip := cs_high io c\<rparr>))"

definition prep_write ::
    "('c, 'z) chip_ops_scheme \<Rightarrow> u32 \<Rightarrow> u32 \<Rightarrow> 'c spiflash \<Rightarrow> (bool \<times> 'c spiflash) option" where
  "prep_write io address sz f =
     (let (ok, f1) = addressCheck address sz f
      in if \<not> ok then Some (False, f1)
         else case ready_to_write io f1 of
                None \<Rightarrow> None
              | Some (ok, f2) \<Rightarrow> Some (if ok then notPrevWritten io sz f2 else (False, f2)))"

definition prep_read ::
    "('c, 'z) chip_ops_scheme \<Rightarrow> u32 \<Rightarrow> u32 \<Rightarrow> 'c spiflash \<Rightarrow> (bool \<times> 'c spiflash) option" where
  "prep_read io address sz f =
     (let (ok, f1) = addressCheck address sz f
      in if \<not> ok then Some (False, f1) else notBusy io BUSY_TIMEOUT f1)"

definition prep ::
    "('c, 'z) chip_ops_scheme \<Rightarrow> u8 \<Rightarrow> u32 \<Rightarrow> u32 \<Rightarrow> 'c spiflash \<Rightarrow> (bool \<times> 'c spiflash) option" where
  "prep io opcode address sz f =
     (if opcode = PAGEPROG then prep_write io address sz f else prep_read io address sz f)"

section \<open>Reading, programming, erasing\<close>

text \<open>The bytes read are the second component; the buffer keeps its contents when there are none.\<close>

definition readByteArray ::
    "('c, 'z) chip_ops_scheme \<Rightarrow> u32 \<Rightarrow> u16 \<Rightarrow> bool \<Rightarrow> 'c spiflash \<Rightarrow>
     (bool \<times> u8 list \<times> 'c spiflash) option" where
  "readByteArray io address bufferSize fastRead f =
     (case prep io READDATA address (ucast bufferSize) f of
        None \<Rightarrow> None
      | Some (ok, f1) \<Rightarrow>
          if \<not> ok then Some (False, [], f1)
          else let f2 = beginSPI io (if fastRead then FASTREAD else READDATA) f1;
                   (rs, f3) = nextBytes io (replicate (unat bufferSize) NULLBYTE) f2
               in Some (True, rs, endSPI io f3))"

text \<open>The page loop of \<open>writeByteArray\<close>: the first chunk ends at the page boundary.\<close>

function program_pages ::
    "('c, 'z) chip_ops_scheme \<Rightarrow> nat \<Rightarrow> u8 list \<Rightarrow> 'c spiflash \<Rightarrow> (bool \<times> 'c spiflash) option" where
  "program_pages io maxBytes data f =
     (if data = [] \<or> maxBytes = 0 then Some (True, f)
      else let chunk = take maxBytes data
           in case ready_to_write io f of
                None \<Rightarrow> None
              | Some (ok, f1) \<Rightarrow>
                  if \<not> ok then Some (False, f1)
                  else let f2 = snd (nextBytes io chunk (beginSPI io PAGEPROG f1));
                           f3 = f2\<lparr>currentAddress := currentAddress f2 + of_nat (length chunk)\<rparr>
                       in program_pages io 256 (drop maxBytes data) (chip_deselect io f3))"
  by pat_completeness auto
termination by (relation "measure (\<lambda>(io, maxBytes, data, f). length data)") auto

declare program_pages.simps [simp del]

text \<open>The read-back: a mismatch returns at once, with the chip still selected.\<close>

primrec verify :: "('c, 'z) chip_ops_scheme \<Rightarrow> u8 list \<Rightarrow> 'c \<Rightarrow> bool \<times> 'c" where
  "verify io [] c = (True, c)"
| "verify io (d # ds) c =
     (let (b, c1) = xfer io NULLBYTE c in if b \<noteq> d then (False, c1) else verify io ds c1)"

definition read_back ::
    "('c, 'z) chip_ops_scheme \<Rightarrow> u32 \<Rightarrow> u8 list \<Rightarrow> 'c spiflash \<Rightarrow> (bool \<times> 'c spiflash) option" where
  "read_back io address data f =
     (case notBusy io BUSY_TIMEOUT f of
        None \<Rightarrow> None
      | Some (ok, f1) \<Rightarrow>
          if \<not> ok then Some (False, f1)
          else let f2 = f1\<lparr>currentAddress := address\<rparr>;
                   c = snd (xfers io (READDATA # address_bytes address) (cs_low io (chip f2)));
                   (same, c') = verify io data c
               in Some (if same then (True, endSPI io (f2\<lparr>chip := c'\<rparr>))
                        else (False, f2\<lparr>chip := c'\<rparr>)))"

definition writeByteArray ::
    "('c, 'z) chip_ops_scheme \<Rightarrow> u32 \<Rightarrow> u8 list \<Rightarrow> bool \<Rightarrow> 'c spiflash \<Rightarrow> (bool \<times> 'c spiflash) option" where
  "writeByteArray io address data errorCheck f =
     (case prep io PAGEPROG address (of_nat (length data)) f of
        None \<Rightarrow> None
      | Some (ok, f1) \<Rightarrow>
          if \<not> ok then Some (False, f1)
          else case program_pages io (256 - unat address mod 256) data f1 of
                 None \<Rightarrow> None
               | Some (ok, f2) \<Rightarrow>
                   if \<not> ok then Some (False, f2)
                   else if \<not> errorCheck then Some (True, endSPI io f2)
                   else read_back io address data f2)"

text \<open>The last address byte of an erase is sent as 0.\<close>

definition eraseSector ::
    "('c, 'z) chip_ops_scheme \<Rightarrow> u32 \<Rightarrow> 'c spiflash \<Rightarrow> (bool \<times> 'c spiflash) option" where
  "eraseSector io address f =
     (case ready_to_write io f of
        None \<Rightarrow> None
      | Some (ok, f1) \<Rightarrow>
          if \<not> ok then Some (False, f1)
          else let f2 = snd (nextBytes io [ucast (drop_bit 16 address), ucast (drop_bit 8 address), 0]
                               (beginSPI io SECTORERASE f1))
               in notBusy io 500 (endSPI io f2))"

section \<open>Identification\<close>

abbreviation (input) capID :: "u8 list" where
  "capID \<equiv> [0x10, 0x11, 0x12, 0x13, 0x14, 0x15, 0x16, 0x17, 0x18, 0x19, 0x43]"

abbreviation (input) memSize :: "u32 list" where
  "memSize \<equiv> [64 * 1024, 128 * 1024, 256 * 1024, 512 * 1024, 1 * 1024 * 1024, 2 * 1024 * 1024,
     4 * 1024 * 1024, 8 * 1024 * 1024, 16 * 1024 * 1024, 32 * 1024 * 1024, 8 * 1024 * 1024]"

abbreviation (input) eraseTimes :: "u32 list" where
  "eraseTimes \<equiv> [1000, 2000, 2000, 4000, 6000, 10000, 15000, 100000, 200000, 400000, 50]"

definition getJedecId ::
    "('c, 'z) chip_ops_scheme \<Rightarrow> 'c spiflash \<Rightarrow> (bool \<times> 'c spiflash) option" where
  "getJedecId io f =
     (case notBusy io BUSY_TIMEOUT f of
        None \<Rightarrow> None
      | Some (ok, f1) \<Rightarrow>
          if \<not> ok then Some (False, f1)
          else let (rs, f2) = nextBytes io [NULLBYTE, NULLBYTE, NULLBYTE] (beginSPI io JEDECID f1);
                   f3 = chip_deselect io (f2\<lparr>manufacturerID := rs ! 0, memoryTypeID := rs ! 1,
                                            capacityID := rs ! 2\<rparr>)
               in Some (if rs ! 0 = 0 \<or> rs ! 1 = 0 \<or> rs ! 2 = 0
                        then (False, f3\<lparr>errorcode := NORESPONSE\<rparr>) else (True, f3)))"

text \<open>\<open>_getSFDP\<close> adds the four bytes to what \<open>_chip.sfdp\<close> held.\<close>

definition getSFDP ::
    "('c, 'z) chip_ops_scheme \<Rightarrow> 'c spiflash \<Rightarrow> (bool \<times> 'c spiflash) option" where
  "getSFDP io f =
     (case notBusy io BUSY_TIMEOUT f of
        None \<Rightarrow> None
      | Some (ok, f1) \<Rightarrow>
          if \<not> ok then Some (False, f1)
          else let f2 = (beginSPI io READSFDP f1)\<lparr>currentAddress := 0\<rparr>;
                   f3 = snd (nextBytes io (address_bytes 0 @ [DUMMYBYTE]) f2);
                   (rs, f4) = nextBytes io [NULLBYTE, NULLBYTE, NULLBYTE, NULLBYTE] f3;
                   v = for_upto 4 (\<lambda>i s. s + push_bit (8 * i) (ucast (rs ! i))) (sfdp f4)
               in Some (v = 0x50444653, chip_deselect io (f4\<lparr>sfdp := v\<rparr>)))"

text \<open>
  \<open>KB8\<close> is the unparenthesised macro \<open>8L * K\<close>: the erase time of a chip of user-given size is
  \<open>capacity / 8 * 1024\<close>.
\<close>

definition chipID ::
    "('c, 'z) chip_ops_scheme \<Rightarrow> 'c spiflash \<Rightarrow> (bool \<times> 'c spiflash) option" where
  "chipID io f =
     (case getSFDP io f of
        None \<Rightarrow> None
      | Some (_, f1) \<Rightarrow>
          (case getJedecId io f1 of
             None \<Rightarrow> None
           | Some (ok, f2) \<Rightarrow> Some (
               if \<not> ok then (False, f2)
               else if capacity f2 = 0 then
                 let f3 = f2\<lparr>supported := ucast (manufacturerID f2)\<rparr>
                 in if manufacturerID f3 = WINBOND_MANID \<or> manufacturerID f3 = MICROCHIP_MANID then
                      (True, for_upto 11 (\<lambda>i f. if capacityID f = capID ! i
                         then f\<lparr>capacity := memSize ! i, eraseTime := eraseTimes ! i\<rparr> else f) f3)
                    else (False, f3\<lparr>errorcode := UNKNOWNCAP\<rparr>)
               else (True, f2\<lparr>eraseTime := capacity f2 div 8 * 1024, supported := 0,
                              errorcode := UNKNOWNCHIP\<rparr>))))"

definition flash_begin ::
    "('c, 'z) chip_ops_scheme \<Rightarrow> u32 \<Rightarrow> 'c spiflash \<Rightarrow> (bool \<times> 'c spiflash) option" where
  "flash_begin io chipSize f =
     chipID io (if chipSize \<noteq> 0 then f\<lparr>capacity := chipSize div 8\<rparr> else f)"

definition getCapacity :: "'c spiflash \<Rightarrow> u32" where
  "getCapacity f = capacity f"

definition getMaxPage :: "'c spiflash \<Rightarrow> u32" where
  "getMaxPage f = capacity f div 256"

definition getJEDECID :: "'c spiflash \<Rightarrow> u32" where
  "getJEDECID f =
     (let a = ucast (manufacturerID f); b = push_bit 8 a OR ucast (memoryTypeID f)
      in push_bit 8 b OR ucast (capacityID f))"

definition getAddress :: "u16 \<Rightarrow> u8 \<Rightarrow> u32" where
  "getAddress page_number offset = push_bit 8 (ucast page_number) + ucast offset"


section \<open>Lemmas on bytes\<close>

lemma xfers_append:
  "xfers io (ds @ es) c =
     (let (rs, c1) = xfers io ds c; (qs, c2) = xfers io es c1 in (rs @ qs, c2))"
  by (induction ds arbitrary: c) (simp_all add: case_prod_beta Let_def)

lemma length_xfers: "length (fst (xfers io ds c)) = length ds"
  by (induction ds arbitrary: c) (simp_all add: case_prod_beta Let_def)

text \<open>The checking loops, as far as they read.\<close>

lemma all_erased_True:
  "all_erased io n c = (True, c') \<longleftrightarrow> xfers io (replicate n NULLBYTE) c = (replicate n 0xFF, c')"
proof (induction n arbitrary: c)
  case (Suc n)
  obtain b c1 where x: "xfer io NULLBYTE c = (b, c1)" by fastforce
  show ?case
    by (cases "xfers io (replicate n NULLBYTE) c1") (use Suc [of c1] x in auto)
qed auto

lemma all_erased_False:
  "all_erased io n c = (False, c') \<Longrightarrow>
   \<exists>k < n. fst (xfers io (replicate n NULLBYTE) c) ! k \<noteq> 0xFF \<and>
     c' = snd (xfers io (replicate (Suc k) NULLBYTE) c)"
proof (induction n arbitrary: c)
  case (Suc n)
  obtain b c1 where x: "xfer io NULLBYTE c = (b, c1)" by fastforce
  show ?case
  proof (cases "b = 0xFF")
    case True
    with Suc.prems x have "all_erased io n c1 = (False, c')" by simp
    from Suc.IH [OF this] obtain k where "k < n" "fst (xfers io (replicate n NULLBYTE) c1) ! k \<noteq> 0xFF"
      "c' = snd (xfers io (replicate (Suc k) NULLBYTE) c1)" by blast
    then show ?thesis using x by (intro exI [of _ "Suc k"]) (simp add: case_prod_beta Let_def)
  next
    case False
    with Suc.prems x show ?thesis by (intro exI [of _ 0]) (simp add: case_prod_beta Let_def)
  qed
qed simp

lemma verify_True:
  "verify io ds c = (True, c') \<longleftrightarrow> xfers io (replicate (length ds) NULLBYTE) c = (ds, c')"
proof (induction ds arbitrary: c)
  case (Cons d ds)
  obtain b c1 where x: "xfer io NULLBYTE c = (b, c1)" by fastforce
  show ?case
    by (cases "xfers io (replicate (length ds) NULLBYTE) c1") (use Cons [of c1] x in auto)
qed auto

section \<open>The chip as an interface\<close>

text \<open>A whole command: select, exchange the bytes, deselect.\<close>

definition command :: "('c, 'z) chip_ops_scheme \<Rightarrow> u8 list \<Rightarrow> 'c \<Rightarrow> u8 list \<times> 'c" where
  "command io ds c = (let (rs, c1) = xfers io ds (cs_low io c) in (rs, cs_high io c1))"

text \<open>
  The NOR chip as its data sheet has it. \<open>idle\<close> chips are deselected and not busy; \<open>cells\<close> is the
  memory, \<open>wel\<close> the write-enable latch. An idle chip answers a poll within the timeout; a page
  program clears bits inside one page and is over within 10 ms, a sector erase sets 4096 bytes to
  0xFF and is over within 500 ms; both need the latch and reset it.
\<close>

locale nor_flash =
  fixes io :: "'c chip_ops"
    and cells :: "'c \<Rightarrow> nat \<Rightarrow> u8"
    and wel :: "'c \<Rightarrow> bool"
    and idle :: "'c \<Rightarrow> bool"
    and cap :: nat
  assumes cap_24: "cap \<le> 2 ^ 24"
    and ready: "idle c \<Longrightarrow> 10 \<le> t \<Longrightarrow> \<exists>b c'. wait_ready io t c = Some (True, b, c') \<and>
      (bit b 1 \<longleftrightarrow> wel c) \<and> idle c' \<and> cells c' = cells c \<and> wel c' = wel c"
    and enabled: "idle c \<Longrightarrow> (bit b 1 \<longleftrightarrow> wel c) \<Longrightarrow>
      \<exists>b' c'. wait_enabled io 10 b c = Some (True, b', c') \<and>
        idle c' \<and> cells c' = cells c \<and> wel c'"
    and read: "idle c \<Longrightarrow> unat a + n \<le> cap \<Longrightarrow>
      command io (READDATA # address_bytes a @ replicate n NULLBYTE) c = (rs, c') \<Longrightarrow>
      drop 4 rs = map (\<lambda>i. cells c (unat a + i)) [0..<n] \<and>
      idle c' \<and> cells c' = cells c \<and> wel c' = wel c"
    and program: "idle c \<Longrightarrow> wel c \<Longrightarrow> ds \<noteq> [] \<Longrightarrow> unat a mod 256 + length ds \<le> 256 \<Longrightarrow>
      unat a + length ds \<le> cap \<Longrightarrow>
      command io (PAGEPROG # address_bytes a @ ds) c = (rs, c') \<Longrightarrow>
      \<exists>b c''. wait_ready io 10 c' = Some (True, b, c'') \<and> \<not> bit b 1 \<and> idle c'' \<and> \<not> wel c'' \<and>
        cells c'' = (\<lambda>i. if unat a \<le> i \<and> i < unat a + length ds
                         then cells c i AND ds ! (i - unat a) else cells c i)"
    and erase: "idle c \<Longrightarrow> wel c \<Longrightarrow> unat a < cap \<Longrightarrow>
      command io [SECTORERASE, ucast (drop_bit 16 a), ucast (drop_bit 8 a), 0] c = (rs, c') \<Longrightarrow>
      \<exists>b c''. wait_ready io 500 c' = Some (True, b, c'') \<and> \<not> bit b 1 \<and> idle c'' \<and> \<not> wel c'' \<and>
        cells c'' = (\<lambda>i. if i div 4096 = unat a div 4096 then 0xFF else cells c i)"

section \<open>What the driver guarantees on such a chip\<close>

text \<open>The driver has identified a chip of \<open>cap\<close> bytes, and no fatal error is recorded.\<close>

definition usable :: "nat \<Rightarrow> 'c spiflash \<Rightarrow> bool" where
  "usable cap f \<longleftrightarrow> errorcode f \<noteq> UNKNOWNCAP \<and> errorcode f \<noteq> NORESPONSE \<and> eraseTime f \<noteq> 0 \<and>
     unat (capacity f) = cap"

text \<open>Polling with timeout \<open>t\<close> ends with an idle chip whose memory is \<open>m\<close>.\<close>

definition settles ::
    "'c chip_ops \<Rightarrow> ('c \<Rightarrow> nat \<Rightarrow> u8) \<Rightarrow> ('c \<Rightarrow> bool) \<Rightarrow> ('c \<Rightarrow> bool) \<Rightarrow> u32 \<Rightarrow> 'c \<Rightarrow> (nat \<Rightarrow> u8) \<Rightarrow> bool" where
  "settles io cells wel idle t c m \<longleftrightarrow>
     (\<exists>b c'. wait_ready io t c = Some (True, b, c') \<and> (bit b 1 \<longleftrightarrow> wel c') \<and> idle c' \<and> cells c' = m)"

text \<open>The memory after programming: bits only go from 1 to 0.\<close>

definition programmed :: "(nat \<Rightarrow> u8) \<Rightarrow> nat \<Rightarrow> u8 list \<Rightarrow> nat \<Rightarrow> u8" where
  "programmed m a ds = (\<lambda>i. if a \<le> i \<and> i < a + length ds then m i AND ds ! (i - a) else m i)"

lemma programmed_append:
  "programmed m a (xs @ ys) = programmed (programmed m a xs) (a + length xs) ys"
  by (rule ext) (auto simp: programmed_def nth_append)

lemma programmed_Nil [simp]: "programmed m a [] = m"
  by (rule ext) (auto simp: programmed_def)

lemma programmed_erased:
  assumes "\<forall>i < length ds. m (a + i) = 0xFF"
  shows "programmed m a ds = (\<lambda>i. if a \<le> i \<and> i < a + length ds then ds ! (i - a) else m i)"
proof
  fix i
  show "programmed m a ds i = (if a \<le> i \<and> i < a + length ds then ds ! (i - a) else m i)"
  proof (cases "a \<le> i \<and> i < a + length ds")
    case True
    then have "i - a < length ds" "a + (i - a) = i" by auto
    with assms have "m i = 0xFF" by metis
    then have "m i = - 1" by simp
    with True show ?thesis by (simp only: programmed_def) simp
  qed (auto simp: programmed_def)
qed

lemma next_page: "(x + (256 - x mod 256)) mod 256 = (0 :: nat)"
proof -
  have "x mod 256 \<le> 256" by (simp add: less_imp_le)
  then have "x + (256 - x mod 256) = (x - x mod 256) + 256"
    by (simp add: mod_less_eq_dividend)
  also have "\<dots> = (x div 256 + 1) * 256" by (simp add: minus_mod_eq_div_mult)
  finally show ?thesis by simp
qed

text \<open>What the polling operations leave alone.\<close>

definition kept :: "'c spiflash \<Rightarrow> 'c spiflash \<Rightarrow> bool" where
  "kept f f' \<longleftrightarrow> errorcode f' = errorcode f \<and> eraseTime f' = eraseTime f \<and>
     capacity f' = capacity f \<and> pageOverflow f' = pageOverflow f"

lemma kept_refl [simp]: "kept f f"
  by (simp add: kept_def)

lemma kept_trans: "kept f g \<Longrightarrow> kept g h \<Longrightarrow> kept f h"
  by (simp add: kept_def)

lemma usable_kept: "usable cap f \<Longrightarrow> kept f f' \<Longrightarrow> usable cap f'"
  by (simp add: usable_def kept_def)

lemma chip_command:
  "chip (chip_deselect io (snd (nextBytes io ds (beginSPI io opcode f)))) =
   snd (command io (opcode_bytes opcode (currentAddress f) @ ds) (chip f))"
  by (simp add: command_def xfers_append beginSPI_def nextBytes_def chip_deselect_def
      case_prod_beta Let_def)

lemma addressCheck_inside:
  assumes "usable cap f" and "unat a + unat n \<le> cap"
  shows "addressCheck a n f = (True, f\<lparr>currentAddress := a\<rparr>)"
proof -
  have "\<not> capacity f \<le> a + of_nat i" if "i < unat n" for i
  proof -
    have "unat (a + of_nat i) = (unat a + i) mod 2 ^ 32"
      by (simp add: unat_word_ariths unat_of_nat mod_simps)
    then have "unat (a + of_nat i) \<le> unat a + i" by simp
    then have "unat (a + of_nat i) < unat (capacity f)"
      using that assms by (simp add: usable_def)
    then show ?thesis by (simp add: word_le_nat_alt)
  qed
  with assms(1) show ?thesis
    by (auto simp: addressCheck_def usable_def list_ex_iff)
qed

text \<open>Between operations the chip is idle and usable.\<close>

definition calm :: "('c \<Rightarrow> bool) \<Rightarrow> nat \<Rightarrow> 'c spiflash \<Rightarrow> bool" where
  "calm idle cap f \<longleftrightarrow> idle (chip f) \<and> usable cap f"

context nor_flash
begin

lemma settles_idle: "idle c \<Longrightarrow> 10 \<le> t \<Longrightarrow> settles io cells wel idle t c (cells c)"
  using ready [of c t] by (auto simp: settles_def)

lemma notBusy_settles:
  assumes "settles io cells wel idle t (chip f) m"
  shows "\<exists>f'. notBusy io t f = Some (True, f') \<and> idle (chip f') \<and> cells (chip f') = m \<and>
    (bit (status f') 1 \<longleftrightarrow> wel (chip f')) \<and> currentAddress f' = currentAddress f \<and> kept f f'"
  using assms by (auto simp: settles_def notBusy_def kept_def Let_def)

lemma ready_to_write_settles:
  assumes "settles io cells wel idle BUSY_TIMEOUT (chip f) m"
  shows "\<exists>f'. ready_to_write io f = Some (True, f') \<and> idle (chip f') \<and> wel (chip f') \<and>
    cells (chip f') = m \<and> currentAddress f' = currentAddress f \<and> kept f f'"
proof -
  from notBusy_settles [OF assms] obtain f1 where f1: "notBusy io BUSY_TIMEOUT f = Some (True, f1)"
    "idle (chip f1)" "cells (chip f1) = m" "bit (status f1) 1 \<longleftrightarrow> wel (chip f1)"
    "currentAddress f1 = currentAddress f" "kept f f1" by blast
  from enabled [OF f1(2,4)] f1 show ?thesis
    by (auto simp: ready_to_write_def writeEnable_def kept_def Let_def)
qed

text \<open>Programming page by page.\<close>

lemma program_pages_ok:
  assumes "settles io cells wel idle BUSY_TIMEOUT (chip f) m"
    and "maxBytes = 256 - unat (currentAddress f) mod 256"
    and "unat (currentAddress f) + length data \<le> cap"
  shows "\<exists>f'. program_pages io maxBytes data f = Some (True, f') \<and> kept f f' \<and>
    settles io cells wel idle BUSY_TIMEOUT (chip f') (programmed m (unat (currentAddress f)) data)"
  using assms
proof (induction "length data" arbitrary: data maxBytes f m rule: less_induct)
  case less
  show ?case
  proof (cases "data = []")
    case True
    with less.prems show ?thesis by (simp add: program_pages.simps)
  next
    case False
    let ?a = "currentAddress f"
    let ?chunk = "take maxBytes data"
    have max: "0 < maxBytes" "maxBytes \<le> 256" using less.prems(2) by simp_all
    obtain f1 where f1: "ready_to_write io f = Some (True, f1)" "idle (chip f1)" "wel (chip f1)"
      "cells (chip f1) = m" "currentAddress f1 = ?a" "kept f f1"
      using ready_to_write_settles [OF less.prems(1)] by blast
    define f2 where "f2 = snd (nextBytes io ?chunk (beginSPI io PAGEPROG f1))"
    define f3 where "f3 = f2\<lparr>currentAddress := currentAddress f2 + of_nat (length ?chunk)\<rparr>"
    define g where "g = chip_deselect io f3"
    have a2: "currentAddress f2 = ?a" "kept f f2"
      using f1 by (simp_all add: f2_def nextBytes_def beginSPI_def kept_def case_prod_beta)
    have chip_g: "chip g = snd (command io (PAGEPROG # address_bytes ?a @ ?chunk) (chip f1))"
    proof -
      have "chip g = chip (chip_deselect io f2)" by (simp add: g_def f3_def chip_deselect_def)
      also have "\<dots> = snd (command io (opcode_bytes PAGEPROG (currentAddress f1) @ ?chunk) (chip f1))"
        unfolding f2_def by (rule chip_command)
      finally show ?thesis using f1 by (simp add: opcode_bytes_def)
    qed
    have chunk: "?chunk \<noteq> []" "unat ?a mod 256 + length ?chunk \<le> 256" "unat ?a + length ?chunk \<le> cap"
      using False max less.prems(2,3) by auto
    obtain rs c' where cmd: "command io (PAGEPROG # address_bytes ?a @ ?chunk) (chip f1) = (rs, c')"
      by fastforce
    from program [OF f1(2,3) chunk cmd]
    have set_g: "settles io cells wel idle BUSY_TIMEOUT (chip g) (programmed m (unat ?a) ?chunk)"
      using chip_g cmd f1(4) by (auto simp: settles_def programmed_def)
    have step: "program_pages io maxBytes data f = program_pages io 256 (drop maxBytes data) g"
      using False max f1(1) by (subst program_pages.simps) (simp add: f2_def f3_def g_def Let_def)
    have g_kept: "kept f g" using a2 by (simp add: g_def f3_def chip_deselect_def kept_def)
    show ?thesis
    proof (cases "drop maxBytes data = []")
      case True
      then have "?chunk = data" by simp
      with step set_g g_kept True show ?thesis by (simp add: program_pages.simps)
    next
      case rest: False
      then have len: "length ?chunk = maxBytes" by simp
      have "unat ?a + maxBytes < 2 ^ 32" using chunk(3) len cap_24 by simp
      then have ag: "unat (currentAddress g) = unat ?a + maxBytes"
        using a2 len by (simp add: g_def f3_def chip_deselect_def unat_word_ariths unat_of_nat)
      have "\<exists>f'. program_pages io 256 (drop maxBytes data) g = Some (True, f') \<and> kept g f' \<and>
        settles io cells wel idle BUSY_TIMEOUT (chip f')
          (programmed (programmed m (unat ?a) ?chunk) (unat (currentAddress g)) (drop maxBytes data))"
      proof (rule less.hyps [OF _ set_g])
        show "length (drop maxBytes data) < length data" using False max by simp
        have "(unat ?a + maxBytes) mod 256 = 0"
          unfolding less.prems(2) by (rule next_page)
        then show "256 = 256 - unat (currentAddress g) mod 256" unfolding ag by simp
        show "unat (currentAddress g) + length (drop maxBytes data) \<le> cap"
          using less.prems(3) rest by (simp add: ag)
      qed
      moreover have "programmed (programmed m (unat ?a) ?chunk) (unat ?a + maxBytes) (drop maxBytes data)
          = programmed m (unat ?a) data"
        using programmed_append [of m "unat ?a" ?chunk "drop maxBytes data"] len by simp
      ultimately show ?thesis
        using step g_kept unfolding ag by (auto intro: kept_trans)
    qed
  qed
qed

text \<open>What a read of \<open>n\<close> bytes brings and where it leaves the chip.\<close>

lemma read_command:
  assumes "idle c" and "unat a + n \<le> cap"
  obtains c1 where
    "xfers io (replicate n NULLBYTE) (snd (xfers io (READDATA # address_bytes a) (cs_low io c)))
       = (map (\<lambda>i. cells c (unat a + i)) [0..<n], c1)"
    and "idle (cs_high io c1)" and "cells (cs_high io c1) = cells c" and "wel (cs_high io c1) = wel c"
proof -
  obtain rs1 c0 where x1: "xfers io (READDATA # address_bytes a) (cs_low io c) = (rs1, c0)" by fastforce
  obtain rs2 c1 where x2: "xfers io (replicate n NULLBYTE) c0 = (rs2, c1)" by fastforce
  have len: "length rs1 = 4"
    using length_xfers [of io "READDATA # address_bytes a" "cs_low io c"] x1
    by (simp add: address_bytes_def)
  have "command io (READDATA # address_bytes a @ replicate n NULLBYTE) c = (rs1 @ rs2, cs_high io c1)"
    using xfers_append [of io "READDATA # address_bytes a" "replicate n NULLBYTE" "cs_low io c"] x1 x2
    by (simp add: command_def)
  from read [OF assms this] len
  have "rs2 = map (\<lambda>i. cells c (unat a + i)) [0..<n]" "idle (cs_high io c1)"
    "cells (cs_high io c1) = cells c" "wel (cs_high io c1) = wel c" by simp_all
  with x1 x2 show thesis by (intro that) simp_all
qed

lemma notPrevWritten_ok:
  assumes "idle (chip f)" and "unat (currentAddress f) + unat n \<le> cap"
  shows "\<exists>f'. notPrevWritten io n f =
      ((\<forall>i < unat n. cells (chip f) (unat (currentAddress f) + i) = 0xFF), f') \<and>
    idle (chip f') \<and> cells (chip f') = cells (chip f) \<and> wel (chip f') = wel (chip f) \<and>
    currentAddress f' = currentAddress f \<and> kept f f'"
proof -
  let ?a = "currentAddress f"
  let ?c = "snd (xfers io (READDATA # address_bytes ?a) (cs_low io (chip f)))"
  let ?blank = "\<forall>i < unat n. cells (chip f) (unat ?a + i) = 0xFF"
  obtain ok c' where e: "all_erased io (unat n) ?c = (ok, c')" by fastforce
  have run: "notPrevWritten io n f = (ok, f\<lparr>SPIBusState := True, chip := cs_high io c'\<rparr>)"
    using e by (simp add: notPrevWritten_def beginSPI_def opcode_bytes_def Let_def)
  have "ok = ?blank \<and> idle (cs_high io c') \<and> cells (cs_high io c') = cells (chip f) \<and>
      wel (cs_high io c') = wel (chip f)"
  proof (cases ok)
    case True
    obtain c1 where
      x: "xfers io (replicate (unat n) NULLBYTE) ?c
           = (map (\<lambda>i. cells (chip f) (unat ?a + i)) [0..<unat n], c1)"
      and c1: "idle (cs_high io c1)" "cells (cs_high io c1) = cells (chip f)"
        "wel (cs_high io c1) = wel (chip f)"
      using read_command [OF assms] by blast
    from e True have "xfers io (replicate (unat n) NULLBYTE) ?c = (replicate (unat n) 0xFF, c')"
      by (simp add: all_erased_True)
    with x have m: "map (\<lambda>i. cells (chip f) (unat ?a + i)) [0..<unat n] = replicate (unat n) 0xFF"
      and "c1 = c'" by simp_all
    have ?blank
    proof (intro allI impI)
      fix i assume i: "i < unat n"
      then have "map (\<lambda>i. cells (chip f) (unat ?a + i)) [0..<unat n] ! i = 0xFF"
        unfolding m by simp
      with i show "cells (chip f) (unat ?a + i) = 0xFF" by simp
    qed
    with True c1 \<open>c1 = c'\<close> show ?thesis by simp
  next
    case False
    with e have "all_erased io (unat n) ?c = (False, c')" by simp
    from all_erased_False [OF this] obtain k where k: "k < unat n"
      "fst (xfers io (replicate (unat n) NULLBYTE) ?c) ! k \<noteq> 0xFF"
      "c' = snd (xfers io (replicate (Suc k) NULLBYTE) ?c)" by blast
    obtain c2 where c2: "xfers io (replicate (unat n) NULLBYTE) ?c
        = (map (\<lambda>i. cells (chip f) (unat ?a + i)) [0..<unat n], c2)"
      using read_command [OF assms] by blast
    with k have "\<not> ?blank" by auto
    have "unat ?a + Suc k \<le> cap" using k(1) assms(2) by simp
    from read_command [OF assms(1) this] obtain c1 where
      "c' = c1" "idle (cs_high io c1)" "cells (cs_high io c1) = cells (chip f)"
        "wel (cs_high io c1) = wel (chip f)"
      using k(3) by (metis snd_conv)
    with False \<open>\<not> ?blank\<close> show ?thesis by simp
  qed
  with run show ?thesis by (simp add: kept_def)
qed

lemma calm_settles: "calm idle cap f \<Longrightarrow> 10 \<le> t \<Longrightarrow> settles io cells wel idle t (chip f) (cells (chip f))"
  by (simp add: calm_def settles_idle)

lemma prep_read_ok:
  assumes "calm idle cap f" and "unat a + unat n \<le> cap"
  shows "\<exists>f'. prep_read io a n f = Some (True, f') \<and> calm idle cap f' \<and> cells (chip f') = cells (chip f) \<and>
    currentAddress f' = a"
proof -
  have "settles io cells wel idle BUSY_TIMEOUT (chip (f\<lparr>currentAddress := a\<rparr>)) (cells (chip f))"
    using calm_settles [OF assms(1)] by simp
  from notBusy_settles [OF this] obtain f' where
    "notBusy io BUSY_TIMEOUT (f\<lparr>currentAddress := a\<rparr>) = Some (True, f')" "idle (chip f')"
    "cells (chip f') = cells (chip f)" "currentAddress f' = a" "kept (f\<lparr>currentAddress := a\<rparr>) f'"
    by auto
  then show ?thesis
    using assms addressCheck_inside [of cap f a n] usable_kept [of cap "f\<lparr>currentAddress := a\<rparr>" f']
    by (auto simp: prep_read_def calm_def usable_def)
qed

lemma prep_write_ok:
  assumes "calm idle cap f" and "unat a + unat n \<le> cap"
  shows "\<exists>f'. prep_write io a n f = Some (\<forall>i < unat n. cells (chip f) (unat a + i) = 0xFF, f') \<and>
    calm idle cap f' \<and> cells (chip f') = cells (chip f) \<and> currentAddress f' = a"
proof -
  let ?f = "f\<lparr>currentAddress := a\<rparr>"
  have u: "usable cap ?f" using assms(1) by (simp add: calm_def usable_def)
  have "settles io cells wel idle BUSY_TIMEOUT (chip ?f) (cells (chip f))"
    using calm_settles [OF assms(1)] by simp
  from ready_to_write_settles [OF this] obtain f1 where f1: "ready_to_write io ?f = Some (True, f1)"
    "idle (chip f1)" "cells (chip f1) = cells (chip f)" "currentAddress f1 = a" "kept ?f f1" by auto
  then have "unat (currentAddress f1) + unat n \<le> cap" using assms(2) by simp
  from notPrevWritten_ok [OF f1(2) this] obtain f2 where
    f2: "notPrevWritten io n f1 = (\<forall>i < unat n. cells (chip f1) (unat (currentAddress f1) + i) = 0xFF, f2)"
    "idle (chip f2)" "cells (chip f2) = cells (chip f1)" "currentAddress f2 = currentAddress f1"
    "kept f1 f2" by blast
  have "prep_write io a n f = Some (\<forall>i < unat n. cells (chip f) (unat a + i) = 0xFF, f2)"
    using assms f1 f2(1) addressCheck_inside [of cap f a n] by (simp add: prep_write_def calm_def)
  moreover have "usable cap f2" using u f1(5) f2(5) by (metis usable_kept)
  ultimately show ?thesis using f1 f2 by (simp add: calm_def)
qed

lemma readByteArray_ok:
  assumes "calm idle cap f" and "unat a + unat n \<le> cap"
  shows "\<exists>f'. readByteArray io a n False f =
      Some (True, map (\<lambda>i. cells (chip f) (unat a + i)) [0..<unat n], f') \<and>
    calm idle cap f' \<and> cells (chip f') = cells (chip f)"
proof -
  have n: "unat (ucast n :: u32) = unat n" by transfer (simp add: take_bit_eq_mod)
  with assms prep_read_ok [of f a "ucast n"] obtain f1 where
    f1: "prep_read io a (ucast n) f = Some (True, f1)" "calm idle cap f1" "cells (chip f1) = cells (chip f)"
      "currentAddress f1 = a" by auto
  then have "idle (chip f1)" by (simp add: calm_def)
  from read_command [OF this assms(2)] obtain c1 where
    c1: "xfers io (replicate (unat n) NULLBYTE)
           (snd (xfers io (READDATA # address_bytes a) (cs_low io (chip f1))))
         = (map (\<lambda>i. cells (chip f1) (unat a + i)) [0..<unat n], c1)"
      "idle (cs_high io c1)" "cells (cs_high io c1) = cells (chip f1)" by blast
  with f1 show ?thesis
    by (simp add: readByteArray_def prep_def Let_def nextBytes_def beginSPI_def opcode_bytes_def
        endSPI_def chip_deselect_def calm_def usable_def)
qed

lemma read_back_ok:
  assumes "settles io cells wel idle BUSY_TIMEOUT (chip f) m" and "usable cap f"
    and "unat a + length data \<le> cap" and "\<forall>i < length data. m (unat a + i) = data ! i"
  shows "\<exists>f'. read_back io a data f = Some (True, f') \<and> calm idle cap f' \<and> cells (chip f') = m"
proof -
  from notBusy_settles [OF assms(1)] obtain f1 where f1: "notBusy io BUSY_TIMEOUT f = Some (True, f1)"
    "idle (chip f1)" "cells (chip f1) = m" "kept f f1" by blast
  have "map (\<lambda>i. cells (chip f1) (unat a + i)) [0..<length data] = data"
    using assms(4) f1(3) by (intro nth_equalityI) simp_all
  with read_command [OF f1(2) assms(3)] obtain c1 where
    "xfers io (replicate (length data) NULLBYTE)
       (snd (xfers io (READDATA # address_bytes a) (cs_low io (chip f1)))) = (data, c1)"
    "idle (cs_high io c1)" "cells (cs_high io c1) = m"
    unfolding f1(3) by metis
  then have "verify io data (snd (xfers io (READDATA # address_bytes a) (cs_low io (chip f1)))) = (True, c1)"
    and c1: "idle (cs_high io c1)" "cells (cs_high io c1) = m"
    by (simp_all only: verify_True)
  with f1 usable_kept [OF assms(2) f1(4)] show ?thesis
    by (simp add: read_back_def Let_def endSPI_def chip_deselect_def calm_def usable_def)
qed

lemma writeByteArray_ok:
  assumes "calm idle cap f" and "unat a + length data \<le> cap"
    and "\<forall>i < length data. cells (chip f) (unat a + i) = 0xFF"
  shows "\<exists>f'. writeByteArray io a data True f = Some (True, f') \<and> calm idle cap f' \<and>
    cells (chip f') = (\<lambda>i. if unat a \<le> i \<and> i < unat a + length data then data ! (i - unat a)
                           else cells (chip f) i)"
proof -
  have n: "unat (of_nat (length data) :: u32) = length data"
    using assms(2) cap_24 by (simp add: unat_of_nat)
  from prep_write_ok [of f a "of_nat (length data)"] assms obtain f1 where
    f1: "prep_write io a (of_nat (length data)) f = Some (True, f1)" "calm idle cap f1"
      "cells (chip f1) = cells (chip f)" "currentAddress f1 = a"
    unfolding n by auto
  let ?m = "programmed (cells (chip f)) (unat a) data"
  have m: "?m = (\<lambda>i. if unat a \<le> i \<and> i < unat a + length data then data ! (i - unat a)
                     else cells (chip f) i)"
    using assms(3) by (rule programmed_erased)
  have "settles io cells wel idle BUSY_TIMEOUT (chip f1) (cells (chip f))"
    using calm_settles [OF f1(2)] f1(3) by simp
  from program_pages_ok [OF this, of "256 - unat a mod 256" data] assms(2) obtain f2 where
    f2: "program_pages io (256 - unat a mod 256) data f1 = Some (True, f2)" "kept f1 f2"
      "settles io cells wel idle BUSY_TIMEOUT (chip f2) ?m"
    unfolding f1(4) by auto
  have "usable cap f2" using usable_kept [OF _ f2(2)] f1(2) by (simp add: calm_def)
  from read_back_ok [OF f2(3) this assms(2)] obtain f3 where
    "read_back io a data f2 = Some (True, f3)" "calm idle cap f3" "cells (chip f3) = ?m"
    by (auto simp: m)
  with f1(1) f2(1) show ?thesis
    by (simp add: writeByteArray_def prep_def m)
qed

text \<open>A write over cells that are not erased is refused and changes nothing.\<close>

lemma writeByteArray_refuses:
  assumes "calm idle cap f" and "unat a + length data \<le> cap"
    and "\<exists>i < length data. cells (chip f) (unat a + i) \<noteq> 0xFF"
  shows "\<exists>f'. writeByteArray io a data errorCheck f = Some (False, f') \<and> calm idle cap f' \<and>
    cells (chip f') = cells (chip f)"
proof -
  have n: "unat (of_nat (length data) :: u32) = length data"
    using assms(2) cap_24 by (simp add: unat_of_nat)
  from assms(3) have no: "(\<forall>i < length data. cells (chip f) (unat a + i) = 0xFF) = False" by blast
  obtain f1 where
    "prep_write io a (of_nat (length data)) f = Some (False, f1)" "calm idle cap f1"
      "cells (chip f1) = cells (chip f)"
    using prep_write_ok [of f a "of_nat (length data)"] assms(1,2) unfolding n no by blast
  then show ?thesis by (simp add: writeByteArray_def prep_def)
qed

lemma eraseSector_ok:
  assumes "calm idle cap f" and "unat a < cap"
  shows "\<exists>f'. eraseSector io a f = Some (True, f') \<and> calm idle cap f' \<and>
    cells (chip f') = (\<lambda>i. if i div 4096 = unat a div 4096 then 0xFF else cells (chip f) i)"
proof -
  have u: "usable cap f" using assms(1) by (simp add: calm_def)
  have "settles io cells wel idle BUSY_TIMEOUT (chip f) (cells (chip f))"
    using calm_settles [OF assms(1)] by simp
  from ready_to_write_settles [OF this] obtain f1 where f1: "ready_to_write io f = Some (True, f1)"
    "idle (chip f1)" "wel (chip f1)" "cells (chip f1) = cells (chip f)" "kept f f1" by blast
  define f2 where "f2 = endSPI io (snd (nextBytes io
      [ucast (drop_bit 16 a), ucast (drop_bit 8 a), 0] (beginSPI io SECTORERASE f1)))"
  obtain rs c' where
    cmd: "command io [SECTORERASE, ucast (drop_bit 16 a), ucast (drop_bit 8 a), 0] (chip f1) = (rs, c')"
    by fastforce
  have "chip f2 = c'"
    using chip_command [of io "[ucast (drop_bit 16 a), ucast (drop_bit 8 a), 0]" SECTORERASE f1] cmd
    by (simp add: f2_def endSPI_def opcode_bytes_def)
  with erase [OF f1(2,3) assms(2) cmd, unfolded f1(4)]
  have "settles io cells wel idle 500 (chip f2)
      (\<lambda>i. if i div 4096 = unat a div 4096 then 0xFF else cells (chip f) i)"
    by (auto simp: settles_def)
  from notBusy_settles [OF this] obtain f3 where f3: "notBusy io 500 f2 = Some (True, f3)"
    "idle (chip f3)" "kept f2 f3"
    "cells (chip f3) = (\<lambda>i. if i div 4096 = unat a div 4096 then 0xFF else cells (chip f) i)" by blast
  have "kept f1 f2"
    by (simp add: f2_def endSPI_def chip_deselect_def nextBytes_def beginSPI_def kept_def case_prod_beta)
  then have "usable cap f3" using u f1(5) f3(3) by (metis usable_kept)
  with f1(1) f3 show ?thesis
    by (simp add: eraseSector_def f2_def calm_def Let_def)
qed

end

section \<open>A chip with timing\<close>

text \<open>
  A chip of 2 MB that takes 3 ms for a page, 400 ms for a sector, 800 ms and 1 s for the blocks and 6 s for the chip. The command is what came since
  the chip was selected; it is carried out when the chip is deselected. A look at the clock lets one
  millisecond pass.
\<close>

record nor =
  nor_cells :: "nat \<Rightarrow> u8"
  nor_wel :: bool
  nor_busy :: nat
  nor_selected :: bool
  nor_got :: "u8 list"
  nor_clock :: u32

fun of_address :: "u8 list \<Rightarrow> nat" where
  "of_address (a2 # a1 # a0 # ds) = unat a2 * 65536 + unat a1 * 256 + unat a0"
| "of_address _ = 0"

definition nor_status :: "nor \<Rightarrow> u8" where
  "nor_status c = (if 0 < nor_busy c then 1 else 0) OR (if nor_wel c then 2 else 0)"

definition nor_reply :: "nor \<Rightarrow> u8" where
  "nor_reply c =
     (case nor_got c of
        [] \<Rightarrow> 0
      | opcode # ds \<Rightarrow>
          if opcode = READSTAT1 then nor_status c
          else if opcode = READDATA \<and> 3 \<le> length ds then nor_cells c (of_address ds + length ds - 3)
          else if opcode = JEDECID \<and> length ds < 3 then [0xEF, 0x40, 0x15] ! length ds
          else 0)"

definition nor_execute :: "nor \<Rightarrow> nor" where
  "nor_execute c =
     (case nor_got c of
        [] \<Rightarrow> c
      | opcode # ds \<Rightarrow>
          if opcode = WRITEENABLE then c\<lparr>nor_wel := True\<rparr>
          else if opcode = PAGEPROG \<and> nor_wel c then
            c\<lparr>nor_wel := False, nor_busy := 3,
              nor_cells := programmed (nor_cells c) (of_address ds) (drop 3 ds)\<rparr>
          else if opcode = SECTORERASE \<and> nor_wel c then
            c\<lparr>nor_wel := False, nor_busy := 400,
              nor_cells := (\<lambda>i. if i div 4096 = of_address ds div 4096 then 0xFF
                                else nor_cells c i)\<rparr>
          else if opcode = 0x52 \<and> nor_wel c then
            c\<lparr>nor_wel := False, nor_busy := 800,
              nor_cells := (\<lambda>i. if i div 32768 = of_address ds div 32768 then 0xFF
                                else nor_cells c i)\<rparr>
          else if opcode = 0xD8 \<and> nor_wel c then
            c\<lparr>nor_wel := False, nor_busy := 1000,
              nor_cells := (\<lambda>i. if i div 65536 = of_address ds div 65536 then 0xFF
                                else nor_cells c i)\<rparr>
          else if opcode = 0xC7 \<and> nor_wel c then
            c\<lparr>nor_wel := False, nor_busy := 6000, nor_cells := (\<lambda>i. 0xFF)\<rparr>
          else c)"

definition nor_chip :: "nor chip_ops" where
  "nor_chip =
     \<lparr>cs_low = (\<lambda>c. c\<lparr>nor_selected := True, nor_got := []\<rparr>),
      cs_high = (\<lambda>c. (nor_execute c)\<lparr>nor_selected := False, nor_got := []\<rparr>),
      xfer = (\<lambda>d c. (nor_reply c, c\<lparr>nor_got := nor_got c @ [d]\<rparr>)),
      millis = (\<lambda>c. (nor_clock c, c\<lparr>nor_clock := nor_clock c + 1, nor_busy := nor_busy c - 1\<rparr>))\<rparr>"

definition nor_idle :: "nor \<Rightarrow> bool" where
  "nor_idle c \<longleftrightarrow> \<not> nor_selected c \<and> nor_got c = [] \<and> nor_busy c = 0"

lemma nor_chip_simps [simp]:
  "cs_low nor_chip c = c\<lparr>nor_selected := True, nor_got := []\<rparr>"
  "cs_high nor_chip c = (nor_execute c)\<lparr>nor_selected := False, nor_got := []\<rparr>"
  "xfer nor_chip d c = (nor_reply c, c\<lparr>nor_got := nor_got c @ [d]\<rparr>)"
  "millis nor_chip c = (nor_clock c, c\<lparr>nor_clock := nor_clock c + 1, nor_busy := nor_busy c - 1\<rparr>)"
  by (simp_all add: nor_chip_def)

lemma bit_nor_status [simp]:
  "bit (nor_status c) 0 \<longleftrightarrow> 0 < nor_busy c"
  "bit (nor_status c) (Suc 0) \<longleftrightarrow> nor_wel c"
  by (simp_all add: nor_status_def bit_simps)

lemma nor_status_cong:
  "nor_busy c = nor_busy d \<Longrightarrow> nor_wel c = nor_wel d \<Longrightarrow> nor_status c = nor_status d"
  by (simp add: nor_status_def)

lemma stat1_nor:
  "stat1 nor_chip c = (nor_status c, c\<lparr>nor_selected := False, nor_got := []\<rparr>)"
  by (simp add: stat1_def nor_reply_def nor_execute_def nor_status_def)

lemma poll_nor:
  "\<not> nor_selected c \<Longrightarrow> nor_got c = [] \<Longrightarrow> unat (nor_clock c - start) + nor_busy c \<le> unat t \<Longrightarrow>
   \<exists>b k. poll nor_chip t start c = Some (True, b, c\<lparr>nor_busy := 0, nor_clock := k\<rparr>) \<and>
     (bit b (Suc 0) \<longleftrightarrow> nor_wel c)"
proof (induction "nor_busy c" arbitrary: c)
  case 0
  then have "nor_clock c - start \<le> t" by (simp add: word_le_nat_alt)
  with 0 show ?case
    by (subst poll.simps) (auto simp: stat1_nor not_less intro!: exI [of _ "nor_clock c + 1"])
next
  case (Suc n)
  let ?d = "c\<lparr>nor_clock := nor_clock c + 1, nor_busy := n\<rparr>"
  have le: "nor_clock c - start \<le> t" using Suc.prems by (simp add: word_le_nat_alt)
  have "unat (nor_clock c + 1 - start) \<le> unat (nor_clock c - start) + 1"
    by (metis add_diff_eq diff_add_eq unat_word_ariths(1) mod_less_eq_dividend unsigned_1)
  then have "unat (nor_clock ?d - start) + nor_busy ?d \<le> unat t" using Suc by simp
  with Suc.hyps(1) [of ?d] Suc.prems obtain b k where
    "poll nor_chip t start ?d = Some (True, b, ?d\<lparr>nor_busy := 0, nor_clock := k\<rparr>)"
    "bit b (Suc 0) \<longleftrightarrow> nor_wel ?d" by auto
  moreover have "poll nor_chip t start c = poll nor_chip t start ?d"
    using le Suc.hyps(2) Suc.prems(1,2)
    by (subst poll.simps, cases c) (auto simp: stat1_nor not_less Suc.hyps(2) [symmetric])
  ultimately show ?case by auto
qed

lemma wait_ready_nor:
  assumes "\<not> nor_selected c" and "nor_got c = []" and "nor_busy c \<le> unat t" and "1 \<le> t"
  shows "\<exists>b k. wait_ready nor_chip t c = Some (True, b, c\<lparr>nor_busy := 0, nor_clock := k\<rparr>) \<and>
     (bit b (Suc 0) \<longleftrightarrow> nor_wel c)"
proof -
  let ?d = "c\<lparr>nor_clock := nor_clock c + 1, nor_busy := nor_busy c - 1\<rparr>"
  have "1 \<le> unat t" using assms(4) by (simp add: word_le_nat_alt)
  then have "unat (nor_clock ?d - nor_clock c) + nor_busy ?d \<le> unat t" using assms(3) by simp
  with poll_nor [of ?d "nor_clock c" t] assms(1,2) show ?thesis by (auto simp: wait_ready_def)
qed

lemma wait_enabled_nor:
  assumes "nor_idle c" and "bit b (Suc 0) \<longleftrightarrow> nor_wel c"
  shows "\<exists>b' k. wait_enabled nor_chip 10 b c = Some (True, b', c\<lparr>nor_wel := True, nor_clock := k\<rparr>)"
proof (cases "nor_wel c")
  case True
  with assms show ?thesis
    by (intro exI [of _ b] exI [of _ "nor_clock c + 1"])
      (cases c, simp add: wait_enabled_def nor_idle_def)
next
  case False
  with assms show ?thesis
    by (cases c)
      (simp add: wait_enabled_def nor_idle_def enable.simps [of nor_chip 10 "nor_clock c"] stat1_nor
        nor_execute_def nor_reply_def enable.simps)
qed

text \<open>The bytes of a command accumulate while the chip is selected.\<close>

lemma xfers_nor:
  "snd (xfers nor_chip ds c) = c\<lparr>nor_got := nor_got c @ ds\<rparr>"
  by (induction ds arbitrary: c) (simp_all add: case_prod_beta Let_def)

lemma command_nor:
  "snd (command nor_chip ds c) =
   (nor_execute (c\<lparr>nor_selected := True, nor_got := ds\<rparr>))\<lparr>nor_selected := False, nor_got := []\<rparr>"
  by (simp add: command_def case_prod_beta Let_def xfers_nor)

lemma unat_bytes_24: "unat a < 2 ^ 24 \<Longrightarrow> of_address (address_bytes a @ ds) = unat a" for a :: u32
proof -
  assume a: "unat a < 2 ^ 24"
  have b: "unat (ucast w :: u8) = unat w mod 256" for w :: u32
    by (simp add: unsigned_ucast_eq take_bit_eq_mod)
  let ?x = "unat a" and ?y = "unat a div 256"
  have d: "unat (drop_bit 16 a) = ?y div 256" "unat (drop_bit 8 a) = ?y"
    by (simp_all add: drop_bit_eq_div unat_div flip: div_mult2_eq)
  have "?y div 256 < 256" using a by (simp flip: div_mult2_eq)
  then have "of_address (address_bytes a @ ds) = ?y div 256 * 65536 + ?y mod 256 * 256 + ?x mod 256"
    by (simp add: address_bytes_def b d)
  moreover have "p * 65536 + q * 256 + r = (p * 256 + q) * 256 + r" for p q r :: nat by simp
  ultimately show ?thesis by (simp only: div_mult_mod_eq)
qed

lemma xfers_nor_read:
  assumes "nor_got c = READDATA # as @ ds" and "length as = 3"
  shows "fst (xfers nor_chip (replicate n NULLBYTE) c) =
    map (\<lambda>i. nor_cells c (of_address as + length ds + i)) [0..<n]"
  using assms
proof (induction n arbitrary: c ds)
  case (Suc n)
  let ?c = "c\<lparr>nor_got := nor_got c @ [0]\<rparr>"
  have oa: "of_address (as @ zs) = of_address as" for zs
    using assms(2) by (auto simp: numeral_3_eq_3 length_Suc_conv)
  have "nor_got ?c = READDATA # as @ (ds @ [0])" using Suc.prems(1) by simp
  from Suc.IH [OF this Suc.prems(2)] have
    "fst (xfers nor_chip (replicate n NULLBYTE) ?c) =
      map (\<lambda>i. nor_cells c (of_address as + Suc (length ds) + i)) [0..<n]" by simp
  moreover have "nor_reply c = nor_cells c (of_address as + length ds)"
    using Suc.prems by (simp add: nor_reply_def oa)
  ultimately show ?case
    by (simp add: case_prod_beta Let_def upt_conv_Cons map_Suc_upt [symmetric] del: upt_Suc)
qed simp

lemma sector_of_page: "r < 256 \<Longrightarrow> (256 * q + r) div 4096 = (256 * q) div (4096 :: nat)"
proof -
  assume r: "r < 256"
  have "x div 4096 = x div 256 div 16" for x :: nat by (simp flip: div_mult2_eq)
  with r show ?thesis by simp
qed

lemma of_address_sector:
  fixes a :: u32
  assumes "unat a < 2 ^ 24"
  shows "of_address [ucast (drop_bit 16 a), ucast (drop_bit 8 a), 0] div 4096 = unat a div 4096"
proof -
  define q where "q = unat (ucast (drop_bit 16 a) :: u8) * 256 + unat (ucast (drop_bit 8 a) :: u8)"
  let ?r = "unat (ucast a :: u8)"
  have "unat a = 256 * q + ?r"
    using unat_bytes_24 [OF assms, of "[]"] by (simp add: address_bytes_def q_def)
  moreover have "?r < 256" using unsigned_less [of "ucast a :: u8", where ?'a = nat] by simp
  ultimately have "unat a div 4096 = (256 * q) div 4096" by (simp add: sector_of_page)
  also have "256 * q = of_address [ucast (drop_bit 16 a), ucast (drop_bit 8 a), 0]"
    by (simp add: q_def)
  finally show ?thesis by simp
qed

text \<open>The chip meets the data sheet.\<close>

interpretation w25: nor_flash nor_chip nor_cells nor_wel nor_idle "2 * 1024 * 1024"
proof
  show "2 * 1024 * 1024 \<le> (2 :: nat) ^ 24" by simp
next
  fix c and t :: u32
  assume "nor_idle c" and "10 \<le> t"
  moreover from this(2) have "1 \<le> t" using order_trans [of 1 10 t] by simp
  ultimately show "\<exists>b c'. wait_ready nor_chip t c = Some (True, b, c') \<and> bit b 1 = nor_wel c \<and>
      nor_idle c' \<and> nor_cells c' = nor_cells c \<and> nor_wel c' = nor_wel c"
    using wait_ready_nor [of c t] by (auto simp: nor_idle_def)
next
  fix c and b :: u8
  assume "nor_idle c" and "bit b 1 = nor_wel c"
  then show "\<exists>b' c'. wait_enabled nor_chip 10 b c = Some (True, b', c') \<and>
      nor_idle c' \<and> nor_cells c' = nor_cells c \<and> nor_wel c'"
    using wait_enabled_nor [of c b] by (auto simp: nor_idle_def)
next
  fix c and a :: u32 and n rs c'
  assume idle: "nor_idle c" and fits: "unat a + n \<le> 2 * 1024 * 1024"
    and cmd: "command nor_chip (READDATA # address_bytes a @ replicate n NULLBYTE) c = (rs, c')"
  let ?pre = "READDATA # address_bytes a"
  let ?c = "c\<lparr>nor_selected := True, nor_got := ?pre\<rparr>"
  have "c' = c\<lparr>nor_selected := False, nor_got := []\<rparr>"
    using command_nor [of "?pre @ replicate n NULLBYTE" c] cmd by (simp add: nor_execute_def)
  then have c': "c' = c" using idle by (cases c) (simp add: nor_idle_def)
  have "rs = fst (xfers nor_chip (?pre @ replicate n NULLBYTE) (c\<lparr>nor_selected := True, nor_got := []\<rparr>))"
    using cmd by (simp add: command_def case_prod_beta Let_def)
  also have "drop 4 \<dots> = fst (xfers nor_chip (replicate n NULLBYTE) ?c)"
    using length_xfers [of nor_chip ?pre] xfers_nor [of ?pre "c\<lparr>nor_selected := True, nor_got := []\<rparr>"]
    by (subst xfers_append) (simp add: case_prod_beta Let_def address_bytes_def)
  also have "\<dots> = map (\<lambda>i. nor_cells c (unat a + i)) [0..<n]"
    using xfers_nor_read [of ?c "address_bytes a" "[]" n] fits unat_bytes_24 [of a "[]"]
    by (simp add: address_bytes_def)
  finally show "drop 4 rs = map (\<lambda>i. nor_cells c (unat a + i)) [0..<n] \<and> nor_idle c' \<and>
      nor_cells c' = nor_cells c \<and> nor_wel c' = nor_wel c"
    using idle c' by simp
next
  fix c and ds :: "u8 list" and a :: u32 and rs c'
  assume pre: "nor_idle c" "nor_wel c" "ds \<noteq> []" "unat a + length ds \<le> 2 * 1024 * 1024"
    and cmd: "command nor_chip (PAGEPROG # address_bytes a @ ds) c = (rs, c')"
  have d: "drop 3 (address_bytes a @ ds) = ds" by (simp add: address_bytes_def numeral_3_eq_3)
  then have p: "programmed m (unat a) (drop 3 (address_bytes a @ ds)) = programmed m (unat a) ds" for m
    by simp
  have "c' = c\<lparr>nor_wel := False, nor_busy := 3, nor_selected := False, nor_got := [],
      nor_cells := programmed (nor_cells c) (unat a) ds\<rparr>"
    using command_nor [of "PAGEPROG # address_bytes a @ ds" c] cmd pre unat_bytes_24 [of a ds]
    by (simp add: nor_execute_def p del: drop_append)
  then show "\<exists>b c''. wait_ready nor_chip 10 c' = Some (True, b, c'') \<and> \<not> bit b 1 \<and>
      nor_idle c'' \<and> \<not> nor_wel c'' \<and>
      nor_cells c'' = (\<lambda>i. if unat a \<le> i \<and> i < unat a + length ds
                          then nor_cells c i AND ds ! (i - unat a) else nor_cells c i)"
    using wait_ready_nor [of c' 10] by (auto simp: nor_idle_def programmed_def)
next
  fix c and a :: u32 and rs c'
  assume pre: "nor_idle c" "nor_wel c" "unat a < 2 * 1024 * 1024"
    and cmd: "command nor_chip [SECTORERASE, ucast (drop_bit 16 a), ucast (drop_bit 8 a), 0] c = (rs, c')"
  have "unat a < 2 ^ 24" using pre(3) by simp
  then have "c' = c\<lparr>nor_wel := False, nor_busy := 400, nor_selected := False, nor_got := [],
      nor_cells := (\<lambda>i. if i div 4096 = unat a div 4096 then 0xFF else nor_cells c i)\<rparr>"
    using command_nor [of "[SECTORERASE, ucast (drop_bit 16 a), ucast (drop_bit 8 a), 0]" c] cmd pre(2)
    by (simp add: nor_execute_def of_address_sector del: of_address.simps cong: if_cong)
  then show "\<exists>b c''. wait_ready nor_chip 500 c' = Some (True, b, c'') \<and> \<not> bit b 1 \<and>
      nor_idle c'' \<and> \<not> nor_wel c'' \<and>
      nor_cells c'' = (\<lambda>i. if i div 4096 = unat a div 4096 then 0xFF else nor_cells c i)"
    using wait_ready_nor [of c' 500] by (auto simp: nor_idle_def)
qed

end
