(* ===== verification/FlashRing.thy ===== *)
theory FlashRing
  imports SpiFlash
begin

unbundle bit_operations_syntax

text \<open>
  \<open>SPIFlashMeter.cpp\<close>: fixed-size records in a ring over the NOR flash. Record \<open>index\<close> lies at
  \<open>(index % _maxRecord) * _recordSize + _reserveSize\<close>; a sector is erased when the first of its
  records is written; a block of records that reaches the end of the ring is written in two parts.
  The first sector holds the configuration text.

  The abstract view is the stream of all bytes ever written. The ring holds its recent part: what a
  write does not reach by erasing. That is the refinement proved here, for any chip that meets
  \<open>nor_flash\<close>.
\<close>

section \<open>The code\<close>

record 'c flash_meter =
  flash :: "'c spiflash"
  recordSize :: u8
  maxRecord :: u32

abbreviation (input) sectorSize :: u32 where "sectorSize \<equiv> 4096"
abbreviation (input) reserveSize :: u32 where "reserveSize \<equiv> 8192"
abbreviation (input) configSize :: nat where "configSize \<equiv> 4096"

definition flash_meter_begin ::
    "('c, 'z) chip_ops_scheme \<Rightarrow> u8 \<Rightarrow> 'c flash_meter \<Rightarrow> (bool \<times> 'c flash_meter) option" where
  "flash_meter_begin io rs fm =
     (case flash_begin io 0 (flash fm) of
        None \<Rightarrow> None
      | Some (ok, f) \<Rightarrow>
          let fm1 = fm\<lparr>recordSize := rs, flash := f\<rparr>
          in Some (if \<not> ok then (False, fm1)
                   else (True, fm1\<lparr>maxRecord := (getCapacity f - reserveSize) div ucast rs\<rparr>)))"

definition getMaxRecord :: "'c flash_meter \<Rightarrow> u32" where
  "getMaxRecord fm = maxRecord fm"

definition record_address :: "'c flash_meter \<Rightarrow> u32 \<Rightarrow> u32" where
  "record_address fm index = (index mod maxRecord fm) * ucast (recordSize fm) + reserveSize"

text \<open>The erase loop; what \<open>eraseSector\<close> returns is not looked at.\<close>

primrec erase_sectors ::
    "('c, 'z) chip_ops_scheme \<Rightarrow> 'c flash_meter \<Rightarrow> u32 \<Rightarrow> nat list \<Rightarrow> 'c spiflash \<Rightarrow> 'c spiflash option" where
  "erase_sectors io fm index [] f = Some f"
| "erase_sectors io fm index (i # is) f =
     (if (index + of_nat i) mod (sectorSize div ucast (recordSize fm)) = 0 then
        case eraseSector io (record_address fm (index + of_nat i)) f of
          None \<Rightarrow> None
        | Some (_, f') \<Rightarrow> erase_sectors io fm index is f'
      else erase_sectors io fm index is f)"

text \<open>The condition under which a block of \<open>size\<close> bytes reaches over the end of the ring.\<close>

definition wraps :: "'c flash_meter \<Rightarrow> u32 \<Rightarrow> u32 \<Rightarrow> bool" where
  "wraps fm index bytes \<longleftrightarrow>
     index mod maxRecord fm < maxRecord fm \<and>
     maxRecord fm < index mod maxRecord fm + bytes div ucast (recordSize fm)"

definition bytes_to_end :: "'c flash_meter \<Rightarrow> u32 \<Rightarrow> u32" where
  "bytes_to_end fm index = (maxRecord fm - index mod maxRecord fm) * ucast (recordSize fm)"

text \<open>Sizes are passed to the driver as \<open>uint16_t\<close>.\<close>

definition size16 :: "u32 \<Rightarrow> nat" where
  "size16 n = unat (ucast n :: u16)"

definition writeRecords ::
    "('c, 'z) chip_ops_scheme \<Rightarrow> u32 \<Rightarrow> u8 list \<Rightarrow> 'c flash_meter \<Rightarrow> (bool \<times> 'c flash_meter) option" where
  "writeRecords io index buff fm =
     (let buff_size = of_nat (length buff);
          addr = record_address fm index;
          numRec = ucast (buff_size div ucast (recordSize fm)) :: u8
      in case erase_sectors io fm index [0..<unat numRec] (flash fm) of
           None \<Rightarrow> None
         | Some f1 \<Rightarrow>
             if wraps fm index buff_size then
               let k = bytes_to_end fm index
               in case writeByteArray io addr (take (size16 k) buff) True f1 of
                    None \<Rightarrow> None
                  | Some (res1, f2) \<Rightarrow>
                      (case writeByteArray io reserveSize
                              (take (size16 (buff_size - k)) (drop (unat k) buff)) True f2 of
                         None \<Rightarrow> None
                       | Some (res2, f3) \<Rightarrow> Some (res1 \<and> res2, fm\<lparr>flash := f3\<rparr>))
             else
               case writeByteArray io addr (take (size16 buff_size) buff) True f1 of
                 None \<Rightarrow> None
               | Some (res, f2) \<Rightarrow> Some (res, fm\<lparr>flash := f2\<rparr>))"

text \<open>The buffer is given with its old contents, which stay where nothing is read.\<close>

definition readRecords ::
    "('c, 'z) chip_ops_scheme \<Rightarrow> u32 \<Rightarrow> u8 list \<Rightarrow> u32 \<Rightarrow> 'c flash_meter \<Rightarrow>
     (bool \<times> u8 list \<times> 'c flash_meter) option" where
  "readRecords io index buff buff_size fm =
     (let addr = record_address fm index
      in if wraps fm index buff_size then
           let k = bytes_to_end fm index
           in case readByteArray io addr (ucast k) False (flash fm) of
                None \<Rightarrow> None
              | Some (res1, bs1, f1) \<Rightarrow>
                  (case readByteArray io reserveSize (ucast (buff_size - k)) False f1 of
                     None \<Rightarrow> None
                   | Some (res2, bs2, f2) \<Rightarrow>
                       Some (res1 \<and> res2, store (store buff 0 bs1) (unat k) bs2, fm\<lparr>flash := f2\<rparr>))
         else
           case readByteArray io addr (ucast buff_size) False (flash fm) of
             None \<Rightarrow> None
           | Some (res, bs, f1) \<Rightarrow> Some (res, store buff 0 bs, fm\<lparr>flash := f1\<rparr>))"

text \<open>The three pairs of functions of the class have the same text.\<close>

definition writeMeterData where "writeMeterData = writeRecords"
definition writeSensorData where "writeSensorData = writeRecords"
definition writeFlowRecord where "writeFlowRecord = writeRecords"
definition readMeterRecord where "readMeterRecord = readRecords"
definition readSensorData where "readSensorData = readRecords"
definition readFlowRecord where "readFlowRecord = readRecords"

section \<open>The configuration text\<close>

text \<open>\<open>toCharArray(buff, n)\<close>: at most \<open>n - 1\<close> characters and a terminator; nothing for \<open>n = 0\<close>.\<close>

definition toCharArray :: "u8 list \<Rightarrow> nat \<Rightarrow> u8 list \<Rightarrow> u8 list" where
  "toCharArray str n buff = (if n = 0 then buff else store buff 0 (take (n - 1) str @ [0]))"

primrec write_pages ::
    "('c, 'z) chip_ops_scheme \<Rightarrow> u8 list \<Rightarrow> nat list \<Rightarrow> 'c spiflash \<Rightarrow> 'c spiflash option" where
  "write_pages io buff [] f = Some f"
| "write_pages io buff (i # is) f =
     (case writeByteArray io (getAddress (of_nat i) 0) (take 256 (drop (i * 256) buff)) True f of
        None \<Rightarrow> None
      | Some (_, f') \<Rightarrow> write_pages io buff is f')"

text \<open>
  \<open>mem\<close> is what the uninitialised array of 4096 bytes holds. (A text of 4096 characters or more runs
  over its end in the code; here it is cut off.)
\<close>

definition writeConfigFlash ::
    "('c, 'z) chip_ops_scheme \<Rightarrow> u8 list \<Rightarrow> u8 list \<Rightarrow> 'c flash_meter \<Rightarrow> (bool \<times> 'c flash_meter) option" where
  "writeConfigFlash io config mem fm =
     (case eraseSector io 0 (flash fm) of
        None \<Rightarrow> None
      | Some (_, f1) \<Rightarrow>
          let buff = toCharArray config (length config) mem
          in case write_pages io buff [0..<Suc (length config div 256)] f1 of
               None \<Rightarrow> None
             | Some f2 \<Rightarrow> Some (True, fm\<lparr>flash := f2\<rparr>))"

definition readConfigFlash ::
    "('c, 'z) chip_ops_scheme \<Rightarrow> u8 list \<Rightarrow> 'c flash_meter \<Rightarrow> (u8 list \<times> 'c flash_meter) option" where
  "readConfigFlash io mem fm =
     (case readByteArray io 0 (of_nat configSize) False (flash fm) of
        None \<Rightarrow> None
      | Some (_, bs, f) \<Rightarrow> Some (takeWhile (\<lambda>b. b \<noteq> 0) (store mem 0 bs), fm\<lparr>flash := f\<rparr>))"

section \<open>Geometry of the ring\<close>

text \<open>Records divide a sector evenly, and the ring is a whole number of sectors.\<close>

definition ring_geometry :: "nat \<Rightarrow> 'c flash_meter \<Rightarrow> bool" where
  "ring_geometry cap fm \<longleftrightarrow>
     0 < unat (recordSize fm) \<and> unat (recordSize fm) dvd 4096 \<and> 4096 dvd cap \<and> 8192 < cap \<and>
     cap \<le> 2 ^ 24 \<and> unat (maxRecord fm) * unat (recordSize fm) = cap - 8192"

text \<open>The cell of byte \<open>p\<close> of the stream, in a ring of \<open>m\<close> bytes.\<close>

definition cell_of :: "nat \<Rightarrow> nat \<Rightarrow> nat" where
  "cell_of m p = 8192 + p mod m"

definition next_sector :: "nat \<Rightarrow> nat" where
  "next_sector p = (p + 4095) div 4096 * 4096"

lemma next_sector_bounds: "p \<le> next_sector p \<and> next_sector p \<le> p + 4095"
proof -
  have "(p + 4095) div 4096 * 4096 + (p + 4095) mod 4096 = p + 4095" by (rule div_mult_mod_eq)
  moreover have "(p + 4095) mod 4096 < 4096" by simp
  ultimately show ?thesis unfolding next_sector_def by linarith
qed

lemma next_sector_mono: "p \<le> q \<Longrightarrow> next_sector p \<le> next_sector q"
  unfolding next_sector_def by (simp add: div_le_mono)

lemma next_sector_dvd: "4096 dvd next_sector p"
  unfolding next_sector_def by simp

lemma sector_start_below:
  assumes "q < next_sector p"
  shows "q div 4096 * 4096 < p"
proof -
  from assms have "q div 4096 < (p + 4095) div 4096"
    unfolding next_sector_def by (simp add: div_less_iff_less_mult)
  then have "(q div 4096 + 1) * 4096 \<le> next_sector p"
    unfolding next_sector_def by (intro mult_right_mono) simp_all
  with next_sector_bounds [of p] show ?thesis by simp
qed

lemma next_sector_least:
  assumes "p \<le> q" and "4096 dvd q"
  shows "next_sector p \<le> q"
proof -
  obtain k where q: "q = k * 4096" using assms(2) by (auto elim: dvdE simp: mult.commute)
  then have "p + 4095 < (k + 1) * 4096" using assms(1) by simp
  then have "(p + 4095) div 4096 < k + 1" by (rule less_mult_imp_div_less)
  then show ?thesis unfolding next_sector_def q by simp
qed

lemma cell_sector:
  assumes "m = 4096 * s"
  shows "cell_of m p div 4096 = 2 + p div 4096 mod s"
proof -
  have "p mod m div 4096 = p div 4096 mod s"
    unfolding assms by (simp add: mod_mult2_eq)
  then show ?thesis by (simp add: cell_of_def)
qed

lemma cell_sector_start:
  assumes "m = 4096 * s"
  shows "cell_of m (p div 4096 * 4096) div 4096 = cell_of m p div 4096"
  by (simp add: cell_sector [OF assms])

lemma mod_differs:
  assumes "a < b" and "b < a + s"
  shows "a mod s \<noteq> b mod (s :: nat)"
proof
  assume "a mod s = b mod s"
  then have "s dvd b - a" using assms(1) by (metis less_imp_le mod_eq_dvd_iff_nat)
  with assms show False by (auto dest: dvd_imp_le)
qed

text \<open>Within a window of the size of the ring no two bytes share a cell.\<close>

lemma cell_of_inj:
  assumes "cell_of m p = cell_of m q" and "p < q" and "q < p + m"
  shows False
  using mod_differs [OF assms(2,3)] assms(1) by (simp add: cell_of_def)

lemma cell_of_less: "0 < m \<Longrightarrow> cell_of m p < 8192 + m"
  by (simp add: cell_of_def)

lemma cell_of_add: "p mod m + k < m \<Longrightarrow> cell_of m (p + k) = cell_of m p + k"
  by (simp add: cell_of_def mod_add_eq [of p m k, symmetric])

lemma cell_of_wrap:
  assumes "m \<le> p mod m + k" and "k < m"
  shows "cell_of m (p + k) = 8192 + (p mod m + k - m)"
proof -
  have "0 < m" using assms by simp
  then have "p mod m + k - m < m" using assms(2) by (simp add: less_diff_conv2 assms(1) add_strict_mono)
  moreover have "(p + k) mod m = (p mod m + k - m) mod m"
    using assms(1) by (metis le_mod_geq mod_add_left_eq)
  ultimately show ?thesis by (simp add: cell_of_def)
qed

section \<open>The abstract stream\<close>

text \<open>
  \<open>ring_holds m n w log\<close>: of the stream \<open>log\<close> of length \<open>w\<close>, the memory \<open>m\<close> holds every byte that
  is less than a ring behind the next sector boundary; up to that boundary the cells are erased.
\<close>

definition ring_holds :: "(nat \<Rightarrow> u8) \<Rightarrow> nat \<Rightarrow> nat \<Rightarrow> (nat \<Rightarrow> u8) \<Rightarrow> bool" where
  "ring_holds m n w log \<longleftrightarrow>
     (\<forall>p < w. next_sector w \<le> p + n \<longrightarrow> m (cell_of n p) = log p) \<and>
     (\<forall>p. w \<le> p \<and> p < next_sector w \<longrightarrow> m (cell_of n p) = 0xFF)"

definition append_stream :: "(nat \<Rightarrow> u8) \<Rightarrow> nat \<Rightarrow> u8 list \<Rightarrow> nat \<Rightarrow> u8" where
  "append_stream log w bs p = (if w \<le> p \<and> p < w + length bs then bs ! (p - w) else log p)"

text \<open>The memory after the erase loop for \<open>len\<close> bytes from \<open>w\<close> on.\<close>

definition erased_for :: "nat \<Rightarrow> nat \<Rightarrow> nat \<Rightarrow> (nat \<Rightarrow> u8) \<Rightarrow> (nat \<Rightarrow> u8) \<Rightarrow> bool" where
  "erased_for n w len m m' \<longleftrightarrow>
     m' = (\<lambda>a. if \<exists>q. w \<le> q \<and> q < w + len \<and> 4096 dvd q \<and> a div 4096 = cell_of n q div 4096
               then 0xFF else m a)"

text \<open>The memory after \<open>bs\<close> was laid down from byte \<open>w\<close> of the stream on.\<close>

definition laid_down :: "nat \<Rightarrow> nat \<Rightarrow> u8 list \<Rightarrow> (nat \<Rightarrow> u8) \<Rightarrow> (nat \<Rightarrow> u8) \<Rightarrow> bool" where
  "laid_down n w bs m m' \<longleftrightarrow>
     (\<forall>k < length bs. m' (cell_of n (w + k)) = bs ! k) \<and>
     (\<forall>a. (\<forall>k < length bs. a \<noteq> cell_of n (w + k)) \<longrightarrow> m' a = m a)"

lemma erased_for_blank:
  assumes "erased_for n w len m m'" and "n = 4096 * s"
    and "\<forall>p. w \<le> p \<and> p < next_sector w \<longrightarrow> m (cell_of n p) = 0xFF"
    and "w \<le> p" and "p < next_sector (w + len)"
  shows "m' (cell_of n p) = 0xFF"
proof (cases "p < next_sector w")
  case True
  with assms(1,3,4) show ?thesis by (simp add: erased_for_def)
next
  case False
  let ?q = "p div 4096 * 4096"
  have "next_sector w \<le> ?q"
  proof -
    have "next_sector w div 4096 \<le> p div 4096" using False by (intro div_le_mono) simp
    then have "next_sector w div 4096 * 4096 \<le> ?q" by simp
    then show ?thesis using next_sector_dvd [of w] by (simp add: dvd_div_mult_self)
  qed
  then have "w \<le> ?q" using next_sector_bounds [of w] by simp
  moreover have "?q < w + len" using assms(5) by (rule sector_start_below)
  moreover have "cell_of n p div 4096 = cell_of n ?q div 4096"
    using cell_sector_start [OF assms(2), of p] by simp
  moreover have "4096 dvd ?q" by simp
  ultimately have "\<exists>q. w \<le> q \<and> q < w + len \<and> 4096 dvd q \<and> cell_of n p div 4096 = cell_of n q div 4096"
    by blast
  with assms(1) show ?thesis by (simp only: erased_for_def if_True)
qed

lemma erased_for_keeps:
  assumes "erased_for n w len m m'" and "n = 4096 * s"
    and "p < w" and "next_sector (w + len) \<le> p + n"
  shows "m' (cell_of n p) = m (cell_of n p)"
proof -
  have False if q: "w \<le> q" "q < w + len" "4096 dvd q" "cell_of n p div 4096 = cell_of n q div 4096" for q
  proof -
    obtain k where k: "q = 4096 * k" using q(3) by (auto elim: dvdE)
    have "p div 4096 < k"
      using assms(3) q(1) k by (simp add: div_less_iff_less_mult)
    moreover have "k < p div 4096 + s"
    proof -
      obtain t where t: "next_sector (w + len) = 4096 * t"
        using next_sector_dvd by (auto elim: dvdE)
      have "4096 * k < 4096 * t" using q(2) k t next_sector_bounds [of "w + len"] by linarith
      then have "k < t" by simp
      have "4096 * t div 4096 \<le> (p + n) div 4096"
        using assms(4) t by (intro div_le_mono) simp
      then have "t \<le> p div 4096 + s" by (simp add: assms(2))
      with \<open>k < t\<close> show ?thesis by simp
    qed
    ultimately have "p div 4096 mod s \<noteq> k mod s" by (rule mod_differs)
    with q(4) show False by (simp add: cell_sector [OF assms(2)] k)
  qed
  then show ?thesis using assms(1) by (auto simp: erased_for_def)
qed

lemma erased_for_config:
  assumes "erased_for n w len m m'" and "n = 4096 * s" and "a < 8192"
  shows "m' a = m a"
proof -
  have "a div 4096 < 2" using assms(3) by (simp add: div_less_iff_less_mult)
  then have "a div 4096 \<noteq> cell_of n q div 4096" for q by (simp add: cell_sector [OF assms(2)])
  with assms(1) show ?thesis by (simp add: erased_for_def)
qed

text \<open>Erasing and laying down a block extends the stream.\<close>

lemma ring_holds_append:
  assumes "ring_holds m n w log" and "n = 4096 * s"
    and "erased_for n w (length bs) m m1" and "laid_down n w bs m1 m2"
    and "length bs + 4096 \<le> n"
  shows "ring_holds m2 n (w + length bs) (append_stream log w bs)"
  unfolding ring_holds_def
proof (intro conjI allI impI)
  let ?w' = "w + length bs"
  fix p
  assume p: "p < ?w'" and live: "next_sector ?w' \<le> p + n"
  show "m2 (cell_of n p) = append_stream log w bs p"
  proof (cases "p < w")
    case True
    have "cell_of n p \<noteq> cell_of n (w + k)" if "k < length bs" for k
    proof
      assume "cell_of n p = cell_of n (w + k)"
      moreover have "w + k < p + n" using that live next_sector_bounds [of ?w'] by simp
      ultimately show False using cell_of_inj [of n p "w + k"] True by simp
    qed
    then have "m2 (cell_of n p) = m1 (cell_of n p)" using assms(4) by (simp add: laid_down_def)
    also have "\<dots> = m (cell_of n p)" by (rule erased_for_keeps [OF assms(3,2) True live])
    also have "\<dots> = log p"
      using assms(1) True live next_sector_mono [of w ?w'] by (simp add: ring_holds_def)
    finally show ?thesis using True by (simp add: append_stream_def)
  next
    case False
    then have "m2 (cell_of n (w + (p - w))) = bs ! (p - w)"
      using assms(4) p unfolding laid_down_def by (metis add_diff_inverse_nat nat_add_left_cancel_less)
    with False p show ?thesis by (simp add: append_stream_def)
  qed
next
  let ?w' = "w + length bs"
  fix p
  assume p: "?w' \<le> p \<and> p < next_sector ?w'"
  have "cell_of n p \<noteq> cell_of n (w + k)" if "k < length bs" for k
  proof
    assume "cell_of n p = cell_of n (w + k)"
    moreover have "w + k < p" "p < w + k + n"
      using that p next_sector_bounds [of ?w'] assms(5) by simp_all
    ultimately show False using cell_of_inj [of n "w + k" p] by simp
  qed
  then have "m2 (cell_of n p) = m1 (cell_of n p)" using assms(4) by (simp add: laid_down_def)
  also have "\<dots> = 0xFF"
    using erased_for_blank [OF assms(3,2)] assms(1) p by (simp add: ring_holds_def)
  finally show "m2 (cell_of n p) = 0xFF" .
qed

section \<open>The code on the ring\<close>

lemma unat_ucast_u8_u32 [simp]: "unat (ucast n :: u32) = unat n" for n :: u8
  by transfer (simp add: take_bit_eq_mod)

lemma ring_geometry_simps:
  assumes "ring_geometry cap fm"
  shows "0 < unat (recordSize fm)" and "0 < unat (maxRecord fm)"
    and "unat (maxRecord fm) * unat (recordSize fm) = cap - 8192"
    and "cap - 8192 = 4096 * ((cap - 8192) div 4096)" and "cap - 8192 + 8192 = cap"
    and "unat (maxRecord fm) < 2 ^ 24"
proof -
  let ?r = "unat (recordSize fm)" and ?m = "unat (maxRecord fm)"
  from assms show r: "0 < ?r" and e: "?m * ?r = cap - 8192" and c: "cap - 8192 + 8192 = cap"
    by (simp_all add: ring_geometry_def)
  show m: "0 < ?m" using e assms by (cases "?m = 0") (simp_all add: ring_geometry_def)
  have "4096 dvd cap - 8192" using assms by (simp add: ring_geometry_def dvd_diff_nat)
  then show "cap - 8192 = 4096 * ((cap - 8192) div 4096)" by simp
  have "?m \<le> ?m * ?r" using r by simp
  moreover have "cap \<le> 2 ^ 24" "8192 < cap" using assms by (simp_all add: ring_geometry_def)
  ultimately show "?m < 2 ^ 24" unfolding e by linarith
qed

lemma unat_record_address:
  assumes "ring_geometry cap fm"
  shows "unat (record_address fm index) =
    cell_of (cap - 8192) (unat index * unat (recordSize fm))"
proof -
  note g = ring_geometry_simps [OF assms]
  let ?r = "unat (recordSize fm)" and ?m = "unat (maxRecord fm)"
  have "unat index mod ?m < ?m" using g(2) by simp
  then have "unat index mod ?m * ?r < ?m * ?r" using g(1) by simp
  then have small: "unat index mod ?m * ?r + 8192 < 2 ^ 32"
  proof -
    have "cap \<le> 2 ^ 24" using assms by (simp add: ring_geometry_def)
    with \<open>unat index mod ?m * ?r < ?m * ?r\<close> show ?thesis unfolding g(3) by simp
  qed
  moreover have "unat index mod ?m \<le> unat index mod ?m * ?r" using g(1) by simp
  ultimately have "unat index mod ?m < 2 ^ 32" by linarith
  then have "unat (record_address fm index) = unat index mod ?m * ?r + 8192"
    using small by (simp add: record_address_def unat_word_ariths unat_mod)
  also have "unat index mod ?m * ?r = unat index * ?r mod (cap - 8192)"
    by (simp add: g(3) [symmetric] mod_mult_mult2)
  finally show ?thesis by (simp add: cell_of_def)
qed

lemma sector_boundary:
  assumes "ring_geometry cap fm" and "unat index + i < 2 ^ 32"
  shows "(index + of_nat i) mod (sectorSize div ucast (recordSize fm)) = 0 \<longleftrightarrow>
    4096 dvd (unat index + i) * unat (recordSize fm)"
proof -
  let ?r = "unat (recordSize fm)"
  have "?r * (4096 div ?r) = 4096" using assms(1) by (simp add: ring_geometry_def)
  then have k: "4096 = 4096 div ?r * ?r" by (simp add: mult.commute)
  have u: "unat (index + of_nat i) = unat index + i"
    using assms(2) by (simp add: unat_word_ariths unat_of_nat mod_simps)
  have "(index + of_nat i) mod (sectorSize div ucast (recordSize fm)) = 0 \<longleftrightarrow>
      (unat index + i) mod (4096 div ?r) = 0"
    by (simp add: unat_eq_zero [symmetric] unat_mod unat_div u del: unat_eq_zero)
  also have "\<dots> \<longleftrightarrow> (unat index + i) * ?r mod (4096 div ?r * ?r) = 0"
    unfolding mod_mult_mult2 using assms(1) by (simp add: ring_geometry_def)
  finally show ?thesis unfolding k [symmetric] by (simp add: dvd_eq_mod_eq_0)
qed

lemma bytes_and_records:
  assumes "0 < r" and "r dvd (4096 :: nat)"
  shows "(\<exists>q. w * r \<le> q \<and> q < w * r + n * r \<and> 4096 dvd q \<and> P q) \<longleftrightarrow>
    (\<exists>i \<in> set [0..<n]. 4096 dvd (w + i) * r \<and> P ((w + i) * r))"
proof
  assume "\<exists>q. w * r \<le> q \<and> q < w * r + n * r \<and> 4096 dvd q \<and> P q"
  then obtain q where q: "w * r \<le> q" "q < w * r + n * r" "4096 dvd q" "P q" by blast
  have "r dvd q" using assms(2) q(3) by (rule dvd_trans)
  then obtain j where "q = r * j" by (rule dvdE)
  then have j: "q = j * r" by (simp add: mult.commute)
  have "w \<le> j" "j < w + n" using q(1,2) assms(1) by (simp_all add: j flip: add_mult_distrib)
  with q j show "\<exists>i \<in> set [0..<n]. 4096 dvd (w + i) * r \<and> P ((w + i) * r)"
    by (intro bexI [of _ "j - w"]) simp_all
next
  assume "\<exists>i \<in> set [0..<n]. 4096 dvd (w + i) * r \<and> P ((w + i) * r)"
  then obtain i where "i < n" "4096 dvd (w + i) * r" "P ((w + i) * r)" by auto
  then show "\<exists>q. w * r \<le> q \<and> q < w * r + n * r \<and> 4096 dvd q \<and> P q"
    using assms(1) by (intro exI [of _ "(w + i) * r"]) (simp add: add_mult_distrib)
qed

context nor_flash
begin

lemma erase_sectors_ok:
  assumes "ring_geometry cap fm" and "calm idle cap f" and "\<forall>i \<in> set is. unat index + i < 2 ^ 32"
  shows "\<exists>f'. erase_sectors io fm index is f = Some f' \<and> calm idle cap f' \<and>
    cells (chip f') = (\<lambda>a. if \<exists>i \<in> set is. 4096 dvd (unat index + i) * unat (recordSize fm) \<and>
        a div 4096 = cell_of (cap - 8192) ((unat index + i) * unat (recordSize fm)) div 4096
      then 0xFF else cells (chip f) a)"
  using assms(2,3)
proof (induction "is" arbitrary: f)
  case (Cons i "is")
  let ?r = "unat (recordSize fm)"
  have i: "unat index + i < 2 ^ 32" using Cons.prems(2) by simp
  have u: "unat (index + of_nat i) = unat index + i"
    using i by (simp add: unat_word_ariths unat_of_nat mod_simps)
  have rest: "\<forall>i \<in> set is. unat index + i < 2 ^ 32" using Cons.prems(2) by simp
  show ?case
  proof (cases "4096 dvd (unat index + i) * ?r")
    case True
    have addr: "unat (record_address fm (index + of_nat i)) = cell_of (cap - 8192) ((unat index + i) * ?r)"
      by (simp add: unat_record_address [OF assms(1)] u)
    have "0 < cap - 8192" using assms(1) by (simp add: ring_geometry_def)
    from cell_of_less [OF this] have "unat (record_address fm (index + of_nat i)) < cap"
      unfolding addr using ring_geometry_simps(5) [OF assms(1)] by (metis add.commute)
    from eraseSector_ok [OF Cons.prems(1) this] obtain f1 where f1:
      "eraseSector io (record_address fm (index + of_nat i)) f = Some (True, f1)" "calm idle cap f1"
      "cells (chip f1) = (\<lambda>a. if a div 4096 = cell_of (cap - 8192) ((unat index + i) * ?r) div 4096
          then 0xFF else cells (chip f) a)"
      unfolding addr by blast
    from Cons.IH [OF f1(2) rest] obtain f' where
      "erase_sectors io fm index is f1 = Some f'" "calm idle cap f'"
      "cells (chip f') = (\<lambda>a. if \<exists>i \<in> set is. 4096 dvd (unat index + i) * ?r \<and>
          a div 4096 = cell_of (cap - 8192) ((unat index + i) * ?r) div 4096
        then 0xFF else cells (chip f1) a)" by blast
    with f1 True show ?thesis
      by (auto simp: sector_boundary [OF assms(1) i] fun_eq_iff)
  next
    case False
    from Cons.IH [OF Cons.prems(1) rest] False show ?thesis
      by (auto simp: sector_boundary [OF assms(1) i])
  qed
qed simp

lemma write_part:
  assumes "calm idle cap f" and "\<forall>k < length bs. unat a + k < cap"
    and "\<forall>k < length bs. cells (chip f) (unat a + k) = 0xFF" and "unat a \<le> cap"
  shows "\<exists>f'. writeByteArray io a bs True f = Some (True, f') \<and> calm idle cap f' \<and>
    cells (chip f') = (\<lambda>i. if unat a \<le> i \<and> i < unat a + length bs then bs ! (i - unat a)
                           else cells (chip f) i)"
proof -
  have "unat a + length bs \<le> cap"
    using assms(2,4) by (cases "length bs") auto
  then show ?thesis by (rule writeByteArray_ok [OF assms(1) _ assms(3)])
qed

end

text \<open>The sizes computed by \<open>writeRecords\<close> and \<open>readRecords\<close>.\<close>

lemma unat_ucast_u32_u16: "unat (ucast w :: u16) = unat w mod 65536" for w :: u32
  by (simp add: unsigned_ucast_eq take_bit_eq_mod)

lemma unat_ucast_u32_u8: "unat (ucast w :: u8) = unat w mod 256" for w :: u32
  by (simp add: unsigned_ucast_eq take_bit_eq_mod)

lemma block_sizes:
  assumes "ring_geometry cap fm" and "len = n * unat (recordSize fm)" and "n < 256" and "len < 2 ^ 16"
  shows "unat ((of_nat len :: u32) div ucast (recordSize fm)) = n"
    and "unat (ucast ((of_nat len :: u32) div ucast (recordSize fm)) :: u8) = n"
    and "size16 (of_nat len) = len" and "unat (of_nat len :: u32) = len"
    and "unat (ucast (of_nat len :: u32) :: u16) = len"
proof -
  show l: "unat (of_nat len :: u32) = len" using assms(4) by (simp add: unat_of_nat)
  show n: "unat ((of_nat len :: u32) div ucast (recordSize fm)) = n"
    using ring_geometry_simps(1) [OF assms(1)]
    by (simp only: unat_div l unat_ucast_u8_u32) (simp add: assms(2))
  show "unat (ucast ((of_nat len :: u32) div ucast (recordSize fm)) :: u8) = n"
    using assms(3) by (simp add: unat_ucast_u32_u8 n)
  show "size16 (of_nat len) = len" "unat (ucast (of_nat len :: u32) :: u16) = len"
    using assms(4) by (simp_all add: size16_def unat_ucast_u32_u16 l)
qed

lemma wraps_iff:
  assumes "ring_geometry cap fm" and "unat (bytes div ucast (recordSize fm)) = n" and "n < 256"
  shows "wraps fm index bytes \<longleftrightarrow>
    cap - 8192 < unat index * unat (recordSize fm) mod (cap - 8192) + n * unat (recordSize fm)"
proof -
  note g = ring_geometry_simps [OF assms(1)]
  let ?r = "unat (recordSize fm)" and ?m = "unat (maxRecord fm)"
  have lt: "unat index mod ?m < ?m" using g(2) by simp
  then have "unat (index mod maxRecord fm + bytes div ucast (recordSize fm)) = unat index mod ?m + n"
    using g(6) assms(2,3) by (subst unat_word_ariths) (simp add: unat_mod)
  then have "wraps fm index bytes \<longleftrightarrow> ?m < unat index mod ?m + n"
    using lt by (simp add: wraps_def word_less_nat_alt unat_mod)
  also have "\<dots> \<longleftrightarrow> ?m * ?r < (unat index mod ?m + n) * ?r" using g(1) by simp
  also have "(unat index mod ?m + n) * ?r = unat index * ?r mod (?m * ?r) + n * ?r"
    by (simp add: add_mult_distrib mod_mult_mult2)
  finally show ?thesis by (simp add: g(3))
qed

lemma unat_bytes_to_end:
  assumes "ring_geometry cap fm"
  shows "unat (bytes_to_end fm index) =
    cap - 8192 - unat index * unat (recordSize fm) mod (cap - 8192)"
proof -
  note g = ring_geometry_simps [OF assms]
  let ?r = "unat (recordSize fm)" and ?m = "unat (maxRecord fm)"
  have le: "unat index mod ?m \<le> ?m" using g(2) by (simp add: less_imp_le)
  then have sub: "unat (maxRecord fm - index mod maxRecord fm) = ?m - unat index mod ?m"
    by (simp add: unat_sub word_le_nat_alt unat_mod)
  have "(?m - unat index mod ?m) * ?r \<le> ?m * ?r" by simp
  moreover have "?m * ?r < 2 ^ 32"
  proof -
    have "cap \<le> 2 ^ 24" using assms by (simp add: ring_geometry_def)
    then show ?thesis unfolding g(3) by simp
  qed
  ultimately have "(?m - unat index mod ?m) * ?r < 2 ^ 32" by linarith
  then have "unat (bytes_to_end fm index) = (?m - unat index mod ?m) * ?r"
    unfolding bytes_to_end_def by (subst unat_word_ariths) (simp add: sub)
  also have "\<dots> = ?m * ?r - unat index * ?r mod (?m * ?r)"
    by (simp add: diff_mult_distrib mod_mult_mult2)
  finally show ?thesis by (simp add: g(3))
qed

lemma cell_of_to_end:
  assumes "p mod m + k = m" and "k \<le> j" and "j < m"
  shows "cell_of m (p + j) = 8192 + (j - k)"
  using cell_of_wrap [of m p j] assms by simp

text \<open>Laying a block down in one piece, and in two.\<close>

lemma laid_down_whole:
  assumes "p mod n + length bs \<le> n"
    and "m' = (\<lambda>i. if cell_of n p \<le> i \<and> i < cell_of n p + length bs then bs ! (i - cell_of n p) else m i)"
  shows "laid_down n p bs m m'"
proof -
  have c: "cell_of n (p + k) = cell_of n p + k" if "k < length bs" for k
    using that assms(1) by (intro cell_of_add) simp
  have "m' a = m a" if "\<forall>k < length bs. a \<noteq> cell_of n (p + k)" for a
  proof -
    have "\<not> (cell_of n p \<le> a \<and> a < cell_of n p + length bs)"
      using that c by (metis add_diff_inverse_nat less_diff_conv2 not_less add.commute)
    then show ?thesis by (subst assms(2)) auto
  qed
  then show ?thesis unfolding laid_down_def by (simp add: c assms(2))
qed

lemma laid_down_split:
  assumes "p mod n + k = n" and "k < length bs" and "length bs < n"
    and "m1 = (\<lambda>i. if cell_of n p \<le> i \<and> i < cell_of n p + k then bs ! (i - cell_of n p) else m i)"
    and "m2 = (\<lambda>i. if 8192 \<le> i \<and> i < 8192 + (length bs - k) then bs ! (k + (i - 8192)) else m1 i)"
  shows "laid_down n p bs m m2"
proof -
  have lo: "cell_of n (p + j) = cell_of n p + j" if "j < k" for j
    using that assms(1) by (intro cell_of_add) simp
  have hi: "cell_of n (p + j) = 8192 + (j - k)" if "k \<le> j" "j < length bs" for j
    using that assms(1,3) by (intro cell_of_to_end) simp_all
  have base: "cell_of n p = 8192 + (n - k)" using assms(1) by (simp add: cell_of_def)
  have "m2 (cell_of n (p + j)) = bs ! j" if j: "j < length bs" for j
  proof (cases "j < k")
    case True
    have "\<not> cell_of n p + j < 8192 + (length bs - k)"
      unfolding base using assms(1,3) j by arith
    then have "m2 (cell_of n p + j) = m1 (cell_of n p + j)" by (simp add: assms(5))
    with True show ?thesis by (simp add: lo assms(4))
  next
    case False
    then obtain i where i: "j = k + i" by (metis le_Suc_ex not_less)
    then have "cell_of n (p + j) = 8192 + i" using hi [of j] j by simp
    then show ?thesis using j i by (simp add: assms(5) less_diff_conv add.commute)
  qed
  moreover have "m2 a = m a" if a: "\<forall>j < length bs. a \<noteq> cell_of n (p + j)" for a
  proof -
    have "\<not> (cell_of n p \<le> a \<and> a < cell_of n p + k)"
    proof
      assume *: "cell_of n p \<le> a \<and> a < cell_of n p + k"
      then obtain j where "a = cell_of n p + j" by (metis le_Suc_ex)
      moreover from this have "j < length bs" "cell_of n (p + j) = cell_of n p + j"
        using lo [of j] * assms(2) by simp_all
      ultimately show False using a by metis
    qed
    moreover have "\<not> (8192 \<le> a \<and> a < 8192 + (length bs - k))"
    proof
      assume *: "8192 \<le> a \<and> a < 8192 + (length bs - k)"
      then obtain i where i: "a = 8192 + i" by (metis le_Suc_ex)
      then have "k + i < length bs" "cell_of n (p + (k + i)) = a"
        using hi [of "k + i"] * by simp_all
      then show False using a by metis
    qed
    ultimately show ?thesis unfolding assms(4,5) by auto
  qed
  ultimately show ?thesis by (simp add: laid_down_def)
qed

context nor_flash
begin

text \<open>
  The refinement: on the abstract stream a write is an append; the cells of the configuration sector
  and the sector after it keep their contents.
\<close>

lemma writeRecords_appends:
  assumes g: "ring_geometry cap fm" and c: "calm idle cap (flash fm)"
    and ring: "ring_holds (cells (chip (flash fm))) (cap - 8192)
        (unat index * unat (recordSize fm)) log"
    and len: "length buff = n * unat (recordSize fm)" and n: "n < 256" "length buff < 2 ^ 16"
    and room: "length buff + 4096 \<le> cap - 8192" and index: "unat index + n \<le> 2 ^ 32"
  shows "\<exists>f'. writeRecords io index buff fm = Some (True, fm\<lparr>flash := f'\<rparr>) \<and> calm idle cap f' \<and>
    ring_holds (cells (chip f')) (cap - 8192) ((unat index + n) * unat (recordSize fm))
      (append_stream log (unat index * unat (recordSize fm)) buff) \<and>
    (\<forall>a < 8192. cells (chip f') a = cells (chip (flash fm)) a)"
proof -
  define N where "N = cap - 8192"
  define W where "W = unat index * unat (recordSize fm)"
  define K where "K = N - W mod N"
  let ?size = "of_nat (length buff) :: u32"
  note folds = N_def [symmetric] W_def [symmetric]
  let ?m = "cells (chip (flash fm))"
  note geo = ring_geometry_simps [OF g, unfolded folds]
  note ring = ring [unfolded folds]
  note room = room [unfolded folds]
  note sizes = block_sizes [OF g len n]
  let ?s = "N div 4096"
  have s: "N = 4096 * ?s" by (rule geo(4))
  have n0: "0 < N" using room by simp
  have "\<forall>i \<in> set [0..<n]. unat index + i < 2 ^ 32" using index by simp
  from erase_sectors_ok [OF g c this] obtain f1 where
    f1: "erase_sectors io fm index [0..<n] (flash fm) = Some f1" "calm idle cap f1" and
    m1: "cells (chip f1) = (\<lambda>a. if \<exists>i \<in> set [0..<n]. 4096 dvd (unat index + i) * unat (recordSize fm) \<and>
        a div 4096 = cell_of N ((unat index + i) * unat (recordSize fm)) div 4096 then 0xFF else ?m a)"
    unfolding folds by blast
  let ?m1 = "cells (chip f1)"
  have er: "erased_for N W (length buff) ?m ?m1"
    unfolding erased_for_def m1 len W_def
    using bytes_and_records [OF geo(1), of "unat index" n] g by (simp add: ring_geometry_def)
  have blank: "?m1 (cell_of N (W + k)) = 0xFF" if "k < length buff" for k
    using erased_for_blank [OF er s] ring that next_sector_bounds [of "W + length buff"]
    by (simp add: ring_holds_def)
  have addr: "unat (record_address fm index) = cell_of N W" unfolding N_def W_def by (rule unat_record_address [OF g])
  have addr_le: "unat (record_address fm index) \<le> cap"
    using cell_of_less [OF n0, of W] geo(5) unfolding addr by simp
  have config1: "?m1 a = ?m a" if "a < 8192" for a using erased_for_config [OF er s that] .
  have config2: "m2 a = ?m1 a" if "laid_down N W buff ?m1 m2" "a < 8192" for a m2
    using that unfolding laid_down_def by (auto simp: cell_of_def)
  have finish: ?thesis if "writeRecords io index buff fm = Some (True, fm\<lparr>flash := f2\<rparr>)" and "calm idle cap f2"
    and "laid_down N W buff ?m1 (cells (chip f2))" for f2
    using that config1 config2 [OF that(3)] ring_holds_append [OF ring s er that(3) room]
    unfolding folds by (auto simp: len W_def add_mult_distrib)
  show ?thesis
  proof (cases "wraps fm index ?size")
    case False
    then have fits: "W mod N + length buff \<le> N"
      using wraps_iff [OF g sizes(1) n(1), of index, unfolded folds] by (simp add: len)
    then have cells_eq: "cell_of N (W + k) = unat (record_address fm index) + k" if "k < length buff" for k
      unfolding addr using that by (intro cell_of_add) simp
    have "unat (record_address fm index) + k < cap" if "k < length buff" for k
      using cell_of_less [OF n0, of "W + k"] geo(5) unfolding cells_eq [OF that] by simp
    with blank cells_eq addr_le obtain f2 where
      f2: "writeByteArray io (record_address fm index) buff True f1 = Some (True, f2)" "calm idle cap f2"
      "cells (chip f2) = (\<lambda>i. if cell_of N W \<le> i \<and> i < cell_of N W + length buff
          then buff ! (i - cell_of N W) else ?m1 i)"
      using write_part [OF f1(2), of buff "record_address fm index"] unfolding addr by auto
    show ?thesis
    proof (rule finish)
      show "writeRecords io index buff fm = Some (True, fm\<lparr>flash := f2\<rparr>)"
        using False f1 f2 by (simp add: writeRecords_def Let_def sizes del: of_nat_mult)
      show "laid_down N W buff ?m1 (cells (chip f2))"
        using fits f2(3) by (rule laid_down_whole)
    qed (rule f2)
  next
    case True
    have over: "N < W mod N + length buff"
      using wraps_iff [OF g sizes(1) n(1), of index, unfolded folds] True by (simp add: len)
    have w_lt: "W mod N < N" using n0 by simp
    have k: "unat (bytes_to_end fm index) = K" unfolding K_def N_def W_def by (rule unat_bytes_to_end [OF g])
    have k_lt: "K < length buff" "W mod N + K = N" "0 < K" using over w_lt by (simp_all add: K_def)
    have size_k: "size16 (bytes_to_end fm index) = K"
      using k_lt n(2) by (simp add: size16_def unat_ucast_u32_u16 k)
    have "bytes_to_end fm index \<le> ?size"
      using k_lt by (simp add: word_le_nat_alt k sizes del: of_nat_mult)
    then have size_rest: "size16 (?size - bytes_to_end fm index) = length buff - K"
      using n(2) by (simp add: size16_def unat_ucast_u32_u16 unat_sub k sizes del: of_nat_mult)
    have lo: "cell_of N (W + j) = unat (record_address fm index) + j" if "j < K" for j
      unfolding addr using that k_lt(2) by (intro cell_of_add) simp
    have "unat (record_address fm index) + j < cap" if "j < K" for j
      using cell_of_less [OF n0, of "W + j"] geo(5) unfolding lo [OF that] by simp
    moreover have "?m1 (unat (record_address fm index) + j) = 0xFF" if "j < K" for j
      using blank [of j] lo [OF that] that k_lt(1) by simp
    ultimately obtain f2 where
      f2: "writeByteArray io (record_address fm index) (take K buff) True f1 = Some (True, f2)" "calm idle cap f2"
      "cells (chip f2) = (\<lambda>i. if cell_of N W \<le> i \<and> i < cell_of N W + K
          then take K buff ! (i - cell_of N W) else ?m1 i)"
      using write_part [OF f1(2), of "take K buff" "record_address fm index"] addr_le k_lt(1)
      unfolding addr by auto
    then have m2: "cells (chip f2) = (\<lambda>i. if cell_of N W \<le> i \<and> i < cell_of N W + K
          then buff ! (i - cell_of N W) else ?m1 i)"
      by (auto simp: fun_eq_iff)
    have hi: "cell_of N (W + (K + j)) = 8192 + j" if "j < length buff - K" for j
      using cell_of_to_end [OF k_lt(2), of "K + j"] that room by simp
    have "cells (chip f2) (8192 + j) = 0xFF" if j: "j < length buff - K" for j
    proof -
      have "\<not> cell_of N W \<le> 8192 + j"
        using j k_lt room by (simp add: cell_of_def)
      moreover have "?m1 (8192 + j) = 0xFF" using blank [of "K + j"] hi [OF j] j by simp
      ultimately show ?thesis by (simp add: m2)
    qed
    moreover have "8192 + j < cap" if "j < length buff - K" for j
      using that room geo(5) by simp
    moreover have u: "unat reserveSize = 8192" by simp
    ultimately obtain f3 where
      f3: "writeByteArray io reserveSize (drop K buff) True f2 = Some (True, f3)" "calm idle cap f3"
      "cells (chip f3) = (\<lambda>i. if 8192 \<le> i \<and> i < 8192 + (length buff - K)
          then drop K buff ! (i - 8192) else cells (chip f2) i)"
      using write_part [OF f2(2), of "drop K buff" reserveSize, unfolded u] geo(5) by auto
    then have m3: "cells (chip f3) = (\<lambda>i. if 8192 \<le> i \<and> i < 8192 + (length buff - K)
          then buff ! (K + (i - 8192)) else cells (chip f2) i)"
      using k_lt(1) by (auto simp: fun_eq_iff)
    show ?thesis
    proof (rule finish)
      show "writeRecords io index buff fm = Some (True, fm\<lparr>flash := f3\<rparr>)"
        using True f1 f2 f3
        by (simp add: writeRecords_def Let_def sizes size_k size_rest k del: of_nat_mult)
      show "laid_down N W buff ?m1 (cells (chip f3))"
        using k_lt(2,1) _ m2 m3 by (rule laid_down_split) (use room in simp)
    qed (rule f3)
  qed
qed

lemma readRecords_cells:
  assumes g: "ring_geometry cap fm" and c: "calm idle cap (flash fm)"
    and len: "len = n * unat (recordSize fm)" and n: "n < 256" "len < 2 ^ 16"
    and room: "len \<le> cap - 8192"
  shows "\<exists>f'. readRecords io index buff (of_nat len) fm = Some (True,
      store buff 0 (map (\<lambda>k. cells (chip (flash fm))
          (cell_of (cap - 8192) (unat index * unat (recordSize fm) + k))) [0..<len]), fm\<lparr>flash := f'\<rparr>) \<and>
    calm idle cap f' \<and> cells (chip f') = cells (chip (flash fm))"
proof -
  define N where "N = cap - 8192"
  define W where "W = unat index * unat (recordSize fm)"
  define K where "K = N - W mod N"
  let ?size = "of_nat len :: u32"
  let ?m = "cells (chip (flash fm))"
  note folds = N_def [symmetric] W_def [symmetric]
  note geo = ring_geometry_simps [OF g, unfolded folds]
  note room = room [unfolded folds]
  note sizes = block_sizes [OF g len n]
  have addr: "unat (record_address fm index) = cell_of N W"
    unfolding N_def W_def by (rule unat_record_address [OF g])
  have n0: "0 < N" using g by (simp add: N_def ring_geometry_def)
  show ?thesis
  proof (cases "wraps fm index ?size")
    case False
    then have fits: "W mod N + len \<le> N"
      using wraps_iff [OF g sizes(1) n(1), of index, unfolded folds] by (simp add: len)
    then have "cell_of N W + len \<le> cap" using geo(5) by (simp add: cell_of_def)
    with sizes(5) have "unat (record_address fm index) + unat (ucast ?size :: u16) \<le> cap"
      unfolding addr by simp
    from readByteArray_ok [OF c this] obtain f1 where
      f1: "readByteArray io (record_address fm index) (ucast ?size) False (flash fm) =
        Some (True, map (\<lambda>i. ?m (cell_of N W + i)) [0..<len], f1)" "calm idle cap f1"
        "cells (chip f1) = ?m"
      unfolding addr sizes(5) by blast
    have "map (\<lambda>i. ?m (cell_of N W + i)) [0..<len] =
        map (\<lambda>k. ?m (cell_of N (W + k))) [0..<len]"
      using fits by (intro map_cong refl) (simp add: cell_of_add)
    with f1 False show ?thesis
      unfolding folds by (intro exI [of _ f1]) (simp add: readRecords_def Let_def)
  next
    case True
    have over: "N < W mod N + len"
      using wraps_iff [OF g sizes(1) n(1), of index, unfolded folds] True by (simp add: len)
    have w_lt: "W mod N < N" using n0 by simp
    have k: "unat (bytes_to_end fm index) = K"
      unfolding K_def N_def W_def by (rule unat_bytes_to_end [OF g])
    have k_lt: "K < len" "W mod N + K = N" "0 < K" using over w_lt by (simp_all add: K_def)
    have size_k: "unat (ucast (bytes_to_end fm index) :: u16) = K"
      using k_lt n(2) by (simp add: unat_ucast_u32_u16 k)
    have "bytes_to_end fm index \<le> ?size"
      using k_lt by (simp add: word_le_nat_alt k sizes del: of_nat_mult)
    then have size_rest: "unat (ucast (?size - bytes_to_end fm index) :: u16) = len - K"
      using n(2) by (simp add: unat_ucast_u32_u16 unat_sub k sizes del: of_nat_mult)
    have "unat (record_address fm index) + unat (ucast (bytes_to_end fm index) :: u16) \<le> cap"
      unfolding addr size_k using k_lt(2) geo(5) by (simp add: cell_of_def)
    from readByteArray_ok [OF c this] obtain f1 where
      f1: "readByteArray io (record_address fm index) (ucast (bytes_to_end fm index)) False (flash fm) =
        Some (True, map (\<lambda>i. ?m (cell_of N W + i)) [0..<K], f1)" "calm idle cap f1" "cells (chip f1) = ?m"
      unfolding addr size_k by blast
    have u: "unat reserveSize = 8192" by simp
    have "unat reserveSize + unat (ucast (?size - bytes_to_end fm index) :: u16) \<le> cap"
      unfolding size_rest using room geo(5) by simp
    from readByteArray_ok [OF f1(2) this] obtain f2 where
      f2: "readByteArray io reserveSize (ucast (?size - bytes_to_end fm index)) False f1 =
        Some (True, map (\<lambda>i. ?m (8192 + i)) [0..<len - K], f2)" "calm idle cap f2"
        "cells (chip f2) = ?m"
      unfolding f1(3) size_rest u by blast
    have "map (\<lambda>i. ?m (cell_of N W + i)) [0..<K] @ map (\<lambda>i. ?m (8192 + i)) [0..<len - K] =
        map (\<lambda>k. ?m (cell_of N (W + k))) [0..<len]" (is "?l = ?r")
    proof (rule nth_equalityI)
      show "length ?l = length ?r" using k_lt(1) by simp
      fix i assume "i < length ?l"
      then have i: "i < len" using k_lt(1) by simp
      show "?l ! i = ?r ! i"
      proof (cases "i < K")
        case True
        then have "cell_of N (W + i) = cell_of N W + i" using k_lt(2) by (intro cell_of_add) simp
        with True i show ?thesis by (simp add: nth_append)
      next
        case False
        then obtain j where j: "i = K + j" by (metis le_Suc_ex not_less)
        have "cell_of N (W + i) = 8192 + j"
          using cell_of_to_end [OF k_lt(2), of i] i j room by simp
        with False i j show ?thesis by (simp add: nth_append)
      qed
    qed
    moreover have "store (store buff 0 xs) K ys = store buff 0 (xs @ ys)"
      if "length xs = K" "length ys = len - K" for xs ys
      using that k_lt(1) by (simp add: store_def)
    ultimately show ?thesis
      using f1 f2 True unfolding folds by (intro exI [of _ f2]) (simp add: readRecords_def Let_def k)
  qed
qed

text \<open>What is read back is the stream, for a block inside the live window.\<close>

lemma readRecords_stream:
  assumes g: "ring_geometry cap fm" and c: "calm idle cap (flash fm)"
    and ring: "ring_holds (cells (chip (flash fm))) (cap - 8192) w log"
    and len: "len = n * unat (recordSize fm)" and n: "n < 256" "len < 2 ^ 16"
    and live: "next_sector w \<le> unat index * unat (recordSize fm) + (cap - 8192)"
      "(unat index + n) * unat (recordSize fm) \<le> w"
  shows "\<exists>f'. readRecords io index buff (of_nat len) fm = Some (True,
      store buff 0 (map (\<lambda>k. log (unat index * unat (recordSize fm) + k)) [0..<len]), fm\<lparr>flash := f'\<rparr>) \<and>
    calm idle cap f' \<and> cells (chip f') = cells (chip (flash fm))"
proof -
  let ?p = "unat index * unat (recordSize fm)"
  have end_le: "?p + len \<le> w" using live(2) by (simp add: len add_mult_distrib)
  have room: "len \<le> cap - 8192" using end_le live(1) next_sector_bounds [of w] by simp
  have "map (\<lambda>k. cells (chip (flash fm)) (cell_of (cap - 8192) (?p + k))) [0..<len] =
      map (\<lambda>k. log (?p + k)) [0..<len]"
    using ring end_le live(1) by (intro map_cong refl) (simp add: ring_holds_def)
  with readRecords_cells [OF g c len n room, of index] show ?thesis by simp
qed

text \<open>The pages of the configuration.\<close>

lemma unat_getAddress: "i < 65536 \<Longrightarrow> unat (getAddress (of_nat i) 0) = 256 * i"
proof -
  assume i: "i < 65536"
  have "unat (ucast (of_nat i :: u16) :: u32) = i"
  proof -
    have "unat (ucast n :: u32) = unat n" for n :: u16 by transfer (simp add: take_bit_eq_mod)
    then show ?thesis using i by (simp add: unat_of_nat)
  qed
  then show ?thesis
    using i by (simp add: getAddress_def push_bit_eq_mult unat_word_ariths)
qed

lemma write_pages_ok:
  assumes "calm idle cap f" and "length buff = configSize" and "n \<le> 16" and "configSize \<le> cap"
    and "\<forall>a < configSize. 256 * i \<le> a \<longrightarrow> cells (chip f) a = 0xFF" and "i \<le> n"
  shows "\<exists>f'. write_pages io buff [i..<n] f = Some f' \<and> calm idle cap f' \<and>
    cells (chip f') = (\<lambda>a. if 256 * i \<le> a \<and> a < 256 * n then buff ! a else cells (chip f) a)"
  using assms
proof (induction "n - i" arbitrary: i f)
  case 0
  then show ?case by (auto simp: fun_eq_iff)
next
  case (Suc k)
  then have i: "i < n" "i < 16" by simp_all
  have addr: "unat (getAddress (of_nat i) 0) = 256 * i" using i by (simp add: unat_getAddress)
  let ?page = "take 256 (drop (i * 256) buff)"
  have page: "length ?page = 256" using i Suc.prems(2) by simp
  have "unat (getAddress (of_nat i) 0) + length ?page \<le> cap"
    unfolding addr page using i Suc.prems(4) by simp
  moreover have "\<forall>j < length ?page. cells (chip f) (unat (getAddress (of_nat i) 0) + j) = 0xFF"
    unfolding addr page using i Suc.prems(5) by simp
  ultimately obtain f1 where
    f1: "writeByteArray io (getAddress (of_nat i) 0) ?page True f = Some (True, f1)"
      "calm idle cap f1"
    and c1: "cells (chip f1) = (\<lambda>a. if 256 * i \<le> a \<and> a < 256 * i + 256 then ?page ! (a - 256 * i)
                                  else cells (chip f) a)"
    using writeByteArray_ok [OF Suc.prems(1), of "getAddress (of_nat i) 0" ?page]
    unfolding addr page by blast
  have c1': "cells (chip f1) a = (if 256 * i \<le> a \<and> a < 256 * i + 256 then buff ! a
      else cells (chip f) a)" for a
  proof (cases "256 * i \<le> a \<and> a < 256 * i + 256")
    case True
    then obtain j where "a = 256 * i + j" "j < 256" by (metis le_Suc_ex nat_add_left_cancel_less)
    then show ?thesis using Suc.prems(2) i by (simp add: c1 mult.commute)
  qed (auto simp: c1)
  have "\<forall>a < configSize. 256 * Suc i \<le> a \<longrightarrow> cells (chip f1) a = 0xFF"
    using Suc.prems(5) by (simp add: c1')
  moreover have "k = n - Suc i" using Suc.hyps(2) by simp
  ultimately obtain f' where
    "write_pages io buff [Suc i..<n] f1 = Some f'" "calm idle cap f'"
    "cells (chip f') = (\<lambda>a. if 256 * Suc i \<le> a \<and> a < 256 * n then buff ! a else cells (chip f1) a)"
    using Suc.hyps(1) [of "Suc i" f1] f1(2) Suc.prems(2-4) i by auto
  moreover have "[i..<n] = i # [Suc i..<n]" using i by (simp add: upt_conv_Cons)
  ultimately show ?case
    using f1 i by (auto simp: fun_eq_iff c1' mult.commute)
qed

lemma config_round_trip:
  assumes "calm idle cap (flash fm)" and "configSize \<le> cap" and "length mem = configSize"
    and "length mem' = configSize"
    and "config \<noteq> []" and "length config < configSize" and "0 \<notin> set config"
  shows "\<exists>fm1 fm2. writeConfigFlash io config mem fm = Some (True, fm1) \<and>
    readConfigFlash io mem' fm1 = Some (butlast config, fm2) \<and>
    (\<forall>a \<ge> 4096. cells (chip (flash fm1)) a = cells (chip (flash fm)) a) \<and>
    calm idle cap (flash fm1) \<and> (\<exists>f. fm1 = fm\<lparr>flash := f\<rparr>)"
proof -
  let ?n = "length config"
  let ?buff = "toCharArray config ?n mem"
  have n: "0 < ?n" using assms(5) by simp
  have buff: "?buff = butlast config @ 0 # drop ?n mem"
    using n assms(3,6) by (simp add: toCharArray_def store_def butlast_conv_take)
  obtain l where l: "?n = Suc l" using n by (cases ?n) auto
  then have len: "length ?buff = configSize" unfolding buff using assms(3,6) by simp
  have "unat (0 :: u32) < cap" using assms(2) by simp
  from eraseSector_ok [OF assms(1) this] obtain f1 where
    f1: "eraseSector io 0 (flash fm) = Some (True, f1)" "calm idle cap f1"
    "cells (chip f1) = (\<lambda>a. if a div 4096 = 0 then 0xFF else cells (chip (flash fm)) a)" by auto
  have pages: "?n div 256 < 16" using assms(6) by (simp add: div_less_iff_less_mult)
  have "\<forall>a < configSize. 256 * 0 \<le> a \<longrightarrow> cells (chip f1) a = 0xFF"
    by (simp add: f1(3))
  then obtain f2 where
    f2: "write_pages io ?buff [0..<Suc (?n div 256)] f1 = Some f2" "calm idle cap f2"
    "cells (chip f2) = (\<lambda>a. if a < 256 * Suc (?n div 256) then ?buff ! a else cells (chip f1) a)"
    using write_pages_ok [OF f1(2) len, of "Suc (?n div 256)" 0] pages assms(2) by auto
  have sz: "unat (of_nat configSize :: u16) = configSize" by simp
  have "unat (0 :: u32) + unat (of_nat configSize :: u16) \<le> cap" using assms(2) by simp
  from readByteArray_ok [OF f2(2) this] obtain f3 where
    f3: "readByteArray io 0 (of_nat configSize) False f2 =
      Some (True, map (cells (chip f2)) [0..<configSize], f3)" by auto
  have "?n \<le> 256 * Suc (?n div 256)"
    using div_mult_mod_eq [of ?n 256] mod_less_divisor [of 256 ?n] by simp
  then have "take ?n (map (cells (chip f2)) [0..<configSize]) = take ?n ?buff"
    using assms(6) len by (intro nth_equalityI) (simp_all add: f2(3))
  also have "\<dots> = butlast config @ [0]" unfolding buff by (simp add: l)
  finally have "map (cells (chip f2)) [0..<configSize] =
      (butlast config @ [0]) @ drop ?n (map (cells (chip f2)) [0..<configSize])"
    by (metis append_take_drop_id)
  moreover have "takeWhile (\<lambda>b. b \<noteq> 0) ((butlast config @ [0]) @ ys) = butlast config" for ys
  proof -
    have "\<forall>b \<in> set (butlast config). b \<noteq> 0" using assms(7) by (metis in_set_butlastD)
    then have "takeWhile (\<lambda>b. b \<noteq> 0) (butlast config @ 0 # ys) =
        butlast config @ takeWhile (\<lambda>b. b \<noteq> 0) (0 # ys)"
      by (intro takeWhile_append2) simp
    then show ?thesis by simp
  qed
  ultimately have
    "takeWhile (\<lambda>b. b \<noteq> 0) (map (cells (chip f2)) [0..<configSize]) = butlast config" by metis
  then have "readConfigFlash io mem' (fm\<lparr>flash := f2\<rparr>) = Some (butlast config, fm\<lparr>flash := f3\<rparr>)"
    using f3 assms(4) by (simp add: readConfigFlash_def store_def)
  moreover have "writeConfigFlash io config mem fm = Some (True, fm\<lparr>flash := f2\<rparr>)"
    using f1(1) f2(1) by (simp add: writeConfigFlash_def Let_def)
  moreover have "cells (chip f2) a = cells (chip (flash fm)) a" if "4096 \<le> a" for a
    using that pages by (simp add: f2(3) f1(3) div_eq_0_iff)
  ultimately show ?thesis using f2(2) by auto
qed

end

section \<open>The record store\<close>

text \<open>
  C4: The store refines an append-only stream. On any chip that meets its data sheet, a block of
  fewer than 256 records that leaves a sector free is written successfully wherever it lies in the
  ring, wrapping around its end or not; afterwards the ring holds the extended stream (everything
  less than a ring behind the next sector boundary, new block included), the cells up to that
  boundary are erased for the writes to come, and the two sectors below the ring are untouched.
\<close>

theorem flash_write_refines_append:
  assumes "nor_flash io cells wel idle cap" and "ring_geometry cap fm"
    and "calm idle cap (flash fm)"
    and "ring_holds (cells (chip (flash fm))) (cap - 8192) (unat index * unat (recordSize fm)) log"
    and "length buff = n * unat (recordSize fm)" and "n < 256" and "length buff < 2 ^ 16"
    and "length buff + 4096 \<le> cap - 8192" and "unat index + n \<le> 2 ^ 32"
  shows "\<exists>f'. writeMeterData io index buff fm = Some (True, fm\<lparr>flash := f'\<rparr>) \<and> calm idle cap f' \<and>
    ring_holds (cells (chip f')) (cap - 8192) ((unat index + n) * unat (recordSize fm))
      (append_stream log (unat index * unat (recordSize fm)) buff) \<and>
    (\<forall>a < 8192. cells (chip f') a = cells (chip (flash fm)) a)"
  unfolding writeMeterData_def using assms by (rule nor_flash.writeRecords_appends)

text \<open>
  C5: Every block inside the live window is read back as it stands in the stream, in one piece or in
  two, and reading changes no cell.
\<close>

theorem flash_read_returns_stream:
  assumes "nor_flash io cells wel idle cap" and "ring_geometry cap fm"
    and "calm idle cap (flash fm)"
    and "ring_holds (cells (chip (flash fm))) (cap - 8192) w log"
    and "len = n * unat (recordSize fm)" and "n < 256" and "len < 2 ^ 16"
    and "next_sector w \<le> unat index * unat (recordSize fm) + (cap - 8192)"
    and "(unat index + n) * unat (recordSize fm) \<le> w"
  shows "\<exists>f'. readMeterRecord io index buff (of_nat len) fm = Some (True,
      store buff 0 (map (\<lambda>k. log (unat index * unat (recordSize fm) + k)) [0..<len]), fm\<lparr>flash := f'\<rparr>) \<and>
    calm idle cap f' \<and> cells (chip f') = cells (chip (flash fm))"
  unfolding readMeterRecord_def using assms by (rule nor_flash.readRecords_stream)

text \<open>
  C9: A write never programs over data: unless all cells of the range are erased, \<open>writeByteArray\<close>
  returns false and leaves every cell as it was.
\<close>

theorem flash_never_overwrites:
  assumes "nor_flash io cells wel idle cap" and "calm idle cap f" and "unat a + length data \<le> cap"
    and "\<exists>i < length data. cells (chip f) (unat a + i) \<noteq> 0xFF"
  shows "\<exists>f'. writeByteArray io a data errorCheck f = Some (False, f') \<and> calm idle cap f' \<and>
    cells (chip f') = cells (chip f)"
  using assms by (rule nor_flash.writeByteArray_refuses)

text \<open>
  A configuration text that is stored and read back has lost its last character, since
  \<open>toCharArray\<close> is given the length without the terminator; no cell above the first sector changes.
\<close>

theorem config_loses_last_character:
  assumes "nor_flash io cells wel idle cap" and "calm idle cap (flash fm)" and "configSize \<le> cap"
    and "length mem = configSize" and "length mem' = configSize"
    and "config \<noteq> []" and "length config < configSize" and "0 \<notin> set config"
  shows "\<exists>fm1 fm2. writeConfigFlash io config mem fm = Some (True, fm1) \<and>
    readConfigFlash io mem' fm1 = Some (butlast config, fm2) \<and>
    (\<forall>a \<ge> 4096. cells (chip (flash fm1)) a = cells (chip (flash fm)) a)"
  using nor_flash.config_round_trip [OF assms] by blast

section \<open>On the chip with timing\<close>

definition blank_nor :: nor where
  "blank_nor = \<lparr>nor_cells = (\<lambda>a. 0xFF), nor_wel = False, nor_busy = 0, nor_selected = False,
     nor_got = [], nor_clock = 0\<rparr>"

definition blank_meter :: "nor flash_meter" where
  "blank_meter =
     \<lparr>flash = \<lparr>chip = blank_nor, currentAddress = 0, status = 0, errorcode = 0, SPIBusState = False,
        manufacturerID = 0xEF, memoryTypeID = 0x40, capacityID = 0x15, supported = 0xEF, sfdp = 0,
        capacity = 2 * 1024 * 1024, eraseTime = 10000, pageOverflow = True\<rparr>,
      recordSize = 64, maxRecord = 32640\<rparr>"

lemma blank_meter_ok:
  "ring_geometry (2 * 1024 * 1024) blank_meter"
  "calm nor_idle (2 * 1024 * 1024) (flash blank_meter)"
  "ring_holds (nor_cells (chip (flash blank_meter))) n 0 log"
  by (simp_all add: ring_geometry_def blank_meter_def calm_def usable_def nor_idle_def blank_nor_def
      ring_holds_def next_sector_def)

lemma flash_write_refines_append_witness:
  "\<exists>f'. writeMeterData nor_chip 0 (replicate 64 7) blank_meter = Some (True, blank_meter\<lparr>flash := f'\<rparr>) \<and>
     ring_holds (nor_cells (chip f')) 2088960 64 (append_stream (\<lambda>p. 0) 0 (replicate 64 7))"
  using flash_write_refines_append [OF w25.nor_flash_axioms blank_meter_ok(1,2),
      of 0 "\<lambda>p. 0" "replicate 64 7" 1] blank_meter_ok(3)
  by (auto simp: blank_meter_def)

lemma flash_read_returns_stream_witness:
  "\<exists>f1 f2. writeMeterData nor_chip 0 (replicate 64 7) blank_meter = Some (True, blank_meter\<lparr>flash := f1\<rparr>) \<and>
     readMeterRecord nor_chip 0 (replicate 64 0) 64 (blank_meter\<lparr>flash := f1\<rparr>) =
       Some (True, replicate 64 7, blank_meter\<lparr>flash := f2\<rparr>)"
proof -
  let ?log = "append_stream (\<lambda>p. 0) 0 (replicate 64 7)"
  obtain f1 where f1: "writeRecords nor_chip 0 (replicate 64 7) blank_meter =
      Some (True, blank_meter\<lparr>flash := f1\<rparr>)" "calm nor_idle (2 * 1024 * 1024) f1"
    "ring_holds (nor_cells (chip f1)) 2088960 64 ?log"
    using w25.writeRecords_appends [OF blank_meter_ok(1,2), of 0 "\<lambda>p. 0" "replicate 64 7" 1]
      blank_meter_ok(3)
    by (auto simp: blank_meter_def)
  have geo: "ring_geometry (2 * 1024 * 1024) (blank_meter\<lparr>flash := f1\<rparr>)"
    using blank_meter_ok(1) by (simp add: ring_geometry_def)
  have c: "calm nor_idle (2 * 1024 * 1024) (flash (blank_meter\<lparr>flash := f1\<rparr>))" using f1(2) by simp
  have r: "ring_holds (nor_cells (chip (flash (blank_meter\<lparr>flash := f1\<rparr>)))) (2 * 1024 * 1024 - 8192) 64 ?log"
    using f1(3) by simp
  have m: "map (\<lambda>k. ?log k) [0..<64] = replicate 64 7"
    by (intro nth_equalityI) (simp_all add: append_stream_def)
  from flash_read_returns_stream [OF w25.nor_flash_axioms geo c r, of 64 1 0 "replicate 64 0"] f1(1) m
  show ?thesis
    by (auto simp: blank_meter_def next_sector_def writeMeterData_def store_def)
qed

lemma flash_never_overwrites_witness:
  "\<exists>f'. writeByteArray nor_chip 3 [1] True
     ((flash blank_meter)\<lparr>chip := blank_nor\<lparr>nor_cells := (\<lambda>a. 0)\<rparr>\<rparr>) = Some (False, f') \<and>
     nor_cells (chip f') = (\<lambda>a. 0)"
  using flash_never_overwrites [OF w25.nor_flash_axioms,
      of "(flash blank_meter)\<lparr>chip := blank_nor\<lparr>nor_cells := (\<lambda>a. 0)\<rparr>\<rparr>" 3 "[1]" True]
  by (auto simp: blank_meter_def calm_def usable_def nor_idle_def blank_nor_def)

lemma config_loses_last_character_witness:
  "\<exists>fm1 fm2. writeConfigFlash nor_chip [123, 65, 125] (replicate 4096 0) blank_meter = Some (True, fm1) \<and>
     readConfigFlash nor_chip (replicate 4096 0) fm1 = Some ([123, 65], fm2)"
  using config_loses_last_character [OF w25.nor_flash_axioms blank_meter_ok(2),
      of "replicate 4096 0" "replicate 4096 0" "[123, 65, 125]"]
  by auto

end
