(* ===== verification/Logger.thy ===== *)
theory Logger
  imports Drivers FlashRing
begin

unbundle bit_operations_syntax

text \<open>
  \<open>main.cpp\<close>: the store-and-forward logger. Readings of the meters (type 1), the analog sensors
  (type 2) or the flow meter (type 3) go to the flash ring at \<open>wIndex\<close>; the post tasks take records
  from \<open>rIndex\<close> on and advance it once the server has answered 200. Both indices are mirrored in
  the battery-backed RAM of the clock chip.

  Environment: the clock (\<open>now\<close> is \<open>mktime(&timeinfo)\<close>), whether WiFi is connected, the status codes
  of the HTTP requests in turn, the float arithmetic and the flash chip. A request is recorded in
  \<open>posts\<close>; the text of a body is a list of tokens, since how the C library prints a number or a time
  is not code of the repository. Messages on the debug port, LEDs and watchdogs are left out.
\<close>

section \<open>Configuration and state\<close>

record configMeter =
  m_id :: u8
  m_xid :: u32
  m_type :: u8
  m_index :: u8
  m_adjust :: "u32 list"
  m_table :: "u16 list"

record configSensor =
  s_used :: "u8 list"
  s_xid :: "u32 list"
  s_adjust :: "(u32 \<times> u32) list"

record configFlow =
  f_id :: u8
  f_xid :: u32
  f_adjust :: "u32 list"

record config =
  cfg_type :: u8
  interval :: u16
  numMeter :: u8
  batch :: u8
  url :: string
  token :: string
  path :: string
  batch_path :: string
  batch_path_sensor :: string
  log_use :: u8
  cfgM :: "configMeter list"
  cfgS :: configSensor
  cfgF :: configFlow

datatype tok = Lit string | UInt u32 | Float4 u32 | Stamp u32

record post =
  post_url :: "tok list"
  post_body :: "tok list"
  post_code :: u16

record 'c logger =
  cfg :: config
  meter :: modbus
  md :: "meterData list"
  flow :: modbus
  fd :: flowData
  line :: bus
  ring :: "'c flash_meter"
  wBuff :: "u8 list"
  rBuff :: "u8 list"
  wIndex :: u32
  rIndex :: u32
  nvram :: "u8 list"
  lastTime :: u32
  fErrorCnt :: u8
  errlog :: u16
  http :: "u16 list"
  posts :: "post list"

abbreviation (input) RECSIZE :: nat where "RECSIZE \<equiv> 64"
abbreviation (input) MAXMETER :: nat where "MAXMETER \<equiv> 21"
abbreviation (input) MAXPOST :: u32 where "MAXPOST \<equiv> 6"
abbreviation (input) POSTSAVETIME :: int where "POSTSAVETIME \<equiv> 10"
abbreviation (input) FLASH_ERROR_MAX :: u8 where "FLASH_ERROR_MAX \<equiv> 3"

text \<open>The bits of \<open>errlog\<close>.\<close>

abbreviation (input) bit_restart :: nat where "bit_restart \<equiv> 0"
abbreviation (input) bit_spiflash :: nat where "bit_spiflash \<equiv> 4"
abbreviation (input) bit_sensor :: nat where "bit_sensor \<equiv> 5"
abbreviation (input) bit_server :: nat where "bit_server \<equiv> 6"

definition log_bit :: "nat \<Rightarrow> bool \<Rightarrow> 'c logger \<Rightarrow> 'c logger" where
  "log_bit b v st = st\<lparr>errlog := (if v then set_bit b (errlog st) else unset_bit b (errlog st))\<rparr>"

section \<open>The indices in the clock's RAM\<close>

definition setWIndex :: "'c logger \<Rightarrow> 'c logger" where
  "setWIndex st = st\<lparr>nvram := store (nvram st) 1 (le32 (wIndex st))\<rparr>"

definition setRIndex :: "'c logger \<Rightarrow> 'c logger" where
  "setRIndex st = st\<lparr>nvram := store (nvram st) 5 (le32 (rIndex st))\<rparr>"

definition getWIndex :: "'c logger \<Rightarrow> 'c logger" where
  "getWIndex st = st\<lparr>wIndex := of_le32 (load (nvram st) 1 4)\<rparr>"

definition getRIndex :: "'c logger \<Rightarrow> 'c logger" where
  "getRIndex st = st\<lparr>rIndex := of_le32 (load (nvram st) 5 4)\<rparr>"

text \<open>The part of \<open>setup\<close> that restores the indices.\<close>

definition restore_indices :: "'c logger \<Rightarrow> 'c logger" where
  "restore_indices st =
     (if nvram st ! 0 \<noteq> 0x55 then setRIndex (setWIndex (st\<lparr>nvram := (nvram st)[0 := 0x55]\<rparr>))
      else getRIndex (getWIndex st))"

section \<open>Records in the write buffer\<close>

definition put8 :: "u8 \<Rightarrow> u8 list \<times> nat \<Rightarrow> u8 list \<times> nat" where
  "put8 v bi = (store (fst bi) (snd bi) [v], snd bi + 1)"

definition put32 :: "u32 \<Rightarrow> u8 list \<times> nat \<Rightarrow> u8 list \<times> nat" where
  "put32 v bi = (store (fst bi) (snd bi) (le32 v), snd bi + 4)"

text \<open>\<open>for(int i = index; (i%RECSIZE)>0; i++) \<dots> index++;\<close>: how far it is to the next record.\<close>

definition to_record_end :: "nat \<Rightarrow> nat" where
  "to_record_end i = (RECSIZE - i mod RECSIZE) mod RECSIZE"

definition pad_zeros :: "u8 list \<times> nat \<Rightarrow> u8 list \<times> nat" where
  "pad_zeros bi =
     (for_upto (to_record_end (snd bi)) (\<lambda>k b. b[snd bi + k := 0]) (fst bi),
      snd bi + to_record_end (snd bi))"

definition meter_words :: "u32 \<Rightarrow> meterData \<Rightarrow> u32 list" where
  "meter_words xid d =
     [xid, md_mdt d, md_watt d, md_wattHour d, md_pf d, md_varh d, md_i0 d, md_i1 d, md_i2 d,
      md_v0 d, md_v1 d, md_v2 d]"

definition encode_meters :: "'c logger \<Rightarrow> u8 list \<times> nat" where
  "encode_meters st =
     for_upto (unat (numMeter (cfg st)))
       (\<lambda>i bi. pad_zeros (fold put32 (meter_words (m_xid (cfgM (cfg st) ! i)) (md st ! i)) bi))
       (wBuff st, 0)"

text \<open>What follows a write: the same statements in \<open>meterToFlash\<close>, \<open>SensorToFlash\<close>, \<open>flowToFlash\<close>.\<close>

definition after_write :: "bool \<Rightarrow> u32 \<Rightarrow> 'c logger \<Rightarrow> 'c logger" where
  "after_write ok n st =
     (if ok then
        log_bit bit_spiflash False (setWIndex (st\<lparr>fErrorCnt := 0, wIndex := wIndex st + n\<rparr>))
      else
        let st1 = (log_bit bit_spiflash True st)\<lparr>fErrorCnt := fErrorCnt st + 1\<rparr>
        in if FLASH_ERROR_MAX \<le> fErrorCnt st1 \<and> wIndex st1 = rIndex st1 then
             let w = (wIndex st1 div 64 + 1) * 64
             in setWIndex (setRIndex (st1\<lparr>fErrorCnt := 0, wIndex := w, rIndex := w\<rparr>))
           else st1)"

text \<open>\<open>meterToFlash\<close> returns true whether or not the write succeeded.\<close>

definition meterToFlash ::
    "('c, 'z) chip_ops_scheme \<Rightarrow> 'c logger \<Rightarrow> (bool \<times> 'c logger) option" where
  "meterToFlash io st =
     (let buf = fst (encode_meters st); n = numMeter (cfg st)
      in case writeMeterData io (wIndex st) (take (RECSIZE * unat n) buf) (ring st) of
           None \<Rightarrow> None
         | Some (ok, fm) \<Rightarrow> Some (True, after_write ok (ucast n) (st\<lparr>wBuff := buf, ring := fm\<rparr>)))"

text \<open>
  \<open>SensorToFlash\<close>: \<open>sample\<close> gives \<open>getSensor(ch) * adjust[ch][0] + adjust[ch][1]\<close> for each channel.
\<close>

definition encode_sensors :: "(nat \<Rightarrow> u32) \<Rightarrow> u32 \<Rightarrow> 'c logger \<Rightarrow> u8 list \<times> nat" where
  "encode_sensors sample now st =
     pad_zeros (for_upto 2 (\<lambda>i bi.
       for_upto 4 (\<lambda>j. put32 (sample (4 * i + j)))
         (put32 now (put32 (s_xid (cfgS (cfg st)) ! i) (put8 (s_used (cfgS (cfg st)) ! i) bi))))
       (wBuff st, 0))"

definition SensorToFlash ::
    "('c, 'z) chip_ops_scheme \<Rightarrow> (nat \<Rightarrow> u32) \<Rightarrow> u32 \<Rightarrow> 'c logger \<Rightarrow> (bool \<times> 'c logger) option" where
  "SensorToFlash io sample now st =
     (let buf = fst (encode_sensors sample now st)
      in case writeSensorData io (wIndex st) (take RECSIZE buf) (ring st) of
           None \<Rightarrow> None
         | Some (ok, fm) \<Rightarrow> Some (True, after_write ok 1 (st\<lparr>wBuff := buf, ring := fm\<rparr>)))"

definition flow_words :: "u32 \<Rightarrow> flowData \<Rightarrow> u32 list" where
  "flow_words xid d =
     [xid, fd_mdt d, fd_inst_flux d, fd_ins_heat_flow d, fd_tm1 d, fd_tm2 d, fd_signal_ratio d,
      fd_reynolds d, fd_q_str d, fd_up_str d, fd_down_str d]"

definition flowToFlash ::
    "('c, 'z) chip_ops_scheme \<Rightarrow> 'c logger \<Rightarrow> (bool \<times> 'c logger) option" where
  "flowToFlash io st =
     (let buf = fst (pad_zeros (fold put32 (flow_words (f_xid (cfgF (cfg st))) (fd st)) (wBuff st, 0)))
      in case writeFlowRecord io (wIndex st) (take RECSIZE buf) (ring st) of
           None \<Rightarrow> None
         | Some (ok, fm) \<Rightarrow> Some (True, after_write ok 1 (st\<lparr>wBuff := buf, ring := fm\<rparr>)))"

section \<open>Posting\<close>

definition read32 :: "u8 list \<Rightarrow> nat \<Rightarrow> u32" where
  "read32 buf i = of_le32 (load buf i 4)"

text \<open>A request and its status code; with no more codes the connection fails (-1 as \<open>uint16_t\<close>).\<close>

definition POST :: "tok list \<Rightarrow> tok list \<Rightarrow> 'c logger \<Rightarrow> u16 \<times> 'c logger" where
  "POST target body st =
     (let (code, rest) = (case http st of [] \<Rightarrow> (0xFFFF, []) | c # cs \<Rightarrow> (c, cs))
      in (code, st\<lparr>http := rest,
                   posts := posts st @ [\<lparr>post_url = target, post_body = body, post_code = code\<rparr>]\<rparr>))"

definition quoted :: "string \<Rightarrow> string" where
  "quoted s = CHR 0x22 # s @ [CHR 0x22]"

text \<open>\<open>"key":\<close> and a number, for keys in turn; \<open>fin\<close> closes the object.\<close>

definition number_fields :: "u8 list \<Rightarrow> nat \<Rightarrow> string list \<Rightarrow> string \<Rightarrow> tok list" where
  "number_fields buf i keys fin =
     concat (map (\<lambda>(k, j). [Lit (quoted k @ '':''), Float4 (read32 buf (i + 4 * j)),
                           Lit (if j + 1 < length keys then '','' else fin)])
       (zip keys [0..<length keys]))"

definition meter_keys :: "string list" where
  "meter_keys = [''w'', ''wh'', ''pf'', ''varh'', ''i0'', ''i1'', ''i2'', ''v0'', ''v1'', ''v2'']"

definition flow_keys :: "string list" where
  "flow_keys = [''vd1'', ''vd2'', ''vd3'', ''vd4'', ''vd5'', ''vd6'', ''vd7'', ''vd8'', ''vd9'']"

definition time_field :: "string \<Rightarrow> u32 \<Rightarrow> tok list" where
  "time_field k t = [Lit (quoted k @ '':'' @ [CHR 0x22]), Stamp t, Lit (CHR 0x22 # '','')]"

definition post_target :: "string \<Rightarrow> tok list \<Rightarrow> 'c logger \<Rightarrow> tok list" where
  "post_target p extra st =
     [Lit (''http://'' @ url (cfg st)), Lit p] @ extra @ [Lit (''?access_token='' @ token (cfg st))]"

text \<open>The loop of \<open>flashMeterToPost\<close>: one request for each record, up to the first that fails.\<close>

fun post_meters :: "nat \<Rightarrow> nat \<Rightarrow> 'c logger \<Rightarrow> bool \<times> 'c logger" where
  "post_meters 0 index st = (True, st)"
| "post_meters (Suc k) index st =
     (let body = Lit ''[{'' # time_field ''mdt'' (read32 (rBuff st) (index + 4)) @
                 number_fields (rBuff st) (index + 8) meter_keys ''}]'';
          target = post_target (path (cfg st)) [UInt (read32 (rBuff st) index)] st;
          (code, st1) = POST target body st;
          index' = index + 48
      in if code \<noteq> 200 then (False, log_bit bit_server True st1)
         else post_meters k (index' + to_record_end index') (log_bit bit_server False st1))"

definition advance_read :: "u32 \<Rightarrow> 'c logger \<Rightarrow> 'c logger" where
  "advance_read num st = setRIndex (st\<lparr>rIndex := rIndex st + num\<rparr>)"

definition flashMeterToPost ::
    "('c, 'z) chip_ops_scheme \<Rightarrow> u32 \<Rightarrow> 'c logger \<Rightarrow> 'c logger option" where
  "flashMeterToPost io num st =
     (case readMeterRecord io (rIndex st) (rBuff st) (of_nat RECSIZE * num) (ring st) of
        None \<Rightarrow> None
      | Some (ok, buf, fm) \<Rightarrow>
          let st1 = st\<lparr>rBuff := buf, ring := fm\<rparr>
          in Some (if \<not> ok then st1
                   else let (ok2, st2) = post_meters (unat num) 0 st1
                        in if ok2 then advance_read num st2 else st2))"

text \<open>The objects of a batch, with their separators; \<open>item\<close> gives the tokens of a record and its end.\<close>

fun batch_items :: "(nat \<Rightarrow> tok list \<times> nat) \<Rightarrow> nat \<Rightarrow> nat \<Rightarrow> tok list" where
  "batch_items item 0 index = []"
| "batch_items item (Suc k) index =
     (let (toks, index') = item index
      in toks @ (if 0 < k then [Lit '','']  else []) @
         batch_items item k (index' + to_record_end index'))"

definition meter_item :: "u8 list \<Rightarrow> nat \<Rightarrow> tok list \<times> nat" where
  "meter_item buf index =
     ([Lit (''{'' @ quoted ''emid'' @ '':'' @ [CHR 0x22]), UInt (read32 buf index),
       Lit (CHR 0x22 # '','')] @
      time_field ''mdt'' (read32 buf (index + 4)) @
      number_fields buf (index + 8) meter_keys ''}'', index + 48)"

definition flow_item :: "u8 list \<Rightarrow> nat \<Rightarrow> tok list \<times> nat" where
  "flow_item buf index =
     ([Lit (''{'' @ quoted ''external_sensor_id'' @ '':'' @ [CHR 0x22]), UInt (read32 buf index),
       Lit (CHR 0x22 # '','')] @
      time_field ''sdt'' (read32 buf (index + 4)) @
      number_fields buf (index + 8) flow_keys ''}'', index + 44)"

text \<open>
  One of the two groups of a sensor record. A group of unknown type is opened and never closed, and
  its index stays behind its time stamp.
\<close>

definition sensor_group :: "u8 list \<Rightarrow> tok list \<times> nat \<times> nat \<Rightarrow> tok list \<times> nat \<times> nat" where
  "sensor_group buf s =
     (case s of (toks, cnt, index) \<Rightarrow>
        let used = buf ! index
        in if 1 \<le> used then
             let head = (if 0 < cnt then [Lit '','']  else []) @
                   [Lit (''{'' @ quoted ''external_sensor_id'' @ '':''), UInt (read32 buf (index + 1)),
                    Lit '',''] @ time_field ''sdt'' (read32 buf (index + 5));
                 v = index + 9;
                 (tail, index') =
                   (if used = 1 then
                      (number_fields buf v [''tm1'', ''tm2'', ''ps1'', ''ps2''] ''}'', v + 16)
                    else if used = 2 then (number_fields buf v [''rt'', ''hm''] ''}'', v + 4 + 12)
                    else if used = 3 then (number_fields buf v [''co2''] ''}'', v + 16)
                    else if used = 4 then (number_fields buf v [''ps''] ''}'', v + 16)
                    else ([], v))
             in (toks @ head @ tail, cnt + 1, index')
           else (toks, cnt, index + 25))"

definition sensor_item :: "u8 list \<Rightarrow> nat \<Rightarrow> tok list \<times> nat" where
  "sensor_item buf index =
     (let (toks, cnt, index') = for_upto 2 (\<lambda>j. sensor_group buf) ([], 0, index)
      in (toks, index'))"

text \<open>The rest of the three batch functions: one request, and the index only after status 200.\<close>

definition batch_post :: "string \<Rightarrow> tok list \<Rightarrow> u32 \<Rightarrow> 'c logger \<Rightarrow> 'c logger" where
  "batch_post p body num st =
     (let (code, st1) = POST (post_target p [] st) ([Lit ''[''] @ body @ [Lit '']'']) st
      in if code \<noteq> 200 then log_bit bit_server True st1
         else advance_read num (log_bit bit_server False st1))"

definition flashMeterToBatchPost ::
    "('c, 'z) chip_ops_scheme \<Rightarrow> u32 \<Rightarrow> 'c logger \<Rightarrow> 'c logger option" where
  "flashMeterToBatchPost io num st =
     (case readMeterRecord io (rIndex st) (rBuff st) (of_nat RECSIZE * num) (ring st) of
        None \<Rightarrow> None
      | Some (ok, buf, fm) \<Rightarrow>
          let st1 = st\<lparr>rBuff := buf, ring := fm\<rparr>
          in Some (if \<not> ok then st1
                   else batch_post (batch_path (cfg st))
                          (batch_items (meter_item buf) (unat num) 0) num st1))"

definition flashSensorToBatchPost ::
    "('c, 'z) chip_ops_scheme \<Rightarrow> u32 \<Rightarrow> 'c logger \<Rightarrow> 'c logger option" where
  "flashSensorToBatchPost io num st =
     (case readSensorData io (rIndex st) (rBuff st) (of_nat RECSIZE * num) (ring st) of
        None \<Rightarrow> None
      | Some (ok, buf, fm) \<Rightarrow>
          let st1 = st\<lparr>rBuff := buf, ring := fm\<rparr>
          in Some (if \<not> ok then st1
                   else batch_post (batch_path_sensor (cfg st))
                          (batch_items (sensor_item buf) (unat num) 0) num st1))"

definition flashFlowToBatchPost ::
    "('c, 'z) chip_ops_scheme \<Rightarrow> u32 \<Rightarrow> 'c logger \<Rightarrow> 'c logger option" where
  "flashFlowToBatchPost io num st =
     (case readFlowRecord io (rIndex st) (rBuff st) (of_nat RECSIZE * num) (ring st) of
        None \<Rightarrow> None
      | Some (ok, buf, fm) \<Rightarrow>
          let st1 = st\<lparr>rBuff := buf, ring := fm\<rparr>
          in Some (if \<not> ok then st1
                   else batch_post (batch_path_sensor (cfg st))
                          (batch_items (flow_item buf) (unat num) 0) num st1))"

text \<open>The bodies of these two functions are empty.\<close>

definition flashSensorToPost :: "u32 \<Rightarrow> 'c logger \<Rightarrow> 'c logger option" where
  "flashSensorToPost num st = Some st"

definition flashFlowToPost :: "u32 \<Rightarrow> 'c logger \<Rightarrow> 'c logger option" where
  "flashFlowToPost num st = Some st"

section \<open>The tasks\<close>

text \<open>The loop over the meters; the first failure ends the task.\<close>

fun read_meters ::
    "fpu \<Rightarrow> u32 \<Rightarrow> nat list \<Rightarrow> 'c logger \<Rightarrow> (bool \<times> 'c logger) option" where
  "read_meters fp now [] st = Some (True, st)"
| "read_meters fp now (i # is) st =
     (let c = cfgM (cfg st) ! i
      in case readMeterData fp (of_nat i) (m_id c) (m_index c) (m_type c) now (m_adjust c) (m_table c)
                (md st) (meter st, line st) of
           None \<Rightarrow> None
         | Some (result, md', m', w') \<Rightarrow>
             let st1 = st\<lparr>md := md', meter := m', line := w'\<rparr>
             in if result \<noteq> 0 then Some (False, log_bit bit_sensor True st1)
                else read_meters fp now is
                       (log_bit bit_sensor False
                         (st1\<lparr>line := (line st1)\<lparr>outs := outs (line st1) @ [Delay 50]\<rparr>\<rparr>)))"

definition ReadMeterToFlash_Task ::
    "fpu \<Rightarrow> ('c, 'z) chip_ops_scheme \<Rightarrow> u32 \<Rightarrow> 'c logger \<Rightarrow> 'c logger option" where
  "ReadMeterToFlash_Task fp io now st =
     (case read_meters fp now [0..<unat (numMeter (cfg st))] st of
        None \<Rightarrow> None
      | Some (ok, st1) \<Rightarrow>
          if \<not> ok then Some st1
          else case meterToFlash io st1 of
                 None \<Rightarrow> None
               | Some (ok, st2) \<Rightarrow> Some (if ok then st2\<lparr>lastTime := now\<rparr> else st2))"

definition ReadSensorToFlash_Task ::
    "('c, 'z) chip_ops_scheme \<Rightarrow> (nat \<Rightarrow> u32) \<Rightarrow> u32 \<Rightarrow> 'c logger \<Rightarrow> 'c logger option" where
  "ReadSensorToFlash_Task io sample now st =
     (case SensorToFlash io sample now st of
        None \<Rightarrow> None
      | Some (ok, st1) \<Rightarrow> Some (if ok then st1\<lparr>lastTime := now\<rparr> else st1))"

definition ReadFlowToFlash_Task ::
    "fpu \<Rightarrow> ('c, 'z) chip_ops_scheme \<Rightarrow> u32 \<Rightarrow> 'c logger \<Rightarrow> 'c logger option" where
  "ReadFlowToFlash_Task fp io now st =
     (case readFlowData fp (f_id (cfgF (cfg st))) now (f_adjust (cfgF (cfg st))) (fd st) (flow st, line st) of
        None \<Rightarrow> None
      | Some (result, d, m', w') \<Rightarrow>
          let st1 = st\<lparr>fd := d, flow := m', line := w'\<rparr>
          in if result \<noteq> 0 then Some st1
             else case flowToFlash io st1 of
                    None \<Rightarrow> None
                  | Some (ok, st2) \<Rightarrow> Some (if ok then st2\<lparr>lastTime := now\<rparr> else st2))"

text \<open>How many records a post task takes, and which function it calls.\<close>

definition post_task ::
    "(u32 \<Rightarrow> 'c logger \<Rightarrow> 'c logger option) \<Rightarrow> (u32 \<Rightarrow> 'c logger \<Rightarrow> 'c logger option) \<Rightarrow>
     bool \<Rightarrow> 'c logger \<Rightarrow> 'c logger option" where
  "post_task single batched connected st =
     (if connected \<and> rIndex st < wIndex st then
        let numPost = wIndex st - rIndex st
        in if batch (cfg st) = 0 then single (if MAXPOST < numPost then MAXPOST else numPost) st
           else batched (if ucast (batch (cfg st)) < numPost then ucast (batch (cfg st)) else numPost) st
      else Some st)"

definition ReadFlashMeterToPost_Task ::
    "('c, 'z) chip_ops_scheme \<Rightarrow> bool \<Rightarrow> 'c logger \<Rightarrow> 'c logger option" where
  "ReadFlashMeterToPost_Task io = post_task (flashMeterToPost io) (flashMeterToBatchPost io)"

definition ReadFlashSensorToPost_Task ::
    "('c, 'z) chip_ops_scheme \<Rightarrow> bool \<Rightarrow> 'c logger \<Rightarrow> 'c logger option" where
  "ReadFlashSensorToPost_Task io = post_task flashSensorToPost (flashSensorToBatchPost io)"

definition ReadFlashFlowToPost_Task ::
    "('c, 'z) chip_ops_scheme \<Rightarrow> bool \<Rightarrow> 'c logger \<Rightarrow> 'c logger option" where
  "ReadFlashFlowToPost_Task io = post_task flashFlowToPost (flashFlowToBatchPost io)"

section \<open>One turn of the main loop\<close>

text \<open>\<open>if(lastTime > mktime(&timeinfo))\<close>, on signed 32-bit times.\<close>

definition fix_last_time :: "u32 \<Rightarrow> 'c logger \<Rightarrow> 'c logger" where
  "fix_last_time now st = (if now <s lastTime st then st\<lparr>lastTime := now\<rparr> else st)"

definition read_due :: "u32 \<Rightarrow> 'c logger \<Rightarrow> bool" where
  "read_due now st \<longleftrightarrow> uint (interval (cfg st)) \<le> sint (now - lastTime st)"

definition post_due :: "u32 \<Rightarrow> 'c logger \<Rightarrow> bool" where
  "post_due now st \<longleftrightarrow> sint (now - lastTime st) < uint (interval (cfg st)) - POSTSAVETIME"

definition loop_tasks ::
    "fpu \<Rightarrow> ('c, 'z) chip_ops_scheme \<Rightarrow> (nat \<Rightarrow> u32) \<Rightarrow> u32 \<Rightarrow> bool \<Rightarrow> 'c logger \<Rightarrow> 'c logger option" where
  "loop_tasks fp io sample now connected st0 =
     (let st = fix_last_time now st0; ty = cfg_type (cfg st)
      in case (if read_due now st then
                 if ty = 1 then ReadMeterToFlash_Task fp io now st
                 else if ty = 2 then ReadSensorToFlash_Task io sample now st
                 else if ty = 3 then ReadFlowToFlash_Task fp io now st
                 else Some st
               else Some st) of
           None \<Rightarrow> None
         | Some st1 \<Rightarrow>
             if post_due now st1 then
               if ty = 1 then ReadFlashMeterToPost_Task io connected st1
               else if ty = 2 then ReadFlashSensorToPost_Task io connected st1
               else if ty = 3 then ReadFlashFlowToPost_Task io connected st1
               else Some st1
             else Some st1)"

text \<open>
  \<open>serverChkTask\<close>: the answer is the status code and the value of \<open>restart\<close>. The second component
  of the result says that \<open>ESP.restart()\<close> was called.
\<close>

definition serverChkTask :: "(u16 \<times> u8) option \<Rightarrow> 'c logger \<Rightarrow> bool \<times> bool \<times> 'c logger" where
  "serverChkTask answer st =
     (case answer of
        None \<Rightarrow> (False, False, st)
      | Some (code, restart) \<Rightarrow>
          if code \<noteq> 200 then (False, False, log_bit bit_server True st)
          else let st1 = log_bit bit_server False st
               in if restart = 1 then (True, True, st1)
                  else if restart = 2 then
                    (True, True, setRIndex (setWIndex (st1\<lparr>wIndex := 0, rIndex := 0\<rparr>)))
                  else (True, False, st1))"

text \<open>\<open>logPostTask\<close>: the log is cleared once the server has it.\<close>

definition logPostTask :: "string \<Rightarrow> u32 \<Rightarrow> bool \<Rightarrow> 'c logger \<Rightarrow> bool \<times> 'c logger" where
  "logPostTask target now connected st =
     (if connected then
        let body = [Lit ''[{''] @ time_field ''dt'' now @
              [Lit (quoted ''msg'' @ '':'' @ [CHR 0x22]), UInt (ucast (errlog st)), Lit (CHR 0x22 # ''}]'')];
            (code, st1) = POST [Lit target] body st
        in if code \<noteq> 200 then (False, log_bit bit_server True st1)
           else (True, st1\<lparr>errlog := 0\<rparr>)
      else (False, st))"

text \<open>
  The end of \<open>loop\<close>: the server check every 15 minutes, with its log, and the restart once a day.
  The clock \<open>ms\<close> is \<open>millis()\<close>; the result is whether the device restarts, the two time stamps and
  the state.
\<close>

abbreviation (input) SERVER_CHK_INT :: u32 where "SERVER_CHK_INT \<equiv> 15 * 60000"
abbreviation (input) RST_CHK_INT :: u32 where "RST_CHK_INT \<equiv> 1 * 24 * 3600000"

definition loop_checks ::
    "u32 \<Rightarrow> (u16 \<times> u8) option \<Rightarrow> string \<Rightarrow> u32 \<Rightarrow> bool \<Rightarrow> u32 \<times> u32 \<times> 'c logger \<Rightarrow>
     bool \<times> u32 \<times> u32 \<times> 'c logger" where
  "loop_checks ms answer target now connected s =
     (case s of (serverMillisChk, rstMillisChk, st) \<Rightarrow>
        let (restarted, srv, st1) =
              (if SERVER_CHK_INT < ms - serverMillisChk then
                 if log_use (cfg st) = 1 then
                   let (ok, restarted, st1) = serverChkTask answer st
                   in (restarted, ms,
                       if \<not> restarted \<and> ok then snd (logPostTask target now connected st1) else st1)
                 else (False, ms, st)
               else (False, serverMillisChk, st))
        in if restarted then (True, srv, rstMillisChk, st1)
           else if RST_CHK_INT < ms - rstMillisChk then (True, srv, ms, st1)
           else (False, srv, rstMillisChk, st1))"

end
