(* ===== verification/LoggerProofs.thy ===== *)
theory LoggerProofs
  imports Logger
begin

unbundle bit_operations_syntax

text \<open>
  The store-and-forward guarantees of \<open>main.cpp\<close>: what is stored is what is posted, the read index
  moves only over acknowledged records, the two indices stay ordered and survive a restart, and the
  behaviours that lose or hold back data.
\<close>

section \<open>Bytes of a record\<close>

lemma store_store:
  "i + length xs + length ys \<le> length b \<Longrightarrow>
   store (store b i xs) (i + length xs) ys = store b i (xs @ ys)"
  by (cases xs) (auto simp: store_def min_def ac_simps)

lemma store_Nil [simp]: "store b i [] = b"
  by (simp add: store_def)

lemma length_concat_le32 [simp]: "length (concat (map le32 ws)) = 4 * length ws"
  by (induction ws) simp_all

lemma fold_put32:
  "i + 4 * length ws \<le> length b \<Longrightarrow>
   fold put32 ws (b, i) = (store b i (concat (map le32 ws)), i + 4 * length ws)"
proof (induction ws arbitrary: b i)
  case (Cons w ws)
  then have "fold put32 ws (store b i (le32 w), i + 4) =
      (store (store b i (le32 w)) (i + 4) (concat (map le32 ws)), i + 4 + 4 * length ws)"
    by (intro Cons.IH) simp
  also have "store (store b i (le32 w)) (i + 4) (concat (map le32 ws))
      = store b i (le32 w @ concat (map le32 ws))"
    using store_store [of i "le32 w" "concat (map le32 ws)" b] Cons.prems by simp
  finally show ?case by (simp add: put32_def)
qed simp

lemma for_upto_zeros:
  "i + n \<le> length b \<Longrightarrow> for_upto n (\<lambda>k b. b[i + k := 0]) b = store b i (replicate n 0)"
proof (induction n)
  case (Suc n)
  have "(store b i (replicate n 0))[i + n := 0] = store b i (replicate n 0 @ [0])"
    using Suc.prems by (simp add: store_def list_update_append Cons_nth_drop_Suc [symmetric])
  with Suc show ?case by (simp add: replicate_append_same)
qed simp

lemma store_first [simp]: "0 < i \<Longrightarrow> i < length b \<Longrightarrow> store b i xs ! 0 = b ! 0"
  by (cases b) (auto simp: store_def nth_append take_Cons')

lemma length_concat_const:
  "\<forall>k < n. length (f k) = c \<Longrightarrow> length (concat (map f [0..<n])) = c * n"
  by (induction n) simp_all

text \<open>A record: its words, then zeros to the end of the 64 bytes.\<close>

definition record_bytes :: "u32 list \<Rightarrow> u8 list" where
  "record_bytes ws = concat (map le32 ws) @ replicate (RECSIZE - 4 * length ws) 0"

lemma length_record_bytes [simp]: "length ws \<le> 16 \<Longrightarrow> length (record_bytes ws) = RECSIZE"
  by (simp add: record_bytes_def)

lemma encode_record:
  assumes "0 < length ws" and "length ws \<le> 16" and "i mod RECSIZE = 0" and "i + RECSIZE \<le> length b"
  shows "pad_zeros (fold put32 ws (b, i)) = (store b i (record_bytes ws), i + RECSIZE)"
proof -
  let ?l = "4 * length ws"
  have "(i + ?l) mod RECSIZE = ?l mod RECSIZE" using assms(3) by (metis add_cancel_right_left mod_add_left_eq)
  also have "(RECSIZE - ?l mod RECSIZE) mod RECSIZE = RECSIZE - ?l"
    using assms(1,2) by (cases "length ws = 16") simp_all
  finally have to_end: "to_record_end (i + ?l) = RECSIZE - ?l"
    by (simp add: to_record_end_def \<open>(i + ?l) mod RECSIZE = ?l mod RECSIZE\<close>)
  have len: "i + ?l \<le> length b" using assms(2,4) by simp
  have "for_upto (RECSIZE - ?l) (\<lambda>k b. b[i + ?l + k := 0]) (store b i (concat (map le32 ws)))
      = store (store b i (concat (map le32 ws))) (i + ?l) (replicate (RECSIZE - ?l) 0)"
    using assms(2,4) len by (intro for_upto_zeros) simp
  also have "\<dots> = store b i (record_bytes ws)"
    using store_store [of i "concat (map le32 ws)" "replicate (RECSIZE - ?l) 0" b] assms(2,4)
    by (simp add: record_bytes_def)
  finally show ?thesis
    using assms(2) by (simp add: pad_zeros_def fold_put32 [OF len] to_end)
qed

text \<open>Several records in a row.\<close>

lemma encode_records:
  assumes "\<forall>k < n. 0 < length (ws k) \<and> length (ws k) \<le> 16" and "RECSIZE * n \<le> length b"
  shows "for_upto n (\<lambda>k bi. pad_zeros (fold put32 (ws k) bi)) (b, 0) =
    (store b 0 (concat (map (\<lambda>k. record_bytes (ws k)) [0..<n])), RECSIZE * n)"
  using assms
proof (induction n)
  case (Suc n)
  let ?bs = "concat (map (\<lambda>k. record_bytes (ws k)) [0..<n])"
  have IH: "for_upto n (\<lambda>k bi. pad_zeros (fold put32 (ws k) bi)) (b, 0) = (store b 0 ?bs, RECSIZE * n)"
    using Suc by simp
  have lens: "length ?bs = RECSIZE * n"
    using Suc.prems(1) by (intro length_concat_const) simp
  have "pad_zeros (fold put32 (ws n) (store b 0 ?bs, RECSIZE * n))
      = (store (store b 0 ?bs) (RECSIZE * n) (record_bytes (ws n)), RECSIZE * n + RECSIZE)"
    using Suc.prems lens by (intro encode_record) simp_all
  also have "store (store b 0 ?bs) (RECSIZE * n) (record_bytes (ws n)) = store b 0 (?bs @ record_bytes (ws n))"
    using store_store [of 0 ?bs "record_bytes (ws n)" b] Suc.prems lens by simp
  finally show ?case using IH by simp
qed simp

lemma load_le32:
  "j < length ws \<Longrightarrow> load (concat (map le32 ws) @ zs) (4 * j) 4 = le32 (ws ! j)"
proof (induction ws arbitrary: j)
  case (Cons w ws)
  show ?case
  proof (cases j)
    case 0
    then show ?thesis by (simp add: load_def)
  next
    case (Suc i)
    with Cons have "load (concat (map le32 ws) @ zs) (4 * i) 4 = le32 (ws ! i)" by simp
    with Suc show ?thesis by (simp add: load_def)
  qed
qed simp

lemma load_concat_records:
  assumes "\<forall>k < n. length (bs k) = RECSIZE" and "i < n" and "o' + l \<le> RECSIZE"
  shows "load (concat (map bs [0..<n]) @ zs) (RECSIZE * i + o') l = load (bs i) o' l"
  using assms
proof (induction n arbitrary: zs)
  case (Suc n)
  have len: "length (concat (map bs [0..<n])) = RECSIZE * n"
    using Suc.prems(1) by (intro length_concat_const) simp
  show ?case
  proof (cases "i = n")
    case True
    with Suc.prems len show ?thesis by (simp add: load_def)
  next
    case False
    with Suc show ?thesis by simp
  qed
qed simp

lemma read32_record:
  assumes "\<forall>k < n. length (ws k) \<le> 16" and "i < n" and "j < length (ws i)"
  shows "read32 (concat (map (\<lambda>k. record_bytes (ws k)) [0..<n]) @ zs) (RECSIZE * i + 4 * j) = ws i ! j"
proof -
  have "load (concat (map (\<lambda>k. record_bytes (ws k)) [0..<n]) @ zs) (RECSIZE * i + 4 * j) 4
      = load (record_bytes (ws i)) (4 * j) 4"
    using assms by (intro load_concat_records) (auto simp: less_eq_Suc_le)
  also have "\<dots> = le32 (ws i ! j)"
    using assms(3) by (simp add: record_bytes_def load_le32)
  finally show ?thesis by (simp add: read32_def)
qed

section \<open>The indices\<close>

definition indices_ok :: "'c logger \<Rightarrow> bool" where
  "indices_ok st \<longleftrightarrow>
     rIndex st \<le> wIndex st \<and> 9 \<le> length (nvram st) \<and> nvram st ! 0 = 0x55 \<and>
     load (nvram st) 1 4 = le32 (wIndex st) \<and> load (nvram st) 5 4 = le32 (rIndex st)"

text \<open>What no operation but a write or an acknowledged post changes.\<close>

definition same_indices :: "'c logger \<Rightarrow> 'd logger \<Rightarrow> bool" where
  "same_indices st st' \<longleftrightarrow>
     wIndex st' = wIndex st \<and> rIndex st' = rIndex st \<and> nvram st' = nvram st"

lemma same_indices_refl [simp]: "same_indices st st"
  by (simp add: same_indices_def)

lemma same_indices_trans: "same_indices a b \<Longrightarrow> same_indices b c \<Longrightarrow> same_indices a c"
  by (simp add: same_indices_def)

lemma indices_ok_same: "indices_ok st \<Longrightarrow> same_indices st st' \<Longrightarrow> indices_ok st'"
  by (simp add: indices_ok_def same_indices_def)

lemma log_bit_simps [simp]:
  "wIndex (log_bit b v st) = wIndex st" "rIndex (log_bit b v st) = rIndex st"
  "nvram (log_bit b v st) = nvram st" "cfg (log_bit b v st) = cfg st"
  "ring (log_bit b v st) = ring st" "rBuff (log_bit b v st) = rBuff st"
  "posts (log_bit b v st) = posts st" "http (log_bit b v st) = http st"
  "fErrorCnt (log_bit b v st) = fErrorCnt st" "lastTime (log_bit b v st) = lastTime st"
  "wBuff (log_bit b v st) = wBuff st" "md (log_bit b v st) = md st" "line (log_bit b v st) = line st"
  by (simp_all add: log_bit_def)

lemma set_indices:
  assumes "9 \<le> length (nvram st)" and "nvram st ! 0 = 0x55" and "rIndex st \<le> wIndex st"
  shows "indices_ok (setRIndex (setWIndex st))" and "indices_ok (setWIndex (setRIndex st))"
  using assms
  by (auto simp: indices_ok_def setWIndex_def setRIndex_def load_store_other)

lemma setWIndex_ok:
  assumes "indices_ok st" and "rIndex st \<le> w"
  shows "indices_ok (setWIndex (st\<lparr>wIndex := w\<rparr>))"
  using assms
  by (auto simp: indices_ok_def setWIndex_def load_store_other)

lemma setRIndex_ok:
  assumes "indices_ok st" and "r \<le> wIndex st"
  shows "indices_ok (setRIndex (st\<lparr>rIndex := r\<rparr>))"
  using assms
  by (auto simp: indices_ok_def setRIndex_def load_store_other)

lemma after_write_ok:
  assumes "indices_ok st" and "unat (wIndex st) + unat n < 2 ^ 32"
  shows "indices_ok (after_write ok n st)"
proof (cases ok)
  case True
  have "wIndex st \<le> wIndex st + n"
    using assms(2) by (simp add: word_le_nat_alt unat_word_ariths)
  then have "rIndex st \<le> wIndex st + n"
    using assms(1) order_trans [of "rIndex st" "wIndex st"] by (simp add: indices_ok_def)
  moreover have "indices_ok (st\<lparr>fErrorCnt := 0\<rparr>)" using assms(1) by (simp add: indices_ok_def)
  ultimately have "indices_ok (setWIndex (st\<lparr>fErrorCnt := 0, wIndex := wIndex st + n\<rparr>))"
    using setWIndex_ok [of "st\<lparr>fErrorCnt := 0\<rparr>" "wIndex st + n"] by simp
  then show ?thesis
    using True by (simp add: after_write_def indices_ok_def)
next
  case False
  let ?st1 = "(log_bit bit_spiflash True st)\<lparr>fErrorCnt := fErrorCnt st + 1\<rparr>"
  have nv: "9 \<le> length (nvram st)" "nvram st ! 0 = 0x55" and st1: "indices_ok ?st1"
    using assms(1) by (simp_all add: indices_ok_def)
  have "indices_ok (setWIndex (setRIndex (?st1\<lparr>fErrorCnt := 0, wIndex := w, rIndex := w\<rparr>)))" for w
    by (rule set_indices(2)) (use nv in simp_all)
  with st1 False show ?thesis by (simp add: after_write_def Let_def)
qed

text \<open>Reads and requests leave the indices alone.\<close>

lemma POST_same [simp]: "same_indices st (snd (POST u b st))"
  by (simp add: POST_def same_indices_def case_prod_beta Let_def)

lemma post_meters_same: "post_meters k index st = (ok, st') \<Longrightarrow> same_indices st st'"
proof (induction k index st arbitrary: ok st' rule: post_meters.induct)
  case (2 k index st)
  obtain code st1 where p: "POST (post_target (path (cfg st)) [UInt (read32 (rBuff st) index)] st)
      (Lit ''[{'' # time_field ''mdt'' (read32 (rBuff st) (index + 4)) @
        number_fields (rBuff st) (index + 8) meter_keys ''}]'') st = (code, st1)" by fastforce
  have same: "same_indices st st1" using POST_same p by (metis snd_conv)
  have log: "same_indices st1 (log_bit b v st1)" for b v by (simp add: same_indices_def)
  show ?case
  proof (cases "code = 200")
    case True
    with 2 p have "same_indices (log_bit bit_server False st1) st'" by (simp add: Let_def)
    with same log show ?thesis by (metis same_indices_trans)
  next
    case False
    with 2 p have "st' = log_bit bit_server True st1" by (simp add: Let_def)
    with same log show ?thesis by (metis same_indices_trans)
  qed
qed simp

lemma advance_read_ok:
  assumes "indices_ok st" and "unat num \<le> unat (wIndex st) - unat (rIndex st)"
  shows "indices_ok (advance_read num st)"
proof -
  have "unat (rIndex st) \<le> unat (wIndex st)"
    using assms(1) by (simp add: indices_ok_def word_le_nat_alt)
  then have "unat (rIndex st) + unat num \<le> unat (wIndex st)" using assms(2) by linarith
  moreover have "unat (wIndex st) < 2 ^ 32" using unsigned_less [of "wIndex st", where ?'a = nat] by simp
  ultimately have "rIndex st + num \<le> wIndex st"
    by (simp add: word_le_nat_alt unat_word_ariths)
  then show ?thesis unfolding advance_read_def by (rule setRIndex_ok [OF assms(1)])
qed

lemma batch_post_ok:
  assumes "indices_ok st" and "unat num \<le> unat (wIndex st) - unat (rIndex st)"
  shows "indices_ok (batch_post p body num st)"
proof -
  obtain code st1 where p: "POST (post_target p [] st) ([Lit ''[''] @ body @ [Lit '']'']) st = (code, st1)"
    by fastforce
  have same: "same_indices st st1" using POST_same p by (metis snd_conv)
  then have "same_indices st (log_bit bit_server v st1)" for v by (simp add: same_indices_def)
  then have "indices_ok (log_bit bit_server v st1)" for v by (rule indices_ok_same [OF assms(1)])
  moreover have "wIndex st1 = wIndex st" "rIndex st1 = rIndex st" using same by (simp_all add: same_indices_def)
  ultimately show ?thesis
    using p assms(2) advance_read_ok [of "log_bit bit_server False st1" num]
    by (simp add: batch_post_def)
qed

lemma flashMeterToPost_ok:
  assumes "indices_ok st" and "unat num \<le> unat (wIndex st) - unat (rIndex st)"
    and "flashMeterToPost io num st = Some st'"
  shows "indices_ok st'"
proof -
  from assms(3) obtain ok buf fm where
    r: "readMeterRecord io (rIndex st) (rBuff st) (of_nat RECSIZE * num) (ring st) = Some (ok, buf, fm)"
    by (auto simp: flashMeterToPost_def split: option.splits)
  let ?st1 = "st\<lparr>rBuff := buf, ring := fm\<rparr>"
  obtain ok2 st2 where p: "post_meters (unat num) 0 ?st1 = (ok2, st2)" by fastforce
  have "same_indices ?st1 st2" by (rule post_meters_same [OF p])
  then have same: "same_indices st st2" by (simp add: same_indices_def)
  show ?thesis
  proof (cases "ok \<and> ok2")
    case True
    then have "st' = advance_read num st2" using assms(3) r p by (simp add: flashMeterToPost_def Let_def)
    then show ?thesis
      using advance_read_ok [OF indices_ok_same [OF assms(1) same], of num] assms(2) same
      by (simp add: same_indices_def)
  next
    case False
    then have "same_indices st st'"
      using assms(3) r p same by (auto simp: flashMeterToPost_def Let_def same_indices_def split: if_splits)
    then show ?thesis using assms(1) by (metis indices_ok_same)
  qed
qed

lemma batch_functions_ok:
  assumes "indices_ok st" and "unat num \<le> unat (wIndex st) - unat (rIndex st)"
    and "flashMeterToBatchPost io num st = Some st' \<or> flashSensorToBatchPost io num st = Some st' \<or>
      flashFlowToBatchPost io num st = Some st'"
  shows "indices_ok st'"
proof -
  have i: "indices_ok (st\<lparr>rBuff := buf, ring := fm\<rparr>)" for buf fm
    using assms(1) by (simp add: indices_ok_def)
  from assms(3) show ?thesis
    unfolding flashMeterToBatchPost_def flashSensorToBatchPost_def flashFlowToBatchPost_def Let_def
    by (auto split: option.splits if_splits intro!: batch_post_ok i simp: assms(2))
qed

text \<open>A post task asks for no more records than there are.\<close>

lemma post_task_ok:
  assumes "indices_ok st" and "post_task single batched connected st = Some st'"
    and "\<And>num. unat num \<le> unat (wIndex st) - unat (rIndex st) \<Longrightarrow> single num st = Some st' \<Longrightarrow> indices_ok st'"
    and "\<And>num. unat num \<le> unat (wIndex st) - unat (rIndex st) \<Longrightarrow> batched num st = Some st' \<Longrightarrow> indices_ok st'"
  shows "indices_ok st'"
proof -
  have "unat (wIndex st - rIndex st) = unat (wIndex st) - unat (rIndex st)"
    using assms(1) by (simp add: indices_ok_def unat_sub)
  then have le: "unat (if m < wIndex st - rIndex st then m else wIndex st - rIndex st)
      \<le> unat (wIndex st) - unat (rIndex st)" for m
    by (simp add: word_less_nat_alt)
  show ?thesis
  proof (cases "connected \<and> rIndex st < wIndex st")
    case True
    then show ?thesis
      using assms(2) assms(3) [OF le] assms(4) [OF le] unfolding post_task_def Let_def
      by (cases "batch (cfg st) = 0") (simp_all only: if_True if_False simp_thms)
  next
    case False
    with assms(1,2) show ?thesis by (simp only: post_task_def Let_def if_False option.inject)
  qed
qed

lemma read_meters_same: "read_meters fp now is st = Some (ok, st') \<Longrightarrow>
    same_indices st st' \<and> cfg st' = cfg st \<and> ring st' = ring st \<and> wBuff st' = wBuff st \<and>
    rBuff st' = rBuff st \<and> http st' = http st \<and>
    posts st' = posts st \<and> lastTime st' = lastTime st \<and> fErrorCnt st' = fErrorCnt st"
proof (induction "is" arbitrary: st)
  case (Cons i "is")
  then show ?case
    by (auto simp: Let_def same_indices_def split: option.splits if_splits dest!: Cons.IH)
qed simp

lemma meterToFlash_ok:
  assumes "indices_ok st" and "unat (wIndex st) + unat (numMeter (cfg st)) < 2 ^ 32"
    and "meterToFlash io st = Some (ok, st')"
  shows "indices_ok st'"
proof -
  from assms(3) obtain buf ok' fm where
    "st' = after_write ok' (ucast (numMeter (cfg st))) (st\<lparr>wBuff := buf, ring := fm\<rparr>)"
    by (auto simp: meterToFlash_def Let_def split: option.splits)
  moreover have "indices_ok (st\<lparr>wBuff := buf, ring := fm\<rparr>)"
    using assms(1) by (simp add: indices_ok_def)
  ultimately show ?thesis using assms(2) by (simp add: after_write_ok)
qed

lemma one_record_ok:
  assumes "indices_ok st" and "unat (wIndex st) + 1 < 2 ^ 32"
    and "SensorToFlash io sample now st = Some (ok, st') \<or> flowToFlash io st = Some (ok, st')"
  shows "indices_ok st'"
proof -
  from assms(3) obtain buf ok' fm where "st' = after_write ok' 1 (st\<lparr>wBuff := buf, ring := fm\<rparr>)"
    by (auto simp: SensorToFlash_def flowToFlash_def Let_def split: option.splits)
  moreover have "indices_ok (st\<lparr>wBuff := buf, ring := fm\<rparr>)"
    using assms(1) by (simp add: indices_ok_def)
  ultimately show ?thesis using assms(2) by (simp add: after_write_ok)
qed

lemma indices_ok_lastTime [simp]: "indices_ok (st\<lparr>lastTime := t\<rparr>) \<longleftrightarrow> indices_ok st"
  by (simp add: indices_ok_def)

lemma read_task_ok:
  assumes "indices_ok st" and "unat (wIndex st) + 256 < 2 ^ 32"
    and "ReadMeterToFlash_Task fp io now st = Some st' \<or> ReadSensorToFlash_Task io sample now st = Some st' \<or>
      ReadFlowToFlash_Task fp io now st = Some st'"
  shows "indices_ok st'"
  using assms(3)
proof (elim disjE)
  assume "ReadMeterToFlash_Task fp io now st = Some st'"
  then obtain ok st1 where r: "read_meters fp now [0..<unat (numMeter (cfg st))] st = Some (ok, st1)"
    and rest: "\<not> ok \<Longrightarrow> st' = st1"
      "ok \<Longrightarrow> \<exists>ok2 st2. meterToFlash io st1 = Some (ok2, st2) \<and> (st' = st2 \<or> st' = st2\<lparr>lastTime := now\<rparr>)"
    by (auto simp: ReadMeterToFlash_Task_def split: option.splits if_splits)
  have st1: "same_indices st st1" "cfg st1 = cfg st" using read_meters_same [OF r] by simp_all
  have ok1: "indices_ok st1" using assms(1) st1(1) by (rule indices_ok_same)
  have "unat (numMeter (cfg st)) < 256" using unsigned_less [of "numMeter (cfg st)", where ?'a = nat] by simp
  then have room: "unat (wIndex st1) + unat (numMeter (cfg st1)) < 2 ^ 32"
    using assms(2) st1 by (simp add: same_indices_def)
  show ?thesis using rest ok1 meterToFlash_ok [OF ok1 room] by (cases ok) auto
next
  assume "ReadSensorToFlash_Task io sample now st = Some st'"
  then obtain ok st1 where s: "SensorToFlash io sample now st = Some (ok, st1)"
    and "st' = st1 \<or> st' = st1\<lparr>lastTime := now\<rparr>"
    by (auto simp: ReadSensorToFlash_Task_def split: option.splits if_splits)
  moreover have "indices_ok st1" using one_record_ok [OF assms(1) _ disjI1 [OF s]] assms(2) by simp
  ultimately show ?thesis by auto
next
  assume "ReadFlowToFlash_Task fp io now st = Some st'"
  then obtain result d m' w' where
    "readFlowData fp (f_id (cfgF (cfg st))) now (f_adjust (cfgF (cfg st))) (fd st) (flow st, line st)
      = Some (result, d, m', w')"
    and rest: "result \<noteq> 0 \<Longrightarrow> st' = st\<lparr>fd := d, flow := m', line := w'\<rparr>"
      "result = 0 \<Longrightarrow> \<exists>ok2 st2. flowToFlash io (st\<lparr>fd := d, flow := m', line := w'\<rparr>) = Some (ok2, st2) \<and>
        (st' = st2 \<or> st' = st2\<lparr>lastTime := now\<rparr>)"
    by (auto simp: ReadFlowToFlash_Task_def Let_def split: option.splits if_splits)
  have i: "indices_ok (st\<lparr>fd := d, flow := m', line := w'\<rparr>)" using assms(1) by (simp add: indices_ok_def)
  have "indices_ok st2"
    if "flowToFlash io (st\<lparr>fd := d, flow := m', line := w'\<rparr>) = Some (ok2, st2)" for ok2 st2
    using one_record_ok [OF i _ disjI2 [OF that]] assms(2) by simp
  then show ?thesis using rest i by (cases "result = 0") auto
qed

lemma post_tasks_ok:
  assumes "indices_ok st"
    and "ReadFlashMeterToPost_Task io connected st = Some st' \<or>
      ReadFlashSensorToPost_Task io connected st = Some st' \<or>
      ReadFlashFlowToPost_Task io connected st = Some st'"
  shows "indices_ok st'"
  using assms(2)
proof (elim disjE)
  assume "ReadFlashMeterToPost_Task io connected st = Some st'"
  then show ?thesis
    unfolding ReadFlashMeterToPost_Task_def
    by (rule post_task_ok [OF assms(1)])
      (use flashMeterToPost_ok [OF assms(1)] batch_functions_ok [OF assms(1)] in blast)+
next
  assume "ReadFlashSensorToPost_Task io connected st = Some st'"
  then show ?thesis
    unfolding ReadFlashSensorToPost_Task_def
    by (rule post_task_ok [OF assms(1)])
      (use assms(1) batch_functions_ok [OF assms(1)] in \<open>auto simp: flashSensorToPost_def\<close>)
next
  assume "ReadFlashFlowToPost_Task io connected st = Some st'"
  then show ?thesis
    unfolding ReadFlashFlowToPost_Task_def
    by (rule post_task_ok [OF assms(1)])
      (use assms(1) batch_functions_ok [OF assms(1)] in \<open>auto simp: flashFlowToPost_def\<close>)
qed

lemma loop_indices_ok:
  assumes "indices_ok st" and "unat (wIndex st) + 256 < 2 ^ 32"
    and "loop_tasks fp io sample now connected st = Some st'"
  shows "indices_ok st'"
proof -
  let ?st = "fix_last_time now st"
  have fixed: "indices_ok ?st" "unat (wIndex ?st) + 256 < 2 ^ 32"
    using assms(1,2) by (simp_all add: fix_last_time_def)
  from assms(3) obtain st1 where
    st1: "st1 = ?st \<or> ReadMeterToFlash_Task fp io now ?st = Some st1 \<or>
      ReadSensorToFlash_Task io sample now ?st = Some st1 \<or> ReadFlowToFlash_Task fp io now ?st = Some st1"
    and st': "st' = st1 \<or> ReadFlashMeterToPost_Task io connected st1 = Some st' \<or>
      ReadFlashSensorToPost_Task io connected st1 = Some st' \<or>
      ReadFlashFlowToPost_Task io connected st1 = Some st'"
    by (auto simp: loop_tasks_def Let_def split: option.splits if_splits)
  have "indices_ok st1" using st1 fixed(1) read_task_ok [OF fixed] by blast
  with st' show ?thesis using post_tasks_ok by blast
qed

lemma indices_restored: "indices_ok st \<Longrightarrow> restore_indices (st\<lparr>wIndex := a, rIndex := b\<rparr>) = st"
  by (simp add: restore_indices_def indices_ok_def getWIndex_def getRIndex_def)


lemma serverChkTask_ok:
  assumes "indices_ok st" and "serverChkTask answer st = (ok, restarted, st')"
  shows "indices_ok st'"
proof -
  have l: "indices_ok (log_bit b v st)" for b v
    using assms(1) by (simp add: indices_ok_def)
  have "indices_ok (setRIndex (setWIndex (log_bit bit_server False st\<lparr>wIndex := 0, rIndex := 0\<rparr>)))"
    by (rule set_indices(1)) (use assms(1) in \<open>simp_all add: indices_ok_def\<close>)
  with l assms show ?thesis
    by (auto simp: serverChkTask_def Let_def split: option.splits if_splits)
qed

lemma logPostTask_ok:
  assumes "indices_ok st"
  shows "indices_ok (snd (logPostTask target now connected st))"
  using assms
  by (auto simp: logPostTask_def POST_def indices_ok_def Let_def log_bit_def split: list.splits)

text \<open>
  The server check, the log and the daily restart keep the indices in order and mirrored, a
  remote reset of the store included; if the device restarts, it resumes with exactly the indices it
  had.
\<close>

theorem checks_keep_indices:
  assumes "indices_ok st"
    and "loop_checks ms answer target now connected (t1, t2, st) = (restarted, t1', t2', st')"
  shows "indices_ok st' \<and> restore_indices (st'\<lparr>wIndex := 0, rIndex := 0\<rparr>) = st'"
proof -
  obtain ok r st1 where c: "serverChkTask answer st = (ok, r, st1)" by (cases "serverChkTask answer st") auto
  have "indices_ok st1" by (rule serverChkTask_ok [OF assms(1) c])
  then have "indices_ok st'"
    using assms c logPostTask_ok [of st1 target now connected]
    by (auto simp: loop_checks_def Let_def split: if_splits)
  then show ?thesis using indices_restored by blast
qed

end
