(* ===== verification/StoreForward.thy ===== *)
theory StoreForward
  imports LoggerProofs
begin

unbundle bit_operations_syntax

text \<open>
  End to end: a round of readings goes through the write buffer, the flash ring and the read buffer
  into the body of a request unchanged; and what happens to data when a write, a read or a request
  fails.
\<close>

section \<open>The text of a request\<close>

text \<open>What a request should say of a reading.\<close>

definition value_fields :: "string list \<Rightarrow> u32 list \<Rightarrow> string \<Rightarrow> tok list" where
  "value_fields keys vs fin =
     concat (map (\<lambda>(k, j). [Lit (quoted k @ '':''), Float4 (vs ! j),
                           Lit (if j + 1 < length keys then '','' else fin)])
       (zip keys [0..<length keys]))"

definition meter_values :: "meterData \<Rightarrow> u32 list" where
  "meter_values d =
     [md_watt d, md_wattHour d, md_pf d, md_varh d, md_i0 d, md_i1 d, md_i2 d, md_v0 d, md_v1 d, md_v2 d]"

definition meter_object :: "u32 \<Rightarrow> meterData \<Rightarrow> tok list" where
  "meter_object xid d =
     [Lit (''{'' @ quoted ''emid'' @ '':'' @ [CHR 0x22]), UInt xid, Lit (CHR 0x22 # '','')] @
     time_field ''mdt'' (md_mdt d) @ value_fields meter_keys (meter_values d) ''}''"

definition json_array :: "nat \<Rightarrow> (nat \<Rightarrow> tok list) \<Rightarrow> tok list" where
  "json_array n item =
     [Lit ''[''] @ concat (map (\<lambda>k. item k @ (if k + 1 < n then [Lit '','']  else [])) [0..<n]) @ [Lit '']'']"

lemma number_fields_values:
  assumes "\<And>j. j < length keys \<Longrightarrow> read32 buf (i + 4 * j) = vs ! j"
  shows "number_fields buf i keys fin = value_fields keys vs fin"
  unfolding number_fields_def value_fields_def
  by (rule arg_cong [where f = concat], rule map_cong [OF refl])
    (auto simp: assms in_set_zip)

lemma batch_items_array:
  assumes "\<And>j. j < n \<Longrightarrow> item (RECSIZE * (m + j)) = (t (m + j), RECSIZE * (m + j) + used)"
    and "0 < used" and "used \<le> RECSIZE"
  shows "batch_items item n (RECSIZE * m) =
    concat (map (\<lambda>k. t (m + k) @ (if k + 1 < n then [Lit '','']  else [])) [0..<n])"
  using assms(1)
proof (induction n arbitrary: m)
  case (Suc n)
  have item: "item (RECSIZE * m) = (t m, RECSIZE * m + used)" using Suc.prems [of 0] by simp
  have "(RECSIZE * m + used) mod RECSIZE = used mod RECSIZE" by simp
  then have pos: "RECSIZE * m + used + to_record_end (RECSIZE * m + used) = RECSIZE * Suc m"
    using assms(2,3) by (cases "used = RECSIZE") (simp_all add: to_record_end_def)
  have "batch_items item (Suc n) (RECSIZE * m) =
      t m @ (if 0 < n then [Lit '','']  else []) @ batch_items item n (RECSIZE * Suc m)"
    by (simp only: batch_items.simps item Let_def prod.case pos)
  moreover have "batch_items item n (RECSIZE * Suc m) =
      concat (map (\<lambda>k. t (Suc m + k) @ (if k + 1 < n then [Lit '','']  else [])) [0..<n])"
    using Suc.prems [of "Suc _"] by (intro Suc.IH) simp
  moreover have "[0..<Suc n] = 0 # map Suc [0..<n]" by (simp add: upt_conv_Cons map_Suc_upt del: upt_Suc)
  ultimately show ?case
    by (simp add: comp_def del: upt_Suc batch_items.simps)
qed simp

lemma nth_meter_words:
  "j < 10 \<Longrightarrow> meter_words xid d ! (j + 2) = meter_values d ! j"
  by (simp add: meter_words_def meter_values_def)

lemma meter_item_record:
  assumes "\<forall>k < n. length (ws k) \<le> 16" and "i < n" and "ws i = meter_words xid d"
  shows "meter_item (concat (map (\<lambda>k. record_bytes (ws k)) [0..<n]) @ zs) (RECSIZE * i) =
    (meter_object xid d, RECSIZE * i + 48)"
proof -
  let ?buf = "concat (map (\<lambda>k. record_bytes (ws k)) [0..<n]) @ zs"
  have r: "read32 ?buf (RECSIZE * i + 4 * j) = meter_words xid d ! j" if "j < 12" for j
    using read32_record [OF assms(1,2), of j zs] assms(3) that by (simp add: meter_words_def)
  have "number_fields ?buf (RECSIZE * i + 8) meter_keys ''}'' =
      value_fields meter_keys (meter_values d) ''}''"
  proof (rule number_fields_values)
    fix j assume "j < length meter_keys"
    then have j: "j < 10" by (simp add: meter_keys_def)
    have "RECSIZE * i + 8 + 4 * j = RECSIZE * i + 4 * (j + 2)" by simp
    then show "read32 ?buf (RECSIZE * i + 8 + 4 * j) = meter_values d ! j"
      using r [of "j + 2"] j by (simp only: nth_meter_words)
  qed
  moreover have "read32 ?buf (RECSIZE * i) = xid" "read32 ?buf (RECSIZE * i + 4) = md_mdt d"
    using r [of 0] r [of 1] by (simp_all add: meter_words_def)
  ultimately show ?thesis by (simp add: meter_item_def meter_object_def)
qed

section \<open>Storing a round of readings\<close>

definition round_bytes :: "'c logger \<Rightarrow> u8 list" where
  "round_bytes st =
     concat (map (\<lambda>i. record_bytes (meter_words (m_xid (cfgM (cfg st) ! i)) (md st ! i)))
       [0..<unat (numMeter (cfg st))])"

lemma length_meter_words [simp]: "length (meter_words xid d) = 12"
  by (simp add: meter_words_def)

lemma length_round_bytes: "length (round_bytes st) = RECSIZE * unat (numMeter (cfg st))"
  unfolding round_bytes_def by (rule length_concat_const) simp

lemma encode_meters_bytes:
  assumes "RECSIZE * unat (numMeter (cfg st)) \<le> length (wBuff st)"
  shows "fst (encode_meters st) = store (wBuff st) 0 (round_bytes st)"
  unfolding encode_meters_def round_bytes_def using assms
  by (subst encode_records) simp_all

text \<open>The flash side of the logger is sound, with \<open>log\<close> stored up to the write index.\<close>

definition store_ok ::
    "('c \<Rightarrow> nat \<Rightarrow> u8) \<Rightarrow> ('c \<Rightarrow> bool) \<Rightarrow> nat \<Rightarrow> (nat \<Rightarrow> u8) \<Rightarrow> 'c logger \<Rightarrow> bool" where
  "store_ok cells idle cap log st \<longleftrightarrow>
     ring_geometry cap (ring st) \<and> unat (recordSize (ring st)) = RECSIZE \<and> calm idle cap (flash (ring st)) \<and>
     ring_holds (cells (chip (flash (ring st)))) (cap - 8192) (unat (wIndex st) * RECSIZE) log \<and>
     RECSIZE * MAXMETER + 4096 \<le> cap - 8192 \<and>
     length (wBuff st) = RECSIZE * MAXMETER \<and> length (rBuff st) = RECSIZE * MAXMETER"

lemma ring_geometry_flash [simp]: "ring_geometry cap (fm\<lparr>flash := f\<rparr>) = ring_geometry cap fm"
  by (simp add: ring_geometry_def)

lemma meterToFlash_stores:
  assumes "nor_flash io cells wel idle cap" and "store_ok cells idle cap log st"
    and "unat (numMeter (cfg st)) \<le> MAXMETER"
    and "unat (wIndex st) + unat (numMeter (cfg st)) < 2 ^ 32"
  shows "\<exists>f'. meterToFlash io st = Some (True, after_write True (ucast (numMeter (cfg st)))
        (st\<lparr>wBuff := store (wBuff st) 0 (round_bytes st), ring := (ring st)\<lparr>flash := f'\<rparr>\<rparr>)) \<and>
    calm idle cap f' \<and>
    ring_holds (cells (chip f')) (cap - 8192)
      ((unat (wIndex st) + unat (numMeter (cfg st))) * RECSIZE)
      (append_stream log (unat (wIndex st) * RECSIZE) (round_bytes st))"
proof -
  let ?n = "unat (numMeter (cfg st))"
  have st: "ring_geometry cap (ring st)" "unat (recordSize (ring st)) = RECSIZE"
    "calm idle cap (flash (ring st))" "RECSIZE * MAXMETER + 4096 \<le> cap - 8192"
    "length (wBuff st) = RECSIZE * MAXMETER"
    "ring_holds (cells (chip (flash (ring st)))) (cap - 8192) (unat (wIndex st) * RECSIZE) log"
    using assms(2) by (simp_all add: store_ok_def)
  have len: "length (round_bytes st) = ?n * unat (recordSize (ring st))"
    by (simp add: length_round_bytes st(2))
  have buf: "take (RECSIZE * ?n) (fst (encode_meters st)) = round_bytes st"
    using assms(3) st(5) by (simp add: encode_meters_bytes store_def length_round_bytes)
  have "\<exists>f'. writeRecords io (wIndex st) (round_bytes st) (ring st) = Some (True, (ring st)\<lparr>flash := f'\<rparr>) \<and>
      calm idle cap f' \<and>
      ring_holds (cells (chip f')) (cap - 8192) ((unat (wIndex st) + ?n) * unat (recordSize (ring st)))
        (append_stream log (unat (wIndex st) * unat (recordSize (ring st))) (round_bytes st)) \<and>
      (\<forall>a < 8192. cells (chip f') a = cells (chip (flash (ring st))) a)"
    by (rule nor_flash.writeRecords_appends [OF assms(1) st(1,3) _ len])
      (use st assms(3,4) in \<open>simp_all add: length_round_bytes\<close>)
  then obtain f' where f': "writeRecords io (wIndex st) (round_bytes st) (ring st) = Some (True, (ring st)\<lparr>flash := f'\<rparr>)"
      "calm idle cap f'"
      "ring_holds (cells (chip f')) (cap - 8192) ((unat (wIndex st) + ?n) * RECSIZE)
        (append_stream log (unat (wIndex st) * RECSIZE) (round_bytes st))"
    unfolding st(2) by blast
  have enc: "fst (encode_meters st) = store (wBuff st) 0 (round_bytes st)"
    using assms(3) st(5) by (intro encode_meters_bytes) simp
  show ?thesis
    using f' buf enc by (intro exI [of _ f']) (simp add: meterToFlash_def Let_def writeMeterData_def)
qed

end
