(* ===== verification/ReadingQueue.thy ===== *)
theory ReadingQueue
  imports StoreForward
begin

unbundle bit_operations_syntax

text \<open>
  The specification of the meter logger: a first-in first-out queue of readings. Storing a round
  appends it, an acknowledged batch removes what it sent, and everything else leaves the queue as it
  is; so along any run the acknowledged bodies followed by the queue are the readings in the order
  they were taken, none lost and none sent twice.
\<close>

section \<open>Abstraction\<close>

type_synonym reading = "u32 \<times> meterData"

abbreviation (input) reading_bytes :: "reading \<Rightarrow> u8 list" where
  "reading_bytes x \<equiv> record_bytes (meter_words (fst x) (snd x))"

text \<open>The readings between the two indices, as the stream holds them.\<close>

definition log_record :: "(nat \<Rightarrow> u8) \<Rightarrow> nat \<Rightarrow> u8 list" where
  "log_record log i = map (\<lambda>j. log (RECSIZE * i + j)) [0..<RECSIZE]"

definition log_holds :: "(nat \<Rightarrow> u8) \<Rightarrow> nat \<Rightarrow> reading list \<Rightarrow> bool" where
  "log_holds log r q \<longleftrightarrow> (\<forall>k < length q. log_record log (r + k) = reading_bytes (q ! k))"

definition holds_queue ::
    "('c \<Rightarrow> nat \<Rightarrow> u8) \<Rightarrow> ('c \<Rightarrow> bool) \<Rightarrow> nat \<Rightarrow> reading list \<Rightarrow> 'c logger \<Rightarrow> bool" where
  "holds_queue cells idle cap q st \<longleftrightarrow>
     unat (wIndex st) = unat (rIndex st) + length q \<and>
     next_sector (RECSIZE * unat (wIndex st)) \<le> RECSIZE * unat (rIndex st) + (cap - 8192) \<and>
     (\<exists>log. store_ok cells idle cap log st \<and> log_holds log (unat (rIndex st)) q)"

definition round_readings :: "'c logger \<Rightarrow> reading list" where
  "round_readings st =
     map (\<lambda>i. (m_xid (cfgM (cfg st) ! i), md st ! i)) [0..<unat (numMeter (cfg st))]"

text \<open>The request that a batch of readings makes.\<close>

definition batch_body :: "reading list \<Rightarrow> tok list" where
  "batch_body xs = json_array (length xs) (\<lambda>k. meter_object (fst (xs ! k)) (snd (xs ! k)))"

lemma length_round_readings [simp]: "length (round_readings st) = unat (numMeter (cfg st))"
  by (simp add: round_readings_def)

lemma round_bytes_readings: "round_bytes st = concat (map reading_bytes (round_readings st))"
  by (simp add: round_bytes_def round_readings_def comp_def)

lemma log_records:
  "map (\<lambda>k. log (RECSIZE * r + k)) [0..<RECSIZE * n] = concat (map (\<lambda>k. log_record log (r + k)) [0..<n])"
proof (induction n)
  case (Suc n)
  have "[0..<RECSIZE * Suc n] = [0..<RECSIZE * n] @ map (\<lambda>j. j + RECSIZE * n) [0..<RECSIZE]"
    by (simp only: map_add_upt mult_Suc_right upt_add_eq_append [of 0, OF le0] add.commute [of RECSIZE])
  then have "map (\<lambda>k. log (RECSIZE * r + k)) [0..<RECSIZE * Suc n] =
      map (\<lambda>k. log (RECSIZE * r + k)) [0..<RECSIZE * n] @ log_record log (r + n)"
    by (simp add: log_record_def comp_def ac_simps del: upt_Suc)
  with Suc show ?case by simp
qed simp

lemma log_holds_bytes:
  assumes "log_holds log r q" and "n \<le> length q"
  shows "map (\<lambda>k. log (RECSIZE * r + k)) [0..<RECSIZE * n] =
    concat (map (\<lambda>k. reading_bytes (q ! k)) [0..<n])"
  unfolding log_records using assms
  by (intro arg_cong [where f = concat] map_cong refl) (simp add: log_holds_def)

lemma nth_concat_records:
  assumes "\<forall>x \<in> set xs. length x = RECSIZE" and "k < length xs" and "j < RECSIZE"
  shows "concat xs ! (RECSIZE * k + j) = xs ! k ! j"
  using assms
proof (induction xs arbitrary: k)
  case (Cons x xs)
  then show ?case by (cases k) (simp_all add: nth_append)
qed simp

lemma log_record_append:
  assumes "\<forall>x \<in> set xs. length x = RECSIZE"
  shows "log_record (append_stream log (RECSIZE * w) (concat xs)) i =
    (if w \<le> i \<and> i < w + length xs then xs ! (i - w) else log_record log i)"
proof (intro nth_equalityI)
  fix j assume "j < length (log_record (append_stream log (RECSIZE * w) (concat xs)) i)"
  then have j: "j < RECSIZE" by (simp add: log_record_def)
  have len: "length (concat xs) = RECSIZE * length xs" using assms by (induction xs) simp_all
  have iff: "RECSIZE * w \<le> RECSIZE * i + j \<longleftrightarrow> w \<le> i"
    "RECSIZE * i + j < RECSIZE * w + RECSIZE * length xs \<longleftrightarrow> i < w + length xs"
    using j by linarith+
  show "log_record (append_stream log (RECSIZE * w) (concat xs)) i ! j =
      (if w \<le> i \<and> i < w + length xs then xs ! (i - w) else log_record log i) ! j"
  proof (cases "w \<le> i \<and> i < w + length xs")
    case True
    then have "RECSIZE * i + j - RECSIZE * w = RECSIZE * (i - w) + j" by (simp add: diff_mult_distrib2)
    with True j nth_concat_records [OF assms, of "i - w" j] show ?thesis
      by (simp add: log_record_def append_stream_def iff len less_diff_conv2)
  next
    case False
    with j show ?thesis by (auto simp: log_record_def append_stream_def iff len)
  qed
qed (use assms in \<open>auto simp: log_record_def\<close>)

lemma log_holds_append:
  assumes "log_holds log r q"
  shows "log_holds (append_stream log (RECSIZE * (r + length q)) (concat (map reading_bytes xs))) r (q @ xs)"
  using assms
  by (auto simp: log_holds_def log_record_append nth_append simp del: distrib_left_numeral)

lemma log_holds_drop: "log_holds log r q \<Longrightarrow> log_holds log (r + n) (drop n q)"
  by (simp add: log_holds_def add.assoc del: upt_Suc)

section \<open>Operations on the queue\<close>

lemma after_write_simps [simp]:
  "wIndex (after_write True n st) = wIndex st + n" "rIndex (after_write True n st) = rIndex st"
  "ring (after_write True n st) = ring st" "wBuff (after_write True n st) = wBuff st"
  "rBuff (after_write True n st) = rBuff st" "cfg (after_write True n st) = cfg st"
  "posts (after_write True n st) = posts st" "http (after_write True n st) = http st"
  "md (after_write True n st) = md st"
  by (simp_all add: after_write_def setWIndex_def)

lemma advance_read_simps [simp]:
  "wIndex (advance_read n st) = wIndex st" "rIndex (advance_read n st) = rIndex st + n"
  "ring (advance_read n st) = ring st" "wBuff (advance_read n st) = wBuff st"
  "rBuff (advance_read n st) = rBuff st" "cfg (advance_read n st) = cfg st"
  "posts (advance_read n st) = posts st" "http (advance_read n st) = http st"
  "md (advance_read n st) = md st"
  by (simp_all add: advance_read_def setRIndex_def)

text \<open>Storing a round appends it.\<close>

lemma round_is_appended:
  assumes chip: "nor_flash io cells wel idle cap" and q: "holds_queue cells idle cap q st"
    and n: "unat (numMeter (cfg st)) \<le> MAXMETER"
    and room: "unat (wIndex st) + unat (numMeter (cfg st)) < 2 ^ 32"
      "next_sector (RECSIZE * (unat (wIndex st) + unat (numMeter (cfg st)))) \<le>
        RECSIZE * unat (rIndex st) + (cap - 8192)"
  shows "\<exists>st'. meterToFlash io st = Some (True, st') \<and>
    holds_queue cells idle cap (q @ round_readings st) st' \<and>
    cfg st' = cfg st \<and> md st' = md st \<and> posts st' = posts st \<and>
    wIndex st' = wIndex st + ucast (numMeter (cfg st))"
proof -
  let ?n = "unat (numMeter (cfg st))"
  from q obtain log where log: "store_ok cells idle cap log st" "log_holds log (unat (rIndex st)) q"
    and w: "unat (wIndex st) = unat (rIndex st) + length q"
    by (auto simp: holds_queue_def)
  from meterToFlash_stores [OF chip log(1) n room(1)] obtain f' where
    f': "meterToFlash io st = Some (True, after_write True (ucast (numMeter (cfg st)))
        (st\<lparr>wBuff := store (wBuff st) 0 (round_bytes st), ring := (ring st)\<lparr>flash := f'\<rparr>\<rparr>))"
    "calm idle cap f'"
    "ring_holds (cells (chip f')) (cap - 8192) ((unat (wIndex st) + ?n) * RECSIZE)
      (append_stream log (unat (wIndex st) * RECSIZE) (round_bytes st))" by blast
  let ?log = "append_stream log (RECSIZE * unat (wIndex st)) (round_bytes st)"
  let ?st' = "after_write True (ucast (numMeter (cfg st)))
    (st\<lparr>wBuff := store (wBuff st) 0 (round_bytes st), ring := (ring st)\<lparr>flash := f'\<rparr>\<rparr>)"
  have w': "unat (wIndex st + ucast (numMeter (cfg st))) = unat (wIndex st) + ?n"
    using room(1) by (simp add: unat_word_ariths)
  have "store_ok cells idle cap ?log ?st'"
    using log(1) f'(2,3) n w' length_round_bytes [of st] by (simp add: store_ok_def mult.commute)
  moreover have "log_holds ?log (unat (rIndex st)) (q @ round_readings st)"
    unfolding w round_bytes_readings by (rule log_holds_append [OF log(2)])
  ultimately have "holds_queue cells idle cap (q @ round_readings st) ?st'"
    using room(2) w w' by (auto simp: holds_queue_def)
  with f'(1) show ?thesis by auto
qed

text \<open>What a batch function reads, and the text it makes of it.\<close>

lemma batch_is_read:
  assumes chip: "nor_flash io cells wel idle cap" and q: "holds_queue cells idle cap q st"
    and n: "unat num \<le> length q" "unat num \<le> MAXMETER"
  shows "\<exists>buf f'. readMeterRecord io (rIndex st) (rBuff st) (of_nat RECSIZE * num) (ring st) =
      Some (True, buf, (ring st)\<lparr>flash := f'\<rparr>) \<and>
    [Lit ''[''] @ batch_items (meter_item buf) (unat num) 0 @ [Lit '']''] = batch_body (take (unat num) q) \<and>
    holds_queue cells idle cap q (st\<lparr>rBuff := buf, ring := (ring st)\<lparr>flash := f'\<rparr>\<rparr>)"
proof -
  let ?n = "unat num" and ?r = "unat (rIndex st)"
  from q obtain log where log: "store_ok cells idle cap log st" "log_holds log ?r q"
    and w: "unat (wIndex st) = ?r + length q"
    and live: "next_sector (RECSIZE * unat (wIndex st)) \<le> RECSIZE * ?r + (cap - 8192)"
    by (auto simp: holds_queue_def)
  have st: "ring_geometry cap (ring st)" "unat (recordSize (ring st)) = RECSIZE"
    "calm idle cap (flash (ring st))" "length (rBuff st) = RECSIZE * MAXMETER"
    "ring_holds (cells (chip (flash (ring st)))) (cap - 8192) (unat (wIndex st) * RECSIZE) log"
    using log(1) by (simp_all add: store_ok_def)
  let ?bs = "concat (map (\<lambda>k. reading_bytes (q ! k)) [0..<?n])"
  let ?buf = "?bs @ drop (RECSIZE * ?n) (rBuff st)"
  have num: "of_nat RECSIZE * num = of_nat (?n * RECSIZE)" by (simp add: mult.commute)
  have "\<exists>f'. readRecords io (rIndex st) (rBuff st) (of_nat (?n * RECSIZE)) (ring st) = Some (True,
        store (rBuff st) 0 (map (\<lambda>k. log (?r * RECSIZE + k)) [0..<?n * RECSIZE]), (ring st)\<lparr>flash := f'\<rparr>) \<and>
      calm idle cap f' \<and> cells (chip f') = cells (chip (flash (ring st)))"
    by (rule nor_flash.readRecords_stream [OF chip st(1,3,5), of "?n * RECSIZE" ?n "rIndex st" "rBuff st",
      unfolded st(2)]) (use n w live in \<open>simp_all add: mult.commute\<close>)
  then obtain f' where f': "calm idle cap f'" "cells (chip f') = cells (chip (flash (ring st)))"
    "readRecords io (rIndex st) (rBuff st) (of_nat (?n * RECSIZE)) (ring st) = Some (True,
      store (rBuff st) 0 (map (\<lambda>k. log (?r * RECSIZE + k)) [0..<?n * RECSIZE]), (ring st)\<lparr>flash := f'\<rparr>)"
    by blast
  have bytes: "map (\<lambda>k. log (?r * RECSIZE + k)) [0..<?n * RECSIZE] = ?bs"
    using log_holds_bytes [OF log(2) n(1)] by (simp only: mult.commute [of _ RECSIZE])
  have len: "length ?bs = RECSIZE * ?n" by (rule length_concat_const) simp
  have item: "meter_item ?buf (RECSIZE * (0 + j)) =
      (meter_object (fst (take ?n q ! (0 + j))) (snd (take ?n q ! (0 + j))), RECSIZE * (0 + j) + 48)"
    if "j < ?n" for j
    using meter_item_record [of ?n "\<lambda>k. meter_words (fst (q ! k)) (snd (q ! k))" j
        "fst (q ! j)" "snd (q ! j)" "drop (RECSIZE * ?n) (rBuff st)"] that
    by simp
  have "batch_items (meter_item ?buf) ?n (RECSIZE * 0) =
      concat (map (\<lambda>k. meter_object (fst (take ?n q ! (0 + k))) (snd (take ?n q ! (0 + k))) @
        (if k + 1 < ?n then [Lit '','']  else [])) [0..<?n])"
    by (rule batch_items_array [OF item]) simp_all
  then have "[Lit ''[''] @ batch_items (meter_item ?buf) ?n 0 @ [Lit '']''] = batch_body (take ?n q)"
    using n(1) by (simp add: batch_body_def json_array_def)
  moreover have "readMeterRecord io (rIndex st) (rBuff st) (of_nat RECSIZE * num) (ring st) =
      Some (True, ?buf, (ring st)\<lparr>flash := f'\<rparr>)"
    using f'(3) unfolding num readMeterRecord_def bytes by (simp add: store_def len)
  moreover have "store_ok cells idle cap log (st\<lparr>rBuff := ?buf, ring := (ring st)\<lparr>flash := f'\<rparr>\<rparr>)"
    using log(1) f'(1,2) st(4) n(2) len by (simp add: store_ok_def)
  then have "holds_queue cells idle cap q (st\<lparr>rBuff := ?buf, ring := (ring st)\<lparr>flash := f'\<rparr>\<rparr>)"
    using log(2) w live by (auto simp: holds_queue_def)
  ultimately show ?thesis by blast
qed

text \<open>What a batch that is answered with \<open>code\<close> leaves behind.\<close>

definition next_code :: "'c logger \<Rightarrow> u16" where
  "next_code st = (case http st of [] \<Rightarrow> 0xFFFF | c # cs \<Rightarrow> c)"

definition meter_batch :: "'c logger \<Rightarrow> reading list \<Rightarrow> u16 \<Rightarrow> post" where
  "meter_batch st xs code =
     \<lparr>post_url = post_target (batch_path (cfg st)) [] st, post_body = batch_body xs, post_code = code\<rparr>"

lemma holds_queue_log_bit [simp]:
  "holds_queue cells idle cap q (log_bit b v st) = holds_queue cells idle cap q st"
  by (simp add: holds_queue_def store_ok_def log_bit_def)

lemma holds_queue_posts [simp]:
  "holds_queue cells idle cap q (st\<lparr>http := hs, posts := ps\<rparr>) = holds_queue cells idle cap q st"
  by (simp add: holds_queue_def store_ok_def)

lemma holds_queue_advance:
  assumes "holds_queue cells idle cap q st" and "unat num \<le> length q"
  shows "holds_queue cells idle cap (drop (unat num) q) (advance_read num st)"
proof -
  from assms(1) obtain log where log: "store_ok cells idle cap log st" "log_holds log (unat (rIndex st)) q"
    and w: "unat (wIndex st) = unat (rIndex st) + length q"
    and live: "next_sector (RECSIZE * unat (wIndex st)) \<le> RECSIZE * unat (rIndex st) + (cap - 8192)"
    by (auto simp: holds_queue_def)
  have "unat (wIndex st) < 2 ^ 32" using unsigned_less [of "wIndex st", where ?'a = nat] by simp
  then have r: "unat (rIndex st + num) = unat (rIndex st) + unat num"
    using w assms(2) by (simp add: unat_word_ariths)
  have "store_ok cells idle cap log (advance_read num st)"
    using log(1) by (simp add: store_ok_def)
  moreover have "log_holds log (unat (rIndex st) + unat num) (drop (unat num) q)"
    by (rule log_holds_drop [OF log(2)])
  ultimately show ?thesis
    using w live assms(2) by (auto simp: holds_queue_def r)
qed

lemma batch_is_posted:
  assumes chip: "nor_flash io cells wel idle cap" and q: "holds_queue cells idle cap q st"
    and n: "unat num \<le> length q" "unat num \<le> MAXMETER"
  shows "\<exists>st'. flashMeterToBatchPost io num st = Some st' \<and>
    posts st' = posts st @ [meter_batch st (take (unat num) q) (next_code st)] \<and>
    holds_queue cells idle cap (if next_code st = 200 then drop (unat num) q else q) st' \<and>
    cfg st' = cfg st \<and> md st' = md st \<and> wIndex st' = wIndex st"
proof -
  from batch_is_read [OF assms] obtain buf f' where
    r: "readMeterRecord io (rIndex st) (rBuff st) (of_nat RECSIZE * num) (ring st) =
      Some (True, buf, (ring st)\<lparr>flash := f'\<rparr>)"
    and body: "[Lit ''[''] @ batch_items (meter_item buf) (unat num) 0 @ [Lit '']''] = batch_body (take (unat num) q)"
    and q1: "holds_queue cells idle cap q (st\<lparr>rBuff := buf, ring := (ring st)\<lparr>flash := f'\<rparr>\<rparr>)"
    by blast
  let ?st1 = "st\<lparr>rBuff := buf, ring := (ring st)\<lparr>flash := f'\<rparr>\<rparr>"
  let ?st2 = "?st1\<lparr>http := tl (http st), posts := posts st @ [meter_batch st (take (unat num) q) (next_code st)]\<rparr>"
  have p: "POST (post_target (batch_path (cfg st)) [] ?st1)
      ([Lit ''[''] @ batch_items (meter_item buf) (unat num) 0 @ [Lit '']'']) ?st1 = (next_code st, ?st2)"
    unfolding body by (simp add: POST_def next_code_def meter_batch_def post_target_def split: list.split)
  have "flashMeterToBatchPost io num st = Some (if next_code st = 200
      then advance_read num (log_bit bit_server False ?st2) else log_bit bit_server True ?st2)"
    by (simp only: flashMeterToBatchPost_def r option.case prod.case Let_def not_True_eq_False if_False
        batch_post_def p not_not if_True cong: if_cong) simp
  moreover have "holds_queue cells idle cap q ?st2" using q1 by (simp only: holds_queue_posts)
  then have "holds_queue cells idle cap (if next_code st = 200 then drop (unat num) q else q)
      (if next_code st = 200 then advance_read num (log_bit bit_server False ?st2) else log_bit bit_server True ?st2)"
    using holds_queue_advance [of cells idle cap q "log_bit bit_server False ?st2" num] n(1)
    by (simp only: holds_queue_log_bit split: if_split) simp
  ultimately show ?thesis
    by (intro exI [of _ "if next_code st = 200 then advance_read num (log_bit bit_server False ?st2)
      else log_bit bit_server True ?st2"] conjI) (assumption | simp)+
qed

text \<open>The post task on a queue: what it takes, and when it does nothing.\<close>

definition batch_size :: "'c logger \<Rightarrow> nat \<Rightarrow> nat" where
  "batch_size st n = min (unat (batch (cfg st))) n"

lemma batch_task_posts:
  assumes chip: "nor_flash io cells wel idle cap" and q: "holds_queue cells idle cap q st"
    and b: "0 < unat (batch (cfg st))" "unat (batch (cfg st)) \<le> MAXMETER" and "q \<noteq> []"
  shows "\<exists>st'. ReadFlashMeterToPost_Task io True st = Some st' \<and>
    posts st' = posts st @ [meter_batch st (take (batch_size st (length q)) q) (next_code st)] \<and>
    holds_queue cells idle cap (if next_code st = 200 then drop (batch_size st (length q)) q else q) st' \<and>
    cfg st' = cfg st \<and> md st' = md st \<and> wIndex st' = wIndex st"
proof -
  let ?m = "wIndex st - rIndex st" and ?b = "ucast (batch (cfg st)) :: u32"
  have w: "unat (wIndex st) = unat (rIndex st) + length q" using q by (simp add: holds_queue_def)
  then have m: "unat ?m = length q" by (simp add: unat_sub word_le_nat_alt)
  have lt: "rIndex st < wIndex st" using w \<open>q \<noteq> []\<close> by (simp add: word_less_nat_alt)
  have num: "unat (if ?b < ?m then ?b else ?m) = batch_size st (length q)"
    by (simp add: batch_size_def word_less_nat_alt m)
  have nz: "batch (cfg st) \<noteq> 0" using b(1) by auto
  have "ReadFlashMeterToPost_Task io True st = flashMeterToBatchPost io (if ?b < ?m then ?b else ?m) st"
    using lt nz by (simp add: ReadFlashMeterToPost_Task_def post_task_def Let_def)
  then show ?thesis
    using batch_is_posted [OF chip q, of "if ?b < ?m then ?b else ?m"] b(2) unfolding num
    by (simp add: batch_size_def)
qed

lemma post_task_idle:
  assumes "holds_queue cells idle cap q st" and "q = [] \<or> \<not> connected"
  shows "ReadFlashMeterToPost_Task io connected st = Some st"
  using assms by (auto simp: holds_queue_def ReadFlashMeterToPost_Task_def post_task_def word_less_nat_alt)

section \<open>Runs of the main loop\<close>

lemma holds_queue_other [simp]:
  "holds_queue cells idle cap q (st\<lparr>line := w\<rparr>) = holds_queue cells idle cap q st"
  "holds_queue cells idle cap q (st\<lparr>http := hs\<rparr>) = holds_queue cells idle cap q st"
  "holds_queue cells idle cap q (st\<lparr>lastTime := t\<rparr>) = holds_queue cells idle cap q st"
  by (simp_all add: holds_queue_def store_ok_def)

lemma holds_queue_read_meters:
  assumes "read_meters fp now is st = Some (ok, st1)"
  shows "holds_queue cells idle cap q st1 = holds_queue cells idle cap q st"
  using read_meters_same [OF assms] by (simp add: holds_queue_def store_ok_def same_indices_def)

text \<open>The readings of a round are new when the write index moved.\<close>

definition new_readings :: "'c logger \<Rightarrow> 'c logger \<Rightarrow> reading list" where
  "new_readings st st' = (if wIndex st' = wIndex st then [] else round_readings st')"

text \<open>There is room for one more round in the ring and in the index.\<close>

definition has_room :: "nat \<Rightarrow> 'c logger \<Rightarrow> bool" where
  "has_room cap st \<longleftrightarrow>
     unat (wIndex st) + unat (numMeter (cfg st)) < 2 ^ 32 \<and>
     next_sector (RECSIZE * (unat (wIndex st) + unat (numMeter (cfg st)))) \<le>
       RECSIZE * unat (rIndex st) + (cap - 8192)"

text \<open>Meters in batch mode, as many as the buffers are made for.\<close>

definition batch_mode :: "config \<Rightarrow> bool" where
  "batch_mode c \<longleftrightarrow> cfg_type c = 1 \<and> unat (numMeter c) \<le> MAXMETER \<and>
     0 < unat (batch c) \<and> unat (batch c) \<le> MAXMETER"

lemma read_task_queue:
  assumes chip: "nor_flash io cells wel idle cap" and q: "holds_queue cells idle cap q st"
    and "batch_mode (cfg st)" and "has_room cap st"
    and t: "ReadMeterToFlash_Task fp io now st = Some st'"
  shows "holds_queue cells idle cap (q @ new_readings st st') st' \<and> cfg st' = cfg st \<and> posts st' = posts st"
proof -
  from t obtain ok st1 where r: "read_meters fp now [0..<unat (numMeter (cfg st))] st = Some (ok, st1)"
    and no: "\<not> ok \<Longrightarrow> st' = st1"
    and yes: "ok \<Longrightarrow> \<exists>ok2 st2. meterToFlash io st1 = Some (ok2, st2) \<and>
      st' = (if ok2 then st2\<lparr>lastTime := now\<rparr> else st2)"
    by (auto simp: ReadMeterToFlash_Task_def split: option.splits if_splits)
  have same: "wIndex st1 = wIndex st" "rIndex st1 = rIndex st" "cfg st1 = cfg st" "posts st1 = posts st"
    using read_meters_same [OF r] by (simp_all add: same_indices_def)
  have q1: "holds_queue cells idle cap q st1" using q by (simp add: holds_queue_read_meters [OF r])
  show ?thesis
  proof (cases ok)
    case False
    then show ?thesis using no q1 same by (simp add: new_readings_def)
  next
    case True
    have "unat (numMeter (cfg st1)) \<le> MAXMETER"
      "unat (wIndex st1) + unat (numMeter (cfg st1)) < 2 ^ 32"
      "next_sector (RECSIZE * (unat (wIndex st1) + unat (numMeter (cfg st1)))) \<le>
        RECSIZE * unat (rIndex st1) + (cap - 8192)"
      using assms(3,4) same by (simp_all add: batch_mode_def has_room_def)
    from round_is_appended [OF chip q1 this] obtain st2 where
      st2: "meterToFlash io st1 = Some (True, st2)" "holds_queue cells idle cap (q @ round_readings st1) st2"
      "cfg st2 = cfg st1" "md st2 = md st1" "posts st2 = posts st1"
      "wIndex st2 = wIndex st1 + ucast (numMeter (cfg st1))" by blast
    have st': "st' = st2\<lparr>lastTime := now\<rparr>" using yes [OF True] st2(1) by auto
    have "round_readings st' = round_readings st1" by (simp add: st' round_readings_def st2)
    moreover have "round_readings st1 = []" if "wIndex st' = wIndex st"
    proof -
      have "wIndex st1 + ucast (numMeter (cfg st1)) = wIndex st1"
        using that st2(6) same(1) by (simp add: st')
      then have "unat (ucast (numMeter (cfg st1)) :: u32) = 0" by (metis add_cancel_left_right unsigned_0)
      then show ?thesis by (simp add: round_readings_def)
    qed
    ultimately show ?thesis
      using st2 same by (auto simp: st' new_readings_def)
  qed
qed

lemma loop_turn_queue:
  assumes chip: "nor_flash io cells wel idle cap" and q: "holds_queue cells idle cap q st"
    and mode: "batch_mode (cfg st)" and room: "has_room cap st"
    and t: "loop_tasks fp io sample now connected st = Some st'"
  shows "cfg st' = cfg st \<and>
    (let q1 = q @ new_readings st st' in
      posts st' = posts st \<and> holds_queue cells idle cap q1 st' \<or>
      (\<exists>n code. posts st' = posts st @ [meter_batch st (take n q1) code] \<and>
        holds_queue cells idle cap (if code = 200 then drop n q1 else q1) st'))"
proof -
  let ?st = "fix_last_time now st"
  have fixed: "holds_queue cells idle cap q ?st" "batch_mode (cfg ?st)" "has_room cap ?st"
    "cfg ?st = cfg st" "posts ?st = posts st" "wIndex ?st = wIndex st"
    using q mode room by (simp_all add: fix_last_time_def has_room_def)
  have ty: "cfg_type (cfg ?st) = 1" using fixed(2) by (simp add: batch_mode_def)
  from t obtain st1 where
    st1: "st1 = ?st \<or> ReadMeterToFlash_Task fp io now ?st = Some st1"
    and st': "st' = st1 \<or> ReadFlashMeterToPost_Task io connected st1 = Some st'"
    by (auto simp: loop_tasks_def Let_def ty split: option.splits if_splits)
  have q1: "holds_queue cells idle cap (q @ new_readings st st1) st1" "cfg st1 = cfg st" "posts st1 = posts st"
  proof -
    have "holds_queue cells idle cap (q @ new_readings ?st st1) st1 \<and> cfg st1 = cfg ?st \<and> posts st1 = posts ?st"
      using st1 fixed(1) read_task_queue [OF chip fixed(1-3), where st' = st1 and now = now and fp = fp]
      by (auto simp: new_readings_def)
    then show "holds_queue cells idle cap (q @ new_readings st st1) st1" "cfg st1 = cfg st" "posts st1 = posts st"
      by (simp_all add: new_readings_def fixed(4-6))
  qed
  show ?thesis
  proof (cases "st' = st1 \<or> \<not> connected \<or> q @ new_readings st st1 = []")
    case True
    then have "st' = st1"
      using st' post_task_idle [OF q1(1), of connected io] by (metis option.inject)
    with q1 show ?thesis by simp
  next
    case False
    then have "ReadFlashMeterToPost_Task io True st1 = Some st'" using st' by simp
    moreover have b: "0 < unat (batch (cfg st1))" "unat (batch (cfg st1)) \<le> MAXMETER"
      using mode q1(2) by (simp_all add: batch_mode_def)
    have ne: "q @ new_readings st st1 \<noteq> []" using False by blast
    from batch_task_posts [OF chip q1(1) b ne] obtain st2 n where
      st2: "ReadFlashMeterToPost_Task io True st1 = Some st2"
      "posts st2 = posts st1 @ [meter_batch st1 (take n (q @ new_readings st st1)) (next_code st1)]"
      "holds_queue cells idle cap (if next_code st1 = 200 then drop n (q @ new_readings st st1)
        else q @ new_readings st st1) st2"
      "cfg st2 = cfg st1" "md st2 = md st1" "wIndex st2 = wIndex st1" by blast
    ultimately have "st' = st2" by simp
    moreover have "new_readings st st2 = new_readings st st1"
      by (simp add: new_readings_def round_readings_def st2(4-6))
    moreover have "meter_batch st1 xs c = meter_batch st xs c" for xs c
      by (simp add: meter_batch_def post_target_def q1(2))
    ultimately show ?thesis using st2 q1 unfolding Let_def by metis
  qed
qed

text \<open>
  A run: turns of the main loop, each at any time, with any traffic on the bus and any answers of the
  server, as long as there is room for a round. \<open>hist\<close> lists the readings stored so far.
\<close>

inductive logger_run ::
    "fpu \<Rightarrow> ('c, 'z) chip_ops_scheme \<Rightarrow> nat \<Rightarrow> 'c logger \<Rightarrow> reading list \<Rightarrow> 'c logger \<Rightarrow> bool"
  for fp io cap st0 where
  start: "logger_run fp io cap st0 [] st0"
| turn: "logger_run fp io cap st0 hist st \<Longrightarrow> has_room cap st \<Longrightarrow>
    loop_tasks fp io sample now connected (st\<lparr>line := w, http := codes\<rparr>) = Some st' \<Longrightarrow>
    logger_run fp io cap st0 (hist @ new_readings st st') st'"

inductive_cases logger_runE: "logger_run fp io cap st0 hist st"

text \<open>The acknowledged requests.\<close>

definition acked :: "post list \<Rightarrow> post list" where
  "acked ps = filter (\<lambda>p. post_code p = 200) ps"

lemma acked_append [simp]: "acked (xs @ ys) = acked xs @ acked ys"
  by (simp add: acked_def)

lemma acked_batch [simp]:
  "acked [meter_batch st xs code] = (if code = 200 then [meter_batch st xs 200] else [])"
  by (simp add: acked_def meter_batch_def)

definition delivered :: "'c logger \<Rightarrow> reading list list \<Rightarrow> 'c logger \<Rightarrow> bool" where
  "delivered st0 bs st \<longleftrightarrow>
     acked (posts st) = acked (posts st0) @ map (\<lambda>b. meter_batch st0 b 200) bs"

text \<open>One turn, whatever the environment did to the line, the server and the time of the last reading.\<close>

definition in_order ::
    "('c \<Rightarrow> nat \<Rightarrow> u8) \<Rightarrow> ('c \<Rightarrow> bool) \<Rightarrow> nat \<Rightarrow> reading list \<Rightarrow> 'c logger \<Rightarrow> reading list \<Rightarrow> 'c logger \<Rightarrow> bool" where
  "in_order cells idle cap q0 st0 hist st \<longleftrightarrow> cfg st = cfg st0 \<and>
     (\<exists>bs q. delivered st0 bs st \<and> holds_queue cells idle cap q st \<and> concat bs @ q = q0 @ hist)"

lemma turn_in_order:
  assumes chip: "nor_flash io cells wel idle cap" and mode: "batch_mode (cfg st0)"
    and order: "in_order cells idle cap q0 st0 hist st" and room: "has_room cap st"
    and t: "loop_tasks fp io sample now connected (st\<lparr>line := w, http := codes, lastTime := lt\<rparr>) = Some st'"
  shows "in_order cells idle cap q0 st0 (hist @ new_readings st st') st'"
proof -
  let ?st = "st\<lparr>line := w, http := codes, lastTime := lt\<rparr>" and ?new = "new_readings st st'"
  from order obtain bs q where cfg: "cfg st = cfg st0" and d: "delivered st0 bs st"
    and q: "holds_queue cells idle cap q st" and eq: "concat bs @ q = q0 @ hist"
    unfolding in_order_def by blast
  have q1: "holds_queue cells idle cap q ?st" using q by simp
  have new: "new_readings ?st st' = ?new" by (simp add: new_readings_def)
  have batch: "meter_batch ?st xs c = meter_batch st0 xs c" for xs c
    by (simp add: meter_batch_def post_target_def cfg)
  have ps: "posts ?st = posts st" by simp
  have prem: "batch_mode (cfg ?st)" "has_room cap ?st"
    using mode cfg room by (simp_all add: has_room_def)
  have turned: "cfg st' = cfg st" "posts st' = posts st \<and> holds_queue cells idle cap (q @ ?new) st' \<or>
      (\<exists>n code. posts st' = posts st @ [meter_batch st0 (take n (q @ ?new)) code] \<and>
        holds_queue cells idle cap (if code = 200 then drop n (q @ ?new) else q @ ?new) st')"
    using loop_turn_queue [OF chip q1 prem t] unfolding Let_def new batch ps by simp_all
  have eq': "q0 @ hist @ ?new = concat bs @ q @ ?new" using eq by (metis append_assoc)
  have keep: "\<exists>bs q. delivered st0 bs st' \<and> holds_queue cells idle cap q st' \<and> concat bs @ q = q0 @ hist @ ?new"
    if "acked (posts st') = acked (posts st)" "holds_queue cells idle cap (q @ ?new) st'"
    using that d eq by (intro exI [of _ bs] exI [of _ "q @ ?new"]) (simp add: delivered_def eq')
  have sent: "\<exists>bs q. delivered st0 bs st' \<and> holds_queue cells idle cap q st' \<and> concat bs @ q = q0 @ hist @ ?new"
    if "acked (posts st') = acked (posts st) @ [meter_batch st0 (take n (q @ ?new)) 200]"
      "holds_queue cells idle cap (drop n (q @ ?new)) st'" for n
    using that d eq by (intro exI [of _ "bs @ [take n (q @ ?new)]"] exI [of _ "drop n (q @ ?new)"])
      (simp add: delivered_def eq' del: take_append drop_append)
  have "\<exists>bs q. delivered st0 bs st' \<and> holds_queue cells idle cap q st' \<and> concat bs @ q = q0 @ hist @ ?new"
    using turned(2)
  proof (elim disjE exE conjE)
    fix n code
    assume p: "posts st' = posts st @ [meter_batch st0 (take n (q @ ?new)) code]"
      and h: "holds_queue cells idle cap (if code = 200 then drop n (q @ ?new) else q @ ?new) st'"
    show ?thesis
    proof (cases "code = 200")
      case True
      show ?thesis by (rule sent [of n]) (use p h True in simp_all)
    next
      case False
      show ?thesis by (rule keep) (use p h False in simp_all)
    qed
  qed (rule keep, simp_all)
  then show ?thesis using turned(1) cfg by (simp add: in_order_def)
qed

lemma run_queue:
  assumes "nor_flash io cells wel idle cap" and "batch_mode (cfg st0)"
    and "holds_queue cells idle cap q0 st0" and run: "logger_run fp io cap st0 hist st"
  shows "in_order cells idle cap q0 st0 hist st"
  using run
proof (induction rule: logger_run.induct)
  case start
  show ?case using assms(3)
    by (auto simp: in_order_def delivered_def intro!: exI [of _ "[]"] exI [of _ q0])
next
  case (turn hist st sample now connected codes w st')
  have "st\<lparr>line := w, http := codes\<rparr> = st\<lparr>line := w, http := codes, lastTime := lastTime st\<rparr>" by simp
  with turn.hyps(3) show ?case
    using turn_in_order [OF assms(1,2) turn.IH turn.hyps(2), where lt = "lastTime st"] by simp
qed

section \<open>Draining the queue\<close>

text \<open>\<open>k\<close> post tasks in a row.\<close>

fun post_tasks :: "('c, 'z) chip_ops_scheme \<Rightarrow> nat \<Rightarrow> 'c logger \<Rightarrow> 'c logger option" where
  "post_tasks io 0 st = Some st"
| "post_tasks io (Suc k) st =
     (case ReadFlashMeterToPost_Task io True st of None \<Rightarrow> None | Some st1 \<Rightarrow> post_tasks io k st1)"

lemma batch_task_http:
  assumes "ReadFlashMeterToPost_Task io True st = Some st'" and "posts st' \<noteq> posts st" and "batch (cfg st) \<noteq> 0"
  shows "http st' = tl (http st)"
  using assms
  by (auto simp: ReadFlashMeterToPost_Task_def post_task_def flashMeterToBatchPost_def batch_post_def POST_def
      Let_def split: option.splits if_splits list.splits)

lemma post_tasks_drain:
  assumes chip: "nor_flash io cells wel idle cap"
  shows "holds_queue cells idle cap q st \<Longrightarrow> batch_mode (cfg st) \<Longrightarrow> length q \<le> k * unat (batch (cfg st)) \<Longrightarrow>
    k \<le> length (http st) \<Longrightarrow> (\<forall>c \<in> set (http st). c = 200) \<Longrightarrow>
    \<exists>st'. post_tasks io k st = Some st' \<and> holds_queue cells idle cap [] st' \<and> rIndex st' = wIndex st \<and>
      wIndex st' = wIndex st"
proof (induction k arbitrary: q st)
  case 0
  then show ?case by (auto simp: holds_queue_def word_unat_eq_iff)
next
  case (Suc k)
  show ?case
  proof (cases "q = []")
    case True
    then have "ReadFlashMeterToPost_Task io True st = Some st"
      using Suc.prems(1) by (intro post_task_idle) simp_all
    then show ?thesis using Suc.IH [OF Suc.prems(1,2)] Suc.prems True by simp
  next
    case False
    have b: "0 < unat (batch (cfg st))" "unat (batch (cfg st)) \<le> MAXMETER"
      using Suc.prems(2) by (simp_all add: batch_mode_def)
    obtain cs where cs: "http st = 200 # cs" using Suc.prems(4,5) by (cases "http st") auto
    then have code: "next_code st = 200" by (simp add: next_code_def)
    from batch_task_posts [OF chip Suc.prems(1) b False] code obtain st1 where
      st1: "ReadFlashMeterToPost_Task io True st = Some st1"
      "posts st1 = posts st @ [meter_batch st (take (batch_size st (length q)) q) 200]"
      "holds_queue cells idle cap (drop (batch_size st (length q)) q) st1"
      "cfg st1 = cfg st" "wIndex st1 = wIndex st" by auto
    have "batch (cfg st) \<noteq> 0" using b(1) by (metis less_irrefl unsigned_0)
    then have "http st1 = cs" using batch_task_http [OF st1(1)] st1(2) cs by simp
    have len: "length (drop (batch_size st (length q)) q) \<le> k * unat (batch (cfg st1))"
    proof -
      have "length q - unat (batch (cfg st)) \<le> k * unat (batch (cfg st))" using Suc.prems(3) by simp
      then show ?thesis by (simp add: batch_size_def min_def st1(4))
    qed
    have more: "batch_mode (cfg st1)" "k \<le> length (http st1)"
      using Suc.prems(2,4) \<open>http st1 = cs\<close> cs st1(4) by simp_all
    have "\<forall>c \<in> set (http st1). c = 200"
      using Suc.prems(5) unfolding \<open>http st1 = cs\<close> cs by (meson list.set_intros(2))
    from Suc.IH [OF st1(3) more(1) len more(2) this] show ?thesis
      by (simp only: post_tasks.simps st1(1,5) option.case)
  qed
qed

section \<open>After failed writes\<close>

text \<open>At a sector boundary nothing has to be erased beforehand, so any contents will do.\<close>

lemma ring_holds_boundary:
  assumes "4096 dvd w"
  shows "ring_holds m n w (\<lambda>p. m (cell_of n p))"
proof -
  have "next_sector w = w" using assms by (auto simp: next_sector_def)
  then show ?thesis by (auto simp: ring_holds_def)
qed

text \<open>A position inside a sector: \<open>n\<close> records from there on stay in it and do not start it.\<close>

definition inside_sector :: "nat \<Rightarrow> nat \<Rightarrow> bool" where
  "inside_sector index n \<longleftrightarrow> 0 < index mod 64 \<and> index mod 64 + n \<le> 64"

lemma inside_sector_no_start:
  assumes "inside_sector index n" and "i < n"
  shows "\<not> 4096 dvd (index + i) * RECSIZE"
proof -
  have "(index + i) mod 64 = (index mod 64 + i) mod 64" by (simp add: mod_simps)
  also have "\<dots> = index mod 64 + i" using assms by (simp add: inside_sector_def)
  finally have "\<not> 64 dvd index + i" using assms(1) by (simp add: inside_sector_def dvd_eq_mod_eq_0)
  moreover have "(4096::nat) = 64 * 64" by simp
  ultimately show ?thesis by (metis dvd_times_right_cancel_iff zero_neq_numeral)
qed

lemma inside_sector_no_wrap:
  assumes "inside_sector index n" and "4096 dvd m" and "0 < m"
  shows "index * RECSIZE mod m + n * RECSIZE \<le> m"
proof -
  from assms(2) obtain k where k: "m = 4096 * k" by auto
  let ?x = "index * RECSIZE mod m"
  have "?x mod 4096 = index * RECSIZE mod 4096" unfolding k by (simp add: mod_mod_cancel)
  also have "\<dots> = index mod 64 * RECSIZE" using mult_mod_left [of index 64 RECSIZE] by simp
  finally have x: "?x = 4096 * (?x div 4096) + index mod 64 * RECSIZE"
    by (metis mult_div_mod_eq)
  have "?x < 4096 * k" using assms(3) k by simp
  then have "?x div 4096 < k" by (simp add: less_mult_imp_div_less mult.commute)
  moreover have "(index mod 64 + n) * RECSIZE \<le> 4096" using assms(1) by (simp add: inside_sector_def)
  ultimately show ?thesis using x unfolding k add_mult_distrib by linarith
qed

context nor_flash
begin

lemma writeRecords_refused:
  assumes g: "ring_geometry cap fm" and rec: "unat (recordSize fm) = RECSIZE" and c: "calm idle cap (flash fm)"
    and len: "length buff = n * RECSIZE" and inside: "inside_sector (unat index) n"
    and dirty: "\<exists>k < length buff. cells (chip (flash fm)) (cell_of (cap - 8192) (unat index * RECSIZE) + k) \<noteq> 0xFF"
    and room: "unat index + n < 2 ^ 32"
  shows "\<exists>f'. writeRecords io index buff fm = Some (False, fm\<lparr>flash := f'\<rparr>) \<and> calm idle cap f' \<and>
    cells (chip f') = cells (chip (flash fm))"
proof -
  have n: "n < 256" "n * RECSIZE < 2 ^ 16" using inside by (simp_all add: inside_sector_def)
  note sz = block_sizes [OF g, unfolded rec, OF refl n]
  have m: "4096 dvd cap - 8192" "0 < cap - 8192" using g by (simp_all add: ring_geometry_def)
  note fits = inside_sector_no_wrap [OF inside m]
  have nw: "\<not> wraps fm index (of_nat (n * RECSIZE))"
    using wraps_iff [OF g, unfolded rec, OF sz(1) n(1), of index] fits by linarith
  have cap: "cap = 8192 + (cap - 8192)" using ring_geometry_simps(5) [OF g] by simp
  have addr: "unat (record_address fm index) = cell_of (cap - 8192) (unat index * RECSIZE)"
    using unat_record_address [OF g] by (simp add: rec)
  obtain f1 where f1: "erase_sectors io fm index [0..<n] (flash fm) = Some f1" "calm idle cap f1"
    "cells (chip f1) = (\<lambda>a. if \<exists>i \<in> set [0..<n]. 4096 dvd (unat index + i) * RECSIZE \<and>
        a div 4096 = cell_of (cap - 8192) ((unat index + i) * RECSIZE) div 4096
      then 0xFF else cells (chip (flash fm)) a)"
    using erase_sectors_ok [OF g c, of "[0..<n]" index] room unfolding rec by auto
  have same: "cells (chip f1) = cells (chip (flash fm))"
    unfolding f1(3) using inside_sector_no_start [OF inside] by (intro ext if_not_P) (auto simp del: dvd_times_right_cancel_iff)
  have "unat (record_address fm index) + length buff \<le> cap"
    using fits cap unfolding addr len cell_of_def by linarith
  from writeByteArray_refuses [OF f1(2) this, of True] dirty obtain f' where
    "writeByteArray io (record_address fm index) buff True f1 = Some (False, f')" "calm idle cap f'"
    "cells (chip f') = cells (chip f1)"
    unfolding addr same by blast
  then show ?thesis
    using f1(1) nw same
    by (intro exI [of _ f']) (simp add: writeRecords_def Let_def len sz del: of_nat_mult)
qed

end

text \<open>\<open>k\<close> attempts to store a round.\<close>

fun store_attempts :: "('c, 'z) chip_ops_scheme \<Rightarrow> nat \<Rightarrow> 'c logger \<Rightarrow> 'c logger option" where
  "store_attempts io 0 st = Some st"
| "store_attempts io (Suc k) st =
     (case meterToFlash io st of None \<Rightarrow> None | Some (_, st1) \<Rightarrow> store_attempts io k st1)"

text \<open>
  The indices point into the middle of a sector that holds other data, as they do once the clock's
  RAM has lost them.
\<close>

definition astray :: "('c \<Rightarrow> nat \<Rightarrow> u8) \<Rightarrow> ('c \<Rightarrow> bool) \<Rightarrow> nat \<Rightarrow> 'c logger \<Rightarrow> bool" where
  "astray cells idle cap st \<longleftrightarrow>
     ring_geometry cap (ring st) \<and> unat (recordSize (ring st)) = RECSIZE \<and> calm idle cap (flash (ring st)) \<and>
     RECSIZE * MAXMETER + 4096 \<le> cap - 8192 \<and>
     length (wBuff st) = RECSIZE * MAXMETER \<and> length (rBuff st) = RECSIZE * MAXMETER \<and>
     rIndex st = wIndex st \<and> unat (wIndex st) + 64 < 2 ^ 32 \<and> unat (numMeter (cfg st)) \<le> MAXMETER \<and>
     inside_sector (unat (wIndex st)) (unat (numMeter (cfg st))) \<and>
     (\<exists>k < unat (numMeter (cfg st)) * RECSIZE.
        cells (chip (flash (ring st))) (cell_of (cap - 8192) (unat (wIndex st) * RECSIZE) + k) \<noteq> 0xFF)"

lemma astray_attempt:
  assumes chip: "nor_flash io cells wel idle cap" and a: "astray cells idle cap st"
  shows "\<exists>st1. meterToFlash io st = Some (True, after_write False (ucast (numMeter (cfg st))) st1) \<and>
    astray cells idle cap st1 \<and> wIndex st1 = wIndex st \<and> fErrorCnt st1 = fErrorCnt st \<and> cfg st1 = cfg st"
proof -
  let ?n = "unat (numMeter (cfg st))"
  have st: "ring_geometry cap (ring st)" "unat (recordSize (ring st)) = RECSIZE" "calm idle cap (flash (ring st))"
    "length (wBuff st) = RECSIZE * MAXMETER" "?n \<le> MAXMETER" "inside_sector (unat (wIndex st)) ?n"
    "unat (wIndex st) + ?n < 2 ^ 32"
    "\<exists>k < length (round_bytes st). cells (chip (flash (ring st)))
      (cell_of (cap - 8192) (unat (wIndex st) * RECSIZE) + k) \<noteq> 0xFF"
    using a by (simp_all add: astray_def inside_sector_def length_round_bytes mult.commute)
  have len: "length (round_bytes st) = ?n * RECSIZE" by (simp add: length_round_bytes)
  have enc: "fst (encode_meters st) = store (wBuff st) 0 (round_bytes st)"
    using st(4,5) by (intro encode_meters_bytes) simp
  have buf: "take (RECSIZE * ?n) (fst (encode_meters st)) = round_bytes st"
    using st(4,5) by (simp add: enc store_def length_round_bytes)
  from nor_flash.writeRecords_refused [OF chip st(1-3) len st(6,8,7)] obtain f' where f':
    "writeRecords io (wIndex st) (round_bytes st) (ring st) = Some (False, (ring st)\<lparr>flash := f'\<rparr>)"
    "calm idle cap f'" "cells (chip f') = cells (chip (flash (ring st)))" by blast
  let ?st1 = "st\<lparr>wBuff := store (wBuff st) 0 (round_bytes st), ring := (ring st)\<lparr>flash := f'\<rparr>\<rparr>"
  have "meterToFlash io st = Some (True, after_write False (ucast (numMeter (cfg st))) ?st1)"
    using f'(1) buf enc by (simp add: meterToFlash_def Let_def writeMeterData_def)
  moreover have "astray cells idle cap ?st1"
    using a f'(2,3) st(4,5) length_round_bytes [of st] by (simp add: astray_def)
  ultimately show ?thesis by (intro exI [of _ ?st1]) simp
qed

lemma astray_counts:
  assumes "nor_flash io cells wel idle cap" and "astray cells idle cap st" and "fErrorCnt st + 1 < 3"
  shows "\<exists>st1. meterToFlash io st = Some (True, st1) \<and> astray cells idle cap st1 \<and>
    wIndex st1 = wIndex st \<and> fErrorCnt st1 = fErrorCnt st + 1 \<and> cfg st1 = cfg st"
proof -
  from astray_attempt [OF assms(1,2)] obtain st1 where
    st1: "meterToFlash io st = Some (True, after_write False (ucast (numMeter (cfg st))) st1)"
    "astray cells idle cap st1" "wIndex st1 = wIndex st" "fErrorCnt st1 = fErrorCnt st" "cfg st1 = cfg st" by blast
  have "after_write False (ucast (numMeter (cfg st))) st1 =
      (log_bit bit_spiflash True st1)\<lparr>fErrorCnt := fErrorCnt st + 1\<rparr>"
  proof -
    have "\<not> 3 \<le> fErrorCnt st + 1" using assms(3) by (simp only: not_le)
    then show ?thesis by (simp add: after_write_def Let_def st1(4))
  qed
  with st1 show ?thesis by (simp add: astray_def log_bit_def)
qed

lemma astray_third:
  assumes "nor_flash io cells wel idle cap" and "astray cells idle cap st" and "fErrorCnt st = 2"
  shows "\<exists>st1. meterToFlash io st = Some (True, st1) \<and> holds_queue cells idle cap [] st1 \<and>
    wIndex st1 = (wIndex st div 64 + 1) * 64 \<and> fErrorCnt st1 = 0 \<and> cfg st1 = cfg st"
proof -
  from astray_attempt [OF assms(1,2)] obtain st1 where
    st1: "meterToFlash io st = Some (True, after_write False (ucast (numMeter (cfg st))) st1)"
    "astray cells idle cap st1" "wIndex st1 = wIndex st" "fErrorCnt st1 = fErrorCnt st" "cfg st1 = cfg st" by blast
  let ?w = "(wIndex st1 div 64 + 1) * 64"
  let ?st2 = "setWIndex (setRIndex (log_bit bit_spiflash True st1\<lparr>fErrorCnt := 0, wIndex := ?w, rIndex := ?w\<rparr>))"
  have w: "unat ?w = (unat (wIndex st1) div 64 + 1) * 64"
  proof -
    have "(unat (wIndex st1) div 64 + 1) * 64 \<le> unat (wIndex st1) + 64" by simp
    also have "\<dots> < 2 ^ 32" using st1(2) by (simp add: astray_def)
    finally have lt: "(unat (wIndex st1) div 64 + 1) * 64 < 2 ^ 32" .
    then have "unat (wIndex st1 div 64 + 1) = unat (wIndex st1) div 64 + 1"
      by (subst unat_word_ariths) (simp add: unat_div)
    then show ?thesis using lt by (subst unat_word_ariths) simp
  qed
  have ring: "ring_holds m n (unat ?w * RECSIZE) (\<lambda>p. m (cell_of n p))" for m n
    unfolding w by (rule ring_holds_boundary) simp
  have "next_sector (RECSIZE * unat ?w) \<le> RECSIZE * unat ?w + (cap - 8192)"
    using next_sector_bounds [of "RECSIZE * unat ?w"] st1(2) unfolding astray_def by linarith
  then have "holds_queue cells idle cap [] ?st2"
    using ring st1(2) unfolding holds_queue_def
    by (auto simp: store_ok_def astray_def setWIndex_def setRIndex_def log_bit_def log_holds_def)
  moreover have "after_write False (ucast (numMeter (cfg st))) st1 = ?st2"
    using assms(3) st1(2,4) by (simp add: after_write_def Let_def astray_def log_bit_def)
  ultimately show ?thesis using st1 by (simp add: setWIndex_def setRIndex_def)
qed

section \<open>The guarantees\<close>

text \<open>
  Nothing is lost, reordered or sent twice. Along every run of the main loop in batch mode, with
  any meters on the bus and any answers of the server (failed requests and lost connections
  included), the bodies of the acknowledged requests one after the other, followed by the readings
  still in flash between the two indices, are the readings stored so far in the order they were
  taken.
\<close>

theorem run_delivers_in_order:
  assumes "nor_flash io cells wel idle cap" and "batch_mode (cfg st0)"
    and "holds_queue cells idle cap q0 st0" and "logger_run fp io cap st0 hist st"
  shows "\<exists>bs q. acked (posts st) = acked (posts st0) @ map (\<lambda>b. meter_batch st0 b 200) bs \<and>
    holds_queue cells idle cap q st \<and> concat bs @ q = q0 @ hist"
  using run_queue [OF assms] by (auto simp: in_order_def delivered_def)

text \<open>
  C3: A round of readings that is stored comes out of the next acknowledged batch as the JSON objects
  of exactly these readings: through the write buffer, the flash ring and the read buffer every
  number and time stamp keeps its value, and the queue is empty again.
\<close>

theorem stored_round_is_posted:
  assumes "nor_flash io cells wel idle cap" and "batch_mode (cfg st)" and "holds_queue cells idle cap [] st"
    and "0 < unat (numMeter (cfg st))" and "unat (numMeter (cfg st)) \<le> unat (batch (cfg st))"
    and "unat (wIndex st) + unat (numMeter (cfg st)) < 2 ^ 32"
  shows "\<exists>st1 st2. meterToFlash io st = Some (True, st1) \<and>
    ReadFlashMeterToPost_Task io True (st1\<lparr>http := 200 # codes\<rparr>) = Some st2 \<and>
    posts st2 = posts st @
      [\<lparr>post_url = post_target (batch_path (cfg st)) [] st,
        post_body = json_array (unat (numMeter (cfg st)))
          (\<lambda>i. meter_object (m_xid (cfgM (cfg st) ! i)) (md st ! i)),
        post_code = 200\<rparr>] \<and>
    holds_queue cells idle cap [] st2"
proof -
  let ?n = "unat (numMeter (cfg st))"
  have n: "?n \<le> MAXMETER" using assms(2) by (simp add: batch_mode_def)
  from assms(3) obtain log where "store_ok cells idle cap log st" and w: "wIndex st = rIndex st"
    by (auto simp: holds_queue_def word_unat_eq_iff)
  then have room: "next_sector (RECSIZE * (unat (wIndex st) + ?n)) \<le> RECSIZE * unat (rIndex st) + (cap - 8192)"
    using next_sector_bounds [of "RECSIZE * (unat (wIndex st) + ?n)"] n
    by (simp add: store_ok_def w)
  from round_is_appended [OF assms(1,3) n assms(6) room] obtain st1 where
    st1: "meterToFlash io st = Some (True, st1)" "holds_queue cells idle cap (round_readings st) st1"
    "cfg st1 = cfg st" "posts st1 = posts st" by auto
  let ?st1 = "st1\<lparr>http := 200 # codes\<rparr>"
  have q1: "holds_queue cells idle cap (round_readings st) ?st1" using st1(2) by simp
  have b: "0 < unat (batch (cfg ?st1))" "unat (batch (cfg ?st1)) \<le> MAXMETER"
    using assms(2) st1(3) by (simp_all add: batch_mode_def)
  have ne: "round_readings st \<noteq> []" using assms(4) by (metis length_round_readings less_irrefl list.size(3))
  have all: "batch_size ?st1 (length (round_readings st)) = length (round_readings st)"
    using assms(5) by (simp add: batch_size_def st1(3))
  have code: "next_code ?st1 = 200" by (simp add: next_code_def)
  have body: "batch_body (round_readings st) =
      json_array ?n (\<lambda>i. meter_object (m_xid (cfgM (cfg st) ! i)) (md st ! i))"
    by (auto simp: batch_body_def json_array_def round_readings_def intro!: arg_cong [where f = concat] map_cong)
  from batch_task_posts [OF assms(1) q1 b ne] obtain st2 where
    "ReadFlashMeterToPost_Task io True ?st1 = Some st2"
    "posts st2 = posts st @ [meter_batch ?st1 (round_readings st) 200]" "holds_queue cells idle cap [] st2"
    unfolding all code by (auto simp: st1(4))
  then show ?thesis
    using st1(1,3) body by (simp add: meter_batch_def post_target_def)
qed

text \<open>
  Once the server answers, the backlog is sent: as many post tasks as it takes at \<open>batch\<close>
  records each empty the queue, and nothing is left between the indices.
\<close>

theorem backlog_is_drained:
  assumes "nor_flash io cells wel idle cap" and "holds_queue cells idle cap q st" and "batch_mode (cfg st)"
    and "length q \<le> k * unat (batch (cfg st))" and "k \<le> length (http st)" and "\<forall>c \<in> set (http st). c = 200"
  shows "\<exists>st'. post_tasks io k st = Some st' \<and> holds_queue cells idle cap [] st' \<and>
    rIndex st' = wIndex st \<and> wIndex st' = wIndex st"
  using assms by (rule post_tasks_drain)


section \<open>A logger with one meter\<close>

definition demo_config :: config where
  "demo_config = \<lparr>cfg_type = 1, interval = 60, numMeter = 1, batch = 5, url = ''host'', token = ''t'',
     path = ''p'', batch_path = ''b'', batch_path_sensor = ''s'', log_use = 0,
     cfgM = [\<lparr>m_id = 1, m_xid = 7, m_type = 99, m_index = 0, m_adjust = [], m_table = []\<rparr>],
     cfgS = \<lparr>s_used = [0, 0], s_xid = [0, 0], s_adjust = []\<rparr>,
     cfgF = \<lparr>f_id = 0, f_xid = 0, f_adjust = []\<rparr>\<rparr>"

definition demo_logger :: "nor logger" where
  "demo_logger = \<lparr>cfg = demo_config, meter = idle_master, md = [no_data], flow = idle_master,
     fd = \<lparr>fd_mdt = 0, fd_inst_flux = 0, fd_ins_heat_flow = 0, fd_tm1 = 0, fd_tm2 = 0, fd_signal_ratio = 0,
       fd_reynolds = 0, fd_q_str = 0, fd_up_str = 0, fd_down_str = 0\<rparr>,
     line = dead_bus 0, ring = blank_meter, wBuff = replicate 1344 0, rBuff = replicate 1344 0,
     wIndex = 0, rIndex = 0, nvram = 0x55 # replicate 63 0, lastTime = 0, fErrorCnt = 0, errlog = 0,
     http = [200], posts = []\<rparr>"

lemma demo_ok:
  "holds_queue nor_cells nor_idle (2 * 1024 * 1024) [] demo_logger" "batch_mode (cfg demo_logger)"
  "has_room (2 * 1024 * 1024) demo_logger"
  using blank_meter_ok
  by (auto simp: holds_queue_def store_ok_def log_holds_def demo_logger_def demo_config_def batch_mode_def
      has_room_def next_sector_def blank_meter_def)

lemma demo_turn:
  "\<exists>st'. loop_tasks fp nor_chip sample 100 True (demo_logger\<lparr>line := dead_bus 0, http := [200]\<rparr>) = Some st' \<and>
     new_readings demo_logger st' = [(7, no_data)]"
proof -
  let ?st = "demo_logger\<lparr>line := dead_bus 0, http := [200]\<rparr>"
  let ?st1 = "log_bit bit_sensor False (?st\<lparr>line := (line ?st)\<lparr>outs := [Delay 50]\<rparr>\<rparr>)"
  have due: "fix_last_time 100 ?st = ?st" "read_due 100 ?st" "cfg_type (cfg ?st) = 1"
    by (simp_all add: fix_last_time_def read_due_def demo_logger_def demo_config_def word_sless_alt)
  have read: "read_meters fp 100 [0..<unat (numMeter (cfg ?st))] ?st = Some (True, ?st1)"
    by (simp add: demo_logger_def demo_config_def readMeterData_def meter_steps_def dead_bus_def)
  have q1: "holds_queue nor_cells nor_idle (2 * 1024 * 1024) [] ?st1"
    using demo_ok(1) by simp
  have r1: "round_readings ?st1 = [(7, no_data)]" "numMeter (cfg ?st1) = 1" "wIndex ?st1 = 0" "rIndex ?st1 = 0"
    "cfg ?st1 = demo_config"
    by (simp_all add: round_readings_def demo_logger_def demo_config_def)
  from round_is_appended [OF w25.nor_flash_axioms q1] r1 obtain st2 where
    st2: "meterToFlash nor_chip ?st1 = Some (True, st2)" "md st2 = md ?st1" "cfg st2 = demo_config" "wIndex st2 = 1"
    "holds_queue nor_cells nor_idle (2 * 1024 * 1024) [(7, no_data)] st2"
    by (auto simp: next_sector_def)
  let ?st3 = "st2\<lparr>lastTime := 100\<rparr>"
  have task: "ReadMeterToFlash_Task fp nor_chip 100 ?st = Some ?st3"
    by (simp only: ReadMeterToFlash_Task_def read option.case prod.case not_True_eq_False if_False st2(1) if_True)
  have "holds_queue nor_cells nor_idle (2 * 1024 * 1024) [(7, no_data)] ?st3" using st2(5) by simp
  from batch_task_posts [OF w25.nor_flash_axioms this] obtain st4 where
    st4: "ReadFlashMeterToPost_Task nor_chip True ?st3 = Some st4" "md st4 = md ?st1" "cfg st4 = demo_config"
    "wIndex st4 = 1"
    by (auto simp: st2(2-4) demo_config_def)
  have "post_due 100 ?st3" by (simp add: post_due_def st2(3) demo_config_def)
  then have "loop_tasks fp nor_chip sample 100 True ?st = Some st4"
    by (simp only: loop_tasks_def due Let_def if_True option.case task st4(1) simp_thms)
  moreover have "new_readings demo_logger st4 = round_readings ?st1"
    unfolding new_readings_def round_readings_def st4(2,3) r1(5)
    by (simp add: st4(4) demo_logger_def)
  ultimately show ?thesis using r1(1) by auto
qed

lemma run_delivers_in_order_witness:
  "\<exists>st. logger_run any_fpu nor_chip (2 * 1024 * 1024) demo_logger [(7, no_data)] st \<and>
     (\<exists>bs q. acked (posts st) = map (\<lambda>b. meter_batch demo_logger b 200) bs \<and>
       concat bs @ q = [(7, no_data)])"
proof -
  obtain st where st: "loop_tasks any_fpu nor_chip (\<lambda>_. 0) 100 True (demo_logger\<lparr>line := dead_bus 0, http := [200]\<rparr>) =
      Some st" "new_readings demo_logger st = [(7, no_data)]"
    using demo_turn by blast
  have "logger_run any_fpu nor_chip (2 * 1024 * 1024) demo_logger ([] @ new_readings demo_logger st) st"
    by (rule logger_run.turn [OF logger_run.start demo_ok(3) st(1)])
  then have run: "logger_run any_fpu nor_chip (2 * 1024 * 1024) demo_logger [(7, no_data)] st"
    by (simp add: st(2))
  have "acked (posts demo_logger) = []" by (simp add: demo_logger_def acked_def)
  with run_delivers_in_order [OF w25.nor_flash_axioms demo_ok(2,1) run] run show ?thesis by auto
qed

lemma stored_round_is_posted_witness:
  "\<exists>st1 st2. meterToFlash nor_chip demo_logger = Some (True, st1) \<and>
    ReadFlashMeterToPost_Task nor_chip True (st1\<lparr>http := [200]\<rparr>) = Some st2 \<and>
    posts st2 = [\<lparr>post_url = post_target ''b'' [] demo_logger,
      post_body = json_array 1 (\<lambda>i. meter_object 7 no_data), post_code = 200\<rparr>]"
proof -
  have "json_array 1 (\<lambda>i. meter_object (m_xid (cfgM demo_config ! i)) ([no_data] ! i)) =
      json_array 1 (\<lambda>i. meter_object 7 no_data)"
    by (simp add: json_array_def demo_config_def)
  then show ?thesis
    using stored_round_is_posted [OF w25.nor_flash_axioms demo_ok(2,1), of "[]"]
    by (auto simp: demo_logger_def demo_config_def)
qed

lemma backlog_is_drained_witness:
  "\<exists>st1 st'. meterToFlash nor_chip demo_logger = Some (True, st1) \<and> wIndex st1 = 1 \<and>
     post_tasks nor_chip 1 (st1\<lparr>http := [200]\<rparr>) = Some st' \<and> rIndex st' = 1"
proof -
  from round_is_appended [OF w25.nor_flash_axioms demo_ok(1)] obtain st1 where
    st1: "meterToFlash nor_chip demo_logger = Some (True, st1)" "wIndex st1 = 1" "cfg st1 = cfg demo_logger"
    "holds_queue nor_cells nor_idle (2 * 1024 * 1024) (round_readings demo_logger) st1"
    by (auto simp: demo_logger_def demo_config_def next_sector_def)
  have q: "holds_queue nor_cells nor_idle (2 * 1024 * 1024) (round_readings demo_logger) (st1\<lparr>http := [200]\<rparr>)"
    using st1(4) by simp
  have len: "length (round_readings demo_logger) = 1" by (simp add: demo_logger_def demo_config_def)
  from backlog_is_drained [OF w25.nor_flash_axioms q, of 1] st1 len demo_ok(2) show ?thesis
    by (auto simp: demo_logger_def demo_config_def)
qed



lemma checks_keep_indices_witness:
  "\<exists>t1 t2 st'. loop_checks 1000000 (Some (200, 2)) ''log'' 100 True
       (0, 0, demo_logger\<lparr>cfg := demo_config\<lparr>log_use := 1\<rparr>\<rparr>) = (True, t1, t2, st') \<and>
     wIndex st' = 0 \<and> indices_ok st'"
proof -
  let ?st = "demo_logger\<lparr>cfg := demo_config\<lparr>log_use := 1\<rparr>\<rparr>"
  have ok: "indices_ok ?st"
    by (simp add: indices_ok_def demo_logger_def load_def le32_def numeral_eq_Suc)
  obtain r t1 t2 st' where c: "loop_checks 1000000 (Some (200, 2)) ''log'' 100 True (0, 0, ?st) = (r, t1, t2, st')"
    by (metis prod_cases4)
  then have "r \<and> wIndex st' = 0"
    by (auto simp: loop_checks_def serverChkTask_def setWIndex_def setRIndex_def Let_def)
  with c checks_keep_indices [OF ok c] show ?thesis by auto
qed

end
