(* ===== verification/LoggerEdges.thy ===== *)
theory LoggerEdges
  imports ReadingQueue
begin

unbundle bit_operations_syntax

text \<open>
  Behaviours of \<open>main.cpp\<close> off the main path: sensor and flow records and back, requests for single
  records, logging without batches, writes that fail, and batches larger than the buffer.
\<close>

section \<open>Sensor and flow records\<close>

lemma load_append_left: "i + n \<le> length xs \<Longrightarrow> load (xs @ ys) i n = load xs i n"
  by (simp add: load_def)

lemma load_append_right: "length xs \<le> i \<Longrightarrow> load (xs @ ys) i n = load ys (i - length xs) n"
  by (simp add: load_def)

text \<open>A group of a sensor record, and what a request should say of it.\<close>

definition group_bytes :: "u8 \<Rightarrow> u32 \<Rightarrow> u32 \<Rightarrow> u32 list \<Rightarrow> u8 list" where
  "group_bytes used xid now vs = used # le32 xid @ le32 now @ concat (map le32 vs)"

definition sensor_keys :: "u8 \<Rightarrow> string list" where
  "sensor_keys used =
     (if used = 1 then [''tm1'', ''tm2'', ''ps1'', ''ps2''] else if used = 2 then [''rt'', ''hm'']
      else if used = 3 then [''co2''] else [''ps''])"

definition sensor_object :: "u8 \<Rightarrow> u32 \<Rightarrow> u32 \<Rightarrow> u32 list \<Rightarrow> tok list" where
  "sensor_object used xid now vs =
     [Lit (''{'' @ quoted ''external_sensor_id'' @ '':''), UInt xid, Lit '',''] @ time_field ''sdt'' now @
     value_fields (sensor_keys used) vs ''}''"

fun joined :: "tok list list \<Rightarrow> tok list" where
  "joined [] = []"
| "joined [x] = x"
| "joined (x # xs) = x @ [Lit '',''] @ joined xs"

lemma length_group_bytes [simp]: "length (group_bytes used xid now vs) = 9 + 4 * length vs"
  by (simp add: group_bytes_def)

lemma group_reads:
  fixes buf :: "u8 list"
  assumes buf: "buf = pre @ group_bytes used xid now vs @ post" and i: "i = length pre"
  shows "buf ! i = used" and "read32 buf (i + 1) = xid" and "read32 buf (i + 5) = now"
    and "\<And>j. j < length vs \<Longrightarrow> read32 buf (i + 9 + 4 * j) = vs ! j"
proof -
  show "buf ! i = used" by (simp add: buf i group_bytes_def)
  show "read32 buf (i + 1) = xid" by (simp add: buf i group_bytes_def read32_def load_def)
  show "read32 buf (i + 5) = now" by (simp add: buf i group_bytes_def read32_def load_def)
  fix j assume j: "j < length vs"
  define X where "X = pre @ used # le32 xid @ le32 now"
  have "length X = i + 9" "buf = X @ concat (map le32 vs) @ post"
    by (simp_all add: X_def buf i group_bytes_def)
  then have "drop (i + 9 + 4 * j) buf = drop (4 * j) (concat (map le32 vs) @ post)"
    by (metis add.commute append_eq_conv_conj drop_drop)
  then have "load buf (i + 9 + 4 * j) 4 = load (concat (map le32 vs) @ post) (4 * j) 4"
    by (simp add: load_def)
  then show "read32 buf (i + 9 + 4 * j) = vs ! j" using load_le32 [OF j] by (simp add: read32_def)
qed

lemma sensor_group_record:
  assumes "buf = pre @ group_bytes used xid now vs @ post" and "length vs = 4" and "used \<le> 4"
  shows "sensor_group buf (toks, cnt, length pre) =
    (if used = 0 then (toks, cnt, length pre + 25)
     else (toks @ (if 0 < cnt then [Lit '','']  else []) @ sensor_object used xid now vs, cnt + 1, length pre + 25))"
proof -
  note g = group_reads [OF assms(1) refl]
  have nf: "number_fields buf (length pre + 9) keys ''}'' = value_fields keys vs ''}''" if "length keys \<le> 4" for keys
    by (rule number_fields_values) (use g(4) that assms(2) in \<open>simp add: ac_simps\<close>)
  have "used = 0 \<or> used = 1 \<or> used = 2 \<or> used = 3 \<or> used = 4"
  proof -
    have "unat used \<le> 4" using assms(3) by (simp add: word_le_nat_alt)
    then have "unat used \<in> {0, 1, 2, 3, 4}" by auto
    then show ?thesis by (auto simp: word_unat_eq_iff)
  qed
  then show ?thesis
    using g(1-3) by (elim disjE) (simp_all add: sensor_group_def Let_def sensor_object_def sensor_keys_def nf)
qed

text \<open>What \<open>SensorToFlash\<close> lays down: two groups and zeros.\<close>

definition channel_bytes :: "(nat \<Rightarrow> u32) \<Rightarrow> u32 \<Rightarrow> configSensor \<Rightarrow> nat \<Rightarrow> u8 list" where
  "channel_bytes sample now c i =
     group_bytes (s_used c ! i) (s_xid c ! i) now (map (\<lambda>j. sample (4 * i + j)) [0..<4])"

definition sensor_record :: "(nat \<Rightarrow> u32) \<Rightarrow> u32 \<Rightarrow> configSensor \<Rightarrow> u8 list" where
  "sensor_record sample now c =
     channel_bytes sample now c 0 @ channel_bytes sample now c 1 @ replicate 14 0"

lemma length_channel_bytes [simp]: "length (channel_bytes sample now c i) = 25"
  by (simp add: channel_bytes_def)

lemma put_group:
  assumes "i + 25 \<le> length b"
  shows "for_upto 4 (\<lambda>j. put32 (f j)) (put32 now (put32 xid (put8 used (b, i)))) =
    (store b i (group_bytes used xid now (map f [0..<4])), i + 25)"
proof -
  have "for_upto 4 (\<lambda>j. put32 (f j)) bi = fold put32 (map f [0..<4]) bi" for bi
    by (simp add: numeral_eq_Suc)
  then have "for_upto 4 (\<lambda>j. put32 (f j)) (put32 now (put32 xid (put8 used (b, i)))) =
      fold put32 (xid # now # map f [0..<4]) (store b i [used], i + 1)"
    by (simp add: put8_def)
  also have "\<dots> = (store (store b i [used]) (i + length [used]) (concat (map le32 (xid # now # map f [0..<4]))), i + 25)"
    using assms by (subst fold_put32) simp_all
  also have "store (store b i [used]) (i + length [used]) (concat (map le32 (xid # now # map f [0..<4]))) =
      store b i ([used] @ concat (map le32 (xid # now # map f [0..<4])))"
    by (rule store_store) (use assms in \<open>simp add: length_concat_le32 del: map_map list.map\<close>)
  finally show ?thesis by (simp add: group_bytes_def)
qed

lemma encode_sensors_bytes:
  assumes "RECSIZE \<le> length (wBuff st)"
  shows "fst (encode_sensors sample now st) = store (wBuff st) 0 (sensor_record sample now (cfgS (cfg st)))"
proof -
  let ?c = "cfgS (cfg st)" and ?b = "wBuff st" and ?g = "channel_bytes sample now (cfgS (cfg st))"
  have put: "for_upto 4 (\<lambda>j. put32 (sample (4 * i + j))) (put32 now (put32 (s_xid ?c ! i) (put8 (s_used ?c ! i) (b, n)))) =
      (store b n (?g i), n + 25)" if "n + 25 \<le> length b" for i n b
    using put_group [OF that, of "\<lambda>j. sample (4 * i + j)"] by (simp add: channel_bytes_def)
  have s1: "store (store ?b 0 (?g 0)) (0 + 25) (?g 1) = store ?b 0 (?g 0 @ ?g 1)"
    using store_store [of 0 "?g 0" "?g 1" ?b] assms by simp
  have s2: "store (store ?b 0 (?g 0 @ ?g 1)) 50 (replicate 14 0) = store ?b 0 (sensor_record sample now ?c)"
    using store_store [of 0 "?g 0 @ ?g 1" "replicate 14 0" ?b] assms by (simp add: sensor_record_def)
  have "for_upto 2 (\<lambda>i bi. for_upto 4 (\<lambda>j. put32 (sample (4 * i + j)))
         (put32 now (put32 (s_xid ?c ! i) (put8 (s_used ?c ! i) bi)))) (?b, 0) = (store ?b 0 (?g 0 @ ?g 1), 50)"
    using put [of 0 ?b 0] put [of "0 + 25" "store ?b 0 (?g 0)" 1] s1 assms
    unfolding numeral_2_eq_2 for_upto.simps by simp
  moreover have "to_record_end 50 = 14" by (simp add: to_record_end_def)
  moreover have "for_upto 14 (\<lambda>k b. b[50 + k := 0]) (store ?b 0 (?g 0 @ ?g 1)) =
      store (store ?b 0 (?g 0 @ ?g 1)) 50 (replicate 14 0)"
    using assms by (intro for_upto_zeros) simp
  ultimately show ?thesis unfolding encode_sensors_def by (simp only: pad_zeros_def fst_conv snd_conv s2)
qed

lemma sensor_item_record:
  assumes "s_used c ! 0 \<le> 4" and "s_used c ! 1 \<le> 4"
  shows "sensor_item (pre @ sensor_record sample now c @ post) (length pre) =
    (joined (map (\<lambda>i. sensor_object (s_used c ! i) (s_xid c ! i) now (map (\<lambda>j. sample (4 * i + j)) [0..<4]))
        (filter (\<lambda>i. s_used c ! i \<noteq> 0) [0, 1])), length pre + 50)"
proof -
  let ?buf = "pre @ sensor_record sample now c @ post"
  let ?vs = "\<lambda>i. map (\<lambda>j. sample (4 * i + j)) [0..<4]"
  have b0: "?buf = pre @ group_bytes (s_used c ! 0) (s_xid c ! 0) now (?vs 0) @
      (channel_bytes sample now c 1 @ replicate 14 0 @ post)"
    by (simp add: sensor_record_def channel_bytes_def)
  have b1: "?buf = (pre @ channel_bytes sample now c 0) @
      group_bytes (s_used c ! 1) (s_xid c ! 1) now (?vs 1) @ (replicate 14 0 @ post)"
    by (simp add: sensor_record_def channel_bytes_def)
  have len: "length (?vs i) = 4" for i by simp
  have at: "length (pre @ channel_bytes sample now c 0) = length pre + 25" by simp
  note g0 = sensor_group_record [OF b0 len assms(1)]
  note g1 = sensor_group_record [OF b1 len assms(2), unfolded at]
  have "sensor_item ?buf (length pre) =
      (let (toks, cnt, index') = sensor_group ?buf (sensor_group ?buf ([], 0, length pre)) in (toks, index'))"
    unfolding sensor_item_def numeral_2_eq_2 by simp
  then show ?thesis
    by (cases "s_used c ! 0 = 0"; cases "s_used c ! 1 = 0") (simp_all add: g0 g1 del: upt_Suc)
qed

text \<open>A flow record.\<close>

definition flow_values :: "flowData \<Rightarrow> u32 list" where
  "flow_values d = [fd_inst_flux d, fd_ins_heat_flow d, fd_tm1 d, fd_tm2 d, fd_signal_ratio d,
     fd_reynolds d, fd_q_str d, fd_up_str d, fd_down_str d]"

definition flow_object :: "u32 \<Rightarrow> flowData \<Rightarrow> tok list" where
  "flow_object xid d =
     [Lit (''{'' @ quoted ''external_sensor_id'' @ '':'' @ [CHR 0x22]), UInt xid, Lit (CHR 0x22 # '','')] @
     time_field ''sdt'' (fd_mdt d) @ value_fields flow_keys (flow_values d) ''}''"

lemma flow_item_record:
  "flow_item (record_bytes (flow_words xid d) @ zs) 0 = (flow_object xid d, 44)"
proof -
  let ?buf = "record_bytes (flow_words xid d) @ zs"
  have r: "read32 ?buf (4 * j) = flow_words xid d ! j" if "j < 11" for j
    using read32_record [of 1 "\<lambda>_. flow_words xid d" 0 j zs] that by (simp add: flow_words_def)
  have "number_fields ?buf (0 + 8) flow_keys ''}'' = value_fields flow_keys (flow_values d) ''}''"
  proof (rule number_fields_values)
    fix j assume "j < length flow_keys"
    then have j: "j < 9" by (simp add: flow_keys_def)
    have "0 + 8 + 4 * j = 4 * (j + 2)" by simp
    moreover have "flow_words xid d ! (j + 2) = flow_values d ! j" by (simp add: flow_words_def flow_values_def)
    ultimately show "read32 ?buf (0 + 8 + 4 * j) = flow_values d ! j"
      using r [of "j + 2"] j by (simp only:)
  qed
  moreover have "read32 ?buf 0 = xid" "read32 ?buf 4 = fd_mdt d"
    using r [of 0] r [of 1] by (simp_all add: flow_words_def)
  ultimately show ?thesis by (simp add: flow_item_def flow_object_def)
qed

section \<open>One request for each record\<close>

lemma POST_next:
  "http st = c # cs \<Longrightarrow> POST target body st =
     (c, st\<lparr>http := cs, posts := posts st @ [\<lparr>post_url = target, post_body = body, post_code = c\<rparr>]\<rparr>)"
  by (simp add: POST_def)

lemma post_meters_until_failure:
  assumes "http st = replicate k 200 @ c # cs" and "c \<noteq> 200" and "k < n"
  shows "\<exists>st'. post_meters n i st = (False, st') \<and> http st' = cs \<and>
    length (posts st') = length (posts st) + k + 1 \<and> length (acked (posts st')) = length (acked (posts st)) + k"
  using assms
proof (induction k arbitrary: n i st)
  case 0
  then obtain m where "n = Suc m" by (cases n) auto
  with 0 show ?case by (simp add: POST_next Let_def acked_def)
next
  case (Suc k)
  then obtain m where m: "n = Suc m" by (cases n) auto
  have "http st = 200 # (replicate k 200 @ c # cs)" using Suc.prems(1) by simp
  note p = POST_next [OF this]
  let ?body = "Lit ''[{'' # time_field ''mdt'' (read32 (rBuff st) (i + 4)) @
    number_fields (rBuff st) (i + 8) meter_keys ''}]''"
  let ?target = "post_target (path (cfg st)) [UInt (read32 (rBuff st) i)] st"
  let ?st1 = "log_bit bit_server False (st\<lparr>http := replicate k 200 @ c # cs,
    posts := posts st @ [\<lparr>post_url = ?target, post_body = ?body, post_code = 200\<rparr>]\<rparr>)"
  have step: "post_meters n i st = post_meters m (i + 48 + to_record_end (i + 48)) ?st1"
    by (simp add: m p Let_def)
  have h: "http ?st1 = replicate k 200 @ c # cs" "length (posts ?st1) = length (posts st) + 1"
    "length (acked (posts ?st1)) = length (acked (posts st)) + 1"
    by (simp_all add: acked_def)
  from Suc.IH [OF h(1) Suc.prems(2), of m] Suc.prems(3) m show ?case
    unfolding step h(2,3) by simp
qed

lemma post_meters_all:
  assumes "http st = replicate n 200 @ cs"
  shows "\<exists>st'. post_meters n i st = (True, st') \<and> http st' = cs \<and>
    length (acked (posts st')) = length (acked (posts st)) + n"
  using assms
proof (induction n arbitrary: i st)
  case (Suc k)
  have "http st = 200 # (replicate k 200 @ cs)" using Suc.prems(1) by simp
  note p = POST_next [OF this]
  let ?body = "Lit ''[{'' # time_field ''mdt'' (read32 (rBuff st) (i + 4)) @
    number_fields (rBuff st) (i + 8) meter_keys ''}]''"
  let ?target = "post_target (path (cfg st)) [UInt (read32 (rBuff st) i)] st"
  let ?st1 = "log_bit bit_server False (st\<lparr>http := replicate k 200 @ cs,
    posts := posts st @ [\<lparr>post_url = ?target, post_body = ?body, post_code = 200\<rparr>]\<rparr>)"
  have step: "post_meters (Suc k) i st = post_meters k (i + 48 + to_record_end (i + 48)) ?st1"
    by (simp add: p Let_def)
  have h: "http ?st1 = replicate k 200 @ cs" "length (acked (posts ?st1)) = length (acked (posts st)) + 1"
    by (simp_all add: acked_def)
  from Suc.IH [OF h(1)] show ?case unfolding step h(2) by simp
qed simp

lemma readMeterRecord_other_index:
  "rIndex (st\<lparr>rBuff := b, ring := r\<rparr>) = rIndex st" "posts (st\<lparr>rBuff := b, ring := r\<rparr>) = posts st"
  "http (st\<lparr>rBuff := b, ring := r\<rparr>) = http st"
  by simp_all

text \<open>
  C18: Without batches delivery is at least once: when request \<open>k + 1\<close> of \<open>num\<close> fails, the \<open>k\<close> records
  before it have been acknowledged, but the read index stays where it was, so the next post task
  sends them again; only when all \<open>num\<close> requests are answered 200 does the index move past them.
\<close>

theorem single_posts_at_least_once:
  assumes "readMeterRecord io (rIndex st) (rBuff st) (of_nat RECSIZE * num) (ring st) = Some (True, buf, fm)"
    and "http st = replicate k 200 @ c # cs" and "c \<noteq> 200" and "k \<le> unat num"
  shows "\<exists>st'. flashMeterToPost io num st = Some st' \<and>
    length (acked (posts st')) = length (acked (posts st)) + k \<and>
    rIndex st' = (if k < unat num then rIndex st else rIndex st + num)"
proof -
  let ?st1 = "st\<lparr>rBuff := buf, ring := fm\<rparr>"
  have h: "http ?st1 = replicate k 200 @ c # cs" using assms(2) by simp
  note r = assms(1) [simplified]
  show ?thesis
  proof (cases "k < unat num")
    case True
    from post_meters_until_failure [OF h assms(3) True, of 0] obtain st2 where
      p: "post_meters (unat num) 0 ?st1 = (False, st2)"
      "length (acked (posts st2)) = length (acked (posts st)) + k" by auto
    have "rIndex st2 = rIndex st" using post_meters_same [OF p(1)] by (simp add: same_indices_def)
    with p True show ?thesis by (simp add: flashMeterToPost_def r)
  next
    case False
    with assms(4) have k: "k = unat num" by simp
    from post_meters_all [OF h, of 0] obtain st2 where
      p: "post_meters (unat num) 0 ?st1 = (True, st2)"
      "length (acked (posts st2)) = length (acked (posts st)) + k" unfolding k by auto
    have "rIndex st2 = rIndex st" using post_meters_same [OF p(1)] by (simp add: same_indices_def)
    with p False show ?thesis by (simp add: flashMeterToPost_def r)
  qed
qed

text \<open>
  C19: Analog sensors: of the record that \<open>SensorToFlash\<close> encodes, \<open>flashSensorToBatchPost\<close> makes one
  object for each channel group in use, with the keys of its type and the sampled values, and none
  for a group that is not used; the two agree on the layout for every configuration of known types.
\<close>

theorem sensor_record_round_trip:
  assumes "s_used (cfgS (cfg st)) ! 0 \<le> 4" and "s_used (cfgS (cfg st)) ! 1 \<le> 4"
    and "RECSIZE \<le> length (wBuff st)"
  shows "sensor_item (fst (encode_sensors sample now st)) 0 =
    (joined (map (\<lambda>i. sensor_object (s_used (cfgS (cfg st)) ! i) (s_xid (cfgS (cfg st)) ! i) now
          (map (\<lambda>j. sample (4 * i + j)) [0..<4]))
        (filter (\<lambda>i. s_used (cfgS (cfg st)) ! i \<noteq> 0) [0, 1])), 50)"
  using sensor_item_record [OF assms(1,2), of "[]" sample now "drop RECSIZE (wBuff st)"]
  by (simp only: encode_sensors_bytes [OF assms(3)] store_def) (simp add: sensor_record_def)

text \<open>
  A group of an unknown type breaks the decoder: the object is opened and never closed, and the
  next group is read from 16 bytes too early.
\<close>

theorem unknown_sensor_type_derails:
  assumes "buf = pre @ group_bytes used xid now vs @ post" and "4 < used"
  shows "sensor_group buf (toks, cnt, length pre) =
    (toks @ (if 0 < cnt then [Lit '','']  else []) @
      [Lit (''{'' @ quoted ''external_sensor_id'' @ '':''), UInt xid, Lit '',''] @ time_field ''sdt'' now,
     cnt + 1, length (pre @ group_bytes used xid now vs) - 4 * length vs)"
proof -
  note g = group_reads [OF assms(1) refl]
  have "unat used > 4" using assms(2) by (simp add: word_less_nat_alt)
  then have "used \<noteq> 0" "used \<noteq> 1" "used \<noteq> 2" "used \<noteq> 3" "used \<noteq> 4" by auto
  moreover have "1 \<le> used" using \<open>unat used > 4\<close> by (simp add: word_le_nat_alt)
  ultimately show ?thesis by (simp add: sensor_group_def Let_def g(1-3) [simplified])
qed

text \<open>
  The flow meter: the record that \<open>flowToFlash\<close> lays down is posted as an object with all nine
  measured values and the time stamp of the reading.
\<close>

theorem flow_record_round_trip:
  assumes "RECSIZE \<le> length buf"
  shows "flow_item (fst (pad_zeros (fold put32 (flow_words xid d) (buf, 0)))) 0 = (flow_object xid d, 44)"
proof -
  have "pad_zeros (fold put32 (flow_words xid d) (buf, 0)) =
      (store buf 0 (record_bytes (flow_words xid d)), 0 + RECSIZE)"
    by (rule encode_record) (use assms in \<open>simp_all add: flow_words_def\<close>)
  then show ?thesis
    using flow_item_record [of xid d "drop RECSIZE buf"] by (simp add: store_def flow_words_def)
qed

text \<open>
  Sensors and flow meters without batches are never posted: with \<open>batch = 0\<close> no turn of the main
  loop makes a request or moves the read index, whatever is stored.
\<close>

theorem no_batch_no_post:
  assumes "cfg_type (cfg st) = 2 \<or> cfg_type (cfg st) = 3" and "batch (cfg st) = 0"
    and "loop_tasks fp io sample now connected st = Some st'" and "fErrorCnt st < 2"
  shows "posts st' = posts st \<and> rIndex st' = rIndex st"
proof -
  have idle: "ReadFlashSensorToPost_Task io connected st1 = Some st1"
    "ReadFlashFlowToPost_Task io connected st1 = Some st1" if "batch (cfg st1) = 0" for st1 :: "'a logger"
    using that by (simp_all add: ReadFlashSensorToPost_Task_def ReadFlashFlowToPost_Task_def post_task_def
        flashSensorToPost_def flashFlowToPost_def Let_def)
  have "\<not> 3 \<le> fErrorCnt st + 1"
  proof -
    have "unat (fErrorCnt st + 1) < 3"
      using assms(4) by (simp add: word_less_nat_alt unat_word_ariths)
    then show ?thesis by (simp add: word_le_nat_alt)
  qed
  then have written: "posts (after_write ok n st1) = posts st1 \<and> rIndex (after_write ok n st1) = rIndex st1 \<and>
      cfg (after_write ok n st1) = cfg st1" if "fErrorCnt st1 = fErrorCnt st" for ok n and st1 :: "'a logger"
    using that by (auto simp: after_write_def Let_def setWIndex_def)
  let ?st = "fix_last_time now st"
  have fixed: "posts ?st = posts st" "rIndex ?st = rIndex st" "cfg ?st = cfg st" "fErrorCnt ?st = fErrorCnt st"
    by (simp_all add: fix_last_time_def)
  have sensor: "posts st1 = posts st \<and> rIndex st1 = rIndex st \<and> cfg st1 = cfg st"
    if "ReadSensorToFlash_Task io sample now ?st = Some st1" for st1
    using that fixed
    by (auto simp: ReadSensorToFlash_Task_def SensorToFlash_def Let_def written split: option.splits)
  have flow: "posts st1 = posts st \<and> rIndex st1 = rIndex st \<and> cfg st1 = cfg st"
    if "ReadFlowToFlash_Task fp io now ?st = Some st1" for st1
    using that fixed
    by (auto simp: ReadFlowToFlash_Task_def flowToFlash_def Let_def written split: option.splits if_splits)
  from assms(3) obtain st1 where
    st1: "st1 = ?st \<or> ReadSensorToFlash_Task io sample now ?st = Some st1 \<or> ReadFlowToFlash_Task fp io now ?st = Some st1"
    and st': "st' = st1 \<or> ReadFlashSensorToPost_Task io connected st1 = Some st' \<or>
      ReadFlashFlowToPost_Task io connected st1 = Some st'"
    using assms(1) fixed(3) by (auto simp: loop_tasks_def Let_def split: option.splits if_splits)
  have r: "posts st1 = posts st \<and> rIndex st1 = rIndex st \<and> cfg st1 = cfg st"
    using st1 sensor flow fixed by blast
  then have "st' = st1" using st' idle assms(2) by auto
  with r show ?thesis by simp
qed

text \<open>
  A batch of more than 21 records overruns the read buffer: with that many records waiting, the
  post task reads more bytes into \<open>rBuff\<close> than it has.
\<close>

theorem large_batch_overruns_buffer:
  assumes "nor_flash io cells wel idle cap" and "holds_queue cells idle cap q st"
    and "MAXMETER < unat (batch (cfg st))" and "unat (batch (cfg st)) \<le> length q"
  shows "\<exists>st'. ReadFlashMeterToPost_Task io True st = Some st' \<and>
    length (rBuff st) < RECSIZE * unat (batch (cfg st)) \<and> length (rBuff st') = RECSIZE * unat (batch (cfg st))"
proof -
  let ?m = "wIndex st - rIndex st" and ?b = "ucast (batch (cfg st)) :: u32"
  let ?n = "unat (batch (cfg st))" and ?r = "unat (rIndex st)"
  from assms(2) obtain log where log: "store_ok cells idle cap log st"
    and w: "unat (wIndex st) = ?r + length q"
    and live: "next_sector (RECSIZE * unat (wIndex st)) \<le> RECSIZE * ?r + (cap - 8192)"
    by (auto simp: holds_queue_def)
  have st: "ring_geometry cap (ring st)" "unat (recordSize (ring st)) = RECSIZE"
    "calm idle cap (flash (ring st))" "length (rBuff st) = RECSIZE * MAXMETER"
    "ring_holds (cells (chip (flash (ring st)))) (cap - 8192) (unat (wIndex st) * RECSIZE) log"
    using log by (simp_all add: store_ok_def)
  have m: "unat ?m = length q" using w by (simp add: unat_sub word_le_nat_alt)
  have "0 < length q" using assms(3,4) by linarith
  then have lt: "rIndex st < wIndex st" using w by (simp add: word_less_nat_alt)
  have nz: "batch (cfg st) \<noteq> 0" using assms(3) by auto
  have num: "(if ?b < ?m then ?b else ?m) = ?b"
    using assms(4) by (auto simp: word_less_nat_alt m word_unat_eq_iff)
  have n: "?n < 256" using unsigned_less [of "batch (cfg st)", where ?'a = nat] by simp
  have bytes: "of_nat RECSIZE * ?b = of_nat (?n * RECSIZE)"
    by (simp add: word_unat_eq_iff unat_word_ariths unat_of_nat mult.commute)
  have "\<exists>f'. readRecords io (rIndex st) (rBuff st) (of_nat (?n * RECSIZE)) (ring st) = Some (True,
        store (rBuff st) 0 (map (\<lambda>k. log (?r * RECSIZE + k)) [0..<?n * RECSIZE]), (ring st)\<lparr>flash := f'\<rparr>) \<and>
      calm idle cap f' \<and> cells (chip f') = cells (chip (flash (ring st)))"
    by (rule nor_flash.readRecords_stream [OF assms(1) st(1,3,5), of "?n * RECSIZE" ?n "rIndex st" "rBuff st",
      unfolded st(2)]) (use n w live assms(4) in \<open>simp_all add: mult.commute\<close>)
  then obtain f' where f': "readMeterRecord io (rIndex st) (rBuff st) (of_nat RECSIZE * ?b) (ring st) = Some (True,
      store (rBuff st) 0 (map (\<lambda>k. log (?r * RECSIZE + k)) [0..<?n * RECSIZE]), (ring st)\<lparr>flash := f'\<rparr>)"
    unfolding bytes readMeterRecord_def by blast
  have len: "length (store (rBuff st) 0 (map g [0..<?n * RECSIZE])) = RECSIZE * ?n" for g
    using assms(3) st(4) by (simp add: store_def)
  have rb: "rBuff (batch_post p body k st1) = rBuff st1" for p body k and st1 :: "'a logger"
    by (simp add: batch_post_def POST_def advance_read_def setRIndex_def log_bit_def case_prod_beta Let_def)
  have task: "ReadFlashMeterToPost_Task io True st = flashMeterToBatchPost io ?b st"
    unfolding ReadFlashMeterToPost_Task_def post_task_def Let_def num using lt nz by simp
  show ?thesis
    unfolding task flashMeterToBatchPost_def f' using assms(3) st(4) by (simp add: rb len del: upt_Suc)
qed

section \<open>On the logger with one meter\<close>

lemma demo_stored:
  "\<exists>st1. meterToFlash nor_chip demo_logger = Some (True, st1) \<and> rIndex st1 = 0 \<and>
     holds_queue nor_cells nor_idle (2 * 1024 * 1024) (round_readings demo_logger) st1"
proof -
  from round_is_appended [OF w25.nor_flash_axioms demo_ok(1)] obtain st1 where
    st1: "meterToFlash nor_chip demo_logger = Some (True, st1)" "wIndex st1 = 1"
    "holds_queue nor_cells nor_idle (2 * 1024 * 1024) (round_readings demo_logger) st1"
    by (auto simp: demo_logger_def demo_config_def next_sector_def)
  then have "unat (rIndex st1) = 0"
    by (simp add: holds_queue_def) (simp add: demo_logger_def demo_config_def)
  with st1 show ?thesis by (auto simp: unat_eq_zero)
qed

lemma single_posts_at_least_once_witness:
  "\<exists>st1 st2 st3. meterToFlash nor_chip demo_logger = Some (True, st1) \<and>
     flashMeterToPost nor_chip 1 (st1\<lparr>http := [500]\<rparr>) = Some st2 \<and> rIndex st2 = 0 \<and>
     flashMeterToPost nor_chip 1 (st1\<lparr>http := [200, 500]\<rparr>) = Some st3 \<and> rIndex st3 = 1"
proof -
  obtain st1 where st1: "meterToFlash nor_chip demo_logger = Some (True, st1)" "rIndex st1 = 0"
    "holds_queue nor_cells nor_idle (2 * 1024 * 1024) (round_readings demo_logger) st1"
    using demo_stored by blast
  have "unat (1 :: u32) \<le> length (round_readings demo_logger)" by (simp add: demo_logger_def demo_config_def)
  from batch_is_read [OF w25.nor_flash_axioms st1(3) this] obtain buf fm where
    r: "readMeterRecord nor_chip (rIndex st1) (rBuff st1) (of_nat RECSIZE * 1) (ring st1) = Some (True, buf, fm)"
    by auto
  have r': "readMeterRecord nor_chip (rIndex (st1\<lparr>http := h\<rparr>)) (rBuff (st1\<lparr>http := h\<rparr>)) (of_nat RECSIZE * 1)
      (ring (st1\<lparr>http := h\<rparr>)) = Some (True, buf, fm)" for h
    using r by simp
  show ?thesis
    using single_posts_at_least_once [OF r', of "[500]" 0 500 "[]"]
      single_posts_at_least_once [OF r', of "[200, 500]" 1 500 "[]"] st1(1,2)
    by auto
qed

lemma sensor_record_round_trip_witness:
  "sensor_item (fst (encode_sensors of_nat 9
      (demo_logger\<lparr>cfg := demo_config\<lparr>cfgS := \<lparr>s_used = [0, 2], s_xid = [5, 6], s_adjust = []\<rparr>\<rparr>\<rparr>))) 0 =
   (sensor_object 2 6 9 [4, 5, 6, 7], 50)"
proof -
  have "map (\<lambda>j. of_nat (4 * 1 + j)) [0..<4] = [4, 5, 6, 7 :: u32]" by (simp add: upt_rec)
  then show ?thesis
    by (subst sensor_record_round_trip) (simp_all add: demo_logger_def demo_config_def)
qed

lemma unknown_sensor_type_derails_witness:
  "snd (snd (sensor_group (group_bytes 9 1 2 [3, 4, 5, 6]) ([], 0, 0))) = 9"
  using unknown_sensor_type_derails [of "group_bytes 9 1 2 [3, 4, 5, 6]" "[]" 9 1 2 "[3, 4, 5, 6]" "[]" "[]" 0]
  by simp

lemma flow_record_round_trip_witness:
  "flow_item (fst (pad_zeros (fold put32 (flow_words 3 (fd demo_logger)) (replicate 64 0, 0)))) 0 =
     (flow_object 3 (fd demo_logger), 44)"
  by (rule flow_record_round_trip) simp

lemma no_batch_no_post_witness:
  "\<exists>st'. loop_tasks any_fpu nor_chip (\<lambda>_. 0) 10 True
       (demo_logger\<lparr>cfg := demo_config\<lparr>cfg_type := 2, batch := 0\<rparr>, wIndex := 3\<rparr>) = Some st' \<and>
     posts st' = [] \<and> rIndex st' = 0"
proof -
  let ?st = "demo_logger\<lparr>cfg := demo_config\<lparr>cfg_type := 2, batch := 0\<rparr>, wIndex := 3\<rparr>"
  have "loop_tasks any_fpu nor_chip (\<lambda>_. 0) 10 True ?st = Some ?st"
    by (simp add: loop_tasks_def fix_last_time_def read_due_def post_due_def demo_logger_def demo_config_def
        ReadFlashSensorToPost_Task_def post_task_def flashSensorToPost_def Let_def word_sless_alt)
  from no_batch_no_post [OF _ _ this] this show ?thesis by (auto simp: demo_logger_def demo_config_def)
qed

definition full_logger :: "nor logger" where
  "full_logger = demo_logger\<lparr>md := replicate 21 no_data, cfg := demo_config\<lparr>numMeter := 21, batch := 22,
     cfgM := replicate 21 \<lparr>m_id = 1, m_xid = 7, m_type = 99, m_index = 0, m_adjust = [], m_table = []\<rparr>\<rparr>\<rparr>"

lemma full_ok: "holds_queue nor_cells nor_idle (2 * 1024 * 1024) [] full_logger"
  using demo_ok(1) by (auto simp: holds_queue_def store_ok_def full_logger_def)

lemma large_batch_overruns_buffer_witness:
  "\<exists>st1 st2 st3. meterToFlash nor_chip full_logger = Some (True, st1) \<and> meterToFlash nor_chip st1 = Some (True, st2) \<and>
     ReadFlashMeterToPost_Task nor_chip True st2 = Some st3 \<and> length (rBuff st2) < 1408 \<and> length (rBuff st3) = 1408"
proof -
  have full: "numMeter (cfg full_logger) = 21" "wIndex full_logger = 0" "rIndex full_logger = 0"
    by (simp_all add: full_logger_def demo_logger_def)
  from round_is_appended [OF w25.nor_flash_axioms full_ok] full obtain st1 where
    st1: "meterToFlash nor_chip full_logger = Some (True, st1)" "cfg st1 = cfg full_logger" "wIndex st1 = 21"
    "holds_queue nor_cells nor_idle (2 * 1024 * 1024) (round_readings full_logger) st1"
    by (auto simp: next_sector_def)
  have len: "length (round_readings st) = 21" if "cfg st = cfg full_logger" for st :: "nor logger"
    using that by (simp add: full)
  have "unat (rIndex st1) = 0" using st1(3,4) len [of full_logger] by (simp add: holds_queue_def full)
  then have "rIndex st1 = 0" by (simp add: unat_eq_zero)
  with round_is_appended [OF w25.nor_flash_axioms st1(4)] st1(2,3) full obtain st2 where
    st2: "meterToFlash nor_chip st1 = Some (True, st2)" "cfg st2 = cfg full_logger"
    "holds_queue nor_cells nor_idle (2 * 1024 * 1024) (round_readings full_logger @ round_readings st1) st2"
    by (auto simp: next_sector_def)
  have "batch (cfg st2) = 22" by (simp add: st2(2) full_logger_def)
  then show ?thesis
    using large_batch_overruns_buffer [OF w25.nor_flash_axioms st2(3)] st1(1) st2(1) len [of full_logger] len [OF st1(2)]
    by auto
qed

end
