(* ===== verification/SdCrc.thy ===== *)
theory SdCrc
  imports Prelude
begin

unbundle bit_operations_syntax

text \<open>
  \<open>sd_diskio_crc.c\<close>: the table-driven checksums of the SD card protocol, CRC-7 for commands and
  CRC-16 for data blocks. \<open>char\<close> is unsigned on the Xtensa processor. The lemmas show that the
  tables are those of the two polynomials, so that both functions compute the bit-serial checksums,
  that the index into the tables is always in range, and what a receiver sees of an intact frame.
\<close>

section \<open>The code\<close>

definition m_CRC7Table :: "u8 list" where
  "m_CRC7Table =
    [0x00, 0x09, 0x12, 0x1B, 0x24, 0x2D, 0x36, 0x3F, 0x48, 0x41, 0x5A, 0x53, 0x6C, 0x65, 0x7E, 0x77,
     0x19, 0x10, 0x0B, 0x02, 0x3D, 0x34, 0x2F, 0x26, 0x51, 0x58, 0x43, 0x4A, 0x75, 0x7C, 0x67, 0x6E,
     0x32, 0x3B, 0x20, 0x29, 0x16, 0x1F, 0x04, 0x0D, 0x7A, 0x73, 0x68, 0x61, 0x5E, 0x57, 0x4C, 0x45,
     0x2B, 0x22, 0x39, 0x30, 0x0F, 0x06, 0x1D, 0x14, 0x63, 0x6A, 0x71, 0x78, 0x47, 0x4E, 0x55, 0x5C,
     0x64, 0x6D, 0x76, 0x7F, 0x40, 0x49, 0x52, 0x5B, 0x2C, 0x25, 0x3E, 0x37, 0x08, 0x01, 0x1A, 0x13,
     0x7D, 0x74, 0x6F, 0x66, 0x59, 0x50, 0x4B, 0x42, 0x35, 0x3C, 0x27, 0x2E, 0x11, 0x18, 0x03, 0x0A,
     0x56, 0x5F, 0x44, 0x4D, 0x72, 0x7B, 0x60, 0x69, 0x1E, 0x17, 0x0C, 0x05, 0x3A, 0x33, 0x28, 0x21,
     0x4F, 0x46, 0x5D, 0x54, 0x6B, 0x62, 0x79, 0x70, 0x07, 0x0E, 0x15, 0x1C, 0x23, 0x2A, 0x31, 0x38,
     0x41, 0x48, 0x53, 0x5A, 0x65, 0x6C, 0x77, 0x7E, 0x09, 0x00, 0x1B, 0x12, 0x2D, 0x24, 0x3F, 0x36,
     0x58, 0x51, 0x4A, 0x43, 0x7C, 0x75, 0x6E, 0x67, 0x10, 0x19, 0x02, 0x0B, 0x34, 0x3D, 0x26, 0x2F,
     0x73, 0x7A, 0x61, 0x68, 0x57, 0x5E, 0x45, 0x4C, 0x3B, 0x32, 0x29, 0x20, 0x1F, 0x16, 0x0D, 0x04,
     0x6A, 0x63, 0x78, 0x71, 0x4E, 0x47, 0x5C, 0x55, 0x22, 0x2B, 0x30, 0x39, 0x06, 0x0F, 0x14, 0x1D,
     0x25, 0x2C, 0x37, 0x3E, 0x01, 0x08, 0x13, 0x1A, 0x6D, 0x64, 0x7F, 0x76, 0x49, 0x40, 0x5B, 0x52,
     0x3C, 0x35, 0x2E, 0x27, 0x18, 0x11, 0x0A, 0x03, 0x74, 0x7D, 0x66, 0x6F, 0x50, 0x59, 0x42, 0x4B,
     0x17, 0x1E, 0x05, 0x0C, 0x33, 0x3A, 0x21, 0x28, 0x5F, 0x56, 0x4D, 0x44, 0x7B, 0x72, 0x69, 0x60,
     0x0E, 0x07, 0x1C, 0x15, 0x2A, 0x23, 0x38, 0x31, 0x46, 0x4F, 0x54, 0x5D, 0x62, 0x6B, 0x70, 0x79]"

definition CRC7_step :: "u8 \<Rightarrow> u8 \<Rightarrow> u8" where
  "CRC7_step crc d = m_CRC7Table ! unat (push_bit 1 (ucast crc :: u32) XOR ucast d)"

definition CRC7 :: "u8 list \<Rightarrow> u8" where
  "CRC7 data = foldl CRC7_step 0 data"

definition m_CRC16Table :: "u16 list" where
  "m_CRC16Table =
    [0x0000, 0x1021, 0x2042, 0x3063, 0x4084, 0x50A5, 0x60C6, 0x70E7,
     0x8108, 0x9129, 0xA14A, 0xB16B, 0xC18C, 0xD1AD, 0xE1CE, 0xF1EF,
     0x1231, 0x0210, 0x3273, 0x2252, 0x52B5, 0x4294, 0x72F7, 0x62D6,
     0x9339, 0x8318, 0xB37B, 0xA35A, 0xD3BD, 0xC39C, 0xF3FF, 0xE3DE,
     0x2462, 0x3443, 0x0420, 0x1401, 0x64E6, 0x74C7, 0x44A4, 0x5485,
     0xA56A, 0xB54B, 0x8528, 0x9509, 0xE5EE, 0xF5CF, 0xC5AC, 0xD58D,
     0x3653, 0x2672, 0x1611, 0x0630, 0x76D7, 0x66F6, 0x5695, 0x46B4,
     0xB75B, 0xA77A, 0x9719, 0x8738, 0xF7DF, 0xE7FE, 0xD79D, 0xC7BC,
     0x48C4, 0x58E5, 0x6886, 0x78A7, 0x0840, 0x1861, 0x2802, 0x3823,
     0xC9CC, 0xD9ED, 0xE98E, 0xF9AF, 0x8948, 0x9969, 0xA90A, 0xB92B,
     0x5AF5, 0x4AD4, 0x7AB7, 0x6A96, 0x1A71, 0x0A50, 0x3A33, 0x2A12,
     0xDBFD, 0xCBDC, 0xFBBF, 0xEB9E, 0x9B79, 0x8B58, 0xBB3B, 0xAB1A,
     0x6CA6, 0x7C87, 0x4CE4, 0x5CC5, 0x2C22, 0x3C03, 0x0C60, 0x1C41,
     0xEDAE, 0xFD8F, 0xCDEC, 0xDDCD, 0xAD2A, 0xBD0B, 0x8D68, 0x9D49,
     0x7E97, 0x6EB6, 0x5ED5, 0x4EF4, 0x3E13, 0x2E32, 0x1E51, 0x0E70,
     0xFF9F, 0xEFBE, 0xDFDD, 0xCFFC, 0xBF1B, 0xAF3A, 0x9F59, 0x8F78,
     0x9188, 0x81A9, 0xB1CA, 0xA1EB, 0xD10C, 0xC12D, 0xF14E, 0xE16F,
     0x1080, 0x00A1, 0x30C2, 0x20E3, 0x5004, 0x4025, 0x7046, 0x6067,
     0x83B9, 0x9398, 0xA3FB, 0xB3DA, 0xC33D, 0xD31C, 0xE37F, 0xF35E,
     0x02B1, 0x1290, 0x22F3, 0x32D2, 0x4235, 0x5214, 0x6277, 0x7256,
     0xB5EA, 0xA5CB, 0x95A8, 0x8589, 0xF56E, 0xE54F, 0xD52C, 0xC50D,
     0x34E2, 0x24C3, 0x14A0, 0x0481, 0x7466, 0x6447, 0x5424, 0x4405,
     0xA7DB, 0xB7FA, 0x8799, 0x97B8, 0xE75F, 0xF77E, 0xC71D, 0xD73C,
     0x26D3, 0x36F2, 0x0691, 0x16B0, 0x6657, 0x7676, 0x4615, 0x5634,
     0xD94C, 0xC96D, 0xF90E, 0xE92F, 0x99C8, 0x89E9, 0xB98A, 0xA9AB,
     0x5844, 0x4865, 0x7806, 0x6827, 0x18C0, 0x08E1, 0x3882, 0x28A3,
     0xCB7D, 0xDB5C, 0xEB3F, 0xFB1E, 0x8BF9, 0x9BD8, 0xABBB, 0xBB9A,
     0x4A75, 0x5A54, 0x6A37, 0x7A16, 0x0AF1, 0x1AD0, 0x2AB3, 0x3A92,
     0xFD2E, 0xED0F, 0xDD6C, 0xCD4D, 0xBDAA, 0xAD8B, 0x9DE8, 0x8DC9,
     0x7C26, 0x6C07, 0x5C64, 0x4C45, 0x3CA2, 0x2C83, 0x1CE0, 0x0CC1,
     0xEF1F, 0xFF3E, 0xCF5D, 0xDF7C, 0xAF9B, 0xBFBA, 0x8FD9, 0x9FF8,
     0x6E17, 0x7E36, 0x4E55, 0x5E74, 0x2E93, 0x3EB2, 0x0ED1, 0x1EF0]"

definition CRC16_step :: "u16 \<Rightarrow> u8 \<Rightarrow> u16" where
  "CRC16_step crc d =
     push_bit 8 crc XOR m_CRC16Table ! unat ((drop_bit 8 crc XOR ucast d) AND 0x00FF)"

definition CRC16 :: "u8 list \<Rightarrow> u16" where
  "CRC16 data = foldl CRC16_step 0 data"

section \<open>The bit-serial checksums\<close>

text \<open>One bit of polynomial division, the register at the top of the word.\<close>

definition crc7_bit :: "u8 \<Rightarrow> u8" where
  "crc7_bit r = (if bit r 7 then push_bit 1 r XOR 0x12 else push_bit 1 r)"

definition crc16_bit :: "u16 \<Rightarrow> u16" where
  "crc16_bit r = (if bit r 15 then push_bit 1 r XOR 0x1021 else push_bit 1 r)"

definition crc7_serial :: "u8 \<Rightarrow> u8 \<Rightarrow> u8" where
  "crc7_serial r d = (crc7_bit ^^ 8) (r XOR d)"

definition crc16_serial :: "u16 \<Rightarrow> u8 \<Rightarrow> u16" where
  "crc16_serial r d = (crc16_bit ^^ 8) (r XOR push_bit 8 (ucast d))"

text \<open>Each half of a table follows from the half of its index by one bit.\<close>

definition doubled :: "('a \<Rightarrow> 'a) \<Rightarrow> ('a \<Rightarrow> 'a) \<Rightarrow> 'a list \<Rightarrow> 'a list" where
  "doubled f g ts = concat (map (\<lambda>t. [f t, g (f t)]) ts)"

lemma length_doubled [simp]: "length (doubled f g ts) = 2 * length ts"
  by (induction ts) (simp_all add: doubled_def)

lemma nth_doubled:
  "i < length ts \<Longrightarrow> doubled f g ts ! (2 * i) = f (ts ! i) \<and> doubled f g ts ! (2 * i + 1) = g (f (ts ! i))"
proof (induction ts arbitrary: i)
  case (Cons t ts)
  then show ?case by (cases i) (simp_all add: doubled_def)
qed simp

lemma doubled_append: "doubled f g (xs @ ys) = doubled f g xs @ doubled f g ys"
  by (simp add: doubled_def)

lemma crc16_table_doubled:
  "doubled crc16_bit (\<lambda>t. t XOR 0x1021) (take 128 m_CRC16Table) = m_CRC16Table"
  unfolding m_CRC16Table_def doubled_def by (simp add: crc16_bit_def)

lemma crc7_table_doubled:
  "doubled (\<lambda>t. drop_bit 1 (crc7_bit (push_bit 1 t))) (\<lambda>t. t XOR 9) (take 128 m_CRC7Table) = m_CRC7Table"
  unfolding m_CRC7Table_def doubled_def by (simp add: crc7_bit_def)

text \<open>Numbers below 256 as bytes, by halving.\<close>

lemma below_256_induct [consumes 1, case_names zero even odd]:
  fixes n :: nat
  assumes "n < 256" and "P 0"
    and "\<And>i. i < 128 \<Longrightarrow> P i \<Longrightarrow> P (2 * i)" and "\<And>i. i < 128 \<Longrightarrow> P i \<Longrightarrow> P (2 * i + 1)"
  shows "P n"
  using assms(1)
proof (induction n rule: less_induct)
  case (less n)
  show ?case
  proof (cases "n = 0")
    case False
    then have "P (n div 2)" using less by simp
    moreover have "n div 2 < 128" using less.prems by simp
    moreover have "n = 2 * (n div 2) \<or> n = 2 * (n div 2) + 1" by presburger
    ultimately show ?thesis using assms(3,4) by metis
  qed (simp add: assms(2))
qed

lemma length_tables [simp]: "length m_CRC16Table = 256" "length m_CRC7Table = 256"
  by (simp_all add: m_CRC16Table_def m_CRC7Table_def)

lemma bit_push_bit_u16: "bit (push_bit k (r :: u16)) n \<longleftrightarrow> k \<le> n \<and> n < 16 \<and> bit r (n - k)"
  by (auto simp: bit_push_bit_iff dest: bit_imp_le_length)

lemma bit_crc16_bit:
  "bit (crc16_bit r) n \<longleftrightarrow> (1 \<le> n \<and> n < 16 \<and> bit r (n - 1)) \<noteq> (bit r 15 \<and> bit (0x1021 :: u16) n)"
  by (cases "bit r 15")
    (simp_all only: crc16_bit_def bit_xor_iff bit_push_bit_u16 if_True if_False simp_thms)

lemma crc16_bit_xor: "crc16_bit (a XOR b) = crc16_bit a XOR crc16_bit b"
  by (rule bit_word_eqI) (auto simp only: bit_crc16_bit bit_xor_iff)

lemma crc16_bits_xor: "(crc16_bit ^^ k) (a XOR b) = (crc16_bit ^^ k) a XOR (crc16_bit ^^ k) b"
  by (induction k) (simp_all add: crc16_bit_xor)

lemma crc16_bit_plain: "\<not> bit r 15 \<Longrightarrow> crc16_bit r = push_bit 1 r"
  by (simp only: crc16_bit_def if_False)

lemma of_nat_top: "i < 128 \<Longrightarrow> \<not> bit (of_nat i :: u16) 7"
  by (simp only: bit_of_nat_iff) (simp add: bit_iff_odd)

lemma index_even:
  assumes "i < 128"
  shows "push_bit 8 (of_nat (2 * i)) = crc16_bit (push_bit 8 (of_nat i) :: u16)"
proof -
  have "\<not> bit (push_bit 8 (of_nat i) :: u16) 15"
    using of_nat_top [OF assms] by (simp only: bit_push_bit_u16) simp
  then show ?thesis by (simp add: crc16_bit_plain push_bit_eq_mult)
qed

lemma index_odd:
  assumes "i < 128"
  shows "push_bit 8 (of_nat (2 * i + 1)) = crc16_bit (push_bit 8 (of_nat i) :: u16) XOR push_bit 8 1"
proof -
  have "of_nat (2 * i + 1) = (of_nat (2 * i) XOR 1 :: u16)" by (simp add: xor_one_eq)
  then show ?thesis by (simp only: push_bit_xor index_even [OF assms])
qed

lemma crc16_table:
  assumes "i < 256"
  shows "m_CRC16Table ! i = (crc16_bit ^^ 8) (push_bit 8 (of_nat i))"
  using assms
proof (induction i rule: below_256_induct)
  case zero
  then show ?case by code_simp
next
  case (even i)
  have d: "m_CRC16Table ! (2 * i) = crc16_bit (m_CRC16Table ! i)"
    using nth_doubled [of i "take 128 m_CRC16Table" crc16_bit "\<lambda>t. t XOR 0x1021"] even(1)
    unfolding crc16_table_doubled by simp
  show ?case unfolding d even(2) index_even [OF even(1)] by (rule funpow_swap1)
next
  case (odd i)
  have d: "m_CRC16Table ! (2 * i + 1) = crc16_bit (m_CRC16Table ! i) XOR 0x1021"
    using nth_doubled [of i "take 128 m_CRC16Table" crc16_bit "\<lambda>t. t XOR 0x1021"] odd(1)
    unfolding crc16_table_doubled by simp
  have one: "(crc16_bit ^^ 8) (push_bit 8 1) = 0x1021" by code_simp
  show ?case unfolding d odd(2) index_odd [OF odd(1)] crc16_bits_xor one by (simp only: funpow_swap1)
qed

section \<open>The tables of CRC-7\<close>

lemma bit_push_bit_u8: "bit (push_bit k (r :: u8)) n \<longleftrightarrow> k \<le> n \<and> n < 8 \<and> bit r (n - k)"
  by (auto simp: bit_push_bit_iff dest: bit_imp_le_length)

lemma bit_crc7_bit:
  "bit (crc7_bit r) n \<longleftrightarrow> (1 \<le> n \<and> n < 8 \<and> bit r (n - 1)) \<noteq> (bit r 7 \<and> bit (0x12 :: u8) n)"
  by (cases "bit r 7")
    (simp_all only: crc7_bit_def bit_xor_iff bit_push_bit_u8 if_True if_False simp_thms)

lemma crc7_bit_xor: "crc7_bit (a XOR b) = crc7_bit a XOR crc7_bit b"
  by (rule bit_word_eqI) (auto simp only: bit_crc7_bit bit_xor_iff)

lemma crc7_bits_xor: "(crc7_bit ^^ k) (a XOR b) = (crc7_bit ^^ k) a XOR (crc7_bit ^^ k) b"
  by (induction k) (simp_all add: crc7_bit_xor)

lemma crc7_bit_even: "\<not> bit (crc7_bit r) 0"
  by (simp only: bit_crc7_bit) simp

lemma crc7_bits_even: "\<not> bit ((crc7_bit ^^ 8) r) 0"
  using crc7_bit_even [of "(crc7_bit ^^ 7) r"] by (simp add: numeral_eq_Suc)

lemma push_drop_even: "\<not> bit r 0 \<Longrightarrow> push_bit 1 (drop_bit 1 r) = r" for r :: u8
proof (rule bit_word_eqI)
  fix n
  assume "\<not> bit r 0" and "n < LENGTH(8)"
  then show "bit (push_bit 1 (drop_bit 1 r)) n \<longleftrightarrow> bit r n"
    by (cases n) (simp_all only: bit_push_bit_u8 bit_drop_bit_eq comp_apply, simp_all)
qed

lemma index7_even:
  assumes "i < 128"
  shows "of_nat (2 * i) = crc7_bit (of_nat i :: u8)"
proof -
  have "\<not> bit (of_nat i :: u8) 7" using assms by (simp only: bit_of_nat_iff) (simp add: bit_iff_odd)
  then have "crc7_bit (of_nat i) = push_bit 1 (of_nat i :: u8)" by (simp only: crc7_bit_def if_False)
  then show ?thesis by (simp add: push_bit_eq_mult)
qed

lemma index7_odd: "i < 128 \<Longrightarrow> of_nat (2 * i + 1) = crc7_bit (of_nat i :: u8) XOR 1"
  by (simp only: index7_even [symmetric]) (simp add: xor_one_eq)

lemma crc7_table:
  assumes "i < 256"
  shows "m_CRC7Table ! i = drop_bit 1 ((crc7_bit ^^ 8) (of_nat i))"
  using assms
proof (induction i rule: below_256_induct)
  case zero
  then show ?case by code_simp
next
  case (even i)
  have d: "m_CRC7Table ! (2 * i) = drop_bit 1 (crc7_bit (push_bit 1 (m_CRC7Table ! i)))"
    using nth_doubled [of i "take 128 m_CRC7Table" "\<lambda>t. drop_bit 1 (crc7_bit (push_bit 1 t))" "\<lambda>t. t XOR 9"] even(1)
    unfolding crc7_table_doubled by simp
  show ?case
    unfolding d even(2) index7_even [OF even(1)] push_drop_even [OF crc7_bits_even] by (simp only: funpow_swap1)
next
  case (odd i)
  have d: "m_CRC7Table ! (2 * i + 1) = drop_bit 1 (crc7_bit (push_bit 1 (m_CRC7Table ! i))) XOR 9"
    using nth_doubled [of i "take 128 m_CRC7Table" "\<lambda>t. drop_bit 1 (crc7_bit (push_bit 1 t))" "\<lambda>t. t XOR 9"] odd(1)
    unfolding crc7_table_doubled by simp
  have one: "drop_bit 1 ((crc7_bit ^^ 8) 1) = 9" by code_simp
  show ?case
    unfolding d odd(2) index7_odd [OF odd(1)] push_drop_even [OF crc7_bits_even] crc7_bits_xor drop_bit_xor one
    by (simp only: funpow_swap1)
qed

section \<open>The functions compute the bit-serial checksums\<close>

lemma unat_byte: "unat (ucast b :: u32) = unat b" for b :: u8
  by transfer (simp add: take_bit_eq_mod)

text \<open>The promotion to \<open>int\<close> loses nothing.\<close>

lemma widen_shift:
  fixes crc :: u8
  assumes "\<not> bit crc 7"
  shows "push_bit 1 (ucast crc :: u32) = ucast (push_bit 1 crc)"
proof (rule bit_word_eqI)
  fix n
  assume "n < LENGTH(32)"
  then have n: "n < 32" by simp
  have low: "m < 7" if "bit crc m" for m
    using bit_imp_le_length [OF that] assms that by (cases "m = 7") simp_all
  have "bit (push_bit 1 (ucast crc :: u32)) n \<longleftrightarrow> 1 \<le> n \<and> bit crc (n - 1)"
    using n by (simp only: bit_push_bit_iff bit_ucast_iff possible_bit_word) auto
  also have "\<dots> \<longleftrightarrow> bit (push_bit 1 crc) n"
    using low [of "n - 1"] by (simp only: bit_push_bit_u8) auto
  finally show "bit (push_bit 1 (ucast crc :: u32)) n \<longleftrightarrow> bit (ucast (push_bit 1 crc) :: u32) n"
    using n by (simp only: bit_ucast_iff possible_bit_word) simp
qed

lemma ucast_xor: "ucast a XOR ucast b = (ucast (a XOR b) :: u32)" for a b :: u8
  by (rule bit_word_eqI) (auto simp: bit_simps)

lemma CRC7_step_serial:
  assumes "\<not> bit crc 7"
  shows "push_bit 1 (CRC7_step crc d) = crc7_serial (push_bit 1 crc) d" and "\<not> bit (CRC7_step crc d) 7"
proof -
  let ?x = "push_bit 1 crc XOR d"
  have "push_bit 1 (ucast crc :: u32) XOR ucast d = ucast ?x"
    by (simp only: widen_shift [OF assms] ucast_xor)
  then have "unat (push_bit 1 (ucast crc :: u32) XOR ucast d) = unat ?x"
    by (simp only: unat_byte)
  then have "CRC7_step crc d = drop_bit 1 ((crc7_bit ^^ 8) ?x)"
    using crc7_table [of "unat ?x"] unsigned_less [of ?x, where ?'a = nat] by (simp add: CRC7_step_def)
  then show "push_bit 1 (CRC7_step crc d) = crc7_serial (push_bit 1 crc) d" "\<not> bit (CRC7_step crc d) 7"
    by (simp_all only: push_drop_even [OF crc7_bits_even] crc7_serial_def bit_drop_bit_eq comp_apply)
      (auto dest: bit_imp_le_length)
qed

lemma crc16_bits_low:
  assumes "\<And>n. bit r n \<Longrightarrow> n < 8"
  shows "k \<le> 8 \<Longrightarrow> (crc16_bit ^^ k) r = push_bit k r"
proof (induction k)
  case (Suc k)
  then have IH: "(crc16_bit ^^ k) r = push_bit k r" by simp
  have "\<not> bit r (15 - k)" using assms [of "15 - k"] Suc.prems by auto
  then have "\<not> bit (push_bit k r) 15" by (simp only: bit_push_bit_u16) simp
  then have "crc16_bit (push_bit k r) = push_bit 1 (push_bit k r)" by (rule crc16_bit_plain)
  then show ?case by (simp only: funpow.simps comp_apply IH push_bit_push_bit) simp
qed simp

lemma CRC16_step_serial: "CRC16_step crc d = crc16_serial crc d"
proof -
  define hi where "hi = drop_bit 8 crc XOR ucast d"
  define lo where "lo = crc AND 0xFF"
  have mask: "(0xFF :: u16) = mask 8" by (simp add: mask_eq_exp_minus_1)
  have hi8: "bit hi n \<Longrightarrow> n < 8" for n
    by (auto simp: hi_def bit_simps dest: bit_imp_le_length)
  have and_hi: "hi AND 0x00FF = hi"
    unfolding mask by (rule bit_word_eqI) (auto simp: bit_simps dest: hi8)
  have lo8: "bit lo n \<Longrightarrow> n < 8" for n by (auto simp: lo_def mask bit_simps)
  have "take_bit 8 hi = hi" by (rule bit_word_eqI) (auto simp: bit_simps dest: hi8)
  then have "unat hi = take_bit 8 (unat hi)" by (metis unsigned_take_bit_eq)
  then have "unat hi < 256" using take_bit_nat_less_exp [of 8 "unat hi"] by simp
  then have t: "m_CRC16Table ! unat hi = (crc16_bit ^^ 8) (push_bit 8 hi)" by (simp add: crc16_table)
  have split: "crc XOR push_bit 8 (ucast d) = push_bit 8 hi XOR lo"
    unfolding hi_def lo_def mask by (rule bit_word_eqI) (auto simp: bit_simps)
  have "push_bit 8 lo = push_bit 8 crc"
    unfolding lo_def mask by (rule bit_word_eqI) (auto simp: bit_simps)
  then have low: "(crc16_bit ^^ 8) lo = push_bit 8 crc"
    using crc16_bits_low [of lo 8, OF lo8] by simp
  show ?thesis
    unfolding CRC16_step_def crc16_serial_def hi_def [symmetric] and_hi t split crc16_bits_xor low
    by (simp add: xor.commute)
qed

lemma CRC16_append: "CRC16 (xs @ ys) = foldl CRC16_step (CRC16 xs) ys"
  by (simp add: CRC16_def)

lemma CRC7_append: "CRC7 (xs @ ys) = foldl CRC7_step (CRC7 xs) ys"
  by (simp add: CRC7_def)

lemma CRC7_invariant: "push_bit 1 (CRC7 data) = foldl crc7_serial 0 data \<and> \<not> bit (CRC7 data) 7"
proof (induction data rule: rev_induct)
  case Nil
  show ?case by (simp add: CRC7_def)
next
  case (snoc d data)
  then have low: "\<not> bit (CRC7 data) 7" and eq: "push_bit 1 (CRC7 data) = foldl crc7_serial 0 data" by simp_all
  show ?case
    using CRC7_step_serial [OF low, of d] unfolding eq by (simp add: CRC7_append)
qed

text \<open>
  C22: The table-driven CRC-16 of the SD card protocol is the bit-serial division by
  x^16 + x^12 + x^5 + 1, for every block; and a block followed by its own CRC, high byte first,
  leaves the register at 0.
\<close>

theorem CRC16_is_bit_serial:
  "CRC16 data = foldl crc16_serial 0 data \<and> CRC16 (data @ [highByte (CRC16 data), lowByte (CRC16 data)]) = 0"
proof -
  have serial: "CRC16 xs = foldl crc16_serial 0 xs" for xs
    by (induction xs rule: rev_induct) (simp_all add: CRC16_append CRC16_step_serial, simp add: CRC16_def)
  have mask: "(0xFF :: u16) = mask 8" by (simp add: mask_eq_exp_minus_1)
  have T0: "m_CRC16Table ! 0 = 0" by (simp add: m_CRC16Table_def)
  have "(drop_bit 8 c XOR ucast (highByte c)) AND 0x00FF = 0" for c
    unfolding mask by (rule bit_word_eqI) (auto simp: bit_simps bit_highByte add.commute)
  then have step: "CRC16_step c (highByte c) = push_bit 8 c" for c
    by (simp add: CRC16_step_def T0)
  have "(drop_bit 8 (push_bit 8 c) XOR ucast (lowByte c)) AND 0x00FF = 0" for c :: u16
    unfolding mask by (rule bit_word_eqI) (auto simp: bit_simps bit_lowByte dest: bit_imp_le_length)
  moreover have "push_bit 8 (push_bit 8 c) = 0" for c :: u16
    by (rule bit_word_eqI) (auto simp: bit_simps dest: bit_imp_le_length)
  ultimately have "CRC16_step (push_bit 8 c) (lowByte c) = 0" for c
    by (simp only: CRC16_step_def unsigned_0 T0 xor.right_neutral)
  then have "CRC16 (data @ [highByte (CRC16 data), lowByte (CRC16 data)]) = 0"
    by (simp add: CRC16_append step)
  with serial show ?thesis by blast
qed

text \<open>
  The table-driven CRC-7 of the SD card commands is the bit-serial division by x^7 + x^3 + 1
  with the register in the upper seven bits, for every message, although \<open>char\<close> has eight bits: the
  register never exceeds 127, so the index stays inside the table. A command followed by its CRC and
  the end bit leaves 9.
\<close>

theorem CRC7_is_bit_serial:
  "push_bit 1 (CRC7 data) = foldl crc7_serial 0 data \<and> CRC7 data < 128 \<and>
   CRC7 (data @ [push_bit 1 (CRC7 data) OR 1]) = 9"
proof -
  let ?c = "CRC7 data"
  have inv: "push_bit 1 ?c = foldl crc7_serial 0 data" "\<not> bit ?c 7" using CRC7_invariant by auto
  have "take_bit 7 ?c = ?c"
  proof (rule bit_word_eqI)
    fix n assume "n < LENGTH(8)"
    then show "bit (take_bit 7 ?c) n \<longleftrightarrow> bit ?c n" using inv(2) by (cases "n = 7") (auto simp: bit_take_bit_iff)
  qed
  then have "unat ?c = take_bit 7 (unat ?c)" by (metis unsigned_take_bit_eq)
  then have lt: "?c < 128" using take_bit_nat_less_exp [of 7 "unat ?c"] by (simp add: word_less_nat_alt)
  have "push_bit 1 ?c XOR (push_bit 1 ?c OR 1) = 1"
    by (rule bit_word_eqI) (simp only: bit_xor_iff bit_or_iff bit_push_bit_u8 bit_1_iff, auto)
  then have "push_bit 1 (ucast ?c :: u32) XOR ucast (push_bit 1 ?c OR 1) = 1"
    by (simp only: widen_shift [OF inv(2)] ucast_xor) simp
  then have "CRC7_step ?c (push_bit 1 ?c OR 1) = 9" by (simp add: CRC7_step_def m_CRC7Table_def)
  with inv(1) lt show ?thesis by (simp add: CRC7_append)
qed

end
