(* ===== verification/Base64.thy ===== *)
theory Base64
  imports Prelude
begin

unbundle bit_operations_syntax

text \<open>
  \<open>libb64\<close>: the streaming Base64 encoder and decoder (\<open>cencode.c\<close>, \<open>cdecode.c\<close>). Both are written
  as a \<open>switch\<close> into the middle of a loop: the step says where to go on, so each is a transducer
  that takes one character at a time. The encoder gives the list of the characters it writes. The decoder keeps
  its partial byte in the output buffer, so it works on that buffer and a position.

  The array \<open>decoding\<close> of the decoder is read one element past its end for one character, so what
  lies there is an argument \<open>beyond\<close>.
\<close>

section \<open>The encoder\<close>

datatype base64_encodestep = step_A | step_B | step_C

record base64_encodestate =
  enc_step :: base64_encodestep
  enc_result :: u8
  stepcount :: nat

abbreviation (input) CHARS_PER_LINE :: nat where "CHARS_PER_LINE \<equiv> 72"

definition base64_init_encodestate :: base64_encodestate where
  "base64_init_encodestate = \<lparr>enc_step = step_A, enc_result = 0, stepcount = 0\<rparr>"

definition encoding :: "u8 list" where
  "encoding = map of_char ''ABCDEFGHIJKLMNOPQRSTUVWXYZabcdefghijklmnopqrstuvwxyz0123456789+/''"

definition base64_encode_value :: "u8 \<Rightarrow> u8" where
  "base64_encode_value v = (if 63 < v then of_char (CHR ''='') else encoding ! unat v)"

text \<open>One character of \<open>base64_encode_block\<close>: what is written, and the state after it.\<close>

definition encode_char :: "u8 \<Rightarrow> base64_encodestate \<Rightarrow> u8 list \<times> base64_encodestate" where
  "encode_char fragment s =
     (case enc_step s of
        step_A \<Rightarrow>
          ([base64_encode_value (drop_bit 2 (fragment AND 0xFC))],
           s\<lparr>enc_step := step_B, enc_result := push_bit 4 (fragment AND 0x03)\<rparr>)
      | step_B \<Rightarrow>
          ([base64_encode_value (enc_result s OR drop_bit 4 (fragment AND 0xF0))],
           s\<lparr>enc_step := step_C, enc_result := push_bit 2 (fragment AND 0x0F)\<rparr>)
      | step_C \<Rightarrow>
          let line = (Suc (stepcount s) = CHARS_PER_LINE div 4)
          in ([base64_encode_value (enc_result s OR drop_bit 6 (fragment AND 0xC0)),
               base64_encode_value (fragment AND 0x3F)] @ (if line then [10] else []),
              s\<lparr>enc_step := step_A, enc_result := fragment AND 0x3F,
                stepcount := (if line then 0 else Suc (stepcount s))\<rparr>))"

fun base64_encode_block :: "u8 list \<Rightarrow> base64_encodestate \<Rightarrow> u8 list \<times> base64_encodestate" where
  "base64_encode_block [] s = ([], s)"
| "base64_encode_block (c # cs) s =
     (let (out, s1) = encode_char c s; (outs, s2) = base64_encode_block cs s1 in (out @ outs, s2))"

definition base64_encode_blockend :: "base64_encodestate \<Rightarrow> u8 list" where
  "base64_encode_blockend s =
     (case enc_step s of
        step_B \<Rightarrow> [base64_encode_value (enc_result s), of_char (CHR ''=''), of_char (CHR ''='')]
      | step_C \<Rightarrow> [base64_encode_value (enc_result s), of_char (CHR ''='')]
      | step_A \<Rightarrow> [])"

definition base64_encode_chars :: "u8 list \<Rightarrow> u8 list" where
  "base64_encode_chars plaintext =
     (let (out, s) = base64_encode_block plaintext base64_init_encodestate
      in out @ base64_encode_blockend s)"

text \<open>\<open>base64::encode\<close> of \<open>base64.cpp\<close>: the buffer has \<open>length * 1.6f + 1\<close> bytes, with the product cut off to
  a whole number (below a million bytes the rounding of the \<open>float\<close> does not reach the next one). The result is
  the text, or \<open>None\<close> when the code and its terminator are longer than the buffer.\<close>

definition encode_size :: "nat \<Rightarrow> nat" where
  "encode_size n = n * 8 div 5 + 1"

definition base64_encode :: "bool \<Rightarrow> u8 list \<Rightarrow> u8 list option" where
  "base64_encode allocated data =
     (if allocated
      then let code = base64_encode_chars data
           in if length code + 1 \<le> encode_size (length data) then Some code else None
      else Some (map of_char ''-FAIL-''))"

section \<open>The decoder\<close>

definition decoding :: "int list" where
  "decoding = [62,-1,-1,-1,63,52,53,54,55,56,57,58,59,60,61,-1,-1,-1,-2,-1,-1,-1,0,1,2,3,4,5,6,7,8,9,10,
     11,12,13,14,15,16,17,18,19,20,21,22,23,24,25,-1,-1,-1,-1,-1,-1,26,27,28,29,30,31,32,33,34,35,36,37,
     38,39,40,41,42,43,44,45,46,47,48,49,50,51]"

text \<open>\<open>value_in -= 43\<close> wraps in \<open>int8_t\<close>.\<close>

definition base64_decode_value :: "int \<Rightarrow> u8 \<Rightarrow> int" where
  "base64_decode_value beyond value_in =
     (let v = sint (value_in - 43)
      in if v < 0 \<or> int (length decoding) < v then -1
         else if v = int (length decoding) then beyond
         else decoding ! nat v)"

datatype base64_decodestep = step_a | step_b | step_c | step_d

record base64_decodestate =
  dec_step :: base64_decodestep
  plainchar :: u8

definition base64_init_decodestate :: base64_decodestate where
  "base64_init_decodestate = \<lparr>dec_step = step_a, plainchar = 0\<rparr>"

text \<open>
  One character of \<open>base64_decode_block\<close>, on the step, the output buffer and the position of
  \<open>plainchar\<close> in it; characters of negative value are skipped.
\<close>

definition put_or :: "nat \<Rightarrow> u8 \<Rightarrow> u8 list \<Rightarrow> u8 list" where
  "put_or pos v out = out[pos := out ! pos OR v]"

definition decode_char ::
    "int \<Rightarrow> u8 \<Rightarrow> base64_decodestep \<times> u8 list \<times> nat \<Rightarrow> base64_decodestep \<times> u8 list \<times> nat" where
  "decode_char beyond c s =
     (let v = base64_decode_value beyond c; fragment = of_int v :: u8
      in if fragment <s 0 then s
         else case s of
           (step_a, out, pos) \<Rightarrow> (step_b, out[pos := push_bit 2 (fragment AND 0x3F)], pos)
         | (step_b, out, pos) \<Rightarrow>
             (step_c, (put_or pos (drop_bit 4 (fragment AND 0x30)) out)[Suc pos := push_bit 4 (fragment AND 0x0F)],
              Suc pos)
         | (step_c, out, pos) \<Rightarrow>
             (step_d, (put_or pos (drop_bit 2 (fragment AND 0x3C)) out)[Suc pos := push_bit 6 (fragment AND 0x03)],
              Suc pos)
         | (step_d, out, pos) \<Rightarrow> (step_a, put_or pos (fragment AND 0x3F) out, Suc pos))"

text \<open>The length written, the buffer and the state that the function returns.\<close>

definition base64_decode_block ::
    "int \<Rightarrow> u8 list \<Rightarrow> u8 list \<Rightarrow> base64_decodestate \<Rightarrow> nat \<times> u8 list \<times> base64_decodestate" where
  "base64_decode_block beyond code out s =
     (let (step, out1, pos) = fold (decode_char beyond) code (dec_step s, out[0 := plainchar s], 0)
      in (pos, out1, \<lparr>dec_step = step, plainchar = out1 ! pos\<rparr>))"

definition base64_decode_chars :: "int \<Rightarrow> u8 list \<Rightarrow> u8 list \<Rightarrow> nat \<times> u8 list" where
  "base64_decode_chars beyond code out =
     (let (len, out1, _) = base64_decode_block beyond code out base64_init_decodestate
      in (len, if 0 < len then out1[len := 0] else out1))"

section \<open>Single characters\<close>

lemma encoding_codes:
  "encoding =
    [65, 66, 67, 68, 69, 70, 71, 72, 73, 74, 75, 76, 77, 78, 79, 80, 81, 82, 83, 84, 85, 86, 87, 88, 89, 90,
     97, 98, 99, 100, 101, 102, 103, 104, 105, 106, 107, 108, 109, 110, 111, 112, 113, 114, 115, 116, 117, 118, 119, 120, 121, 122,
     48, 49, 50, 51, 52, 53, 54, 55, 56, 57, 43, 47]"
  by (simp add: encoding_def)

lemma decode_encoding: "map (base64_decode_value b) encoding = map int [0..<64]"
  unfolding encoding_codes by (simp add: base64_decode_value_def decoding_def upt_rec)

lemma equals_sign: "of_char (CHR ''='') = (61 :: u8)"
  by simp

lemma skipped: "base64_decode_value b 10 = -1" "base64_decode_value b 61 = -2"
  by (simp_all add: base64_decode_value_def decoding_def)

lemma byte_eqI: "(\<And>n. n \<in> {0, 1, 2, 3, 4, 5, 6, 7} \<Longrightarrow> bit a n \<longleftrightarrow> bit b n) \<Longrightarrow> a = b" for a b :: u8
  by (rule bit_word_eqI) (simp add: less_Suc_eq numeral_eq_Suc)

lemma sextetI:
  fixes v :: u8
  assumes "\<not> bit v 6" and "\<not> bit v 7"
  shows "v < 64"
proof -
  have "take_bit 6 v = v"
    by (rule byte_eqI, elim insertE emptyE) (use assms in \<open>simp_all add: bit_take_bit_iff\<close>)
  then have "unat v = take_bit 6 (unat v)" by (metis unsigned_take_bit_eq)
  then show ?thesis using take_bit_nat_less_exp [of 6 "unat v"] by (simp add: word_less_nat_alt)
qed

lemma sextet:
  "drop_bit 2 (c AND 0xFC) < (64 :: u8)"
  "push_bit 4 (c AND 0x03) OR drop_bit 4 (d AND 0xF0) < (64 :: u8)"
  "push_bit 2 (c AND 0x0F) OR drop_bit 6 (d AND 0xC0) < (64 :: u8)"
  "push_bit 4 (c AND 0x03) < (64 :: u8)" "push_bit 2 (c AND 0x0F) < (64 :: u8)"
  "c AND 0x3F < (64 :: u8)" for c d :: u8
  by (rule sextetI; simp add: bit_simps)+

lemma regroup:
  fixes c d :: u8
  shows "push_bit 2 (drop_bit 2 (c AND 0xFC) AND 0x3F) = c AND 0xFC"
    and "(c AND 0xFC) OR drop_bit 4 ((push_bit 4 (c AND 0x03) OR drop_bit 4 (d AND 0xF0)) AND 0x30) = c"
    and "push_bit 4 ((push_bit 4 (c AND 0x03) OR drop_bit 4 (d AND 0xF0)) AND 0x0F) = d AND 0xF0"
    and "(c AND 0xF0) OR drop_bit 2 ((push_bit 2 (c AND 0x0F) OR drop_bit 6 (d AND 0xC0)) AND 0x3C) = c"
    and "push_bit 6 ((push_bit 2 (c AND 0x0F) OR drop_bit 6 (d AND 0xC0)) AND 0x03) = d AND 0xC0"
    and "(c AND 0xC0) OR ((c AND 0x3F) AND 0x3F) = c"
    and "(c AND 0xFC) OR drop_bit 4 (push_bit 4 (c AND 0x03) AND 0x30) = c"
    and "(c AND 0xF0) OR drop_bit 2 (push_bit 2 (c AND 0x0F) AND 0x3C) = c"
    and "push_bit 2 (drop_bit 2 c) AND 252 = c AND 252" and "c AND 192 OR c AND 63 = c"
  by (rule byte_eqI, elim insertE emptyE; simp add: bit_simps)+

lemma decode_encode_value:
  assumes "v < (64 :: u8)"
  shows "base64_decode_value b (base64_encode_value v) = uint v"
proof -
  have v: "unat v < 64" using assms by (simp add: word_less_nat_alt)
  have "length encoding = 64" by (simp add: encoding_codes)
  then have "base64_decode_value b (encoding ! unat v) = int (unat v)"
    using arg_cong [OF decode_encoding [of b], of "\<lambda>xs. xs ! unat v"] v by simp
  moreover have "\<not> 63 < v" using v by (simp add: word_less_nat_alt)
  ultimately show ?thesis by (simp add: base64_encode_value_def)
qed

lemma decode_sextet:
  assumes "v < (64 :: u8)"
  shows "decode_char b (base64_encode_value v) (st, out, pos) =
    (case st of
       step_a \<Rightarrow> (step_b, out[pos := push_bit 2 (v AND 0x3F)], pos)
     | step_b \<Rightarrow> (step_c, (put_or pos (drop_bit 4 (v AND 0x30)) out)[Suc pos := push_bit 4 (v AND 0x0F)], Suc pos)
     | step_c \<Rightarrow> (step_d, (put_or pos (drop_bit 2 (v AND 0x3C)) out)[Suc pos := push_bit 6 (v AND 0x03)], Suc pos)
     | step_d \<Rightarrow> (step_a, put_or pos (v AND 0x3F) out, Suc pos))"
proof -
  have "\<not> v <s 0"
  proof -
    have "uint v < 64" using assms by (simp add: word_less_def)
    moreover have "- 128 \<le> uint v" using uint_ge_0 [of v] by linarith
    ultimately have "sint v = uint v"
      unfolding sint_uint by (intro signed_take_bit_int_eq_self) simp_all
    then show ?thesis by (simp add: word_sless_alt)
  qed
  then show ?thesis
    by (simp add: decode_char_def decode_encode_value [OF assms] Let_def split: base64_decodestep.split)
qed

lemma decode_newline [simp]: "decode_char b 10 s = s" "decode_char b 61 s = s"
  by (simp_all add: decode_char_def skipped word_sless_alt)

section \<open>Decoding follows encoding\<close>

text \<open>The decoder has seen the code of \<open>xs\<close>, and \<open>s\<close> is where the encoder stands.\<close>

fun in_step :: "u8 list \<Rightarrow> base64_encodestate \<Rightarrow> base64_decodestep \<times> u8 list \<times> nat \<Rightarrow> bool" where
  "in_step xs s (st, out, pos) \<longleftrightarrow>
     (case enc_step s of
        step_A \<Rightarrow> st = step_a \<and> pos = length xs \<and> take pos out = xs
      | step_B \<Rightarrow> st = step_b \<and> (\<exists>ys c. xs = ys @ [c] \<and> pos = length ys \<and> take pos out = ys \<and>
          out ! pos = c AND 0xFC \<and> enc_result s = push_bit 4 (c AND 0x03))
      | step_C \<Rightarrow> st = step_c \<and> (\<exists>ys c. xs = ys @ [c] \<and> pos = length ys \<and> take pos out = ys \<and>
          out ! pos = c AND 0xF0 \<and> enc_result s = push_bit 2 (c AND 0x0F)))"

abbreviation (input) decode_all where
  "decode_all b cs d \<equiv> fold (decode_char b) cs d"

definition room :: "nat \<Rightarrow> base64_decodestep \<times> u8 list \<times> nat \<Rightarrow> bool" where
  "room n d \<longleftrightarrow> length (fst (snd d)) = n"

lemma put_or_simps [simp]: "length (put_or pos v out) = length out"
  by (simp add: put_or_def)

lemma take_put_or: "pos < length out \<Longrightarrow>
    take (Suc pos) (put_or pos v out) = take pos out @ [out ! pos OR v]"
  by (simp add: put_or_def take_Suc_conv_app_nth)

declare push_bit_and [simp del] drop_bit_and [simp del]

lemma in_step_char:
  assumes "in_step xs s (st, out, pos)" and "Suc (length xs) < length out" and "encode_char c s = (o', s')"
  shows "in_step (xs @ [c]) s' (decode_all b o' (st, out, pos)) \<and>
    room (length out) (decode_all b o' (st, out, pos))"
proof (cases "enc_step s")
  case step_A
  with assms show ?thesis
    by (auto simp: encode_char_def decode_sextet sextet regroup room_def)
next
  case step_B
  with assms(1) obtain ys d where "xs = ys @ [d]" "st = step_b" "pos = length ys" "take pos out = ys"
    "out ! pos = d AND 0xFC" "enc_result s = push_bit 4 (d AND 0x03)"
    by (simp only: in_step.simps base64_encodestep.case) blast
  with assms(2,3) step_B show ?thesis
    by (auto simp: encode_char_def decode_sextet sextet regroup room_def take_put_or
        simp flip: append_assoc)
next
  case step_C
  with assms(1) obtain ys d where "xs = ys @ [d]" "st = step_c" "pos = length ys" "take pos out = ys"
    "out ! pos = d AND 0xF0" "enc_result s = push_bit 2 (d AND 0x0F)"
    by (simp only: in_step.simps base64_encodestep.case) blast
  with assms(2,3) step_C show ?thesis
    by (auto simp: encode_char_def decode_sextet sextet regroup room_def take_put_or put_or_def Let_def
        take_Suc_conv_app_nth split: if_splits)
qed

lemma in_step_block:
  assumes "in_step xs s (st, out, pos)" and "length xs + length cs < length out"
    and "base64_encode_block cs s = (o', s')"
  shows "in_step (xs @ cs) s' (decode_all b o' (st, out, pos)) \<and>
    room (length out) (decode_all b o' (st, out, pos))"
  using assms
proof (induction cs arbitrary: xs s st out pos o')
  case Nil
  then show ?case by (simp add: room_def del: in_step.simps)
next
  case (Cons c cs)
  obtain o1 s1 where c: "encode_char c s = (o1, s1)" by fastforce
  obtain o2 where cs: "base64_encode_block cs s1 = (o2, s')" "o' = o1 @ o2"
    using Cons.prems(3) c by (auto split: prod.splits)
  obtain st1 out1 pos1 where d: "decode_all b o1 (st, out, pos) = (st1, out1, pos1)" by (metis prod_cases3)
  have "Suc (length xs) < length out" using Cons.prems(2) by simp
  from in_step_char [OF Cons.prems(1) this c, of b] have
    step: "in_step (xs @ [c]) s1 (st1, out1, pos1)" "length out1 = length out"
    by (simp_all add: d room_def del: in_step.simps)
  have "length (xs @ [c]) + length cs < length out1" using Cons.prems(2) step(2) by simp
  from Cons.IH [OF step(1) this cs(1)] show ?case by (simp add: cs(2) d step(2) del: in_step.simps)
qed

lemma in_step_blockend:
  assumes "in_step xs s (st, out, pos)" and "length xs < length out"
  shows "\<exists>st' out'. decode_all b (base64_encode_blockend s) (st, out, pos) = (st', out', length xs) \<and>
    length out' = length out \<and> take (length xs) out' = xs"
proof (cases "enc_step s")
  case step_A
  with assms show ?thesis by (auto simp: base64_encode_blockend_def)
next
  case step_B
  with assms(1) obtain ys d where "xs = ys @ [d]" "st = step_b" "pos = length ys" "take pos out = ys"
    "out ! pos = d AND 0xFC" "enc_result s = push_bit 4 (d AND 0x03)"
    by (simp only: in_step.simps base64_encodestep.case) blast
  with assms(2) step_B show ?thesis
    by (auto simp: base64_encode_blockend_def decode_sextet sextet regroup take_put_or)
next
  case step_C
  with assms(1) obtain ys d where "xs = ys @ [d]" "st = step_c" "pos = length ys" "take pos out = ys"
    "out ! pos = d AND 0xF0" "enc_result s = push_bit 2 (d AND 0x0F)"
    by (simp only: in_step.simps base64_encodestep.case) blast
  with assms(2) step_C show ?thesis
    by (auto simp: base64_encode_blockend_def decode_sextet sextet regroup take_put_or)
qed

text \<open>
  C21: Decoding the code of any bytes gives back these bytes, their number and the terminator, for
  every length and line break, provided the buffer has room for one byte more; no character of the
  code reaches the entry past the end of the decoder's table.
\<close>

theorem base64_round_trip:
  assumes "length plaintext < length out" and "plaintext \<noteq> []"
  shows "\<exists>out'. base64_decode_chars beyond (base64_encode_chars plaintext) out = (length plaintext, out') \<and>
    take (Suc (length plaintext)) out' = plaintext @ [0]"
proof -
  obtain o' s where e: "base64_encode_block plaintext base64_init_encodestate = (o', s)" by fastforce
  let ?d = "(step_a, out[0 := 0], 0)"
  have start: "in_step [] base64_init_encodestate ?d" by (simp add: base64_init_encodestate_def)
  obtain st1 out1 pos1 where d: "decode_all beyond o' ?d = (st1, out1, pos1)" by (metis prod_cases3)
  have "length [] + length plaintext < length (out[0 := 0])" using assms(1) by simp
  from in_step_block [OF start this e, of beyond] have
    mid: "in_step plaintext s (st1, out1, pos1)" "length out1 = length out"
    by (simp_all add: d room_def del: in_step.simps)
  obtain st2 out2 where fin: "decode_all beyond (base64_encode_blockend s) (st1, out1, pos1) = (st2, out2, length plaintext)"
    "length out2 = length out" "take (length plaintext) out2 = plaintext"
    using in_step_blockend [OF mid(1), of beyond] mid(2) assms(1) by auto
  have "base64_decode_chars beyond (base64_encode_chars plaintext) out =
      (length plaintext, out2[length plaintext := 0])"
    using assms(2) by (simp add: base64_decode_chars_def base64_decode_block_def base64_encode_chars_def
        base64_init_decodestate_def e d fin(1))
  moreover have "take (Suc (length plaintext)) (out2[length plaintext := 0]) = plaintext @ [0]"
    using fin(2,3) assms(1) by (simp add: take_Suc_conv_app_nth)
  ultimately show ?thesis by simp
qed

lemma base64_round_trip_witness:
  "\<exists>out'. base64_decode_chars 0 (base64_encode_chars [77, 97, 110, 33]) (replicate 8 9) = (4, out') \<and>
     take 5 out' = [77, 97, 110, 33, 0]"
  using base64_round_trip [of "[77, 97, 110, 33]" "replicate 8 9" 0] by (simp add: numeral_eq_Suc)

text \<open>
  One character makes the decoder read past its table: exactly for \<open>{\<close> (123) the value is what
  lies behind the 80 entries; every other character is decoded inside the table or rejected.
\<close>

theorem base64_decode_reads_past_table:
  "(base64_decode_value beyond c \<noteq> base64_decode_value beyond' c) \<longleftrightarrow> c = 123 \<and> beyond \<noteq> beyond'"
proof -
  have len: "length decoding = 80" by (simp add: decoding_def)
  have "sint (c - 43) = 80 \<longleftrightarrow> c = 123"
  proof
    assume "sint (c - 43) = 80"
    then have "sint (c - 43) = sint (80 :: u8)" by simp
    then have "c - 43 = 80" by (metis signed_word_eqI)
    then have "c - 43 + 43 = 80 + 43" by simp
    then show "c = 123" by simp
  qed simp
  then show ?thesis by (auto simp: base64_decode_value_def Let_def len)
qed

section \<open>The size of the code\<close>

fun by_three :: "'a list \<Rightarrow> nat" where
  "by_three (a # b # c # xs) = Suc (by_three xs)"
| "by_three xs = 0"

lemma length_encode_from:
  assumes "enc_step s = step_A" and "stepcount s < 18"
    and "base64_encode_block cs s = (o', s')"
  shows "length (o' @ base64_encode_blockend s') =
      4 * ((length cs + 2) div 3) + (stepcount s + length cs div 3) div 18"
  using assms
proof (induction cs arbitrary: s o' rule: by_three.induct)
  case (1 a b c cs)
  let ?s = "s\<lparr>enc_step := step_A, enc_result := c AND 0x3F,
      stepcount := (if Suc (stepcount s) = 18 then 0 else Suc (stepcount s))\<rparr>"
  obtain o2 where rest: "base64_encode_block cs ?s = (o2, s')"
    and o': "length o' = 4 + (if Suc (stepcount s) = 18 then 1 else 0) + length o2"
    using "1.prems"(1,3)
    by (auto simp: encode_char_def Let_def split: prod.splits if_splits)
  have "length (o2 @ base64_encode_blockend s') =
      4 * ((length cs + 2) div 3) + (stepcount ?s + length cs div 3) div 18"
    by (rule "1.IH" [OF _ _ rest]) (use "1.prems" in simp_all)
  moreover have "(length (a # b # c # cs) + 2) div 3 = Suc ((length cs + 2) div 3)"
    and "length (a # b # c # cs) div 3 = Suc (length cs div 3)" by simp_all
  moreover have "(17 + Suc k) div 18 = Suc (k div 18)" for k :: nat by simp
  ultimately show ?case
    using o' "1.prems"(2) by (cases "stepcount s = 17") (simp_all only: length_append, simp_all)
qed (auto simp: encode_char_def base64_encode_blockend_def Let_def split: prod.splits)

lemma length_base64_encode_chars:
  "length (base64_encode_chars cs) = 4 * ((length cs + 2) div 3) + length cs div 54"
proof -
  obtain o' s where "base64_encode_block cs base64_init_encodestate = (o', s)" by fastforce
  then show ?thesis
    using length_encode_from [of base64_init_encodestate cs o' s]
      div_mult2_eq [of "length cs" 3 18]
    by (simp add: base64_encode_chars_def base64_init_encodestate_def)
qed

text \<open>\<open>base64::encode\<close> stays in its buffer exactly when the data do not have 1, 2, 4 or 7 bytes: for
  these lengths the code and its terminator are longer than the memory allocated.\<close>

theorem base64_encode_fits:
  "base64_encode True data \<noteq> None \<longleftrightarrow> length data \<notin> {1, 2, 4, 7}"
proof -
  have "4 * ((n + 2) div 3) + n div 54 + 1 \<le> n * 8 div 5 + 1 \<longleftrightarrow> n \<notin> {1, 2, 4, 7}" for n :: nat
  proof (cases "14 \<le> n")
    case True
    have "(n + 2) div 3 * 3 \<le> n + 2" and "n div 54 * 54 \<le> n" and "n * 8 < 5 * (n * 8 div 5) + 5"
      by presburger+
    with True show ?thesis by auto
  next
    case False
    then have "n \<in> {0, 1, 2, 3, 4, 5, 6, 7, 8, 9, 10, 11, 12, 13}" by (simp only: insert_iff empty_iff) presburger
    then show ?thesis by (elim insertE emptyE) simp_all
  qed
  then show ?thesis
    by (simp add: base64_encode_def encode_size_def length_base64_encode_chars Let_def)
qed

end
