(* ===== verification/Noniso.thy ===== *)
theory Noniso
  imports Prelude "HOL-Library.Signed_Division"
begin

text \<open>
  \<open>stdlib_noniso.c\<close>: conversion of numbers to text. \<open>long\<close> has 32 bits; the loops divide only, so
  the values stay in range and are kept as integers. A string being written is the list of its
  characters. For a negative index the digit comes from before the literal, which is an argument.
\<close>

section \<open>The code\<close>

text \<open>The loop of \<open>reverse\<close>, on positions in a buffer.\<close>

function swap_loop :: "nat \<Rightarrow> nat \<Rightarrow> 'a list \<Rightarrow> 'a list" where
  "swap_loop is ie buf =
     (if is < ie then swap_loop (is + 1) (ie - 1) (buf[ie := buf ! is, is := buf ! ie]) else buf)"
  by pat_completeness auto
termination by (relation "measure (\<lambda>(is, ie, buf). ie - is)") auto

declare swap_loop.simps [simp del]

definition reverse :: "nat \<Rightarrow> nat \<Rightarrow> 'a list \<Rightarrow> 'a list" where
  "reverse first past buf = swap_loop first (past - 1) buf"

definition digit :: "(int \<Rightarrow> char) \<Rightarrow> int \<Rightarrow> char" where
  "digit before i = (if i < 0 then before i else ''0123456789abcdef'' ! nat i)"

text \<open>The \<open>do\<close>-loop; \<open>None\<close> is a loop that does not end.\<close>

partial_function (option) digit_loop :: "(int \<Rightarrow> char) \<Rightarrow> int \<Rightarrow> int \<Rightarrow> string \<Rightarrow> string option" where
  "digit_loop before base q out =
     (let tmp = q sdiv base; out' = out @ [digit before (q - tmp * base)]
      in if tmp \<noteq> 0 then digit_loop before base tmp out' else Some out')"

text \<open>\<open>abs\<close> on 32 bits.\<close>

definition abs32 :: "int \<Rightarrow> int" where
  "abs32 v = (if v = - (2 ^ 31) then v else \<bar>v\<bar>)"

definition ltoa :: "(int \<Rightarrow> char) \<Rightarrow> int \<Rightarrow> int \<Rightarrow> string option" where
  "ltoa before v base =
     (if base < 2 \<or> 16 < base then Some []
      else case digit_loop before base (abs32 v) [] of
             None \<Rightarrow> None
           | Some out \<Rightarrow> let out1 = (if v < 0 then out @ ''-'' else out)
                         in Some (reverse 0 (length out1) out1))"

definition ultoa :: "(int \<Rightarrow> char) \<Rightarrow> u32 \<Rightarrow> int \<Rightarrow> string option" where
  "ultoa before v base =
     (if base < 2 \<or> 16 < base then Some []
      else case digit_loop before base (uint v) [] of
             None \<Rightarrow> None
           | Some out \<Rightarrow> Some (reverse 0 (length out) out))"

section \<open>Reversal\<close>

lemma swap_loop_rev:
  assumes "ie < length buf" and "is \<le> Suc ie"
  shows "swap_loop is ie buf = take is buf @ rev (drop is (take (Suc ie) buf)) @ drop (Suc ie) buf"
  using assms
proof (induction "is" ie buf rule: swap_loop.induct)
  case (1 "is" ie buf)
  show ?case
  proof (cases "is < ie")
    case True
    let ?b = "buf[ie := buf ! is, is := buf ! ie]"
    have IH: "swap_loop (is + 1) (ie - 1) ?b =
        take (is + 1) ?b @ rev (drop (is + 1) (take (Suc (ie - 1)) ?b)) @ drop (Suc (ie - 1)) ?b"
      by (rule "1.IH") (use True "1.prems" in simp_all)
    have "drop is (take (Suc ie) buf) = buf ! is # drop (is + 1) (take ie buf) @ [buf ! ie]"
      using True "1.prems" Cons_nth_drop_Suc [of "is" "take ie buf"]
      by (simp add: take_Suc_conv_app_nth)
    moreover have "take (is + 1) ?b = take is buf @ [buf ! ie]"
      using True "1.prems" by (simp add: take_Suc_conv_app_nth)
    moreover have "drop (is + 1) (take ie ?b) = drop (is + 1) (take ie buf)"
      using True by (intro nth_equalityI) (auto simp: nth_list_update)
    moreover have "drop ie ?b = buf ! is # drop (Suc ie) buf"
      using True "1.prems" by (simp add: Cons_nth_drop_Suc [symmetric])
    ultimately show ?thesis
      using True IH by (simp add: swap_loop.simps [of "is" ie buf])
  next
    case False
    then have "is = ie \<or> is = Suc ie" using "1.prems"(2) by auto
    moreover have "swap_loop is ie buf = buf" using False by (simp add: swap_loop.simps)
    moreover have "buf = take ie buf @ [buf ! ie] @ drop (Suc ie) buf"
      using "1.prems" by (simp add: id_take_nth_drop)
    moreover have "drop ie (take (Suc ie) buf) = [buf ! ie]"
      using "1.prems" by (simp add: take_Suc_conv_app_nth)
    ultimately show ?thesis by auto
  qed
qed

lemma reverse_all: "reverse 0 (length buf) buf = rev buf"
proof (cases buf)
  case Nil
  then show ?thesis by (simp add: reverse_def swap_loop.simps)
next
  case (Cons c cs)
  then show ?thesis
    using swap_loop_rev [of "length buf - 1" buf 0] by (simp add: reverse_def)
qed

section \<open>Digits\<close>

text \<open>The digits of a number, the last one first, and what a list of digits denotes.\<close>

fun digits :: "nat \<Rightarrow> nat \<Rightarrow> nat list" where
  "digits b n = (if b < 2 \<or> n < b then [n] else n mod b # digits b (n div b))"

declare digits.simps [simp del]

fun digits_value :: "nat \<Rightarrow> nat list \<Rightarrow> nat" where
  "digits_value b [] = 0"
| "digits_value b (d # ds) = d + b * digits_value b ds"

definition digit_char :: "nat \<Rightarrow> char" where
  "digit_char d = ''0123456789abcdef'' ! d"

lemma digits_value_digits: "digits_value b (digits b n) = n"
  by (induction b n rule: digits.induct) (subst digits.simps, simp)

lemma digits_less: "2 \<le> b \<Longrightarrow> d \<in> set (digits b n) \<Longrightarrow> d < b"
proof (induction b n rule: digits.induct)
  case (1 b n)
  then show ?case by (subst (asm) (2) digits.simps) (auto split: if_splits)
qed

lemma digits_ne: "digits b n \<noteq> []"
  by (subst digits.simps) simp

lemma last_digits: "2 \<le> b \<Longrightarrow> n \<noteq> 0 \<Longrightarrow> last (digits b n) \<noteq> 0"
proof (induction b n rule: digits.induct)
  case (1 b n)
  then have "n \<ge> b \<Longrightarrow> n div b \<noteq> 0" by (simp add: div_eq_0_iff)
  with 1 show ?case by (subst digits.simps) (auto simp: digits_ne)
qed

lemma length_digits: "2 \<le> b \<Longrightarrow> n < 2 ^ k \<Longrightarrow> 0 < k \<Longrightarrow> length (digits b n) \<le> k"
proof (induction k arbitrary: n)
  case (Suc k)
  show ?case
  proof (cases "n < b")
    case True
    then show ?thesis by (subst digits.simps) simp
  next
    case False
    then have "0 < k"
      using Suc.prems by (cases k) auto
    moreover have "n div b < 2 ^ k"
    proof -
      have "n div b \<le> n div 2" using Suc.prems(1) by (simp add: div_le_mono2)
      also have "n div 2 < 2 ^ k" using Suc.prems(2) by simp
      finally show ?thesis .
    qed
    ultimately have "length (digits b (n div b)) \<le> k" using Suc by simp
    with False Suc.prems(1) show ?thesis by (subst digits.simps) simp
  qed
qed simp

lemma digit_loop_digits:
  assumes "2 \<le> b"
  shows "digit_loop before (int b) (int n) out = Some (out @ map digit_char (digits b n))"
  using assms
proof (induction b n arbitrary: out rule: digits.induct)
  case (1 b n)
  have div: "int n sdiv int b = int (n div b)"
    by (cases "b = 0"; cases "n = 0") (simp_all add: signed_divide_int_def zdiv_int)
  have dig: "digit before (int n - int (n div b) * int b) = digit_char (n mod b)"
  proof -
    have "int n - int (n div b) * int b = int (n mod b)"
      by (metis minus_div_mult_eq_mod of_nat_div of_nat_mod)
    then show ?thesis by (simp add: digit_def digit_char_def)
  qed
  have step: "digit_loop before (int b) (int n) out =
      (if n div b \<noteq> 0 then digit_loop before (int b) (int (n div b)) (out @ [digit_char (n mod b)])
       else Some (out @ [digit_char (n mod b)]))"
    by (subst digit_loop.simps) (simp only: div Let_def dig of_nat_eq_0_iff)
  show ?case
  proof (cases "n < b")
    case True
    then have "digits b n = [n]" and "n mod b = n" by (simp_all add: digits.simps)
    with True step show ?thesis by simp
  next
    case False
    then have nz: "n div b \<noteq> 0" and ds: "digits b n = n mod b # digits b (n div b)"
      using 1 by (simp_all add: div_eq_0_iff digits.simps [of b n])
    have "digit_loop before (int b) (int (n div b)) (out @ [digit_char (n mod b)]) =
        Some ((out @ [digit_char (n mod b)]) @ map digit_char (digits b (n div b)))"
      by (rule "1.IH") (use 1 False in simp_all)
    with nz show ?thesis unfolding step ds by simp
  qed
qed

section \<open>What the conversions give\<close>

text \<open>What a numeral denotes: the inverse of the conversions.\<close>

definition char_digit :: "char \<Rightarrow> nat" where
  "char_digit c = (let k = of_char c in if 97 \<le> k then k - 87 else k - 48)"

fun numeral_value :: "nat \<Rightarrow> string \<Rightarrow> int" where
  "numeral_value b [] = 0"
| "numeral_value b (c # cs) =
     (if c = CHR ''-'' then - int (digits_value b (rev (map char_digit cs)))
      else int (digits_value b (rev (map char_digit (c # cs)))))"

lemma char_digit_char: "d < 16 \<Longrightarrow> char_digit (digit_char d) = d"
proof -
  assume "d < 16"
  then have "d \<in> {0, 1, 2, 3, 4, 5, 6, 7, 8, 9, 10, 11, 12, 13, 14, 15}"
    by (simp add: less_Suc_eq numeral_eq_Suc)
  then show ?thesis by (elim insertE emptyE) (simp_all add: digit_char_def char_digit_def)
qed

lemma digit_char_not_minus: "d < 16 \<Longrightarrow> digit_char d \<noteq> CHR ''-''"
proof -
  assume "d < 16"
  then have "d \<in> {0, 1, 2, 3, 4, 5, 6, 7, 8, 9, 10, 11, 12, 13, 14, 15}"
    by (simp add: less_Suc_eq numeral_eq_Suc)
  then show ?thesis by (elim insertE emptyE) (simp_all add: digit_char_def)
qed

lemma numeral_value_digits:
  assumes "2 \<le> b" and "b \<le> 16"
  shows "numeral_value b (rev (map digit_char (digits b n))) = int n"
    and "numeral_value b (CHR ''-'' # rev (map digit_char (digits b n))) = - int n"
proof -
  have small: "\<And>d. d \<in> set (digits b n) \<Longrightarrow> d < 16"
    using digits_less assms by fastforce
  then have there_and_back: "map (char_digit \<circ> digit_char) (digits b n) = digits b n"
    by (intro map_idI) (simp add: char_digit_char)
  obtain c cs where ccs: "rev (map digit_char (digits b n)) = c # cs"
    using digits_ne by (cases "rev (map digit_char (digits b n))") auto
  then have "c \<in> set (map digit_char (digits b n))"
    by (metis list.set_intros(1) set_rev)
  then have "c \<noteq> CHR ''-''" using small digit_char_not_minus by auto
  then have "numeral_value b (c # cs) = int (digits_value b (rev (map char_digit (c # cs))))"
    by simp
  also have "rev (map char_digit (c # cs)) = digits b n"
    unfolding ccs [symmetric] by (simp add: rev_map there_and_back)
  finally show "numeral_value b (rev (map digit_char (digits b n))) = int n"
    using ccs by (simp add: digits_value_digits)
  show "numeral_value b (CHR ''-'' # rev (map digit_char (digits b n))) = - int n"
    by (simp add: rev_map there_and_back digits_value_digits)
qed

lemma ltoa_digits:
  assumes "2 \<le> b" and "b \<le> 16" and "- (2 ^ 31) < v"
  shows "ltoa before v (int b) =
      Some ((if v < 0 then ''-'' else []) @ rev (map digit_char (digits b (nat \<bar>v\<bar>))))"
proof -
  have "abs32 v = int (nat \<bar>v\<bar>)" using assms(3) by (simp add: abs32_def)
  then have "digit_loop before (int b) (abs32 v) [] = Some (map digit_char (digits b (nat \<bar>v\<bar>)))"
    using assms(1) by (simp only: digit_loop_digits append_Nil)
  then show ?thesis
    using assms by (simp add: ltoa_def reverse_all Let_def del: length_append length_map)
qed

lemma ultoa_digits:
  assumes "2 \<le> b" and "b \<le> 16"
  shows "ultoa before v (int b) = Some (rev (map digit_char (digits b (unat v))))"
proof -
  have "uint v = int (unat v)" by simp
  then show ?thesis
    using assms by (simp only: ultoa_def digit_loop_digits) (simp add: reverse_all del: length_map)
qed



text \<open>The same of \<open>ultoa\<close> for every 32-bit value.\<close>

theorem ultoa_correct:
  fixes v :: u32
  assumes "2 \<le> b" and "b \<le> 16"
  shows "\<exists>s. ultoa before v (int b) = Some s \<and> numeral_value b s = uint v \<and> length s + 1 \<le> 33"
proof -
  have "unat v < 2 ^ 32" using unsigned_less [of v] by simp
  then have "length (digits b (unat v)) \<le> 32" using assms by (intro length_digits) simp_all
  then show ?thesis
    using assms numeral_value_digits [of b "unat v"] by (simp add: ultoa_digits)
qed

theorem ultoa_correct_witness:
  "\<exists>s. ultoa (\<lambda>_. CHR ''?'') 4294967295 (int 2) = Some s \<and> numeral_value 2 s = uint (4294967295 :: u32)
     \<and> length s + 1 \<le> 33"
  by (rule ultoa_correct) simp_all

text \<open>The smallest \<open>long\<close> has no absolute value: every digit of its text is read from before the
  string of digits, so in base ten the text is whatever stands there.\<close>

theorem ltoa_smallest_reads_before:
  "ltoa before (- 2147483648) 10 =
     Some (''-'' @ map before [- 2, - 1, - 4, - 7, - 4, - 8, - 3, - 6, - 4, - 8])"
proof -
  have loop: "digit_loop before 10 (- 2147483648) [] =
      Some (map before [- 8, - 4, - 6, - 3, - 8, - 4, - 7, - 4, - 1, - 2])"
    by (subst digit_loop.simps, simp add: signed_divide_int_def digit_def Let_def)+
  show ?thesis
    using reverse_all [of "map before [- 8, - 4, - 6, - 3, - 8, - 4, - 7, - 4, - 1, - 2] @ ''-''"]
    by (simp add: ltoa_def abs32_def loop Let_def)
qed

end
