(* ===== verification/WString.thy ===== *)
theory WString
  imports Noniso "HOL-Library.Monad_Syntax" "HOL-Library.Sublist" "HOL-Library.List_Lexorder"
begin

unbundle bit_operations_syntax

text \<open>
  \<open>WString.cpp\<close>: the class \<open>String\<close> of the Arduino core, at the level of its memory. A buffer is the
  list of its bytes, all \<open>capacity + 1\<close> of them; a null pointer is \<open>None\<close>. Every operation runs in the
  option monad: \<open>None\<close> is an access outside a buffer or through a null pointer (or a loop that
  does not end). \<open>alloc n\<close> says whether \<open>malloc\<close> of \<open>n\<close> bytes succeeds. \<open>unsigned int\<close> arithmetic is written
  out modulo \<open>2 ^ 32\<close>. An argument of type \<open>const char *\<close> is the text before its terminator.
\<close>

section \<open>The C library on byte memory\<close>

abbreviation (input) wrap32 :: "nat \<Rightarrow> nat" where
  "wrap32 n \<equiv> n mod 2 ^ 32"

definition minus32 :: "nat \<Rightarrow> nat \<Rightarrow> nat" where
  "minus32 a b = (a + 2 ^ 32 - b) mod 2 ^ 32"

definition c_string :: "u8 list \<Rightarrow> nat \<Rightarrow> u8 list option" where
  "c_string m i = (if 0 \<in> set (drop i m) then Some (takeWhile (\<lambda>c. c \<noteq> 0) (drop i m)) else None)"

definition memcpy :: "u8 list \<Rightarrow> nat \<Rightarrow> u8 list \<Rightarrow> u8 list option" where
  "memcpy m i bs = (if i + length bs \<le> length m then Some (store m i bs) else None)"

definition memread :: "u8 list \<Rightarrow> nat \<Rightarrow> nat \<Rightarrow> u8 list option" where
  "memread m i n = (if i + n \<le> length m then Some (load m i n) else None)"

definition get_byte :: "u8 list \<Rightarrow> nat \<Rightarrow> u8 option" where
  "get_byte m i = (if i < length m then Some (m ! i) else None)"

definition strcpy :: "u8 list \<Rightarrow> nat \<Rightarrow> u8 list \<Rightarrow> u8 list option" where
  "strcpy m i cs = memcpy m i (cs @ [0])"

definition strncpy_bytes :: "nat \<Rightarrow> u8 list \<Rightarrow> u8 list" where
  "strncpy_bytes n cs = take n cs @ replicate (n - length cs) 0"

fun strcmp :: "u8 list \<Rightarrow> u8 list \<Rightarrow> int" where
  "strcmp [] [] = 0"
| "strcmp [] (y # ys) = - int (unat y)"
| "strcmp (x # xs) [] = int (unat x)"
| "strcmp (x # xs) (y # ys) = (if x = y then strcmp xs ys else int (unat x) - int (unat y))"

fun strstr :: "u8 list \<Rightarrow> u8 list \<Rightarrow> nat option" where
  "strstr pat [] = (if pat = [] then Some 0 else None)"
| "strstr pat (c # cs) = (if prefix pat (c # cs) then Some 0 else map_option Suc (strstr pat cs))"

definition strchr :: "u8 \<Rightarrow> u8 list \<Rightarrow> nat option" where
  "strchr ch cs = strstr [ch] (cs @ [0])"

fun strrchr :: "u8 \<Rightarrow> u8 list \<Rightarrow> nat option" where
  "strrchr ch [] = (if ch = 0 then Some 0 else None)"
| "strrchr ch (c # cs) =
     (case strrchr ch cs of Some k \<Rightarrow> Some (Suc k) | None \<Rightarrow> if c = ch then Some 0 else None)"

definition isspace :: "u8 \<Rightarrow> bool" where
  "isspace c \<longleftrightarrow> c = 32 \<or> 9 \<le> c \<and> c \<le> 13"

definition tolower :: "u8 \<Rightarrow> u8" where
  "tolower c = (if 65 \<le> c \<and> c \<le> 90 then c + 32 else c)"

definition toupper :: "u8 \<Rightarrow> u8" where
  "toupper c = (if 97 \<le> c \<and> c \<le> 122 then c - 32 else c)"

section \<open>State, memory management\<close>

record String =
  sbuffer :: "u8 list option"
  scapacity :: nat
  slen :: nat

definition String_init :: String where
  "String_init = \<lparr>sbuffer = None, scapacity = 0, slen = 0\<rparr>"

definition String_invalidate :: "String \<Rightarrow> String" where
  "String_invalidate s = String_init"

definition String_length :: "String \<Rightarrow> nat" where
  "String_length s = (if sbuffer s \<noteq> None then slen s else 0)"

definition changeBuffer :: "(nat \<Rightarrow> bool) \<Rightarrow> nat \<Rightarrow> String \<Rightarrow> (bool \<times> String) option" where
  "changeBuffer alloc maxStrLen s =
     (let newSize = wrap32 (maxStrLen + 16) div 16 * 16
      in if alloc newSize then do {
           old \<leftarrow> (case sbuffer s of
                    None \<Rightarrow> if slen s = 0 then Some [] else None
                  | Some m \<Rightarrow> memread m 0 (slen s));
           newbuffer \<leftarrow> memcpy (replicate newSize 0) 0 old;
           Some (True, s\<lparr>sbuffer := Some newbuffer, scapacity := minus32 newSize 1\<rparr>)
         }
         else Some (False, s\<lparr>sbuffer := None\<rparr>))"

definition String_reserve :: "(nat \<Rightarrow> bool) \<Rightarrow> nat \<Rightarrow> String \<Rightarrow> (bool \<times> String) option" where
  "String_reserve alloc n s =
     (if sbuffer s \<noteq> None \<and> n \<le> scapacity s then Some (True, s)
      else do {
        (ok, s1) \<leftarrow> changeBuffer alloc n s;
        if ok then
          if slen s1 = 0 then do {
            m \<leftarrow> sbuffer s1;
            m' \<leftarrow> memcpy m 0 [0];
            Some (True, s1\<lparr>sbuffer := Some m'\<rparr>)
          }
          else Some (True, s1)
        else Some (False, s1)
      })"

section \<open>Copy and move\<close>

definition String_copy :: "(nat \<Rightarrow> bool) \<Rightarrow> u8 list \<Rightarrow> nat \<Rightarrow> String \<Rightarrow> String option" where
  "String_copy alloc cstr n s = do {
     (ok, s1) \<leftarrow> String_reserve alloc n s;
     if \<not> ok then Some (String_invalidate s1)
     else do {
       m \<leftarrow> sbuffer s1;
       m' \<leftarrow> strcpy m 0 cstr;
       Some (s1\<lparr>slen := n, sbuffer := Some m'\<rparr>)
     }
   }"

text \<open>\<open>move\<close> changes both strings: the result is this one and \<open>rhs\<close> after it.\<close>

definition String_move :: "String \<Rightarrow> String \<Rightarrow> (String \<times> String) option" where
  "String_move rhs s =
     (if sbuffer s \<noteq> None \<and> slen rhs \<le> scapacity s then do {
        m \<leftarrow> sbuffer s;
        r \<leftarrow> sbuffer rhs;
        cs \<leftarrow> c_string r 0;
        m' \<leftarrow> strcpy m 0 cs;
        Some (s\<lparr>sbuffer := Some m', slen := slen rhs\<rparr>, rhs\<lparr>slen := 0\<rparr>)
      }
      else Some (s\<lparr>sbuffer := sbuffer rhs, scapacity := scapacity rhs, slen := slen rhs\<rparr>,
                 rhs\<lparr>sbuffer := None, scapacity := 0, slen := 0\<rparr>))"

text \<open>The assignments; \<open>same\<close> says that both sides are the same object.\<close>

definition String_assign :: "(nat \<Rightarrow> bool) \<Rightarrow> bool \<Rightarrow> String \<Rightarrow> String \<Rightarrow> String option" where
  "String_assign alloc same rhs s =
     (if same then Some s
      else case sbuffer rhs of
             Some r \<Rightarrow> do { cs \<leftarrow> c_string r 0; String_copy alloc cs (slen rhs) s }
           | None \<Rightarrow> Some (String_invalidate s))"

definition String_assign_move :: "String \<Rightarrow> String \<Rightarrow> (String \<times> String) option" where
  "String_assign_move rval s = String_move rval s"

definition String_assign_cstr :: "(nat \<Rightarrow> bool) \<Rightarrow> u8 list option \<Rightarrow> String \<Rightarrow> String option" where
  "String_assign_cstr alloc cstr s =
     (case cstr of Some cs \<Rightarrow> String_copy alloc cs (length cs) s
                 | None \<Rightarrow> Some (String_invalidate s))"

section \<open>Constructors\<close>

definition String_of_cstr :: "(nat \<Rightarrow> bool) \<Rightarrow> u8 list option \<Rightarrow> String option" where
  "String_of_cstr alloc cstr =
     (case cstr of Some cs \<Rightarrow> String_copy alloc cs (length cs) String_init
                 | None \<Rightarrow> Some String_init)"

definition String_of_String :: "(nat \<Rightarrow> bool) \<Rightarrow> String \<Rightarrow> String option" where
  "String_of_String alloc v = String_assign alloc False v String_init"

definition String_of_rval :: "String \<Rightarrow> (String \<times> String) option" where
  "String_of_rval rval = String_move rval String_init"

definition String_of_char :: "(nat \<Rightarrow> bool) \<Rightarrow> u8 \<Rightarrow> String option" where
  "String_of_char alloc c = do {
     cs \<leftarrow> c_string [c, 0] 0;
     String_assign_cstr alloc (Some cs) String_init
   }"

text \<open>A conversion writes its text and the terminator into a local array of \<open>n\<close> bytes.\<close>

definition local_text :: "nat \<Rightarrow> string option \<Rightarrow> u8 list option" where
  "local_text n text = do {
     t \<leftarrow> text;
     m \<leftarrow> strcpy (replicate n 0) 0 (map of_char t);
     c_string m 0
   }"

definition String_of_long :: "(nat \<Rightarrow> bool) \<Rightarrow> (int \<Rightarrow> char) \<Rightarrow> int \<Rightarrow> int \<Rightarrow> String option" where
  "String_of_long alloc before v base = do {
     cs \<leftarrow> local_text (2 + 8 * 4) (ltoa before v base);
     String_assign_cstr alloc (Some cs) String_init
   }"

definition String_of_ulong :: "(nat \<Rightarrow> bool) \<Rightarrow> (int \<Rightarrow> char) \<Rightarrow> u32 \<Rightarrow> int \<Rightarrow> String option" where
  "String_of_ulong alloc before v base = do {
     cs \<leftarrow> local_text (1 + 8 * 4) (ultoa before v base);
     String_assign_cstr alloc (Some cs) String_init
   }"

section \<open>Concatenation\<close>

definition concat_bytes ::
  "(nat \<Rightarrow> bool) \<Rightarrow> u8 list option \<Rightarrow> nat \<Rightarrow> String \<Rightarrow> (bool \<times> String) option" where
  "concat_bytes alloc cstr n s =
     (let newlen = wrap32 (slen s + n)
      in case cstr of
           None \<Rightarrow> Some (False, s)
         | Some cs \<Rightarrow>
             if n = 0 then Some (True, s)
             else do {
               (ok, s1) \<leftarrow> String_reserve alloc newlen s;
               if \<not> ok then Some (False, s1)
               else do {
                 m \<leftarrow> sbuffer s1;
                 m' \<leftarrow> strcpy m (slen s1) cs;
                 Some (True, s1\<lparr>sbuffer := Some m', slen := newlen\<rparr>)
               }
             })"

definition c_str :: "String \<Rightarrow> u8 list option option" where
  "c_str s = (case sbuffer s of None \<Rightarrow> Some None | Some m \<Rightarrow> map_option Some (c_string m 0))"

definition concat_String :: "(nat \<Rightarrow> bool) \<Rightarrow> String \<Rightarrow> String \<Rightarrow> (bool \<times> String) option" where
  "concat_String alloc t s = do { cs \<leftarrow> c_str t; concat_bytes alloc cs (slen t) s }"

definition concat_cstr :: "(nat \<Rightarrow> bool) \<Rightarrow> u8 list option \<Rightarrow> String \<Rightarrow> (bool \<times> String) option" where
  "concat_cstr alloc cstr s =
     (case cstr of None \<Rightarrow> Some (False, s) | Some cs \<Rightarrow> concat_bytes alloc (Some cs) (length cs) s)"

definition concat_char :: "(nat \<Rightarrow> bool) \<Rightarrow> u8 \<Rightarrow> String \<Rightarrow> (bool \<times> String) option" where
  "concat_char alloc c s = do { cs \<leftarrow> c_string [c, 0] 0; concat_bytes alloc (Some cs) 1 s }"

definition concat_long :: "(nat \<Rightarrow> bool) \<Rightarrow> (int \<Rightarrow> char) \<Rightarrow> int \<Rightarrow> String \<Rightarrow> (bool \<times> String) option" where
  "concat_long alloc before num s = do {
     cs \<leftarrow> local_text (2 + 3 * 4) (ltoa before num 10);
     concat_bytes alloc (Some cs) (length cs) s
   }"

definition concat_ulong :: "(nat \<Rightarrow> bool) \<Rightarrow> (int \<Rightarrow> char) \<Rightarrow> u32 \<Rightarrow> String \<Rightarrow> (bool \<times> String) option" where
  "concat_ulong alloc before num s = do {
     cs \<leftarrow> local_text (1 + 3 * 4) (ultoa before num 10);
     concat_bytes alloc (Some cs) (length cs) s
   }"

text \<open>\<open>s.concat(s)\<close>: the source is the string's own buffer. When \<open>reserve\<close> moves it, the source has been freed;
  when not, \<open>strcpy\<close> copies inside one memory, byte by byte.\<close>

function strcpy_within :: "u8 list \<Rightarrow> nat \<Rightarrow> nat \<Rightarrow> u8 list option" where
  "strcpy_within m dst src =
     (if dst < length m \<and> src < length m
      then if m ! src = 0 then Some (m[dst := 0]) else strcpy_within (m[dst := m ! src]) (dst + 1) (src + 1)
      else None)"
  by pat_completeness auto
termination by (relation "measure (\<lambda>(m, dst, src). length m - dst)") auto

declare strcpy_within.simps [simp del]

definition concat_self :: "(nat \<Rightarrow> bool) \<Rightarrow> String \<Rightarrow> (bool \<times> String) option" where
  "concat_self alloc s =
     (let newlen = wrap32 (slen s + slen s)
      in if sbuffer s = None then Some (False, s)
         else if slen s = 0 then Some (True, s)
         else do {
           (ok, s1) \<leftarrow> String_reserve alloc newlen s;
           if \<not> ok then Some (False, s1)
           else if newlen \<le> scapacity s then do {
             m \<leftarrow> sbuffer s1;
             m' \<leftarrow> strcpy_within m (slen s1) 0;
             Some (True, s1\<lparr>sbuffer := Some m', slen := newlen\<rparr>)
           }
           else None
         })"

text \<open>The operators \<open>+\<close>: the left operand is changed in place and given up when the concatenation fails.\<close>

definition or_invalid :: "bool \<times> String \<Rightarrow> String" where
  "or_invalid r = (if fst r then snd r else String_invalidate (snd r))"

definition plus_String :: "(nat \<Rightarrow> bool) \<Rightarrow> String \<Rightarrow> String \<Rightarrow> String option" where
  "plus_String alloc rhs a = map_option or_invalid (concat_String alloc rhs a)"

definition plus_cstr :: "(nat \<Rightarrow> bool) \<Rightarrow> u8 list option \<Rightarrow> String \<Rightarrow> String option" where
  "plus_cstr alloc cstr a =
     (case cstr of None \<Rightarrow> Some (String_invalidate a)
                 | Some cs \<Rightarrow> map_option or_invalid (concat_bytes alloc (Some cs) (length cs) a))"

definition plus_char :: "(nat \<Rightarrow> bool) \<Rightarrow> u8 \<Rightarrow> String \<Rightarrow> String option" where
  "plus_char alloc c a = map_option or_invalid (concat_char alloc c a)"

definition plus_long :: "(nat \<Rightarrow> bool) \<Rightarrow> (int \<Rightarrow> char) \<Rightarrow> int \<Rightarrow> String \<Rightarrow> String option" where
  "plus_long alloc before num a = map_option or_invalid (concat_long alloc before num a)"

definition plus_ulong :: "(nat \<Rightarrow> bool) \<Rightarrow> (int \<Rightarrow> char) \<Rightarrow> u32 \<Rightarrow> String \<Rightarrow> String option" where
  "plus_ulong alloc before num a = map_option or_invalid (concat_ulong alloc before num a)"

section \<open>Comparison\<close>

definition compareTo :: "String \<Rightarrow> String \<Rightarrow> int option" where
  "compareTo s t =
     (case (sbuffer s, sbuffer t) of
        (Some m, Some r) \<Rightarrow> do { x \<leftarrow> c_string m 0; y \<leftarrow> c_string r 0; Some (strcmp x y) }
      | (None, Some r) \<Rightarrow>
          if 0 < slen t then do { c \<leftarrow> get_byte r 0; Some (0 - int (unat c)) } else Some 0
      | (Some m, None) \<Rightarrow>
          if 0 < slen s then do { c \<leftarrow> get_byte m 0; Some (int (unat c)) } else Some 0
      | (None, None) \<Rightarrow> Some 0)"

definition String_equals :: "String \<Rightarrow> String \<Rightarrow> bool option" where
  "String_equals s t =
     (if slen s = slen t then map_option (\<lambda>r. r = 0) (compareTo s t) else Some False)"

definition String_equals_cstr :: "String \<Rightarrow> u8 list option \<Rightarrow> bool option" where
  "String_equals_cstr s cstr =
     (if slen s = 0 then Some (cstr = None \<or> cstr = Some [])
      else do {
        m \<leftarrow> sbuffer s;
        case cstr of
          None \<Rightarrow> do { c \<leftarrow> get_byte m 0; Some (c = 0) }
        | Some cs \<Rightarrow> do { x \<leftarrow> c_string m 0; Some (strcmp x cs = 0) }
      })"

definition String_less :: "String \<Rightarrow> String \<Rightarrow> bool option" where
  "String_less s t = map_option (\<lambda>r. r < 0) (compareTo s t)"

definition String_greater :: "String \<Rightarrow> String \<Rightarrow> bool option" where
  "String_greater s t = map_option (\<lambda>r. r > 0) (compareTo s t)"

definition String_less_eq :: "String \<Rightarrow> String \<Rightarrow> bool option" where
  "String_less_eq s t = map_option (\<lambda>r. r \<le> 0) (compareTo s t)"

definition String_greater_eq :: "String \<Rightarrow> String \<Rightarrow> bool option" where
  "String_greater_eq s t = map_option (\<lambda>r. r \<ge> 0) (compareTo s t)"

text \<open>The loop of \<open>equalsIgnoreCase\<close>.\<close>

fun same_letters :: "u8 list \<Rightarrow> u8 list \<Rightarrow> bool option" where
  "same_letters (c # p1) (d # p2) =
     (if c = 0 then Some True
      else if tolower c \<noteq> tolower d then Some False else same_letters p1 p2)"
| "same_letters (c # p1) [] = (if c = 0 then Some True else None)"
| "same_letters [] p2 = None"

definition equalsIgnoreCase :: "bool \<Rightarrow> String \<Rightarrow> String \<Rightarrow> bool option" where
  "equalsIgnoreCase same s t =
     (if same then Some True
      else if slen s \<noteq> slen t then Some False
      else if slen s = 0 then Some True
      else do { p1 \<leftarrow> sbuffer s; p2 \<leftarrow> sbuffer t; same_letters p1 p2 })"

text \<open>\<open>strncmp\<close> reads no more than \<open>n\<close> characters of either text, and none after a terminator.\<close>

definition startsWith_at :: "String \<Rightarrow> nat \<Rightarrow> String \<Rightarrow> bool option" where
  "startsWith_at t offset s =
     (if offset > minus32 (slen s) (slen t) \<or> sbuffer s = None \<or> sbuffer t = None then Some False
      else do {
        m \<leftarrow> sbuffer s;
        r \<leftarrow> sbuffer t;
        x \<leftarrow> c_string m offset;
        y \<leftarrow> c_string r 0;
        Some (take (slen t) x = take (slen t) y)
      })"

definition startsWith :: "String \<Rightarrow> String \<Rightarrow> bool option" where
  "startsWith t s = (if slen s < slen t then Some False else startsWith_at t 0 s)"

definition endsWith :: "String \<Rightarrow> String \<Rightarrow> bool option" where
  "endsWith t s =
     (if slen s < slen t \<or> sbuffer s = None \<or> sbuffer t = None then Some False
      else do {
        m \<leftarrow> sbuffer s;
        r \<leftarrow> sbuffer t;
        x \<leftarrow> c_string m (slen s - slen t);
        y \<leftarrow> c_string r 0;
        Some (strcmp x y = 0)
      })"

section \<open>Character access\<close>

definition String_index :: "String \<Rightarrow> nat \<Rightarrow> u8 option" where
  "String_index s i =
     (case sbuffer s of None \<Rightarrow> Some 0 | Some m \<Rightarrow> if slen s \<le> i then Some 0 else get_byte m i)"

definition charAt :: "String \<Rightarrow> nat \<Rightarrow> u8 option" where
  "charAt s i = String_index s i"

definition setCharAt :: "nat \<Rightarrow> u8 \<Rightarrow> String \<Rightarrow> String option" where
  "setCharAt i c s =
     (if i < slen s
      then do { m \<leftarrow> sbuffer s; m' \<leftarrow> memcpy m i [c]; Some (s\<lparr>sbuffer := Some m'\<rparr>) }
      else Some s)"

definition getBytes :: "String \<Rightarrow> u8 list option \<Rightarrow> nat \<Rightarrow> nat \<Rightarrow> u8 list option option" where
  "getBytes s buf bufsize index =
     (case buf of
        None \<Rightarrow> Some None
      | Some b \<Rightarrow>
          if bufsize = 0 then Some (Some b)
          else if slen s \<le> index then map_option Some (memcpy b 0 [0])
          else let n = min (bufsize - 1) (slen s - index)
               in do {
                    m \<leftarrow> sbuffer s;
                    cs \<leftarrow> c_string m index;
                    b1 \<leftarrow> memcpy b 0 (strncpy_bytes n cs);
                    map_option Some (memcpy b1 n [0])
                  })"

section \<open>Search\<close>

text \<open>A position, or \<open>-1\<close>.\<close>

definition found_at :: "nat \<Rightarrow> nat option \<Rightarrow> int" where
  "found_at i r = (case r of None \<Rightarrow> - 1 | Some k \<Rightarrow> int (i + k))"

definition indexOf_char_from :: "u8 \<Rightarrow> nat \<Rightarrow> String \<Rightarrow> int option" where
  "indexOf_char_from ch fromIndex s =
     (if slen s \<le> fromIndex then Some (- 1)
      else do {
        m \<leftarrow> sbuffer s;
        cs \<leftarrow> c_string m fromIndex;
        Some (found_at fromIndex (strchr ch cs))
      })"

definition indexOf_char :: "u8 \<Rightarrow> String \<Rightarrow> int option" where
  "indexOf_char c s = indexOf_char_from c 0 s"

definition indexOf_from :: "String \<Rightarrow> nat \<Rightarrow> String \<Rightarrow> int option" where
  "indexOf_from t fromIndex s =
     (if slen s \<le> fromIndex then Some (- 1)
      else do {
        m \<leftarrow> sbuffer s;
        cs \<leftarrow> c_string m fromIndex;
        r \<leftarrow> sbuffer t;
        pat \<leftarrow> c_string r 0;
        Some (found_at fromIndex (strstr pat cs))
      })"

definition indexOf :: "String \<Rightarrow> String \<Rightarrow> int option" where
  "indexOf t s = indexOf_from t 0 s"

definition lastIndexOf_char_from :: "u8 \<Rightarrow> nat \<Rightarrow> String \<Rightarrow> int option" where
  "lastIndexOf_char_from ch fromIndex s =
     (if slen s \<le> fromIndex then Some (- 1)
      else do {
        m \<leftarrow> sbuffer s;
        m' \<leftarrow> memcpy m (fromIndex + 1) [0];
        cs \<leftarrow> c_string m' 0;
        Some (found_at 0 (strrchr ch cs))
      })"

definition lastIndexOf_char :: "u8 \<Rightarrow> String \<Rightarrow> int option" where
  "lastIndexOf_char c s = lastIndexOf_char_from c (minus32 (slen s) 1) s"

partial_function (option) lastIndexOf_loop ::
  "u8 list \<Rightarrow> u8 list \<Rightarrow> nat \<Rightarrow> nat \<Rightarrow> int \<Rightarrow> int option" where
  "lastIndexOf_loop m pat fromIndex p found =
     (if p \<le> fromIndex then do {
        cs \<leftarrow> c_string m p;
        case strstr pat cs of
          None \<Rightarrow> Some found
        | Some k \<Rightarrow>
            lastIndexOf_loop m pat fromIndex (p + k + 1) (if p + k \<le> fromIndex then int (p + k) else found)
      }
      else Some found)"

definition lastIndexOf_from :: "String \<Rightarrow> nat \<Rightarrow> String \<Rightarrow> int option" where
  "lastIndexOf_from t fromIndex s =
     (if slen t = 0 \<or> slen s = 0 \<or> slen s < slen t then Some (- 1)
      else do {
        m \<leftarrow> sbuffer s;
        r \<leftarrow> sbuffer t;
        pat \<leftarrow> c_string r 0;
        lastIndexOf_loop m pat (if slen s \<le> fromIndex then slen s - 1 else fromIndex) 0 (- 1)
      })"

definition lastIndexOf :: "String \<Rightarrow> String \<Rightarrow> int option" where
  "lastIndexOf t s = lastIndexOf_from t (minus32 (slen s) (slen t)) s"

definition substring :: "(nat \<Rightarrow> bool) \<Rightarrow> nat \<Rightarrow> nat \<Rightarrow> String \<Rightarrow> String option" where
  "substring alloc left right s =
     (let (left, right) = (if left > right then (right, left) else (left, right))
      in do {
        out \<leftarrow> String_of_cstr alloc (Some []);
        if slen s \<le> left then Some out
        else do {
          m \<leftarrow> sbuffer s;
          m' \<leftarrow> memcpy m (min right (slen s)) [0];
          cs \<leftarrow> c_string m' left;
          String_assign_cstr alloc (Some cs) out
        }
      })"

section \<open>Strings that hold a text\<close>

text \<open>The invariant of the class together with the text a string stands for: the text has no zero, \<open>len\<close> is
  its length, and the buffer is the text, its terminator and the unused rest of \<open>capacity + 1\<close> bytes.\<close>

definition holds_text :: "String \<Rightarrow> u8 list \<Rightarrow> bool" where
  "holds_text s cs \<longleftrightarrow> 0 \<notin> set cs \<and> slen s = length cs \<and>
     (case sbuffer s of
        None \<Rightarrow> scapacity s = 0 \<and> cs = []
      | Some m \<Rightarrow> length m = Suc (scapacity s) \<and> length m < 2 ^ 32 \<and>
          take (Suc (length cs)) m = cs @ [0])"

definition wf_String :: "String \<Rightarrow> bool" where
  "wf_String s \<longleftrightarrow> holds_text s (case sbuffer s of None \<Rightarrow> [] | Some m \<Rightarrow> take (slen s) m)"

text \<open>A length whose buffer size does not wrap.\<close>

definition storable :: "nat \<Rightarrow> bool" where
  "storable n \<longleftrightarrow> n + 16 < 2 ^ 32"

lemma holds_init [simp]: "holds_text String_init []"
  by (simp add: holds_text_def String_init_def)

lemma take_terminated: "take (Suc (length cs)) m = cs @ [0] \<longleftrightarrow> (\<exists>rest. m = cs @ 0 # rest)"
proof
  assume "take (Suc (length cs)) m = cs @ [0]"
  then have "m = cs @ 0 # drop (Suc (length cs)) m"
    by (metis append.assoc append_Cons append_Nil append_take_drop_id)
  then show "\<exists>rest. m = cs @ 0 # rest" by blast
qed auto

lemma holds_wf: "holds_text s cs \<Longrightarrow> wf_String s"
  by (auto simp: wf_String_def holds_text_def take_terminated split: option.splits)

lemma wf_holds: "wf_String s \<Longrightarrow> \<exists>cs. holds_text s cs"
  unfolding wf_String_def by blast

lemma holds_len: "holds_text s cs \<Longrightarrow> slen s = length cs"
  and holds_no_zero: "holds_text s cs \<Longrightarrow> 0 \<notin> set cs"
  by (simp_all add: holds_text_def)

lemma holds_memory:
  assumes "holds_text s cs" and "sbuffer s = Some m"
  obtains rest where "m = cs @ 0 # rest" and "length m = Suc (scapacity s)" and "length m < 2 ^ 32"
  using assms by (auto simp: holds_text_def take_terminated)

lemma holds_no_memory: "holds_text s cs \<Longrightarrow> sbuffer s = None \<Longrightarrow> s = String_init \<and> cs = []"
  by (cases s) (simp add: holds_text_def String_init_def)

lemma holds_textI:
  "0 \<notin> set cs \<Longrightarrow> length (cs @ 0 # rest) < 2 ^ 32 \<Longrightarrow>
   holds_text \<lparr>sbuffer = Some (cs @ 0 # rest), scapacity = length (cs @ rest), slen = length cs\<rparr> cs"
  by (simp add: holds_text_def)

lemma holds_text_iff:
  "sbuffer s = Some m \<Longrightarrow>
   holds_text s cs \<longleftrightarrow> 0 \<notin> set cs \<and> slen s = length cs \<and> length m = Suc (scapacity s) \<and> length m < 2 ^ 32 \<and>
     (\<exists>rest. m = cs @ 0 # rest)"
  by (auto simp: holds_text_def take_terminated)

lemma c_string_suffix:
  "0 \<notin> set cs \<Longrightarrow> i \<le> length cs \<Longrightarrow> c_string (cs @ 0 # rest) i = Some (drop i cs)"
proof -
  assume "0 \<notin> set cs" and "i \<le> length cs"
  then have "\<And>c. c \<in> set (drop i cs) \<Longrightarrow> c \<noteq> 0" by (metis in_set_dropD)
  then have "takeWhile (\<lambda>c. c \<noteq> 0) (drop i cs @ 0 # rest) = drop i cs @ takeWhile (\<lambda>c. c \<noteq> 0) (0 # rest)"
    by (rule takeWhile_append2)
  with \<open>i \<le> length cs\<close> show ?thesis by (simp add: c_string_def)
qed

lemma c_string_text [simp]: "0 \<notin> set cs \<Longrightarrow> c_string (cs @ 0 # rest) 0 = Some cs"
  using c_string_suffix [of cs 0 rest] by simp

lemma strcpy_in:
  "i + length cs < length m \<Longrightarrow>
   strcpy m i cs = Some (take i m @ cs @ 0 # drop (i + Suc (length cs)) m)"
  by (simp add: strcpy_def memcpy_def store_def)

lemma sized: "storable n \<Longrightarrow> n < wrap32 (n + 16) div 16 * 16 \<and> wrap32 (n + 16) div 16 * 16 \<le> n + 16"
  by (simp add: storable_def)

lemma minus32_simps [simp]:
  "b \<le> a \<Longrightarrow> a < 2 ^ 32 \<Longrightarrow> minus32 a b = a - b"
proof -
  assume "b \<le> a" and "a < 2 ^ 32"
  then have "a + 2 ^ 32 - b = (a - b) + 2 ^ 32" and "a - b < 2 ^ 32" by simp_all
  then show ?thesis by (simp only: minus32_def mod_add_self2 mod_less)
qed

lemma reserve_spec:
  assumes h: "holds_text s cs" and n: "storable n"
  shows "(\<exists>s1. String_reserve alloc n s = Some (True, s1) \<and> holds_text s1 cs \<and> n \<le> scapacity s1 \<and>
            sbuffer s1 \<noteq> None) \<or>
         String_reserve alloc n s = Some (False, s\<lparr>sbuffer := None\<rparr>) \<and>
           \<not> alloc (wrap32 (n + 16) div 16 * 16)"
proof (cases "sbuffer s \<noteq> None \<and> n \<le> scapacity s")
  case True
  with h show ?thesis by (simp add: String_reserve_def)
next
  case False
  define sz where "sz = wrap32 (n + 16) div 16 * 16"
  have sz: "n < sz" "sz < 2 ^ 32" using sized [OF n] n by (simp_all add: sz_def storable_def)
  show ?thesis
  proof (cases "alloc sz")
    case True
    have len: "length cs \<le> n"
      using h False by (cases "sbuffer s") (auto simp: holds_text_def dest!: arg_cong [of _ _ length])
    have old: "(case sbuffer s of None \<Rightarrow> if slen s = 0 then Some [] else None
                 | Some m \<Rightarrow> memread m 0 (slen s)) = Some cs"
    proof (cases "sbuffer s")
      case None
      then show ?thesis using h by (simp add: holds_text_def)
    next
      case (Some m)
      with h obtain rest where "m = cs @ 0 # rest" by (rule holds_memory)
      with Some h show ?thesis by (simp add: memread_def load_def holds_len)
    qed
    have new: "memcpy (replicate sz 0) 0 cs = Some (cs @ 0 # replicate (sz - Suc (length cs)) 0)"
      using len sz by (simp add: memcpy_def store_def flip: replicate_Suc)
    have "changeBuffer alloc n s =
        Some (True, s\<lparr>sbuffer := Some (cs @ 0 # replicate (sz - Suc (length cs)) 0), scapacity := sz - 1\<rparr>)"
      unfolding changeBuffer_def Let_def sz_def [symmetric] old using True sz by (simp add: new)
    moreover have "holds_text (s\<lparr>sbuffer := Some (cs @ 0 # replicate (sz - Suc (length cs)) 0), scapacity := sz - 1\<rparr>) cs"
      using h len sz by (simp add: holds_text_def)
    ultimately show ?thesis
      using False sz by (auto simp: String_reserve_def memcpy_def store_def holds_text_def)
  next
    case False
    then show ?thesis
      using \<open>\<not> (sbuffer s \<noteq> None \<and> n \<le> scapacity s)\<close>
      by (auto simp: String_reserve_def changeBuffer_def Let_def sz_def)
  qed
qed


text \<open>With memory for every request there is one result.\<close>

lemma reserve_ok:
  assumes "holds_text s cs" and "storable n" and "\<And>k. alloc k"
  obtains s1 m where "String_reserve alloc n s = Some (True, s1)" and "holds_text s1 cs"
    and "n \<le> scapacity s1" and "sbuffer s1 = Some m"
  using reserve_spec [OF assms(1,2), of alloc] assms(3) by blast

lemma append_in_buffer:
  assumes "holds_text s1 cs" and "sbuffer s1 = Some m" and "length cs + length t \<le> scapacity s1"
    and "0 \<notin> set t"
  shows "\<exists>m'. strcpy m (length cs) t = Some m' \<and>
    holds_text (s1\<lparr>sbuffer := Some m', slen := length cs + length t\<rparr>) (cs @ t)"
proof -
  obtain rest where m: "m = cs @ 0 # rest" "length m = Suc (scapacity s1)" "length m < 2 ^ 32"
    using holds_memory [OF assms(1,2)] by blast
  have "strcpy m (length cs) t = Some (cs @ t @ 0 # drop (length cs + Suc (length t)) m)"
    using m assms(3) by (subst strcpy_in) simp_all
  moreover have "holds_text (s1\<lparr>sbuffer := Some (cs @ t @ 0 # drop (length cs + Suc (length t)) m),
      slen := length cs + length t\<rparr>) (cs @ t)"
    using assms m(2,3) by (simp add: holds_text_iff holds_no_zero)
  ultimately show ?thesis by blast
qed

lemma overwrite_buffer:
  assumes "holds_text s1 cs" and "sbuffer s1 = Some m" and "length t \<le> scapacity s1" and "0 \<notin> set t"
  shows "\<exists>m'. strcpy m 0 t = Some m' \<and> holds_text (s1\<lparr>slen := length t, sbuffer := Some m'\<rparr>) t"
proof -
  obtain rest where m: "m = cs @ 0 # rest" "length m = Suc (scapacity s1)" "length m < 2 ^ 32"
    using holds_memory [OF assms(1,2)] by blast
  have "strcpy m 0 t = Some (t @ 0 # drop (Suc (length t)) m)"
    using m assms(3) by (subst strcpy_in) simp_all
  moreover have "holds_text (s1\<lparr>slen := length t, sbuffer := Some (t @ 0 # drop (Suc (length t)) m)\<rparr>) t"
    using assms m(2,3) by (simp add: holds_text_def)
  ultimately show ?thesis by blast
qed

lemma copy_spec:
  assumes "holds_text s cs" and "storable (length t)" and "0 \<notin> set t"
  shows "(\<exists>s'. String_copy alloc t (length t) s = Some s' \<and> holds_text s' t \<and> sbuffer s' \<noteq> None) \<or>
    String_copy alloc t (length t) s = Some String_init \<and> (\<exists>k. \<not> alloc k)"
  using reserve_spec [OF assms(1,2), of alloc]
proof (elim disjE exE conjE)
  fix s1
  assume r: "String_reserve alloc (length t) s = Some (True, s1)" "holds_text s1 cs"
    "length t \<le> scapacity s1" "sbuffer s1 \<noteq> None"
  then obtain m where m: "sbuffer s1 = Some m" by blast
  from overwrite_buffer [OF r(2) m r(3) assms(3)] show ?thesis
    using r(1) m by (auto simp: String_copy_def)
qed (auto simp: String_copy_def String_invalidate_def)

lemma concat_spec:
  assumes "holds_text s cs" and "storable (length cs + length t)" and "0 \<notin> set t"
  shows "(\<exists>s'. concat_bytes alloc (Some t) (length t) s = Some (True, s') \<and> holds_text s' (cs @ t)) \<or>
    concat_bytes alloc (Some t) (length t) s = Some (False, s\<lparr>sbuffer := None\<rparr>) \<and> (\<exists>k. \<not> alloc k)"
proof (cases "t = []")
  case True
  then show ?thesis using assms(1) by (simp add: concat_bytes_def)
next
  case False
  have wrap: "wrap32 (slen s + length t) = length cs + length t"
    using assms(1,2) by (simp add: holds_len storable_def)
  from reserve_spec [OF assms(1,2), of alloc] show ?thesis
  proof (elim disjE exE conjE)
    fix s1
    assume r: "String_reserve alloc (length cs + length t) s = Some (True, s1)" "holds_text s1 cs"
      "length cs + length t \<le> scapacity s1" "sbuffer s1 \<noteq> None"
    then obtain m where m: "sbuffer s1 = Some m" by blast
    from append_in_buffer [OF r(2) m r(3) assms(3)] show ?thesis
      using False r(1,2) m wrap by (auto simp: concat_bytes_def holds_len)
  next
    assume "String_reserve alloc (length cs + length t) s = Some (False, s\<lparr>sbuffer := None\<rparr>)"
      and "\<not> alloc (wrap32 (length cs + length t + 16) div 16 * 16)"
    then show ?thesis using False wrap by (auto simp: concat_bytes_def)
  qed
qed

lemma holds_c_string:
  "holds_text s cs \<Longrightarrow> sbuffer s = Some m \<Longrightarrow> i \<le> length cs \<Longrightarrow> c_string m i = Some (drop i cs)"
  by (metis c_string_suffix holds_memory holds_no_zero)

lemma holds_c_string0: "holds_text s cs \<Longrightarrow> sbuffer s = Some m \<Longrightarrow> c_string m 0 = Some cs"
  using holds_c_string [of s cs m 0] by simp

lemma c_str_holds: "holds_text s cs \<Longrightarrow> c_str s = Some (if sbuffer s = None then None else Some cs)"
  by (cases "sbuffer s") (auto simp: c_str_def holds_c_string0)

lemma holds_none: "holds_text s cs \<Longrightarrow> sbuffer s = None \<Longrightarrow> cs = []"
  using holds_no_memory by blast

section \<open>What the observers give\<close>

lemma strcmp_eq_0: "0 \<notin> set xs \<Longrightarrow> 0 \<notin> set ys \<Longrightarrow> strcmp xs ys = 0 \<longleftrightarrow> xs = ys"
  by (induction xs ys rule: strcmp.induct) (auto simp: uint_0_iff dest: word_uint_eqI)

lemma strcmp_less: "0 \<notin> set xs \<Longrightarrow> 0 \<notin> set ys \<Longrightarrow> strcmp xs ys < 0 \<longleftrightarrow> xs < ys"
proof (induction xs ys rule: strcmp.induct)
  case (4 x xs y ys)
  then show ?case by (auto simp: word_less_def)
qed (auto simp: uint_0_iff less_le)

lemma get_first: "holds_text s (c # cs) \<Longrightarrow> sbuffer s = Some m \<Longrightarrow> get_byte m 0 = Some c"
  by (auto simp: get_byte_def elim: holds_memory)

lemma compareTo_text:
  assumes "holds_text s cs" and "holds_text t ds"
  shows "compareTo s t = Some (strcmp cs ds)"
proof (cases "sbuffer s"; cases "sbuffer t")
  fix r
  assume n: "sbuffer s = None" and r: "sbuffer t = Some r"
  then show ?thesis
    using assms holds_none [OF assms(1) n]
    by (cases ds) (auto simp: compareTo_def holds_len get_first)
next
  fix m
  assume m: "sbuffer s = Some m" and n: "sbuffer t = None"
  then show ?thesis
    using assms holds_none [OF assms(2) n]
    by (cases cs) (auto simp: compareTo_def holds_len get_first)
next
  assume "sbuffer s = None" and "sbuffer t = None"
  then show ?thesis using assms [THEN holds_none] by (simp add: compareTo_def)
qed (use assms in \<open>auto simp: compareTo_def holds_c_string0\<close>)

lemma equals_text:
  "holds_text s cs \<Longrightarrow> holds_text t ds \<Longrightarrow> String_equals s t = Some (cs = ds)"
  by (auto simp: String_equals_def compareTo_text holds_len strcmp_eq_0 holds_no_zero)

lemma equals_cstr_text:
  "holds_text s cs \<Longrightarrow> 0 \<notin> set ds \<Longrightarrow> String_equals_cstr s (Some ds) = Some (cs = ds)"
  by (cases "sbuffer s")
    (auto simp: String_equals_cstr_def holds_len holds_c_string0 strcmp_eq_0 holds_no_zero dest: holds_none)

text \<open>Without a terminator in the way, \<open>strstr\<close> gives the first occurrence.\<close>

lemma strstr_Some:
  "strstr pat cs = Some k \<longleftrightarrow> prefix pat (drop k cs) \<and> k \<le> length cs \<and> (\<forall>j<k. \<not> prefix pat (drop j cs))"
proof (induction cs arbitrary: k)
  case Nil
  then show ?case by auto
next
  case (Cons c cs)
  show ?case
  proof (cases k)
    case 0
    then show ?thesis by auto
  next
    case (Suc i)
    have "(\<forall>j<Suc i. \<not> prefix pat (drop j (c # cs))) \<longleftrightarrow>
        \<not> prefix pat (c # cs) \<and> (\<forall>j<i. \<not> prefix pat (drop j cs))"
      by (subst All_less_Suc2) simp
    then show ?thesis using Cons Suc by auto
  qed
qed

lemma strstr_None: "strstr pat cs = None \<longleftrightarrow> (\<forall>j\<le>length cs. \<not> prefix pat (drop j cs))"
proof (induction cs)
  case (Cons c cs)
  have "(\<forall>j\<le>Suc (length cs). \<not> prefix pat (drop j (c # cs))) \<longleftrightarrow>
      \<not> prefix pat (c # cs) \<and> (\<forall>j\<le>length cs. \<not> prefix pat (drop j cs))"
    by (metis Suc_le_mono drop0 drop_Suc_Cons le0 not0_implies_Suc)
  with Cons show ?case by auto
qed auto

lemma startsWith_text:
  assumes "holds_text s cs" and "holds_text t ds" and "sbuffer s \<noteq> None" and "sbuffer t \<noteq> None"
  shows "startsWith t s = Some (prefix ds cs)"
proof (cases "length cs < length ds")
  case True
  then show ?thesis using assms by (auto simp: startsWith_def holds_len dest: prefix_length_le)
next
  case False
  from assms obtain m r where mem: "sbuffer s = Some m" "sbuffer t = Some r" by blast
  have "prefix ds cs \<Longrightarrow> take (length ds) cs = ds" by (auto simp: prefix_def)
  then have "take (length ds) cs = ds \<longleftrightarrow> prefix ds cs"
    using take_is_prefix [of "length ds" cs] by auto
  with False mem show ?thesis
    using assms(1,2) by (simp add: startsWith_def startsWith_at_def holds_len holds_c_string0)
qed

lemma endsWith_text:
  assumes "holds_text s cs" and "holds_text t ds" and "sbuffer s \<noteq> None" and "sbuffer t \<noteq> None"
  shows "endsWith t s = Some (suffix ds cs)"
proof (cases "length cs < length ds")
  case True
  then show ?thesis using assms by (auto simp: endsWith_def holds_len dest: suffix_length_le)
next
  case False
  from assms obtain m r where mem: "sbuffer s = Some m" "sbuffer t = Some r" by blast
  have "suffix ds cs \<Longrightarrow> drop (length cs - length ds) cs = ds" by (auto simp: suffix_def)
  then have "drop (length cs - length ds) cs = ds \<longleftrightarrow> suffix ds cs"
    using suffix_drop [of "length cs - length ds" cs] by auto
  moreover have "0 \<notin> set (drop (length cs - length ds) cs)"
    using holds_no_zero [OF assms(1)] by (meson in_set_dropD)
  ultimately show ?thesis
    using assms mem False
    by (simp add: endsWith_def holds_len holds_c_string holds_c_string0 strcmp_eq_0 holds_no_zero)
qed

lemma indexOf_from_text:
  assumes "holds_text s cs" and "holds_text t ds" and "sbuffer t = Some r" and "i < length cs"
  shows "indexOf_from t i s = Some (found_at i (strstr ds (drop i cs)))"
proof -
  obtain m where "sbuffer s = Some m"
    using assms(4) holds_none [OF assms(1)] by (cases "sbuffer s") auto
  with assms show ?thesis
    by (simp add: indexOf_from_def holds_len holds_c_string [of s cs m i] holds_c_string0)
qed

lemma new_text:
  assumes "\<And>k. alloc k" and "storable (length t)" and "0 \<notin> set t"
  obtains s' where "String_of_cstr alloc (Some t) = Some s'" and "holds_text s' t" and "sbuffer s' \<noteq> None"
  using copy_spec [OF holds_init assms(2,3), of alloc] assms(1) by (auto simp: String_of_cstr_def)

lemma substring_text:
  assumes "holds_text s cs" and "\<And>k. alloc k" and "l \<le> r" and "storable (length cs)"
  shows "\<exists>s'. substring alloc l r s = Some s' \<and> holds_text s' (drop l (take r cs)) \<and> sbuffer s' \<noteq> None"
proof -
  have "storable (length ([] :: u8 list))" by (simp add: storable_def)
  then obtain out where out: "String_of_cstr alloc (Some []) = Some out" "holds_text out []" "sbuffer out \<noteq> None"
    using new_text [of alloc "[]"] assms(2) by auto
  show ?thesis
  proof (cases "length cs \<le> l")
    case True
    then show ?thesis using assms(3) out by (simp add: substring_def holds_len [OF assms(1)])
  next
    case False
    then obtain m where m: "sbuffer s = Some m"
      using holds_none [OF assms(1)] by (cases "sbuffer s") auto
    from holds_memory [OF assms(1) m] obtain rest where mem: "m = cs @ 0 # rest" by blast
    let ?k = "min r (length cs)" and ?t = "drop l (take r cs)"
    have cut: "memcpy m ?k [0] = Some (take r cs @ 0 # drop (Suc ?k) m)"
      by (simp add: memcpy_def store_def mem min_def)
    have z: "0 \<notin> set (take r cs)"
      using holds_no_zero [OF assms(1)] by (meson in_set_takeD)
    have str: "c_string (take r cs @ 0 # drop (Suc ?k) m) l = Some ?t"
      using z False assms(3) by (simp add: c_string_suffix)
    have "0 \<notin> set ?t" using z by (meson in_set_dropD)
    moreover have "storable (length ?t)" using assms(4) by (simp add: storable_def)
    ultimately obtain s' where "String_copy alloc ?t (length ?t) out = Some s'"
      and "holds_text s' ?t" and "sbuffer s' \<noteq> None"
      using copy_spec [OF out(2), of ?t alloc] assms(2) by metis
    moreover have "substring alloc l r s = String_copy alloc ?t (length ?t) out"
    proof -
      have "\<not> r < l" using assms(3) by simp
      with False show ?thesis
        by (simp only: substring_def Let_def holds_len [OF assms(1)] m cut str out(1) if_False
          String_assign_cstr_def option.case bind.bind_lunit split_conv)
    qed
    ultimately show ?thesis by metis
  qed
qed

lemma move_text:
  assumes "holds_text s cs" and "holds_text u ds" and "sbuffer u \<noteq> None"
  shows "\<exists>s' u'. String_move u s = Some (s', u') \<and> holds_text s' ds"
proof (cases "sbuffer s \<noteq> None \<and> slen u \<le> scapacity s")
  case True
  then obtain m where m: "sbuffer s = Some m" by blast
  from assms(3) obtain r where r: "sbuffer u = Some r" by blast
  have "length ds \<le> scapacity s" using True holds_len [OF assms(2)] by simp
  from overwrite_buffer [OF assms(1) m this holds_no_zero [OF assms(2)]]
  obtain m' where m': "strcpy m 0 ds = Some m'" "holds_text (s\<lparr>slen := length ds, sbuffer := Some m'\<rparr>) ds"
    by blast
  have "String_move u s = Some (s\<lparr>sbuffer := Some m', slen := slen u\<rparr>, u\<lparr>slen := 0\<rparr>)"
    using True m r m'(1) by (simp add: String_move_def holds_c_string0 [OF assms(2) r])
  moreover have "holds_text (s\<lparr>sbuffer := Some m', slen := slen u\<rparr>) ds"
    using m'(2) holds_len [OF assms(2)] by (simp add: holds_text_def)
  ultimately show ?thesis by blast
next
  case False
  then have "String_move u s = Some (s\<lparr>sbuffer := sbuffer u, scapacity := scapacity u, slen := slen u\<rparr>,
      u\<lparr>sbuffer := None, scapacity := 0, slen := 0\<rparr>)"
    by (auto simp: String_move_def)
  moreover have "holds_text (s\<lparr>sbuffer := sbuffer u, scapacity := scapacity u, slen := slen u\<rparr>) ds"
    using assms(2) by (auto simp: holds_text_def split: option.splits)
  ultimately show ?thesis by blast
qed

section \<open>The order of the operators\<close>

text \<open>The comparison operators of the class as those of the type.\<close>

instantiation String_ext :: (type) ord
begin

definition less_String_ext :: "'a String_scheme \<Rightarrow> 'a String_scheme \<Rightarrow> bool" where
  "less_String_ext s t \<longleftrightarrow> String_less (String.truncate s) (String.truncate t) = Some True"

definition less_eq_String_ext :: "'a String_scheme \<Rightarrow> 'a String_scheme \<Rightarrow> bool" where
  "less_eq_String_ext s t \<longleftrightarrow> String_less_eq (String.truncate s) (String.truncate t) = Some True"

instance ..

end

lemma truncate_String [simp]: "String.truncate (s :: String) = s"
  by (cases s) (simp add: String.truncate_def)

text \<open>The operators order the strings as the lexicographic order their texts, and \<open>equals\<close> agrees with
  it; no operator reads outside a buffer.\<close>

theorem String_order_is_lexicographic:
  assumes "holds_text s cs" and "holds_text t ds"
  shows "(s < t \<longleftrightarrow> cs < ds) \<and> (s \<le> t \<longleftrightarrow> cs \<le> ds) \<and>
    String_greater s t = Some (cs > ds) \<and> String_greater_eq s t = Some (cs \<ge> ds) \<and>
    String_equals s t = Some (cs = ds)"
proof (intro conjI)
  have "0 \<notin> set cs" and "0 \<notin> set ds" using assms by (simp_all add: holds_no_zero)
  then have lt: "strcmp cs ds < 0 \<longleftrightarrow> cs < ds" and eq: "strcmp cs ds = 0 \<longleftrightarrow> cs = ds"
    by (simp_all add: strcmp_less strcmp_eq_0)
  then have le: "strcmp cs ds \<le> 0 \<longleftrightarrow> cs \<le> ds" by (auto simp: le_less)
  have cmp: "compareTo s t = Some (strcmp cs ds)" using assms by (rule compareTo_text)
  show "s < t \<longleftrightarrow> cs < ds" by (simp add: less_String_ext_def String_less_def cmp lt)
  show "s \<le> t \<longleftrightarrow> cs \<le> ds" by (simp add: less_eq_String_ext_def String_less_eq_def cmp le)
  have "0 < strcmp cs ds \<longleftrightarrow> ds < cs" using le by (metis not_le)
  then show "String_greater s t = Some (cs > ds)" by (simp add: String_greater_def cmp)
  have "0 \<le> strcmp cs ds \<longleftrightarrow> ds \<le> cs" using lt by (metis not_le)
  then show "String_greater_eq s t = Some (cs \<ge> ds)" by (simp add: String_greater_eq_def cmp)
  show "String_equals s t = Some (cs = ds)" using assms by (rule equals_text)
qed

text \<open>A string in the smallest buffer.\<close>

definition small_string :: "u8 list \<Rightarrow> String" where
  "small_string cs =
     \<lparr>sbuffer = Some (cs @ replicate (16 - length cs) 0), scapacity = 15, slen = length cs\<rparr>"

lemma holds_small: "length cs < 16 \<Longrightarrow> 0 \<notin> set cs \<Longrightarrow> holds_text (small_string cs) cs"
  by (cases "16 - length cs") (auto simp: small_string_def holds_text_iff)

lemma String_order_is_lexicographic_witness:
  "(small_string [97, 98] < small_string [98] \<longleftrightarrow> [97, 98 :: u8] < [98]) \<and>
   (small_string [97, 98] \<le> small_string [98] \<longleftrightarrow> [97, 98 :: u8] \<le> [98]) \<and>
   String_greater (small_string [97, 98]) (small_string [98]) = Some ([97, 98 :: u8] > [98]) \<and>
   String_greater_eq (small_string [97, 98]) (small_string [98]) = Some ([97, 98 :: u8] \<ge> [98]) \<and>
   String_equals (small_string [97, 98]) (small_string [98]) = Some ([97, 98 :: u8] = [98])"
  by (rule String_order_is_lexicographic) (rule holds_small; simp)+

section \<open>When memory runs out\<close>

text \<open>After a concatenation that got no memory the string has lost its text, although the header promises
  that it is left unchanged: the buffer is gone while the length stays, and the next
  concatenation that gets memory copies from the null pointer.\<close>

theorem failed_concat_loses_text:
  assumes "holds_text s cs" and "cs \<noteq> []" and "t \<noteq> []" and "0 \<notin> set t"
    and "storable (length cs + length t)" and "scapacity s < length cs + length t"
  shows "concat_cstr (\<lambda>_. False) (Some t) s = Some (False, s\<lparr>sbuffer := None\<rparr>) \<and>
    slen (s\<lparr>sbuffer := None\<rparr>) = length cs \<and>
    concat_cstr (\<lambda>_. True) (Some t) (s\<lparr>sbuffer := None\<rparr>) = None"
proof (intro conjI)
  have wrap: "wrap32 (slen s + length t) = length cs + length t"
    using assms(1,5) by (simp add: holds_len storable_def)
  show "slen (s\<lparr>sbuffer := None\<rparr>) = length cs" using assms(1) by (simp add: holds_len)
  show "concat_cstr (\<lambda>_. False) (Some t) s = Some (False, s\<lparr>sbuffer := None\<rparr>)"
    using assms(3,6) wrap
    by (simp add: concat_cstr_def concat_bytes_def String_reserve_def changeBuffer_def Let_def)
  show "concat_cstr (\<lambda>_. True) (Some t) (s\<lparr>sbuffer := None\<rparr>) = None"
    using assms(1-3)
    by (simp add: concat_cstr_def concat_bytes_def String_reserve_def changeBuffer_def Let_def holds_len)
qed

lemma failed_concat_loses_text_witness:
  "concat_cstr (\<lambda>_. False) (Some (replicate 14 97)) (small_string [98, 99]) =
     Some (False, small_string [98, 99]\<lparr>sbuffer := None\<rparr>) \<and>
   slen (small_string [98, 99]\<lparr>sbuffer := None\<rparr>) = length [98, 99 :: u8] \<and>
   concat_cstr (\<lambda>_. True) (Some (replicate 14 97)) (small_string [98, 99]\<lparr>sbuffer := None\<rparr>) = None"
  by (rule failed_concat_loses_text [where cs = "[98, 99]"])
    (simp_all add: holds_small storable_def, simp add: small_string_def)

text \<open>Assigning the result of a sum that got no memory to a string with a buffer copies from a null
  pointer.\<close>

theorem assign_failed_sum:
  assumes "holds_text a cs" and "t \<noteq> []" and "storable (length cs + length t)"
    and "scapacity a < length cs + length t" and "sbuffer s \<noteq> None"
  shows "\<exists>r. plus_cstr (\<lambda>_. False) (Some t) a = Some r \<and> String_assign_move r s = None"
proof -
  have "wrap32 (slen a + length t) = length cs + length t"
    using assms(1,3) by (simp add: holds_len storable_def)
  then have "plus_cstr (\<lambda>_. False) (Some t) a = Some String_init"
    using assms(2,4)
    by (simp add: plus_cstr_def concat_bytes_def String_reserve_def changeBuffer_def Let_def
        or_invalid_def String_invalidate_def)
  moreover have "String_assign_move String_init s = None"
    using assms(5) by (auto simp: String_assign_move_def String_move_def String_init_def)
  ultimately show ?thesis by blast
qed

lemma assign_failed_sum_witness:
  "\<exists>r. plus_cstr (\<lambda>_. False) (Some (replicate 14 97)) (small_string [98, 99]) = Some r \<and>
     String_assign_move r (small_string [100]) = None"
  by (rule assign_failed_sum [where cs = "[98, 99]"])
    (simp_all add: holds_small storable_def small_string_def [of "[100]"], simp add: small_string_def)

lemma strcpy_within_runs_away:
  "src < dst \<Longrightarrow> (\<And>j. src \<le> j \<Longrightarrow> j < dst \<Longrightarrow> j < length m \<Longrightarrow> m ! j \<noteq> 0) \<Longrightarrow>
   strcpy_within m dst src = None"
proof (induction m dst src rule: strcpy_within.induct)
  case (1 m dst src)
  show ?case
  proof (cases "dst < length m")
    case True
    then have nz: "m ! src \<noteq> 0" using "1.prems" by simp
    have "strcpy_within (m[dst := m ! src]) (dst + 1) (src + 1) = None"
    proof (rule "1.IH")
      fix j
      assume "src + 1 \<le> j" and "j < dst + 1" and "j < length (m[dst := m ! src])"
      then show "m[dst := m ! src] ! j \<noteq> 0"
        using nz "1.prems"(2) [of j] by (cases "j = dst") simp_all
    qed (use True nz "1.prems"(1) in simp_all)
    with nz show ?thesis by (simp add: strcpy_within.simps [of m dst src])
  next
    case False
    then show ?thesis by (simp add: strcpy_within.simps)
  qed
qed

text \<open>Appending a non-empty string to itself always leaves its buffers: either the source has been
  freed, or the copy overwrites the terminator it runs towards.\<close>

theorem concat_self_fails:
  assumes "holds_text s cs" and "cs \<noteq> []" and "storable (2 * length cs)" and "\<And>k. alloc k"
  shows "concat_self alloc s = None"
proof -
  have wrap: "wrap32 (slen s + slen s) = 2 * length cs"
    using assms(1,3) by (simp add: holds_len storable_def)
  obtain s1 m where r: "String_reserve alloc (2 * length cs) s = Some (True, s1)" "holds_text s1 cs"
    "2 * length cs \<le> scapacity s1" "sbuffer s1 = Some m"
    by (rule reserve_ok [OF assms(1,3,4)])
  from holds_memory [OF r(2,4)] obtain rest where m: "m = cs @ 0 # rest" by blast
  have "strcpy_within m (length cs) 0 = None"
  proof (rule strcpy_within_runs_away)
    fix j
    assume "j < length cs"
    then show "m ! j \<noteq> 0" using holds_no_zero [OF r(2)] by (simp add: m nth_append) (metis nth_mem)
  qed (use assms(2) in simp)
  moreover have "sbuffer s \<noteq> None" using holds_none [OF assms(1)] assms(2) by blast
  moreover have "slen s \<noteq> 0" using holds_len [OF assms(1)] assms(2) by simp
  moreover have "slen s1 = length cs" using r(2) by (rule holds_len)
  ultimately show ?thesis
    unfolding concat_self_def Let_def wrap r(1) bind.bind_lunit split_conv r(4) by (cases "2 * length cs \<le> scapacity s") simp_all
qed

lemma concat_self_fails_witness: "concat_self (\<lambda>_. True) (small_string [98, 99]) = None"
  by (rule concat_self_fails [where cs = "[98, 99]"]) (simp_all add: holds_small storable_def)

end
