(* ===== verification/WStringEdit.thy ===== *)
theory WStringEdit
  imports WString
begin

text \<open>
  \<open>WString.cpp\<close>, continued: the operations that change a string in place (\<open>replace\<close>, \<open>remove\<close>, the case
  changes, \<open>trim\<close>) and the conversion \<open>toInt\<close>. Loops over the buffer are partial functions on its bytes. The
  overlapping copies of \<open>replace\<close> and \<open>remove\<close> read their source before they write.
\<close>

section \<open>The code\<close>

text \<open>\<open>for(char *p = buffer; *p; p++) *p = f(*p);\<close>\<close>

partial_function (option) map_loop :: "(u8 \<Rightarrow> u8) \<Rightarrow> u8 list \<Rightarrow> nat \<Rightarrow> u8 list option" where
  "map_loop f m p = do {
     c \<leftarrow> get_byte m p;
     if c = 0 then Some m else map_loop f (m[p := f c]) (p + 1)
   }"

definition map_chars :: "(u8 \<Rightarrow> u8) \<Rightarrow> String \<Rightarrow> String option" where
  "map_chars f s =
     (case sbuffer s of None \<Rightarrow> Some s
      | Some m \<Rightarrow> map_option (\<lambda>m'. s\<lparr>sbuffer := Some m'\<rparr>) (map_loop f m 0))"

definition replace_char :: "u8 \<Rightarrow> u8 \<Rightarrow> String \<Rightarrow> String option" where
  "replace_char fnd repl s = map_chars (\<lambda>c. if c = fnd then repl else c) s"

definition toLowerCase :: "String \<Rightarrow> String option" where
  "toLowerCase s = map_chars tolower s"

definition toUpperCase :: "String \<Rightarrow> String option" where
  "toUpperCase s = map_chars toupper s"

text \<open>The loop of \<open>replace\<close> for texts of the same length.\<close>

partial_function (option) replace_same :: "u8 list \<Rightarrow> u8 list \<Rightarrow> u8 list \<Rightarrow> nat \<Rightarrow> u8 list option" where
  "replace_same fnd repl m readFrom = do {
     cs \<leftarrow> c_string m readFrom;
     case strstr fnd cs of
       None \<Rightarrow> Some m
     | Some n \<Rightarrow> do {
         m' \<leftarrow> memcpy m (readFrom + n) repl;
         replace_same fnd repl m' (readFrom + n + length repl)
       }
   }"

text \<open>The loop for a shorter replacement: the memory and the length after it.\<close>

partial_function (option) replace_shorter ::
  "u8 list \<Rightarrow> u8 list \<Rightarrow> u8 list \<Rightarrow> nat \<Rightarrow> nat \<Rightarrow> nat \<Rightarrow> (u8 list \<times> nat) option" where
  "replace_shorter fnd repl m readFrom writeTo l = do {
     cs \<leftarrow> c_string m readFrom;
     case strstr fnd cs of
       None \<Rightarrow> do { m' \<leftarrow> strcpy m writeTo cs; Some (m', l) }
     | Some n \<Rightarrow> do {
         m1 \<leftarrow> memcpy m writeTo (take n cs);
         m2 \<leftarrow> memcpy m1 (writeTo + n) repl;
         replace_shorter fnd repl m2 (readFrom + n + length fnd) (writeTo + n + length repl)
           (minus32 l (length fnd - length repl))
       }
   }"

text \<open>The loops for a longer one: the size, and the replacement from the last occurrence backwards.\<close>

partial_function (option) replaced_size :: "u8 list \<Rightarrow> u8 list \<Rightarrow> nat \<Rightarrow> nat \<Rightarrow> nat \<Rightarrow> nat option" where
  "replaced_size fnd m diff readFrom n = do {
     cs \<leftarrow> c_string m readFrom;
     case strstr fnd cs of
       None \<Rightarrow> Some n
     | Some k \<Rightarrow> replaced_size fnd m diff (readFrom + k + length fnd) (wrap32 (n + diff))
   }"

partial_function (option) replace_longer ::
  "String \<Rightarrow> u8 list \<Rightarrow> nat \<Rightarrow> int \<Rightarrow> String \<Rightarrow> String option" where
  "replace_longer fnd repl diff index s =
     (if index < 0 then Some s
      else do {
        i \<leftarrow> lastIndexOf_from fnd (nat index) s;
        if i < 0 then Some s
        else do {
          m \<leftarrow> sbuffer s;
          let readFrom = nat i + slen fnd;
          tail \<leftarrow> memread m readFrom (slen s - readFrom);
          m1 \<leftarrow> memcpy m (readFrom + diff) tail;
          m2 \<leftarrow> memcpy m1 (slen s + diff) [0];
          m3 \<leftarrow> memcpy m2 (nat i) repl;
          replace_longer fnd repl diff (i - 1) (s\<lparr>slen := slen s + diff, sbuffer := Some m3\<rparr>)
        }
      })"

definition bytes_of :: "String \<Rightarrow> u8 list option" where
  "bytes_of s = (case sbuffer s of None \<Rightarrow> if slen s = 0 then Some [] else None | Some r \<Rightarrow> memread r 0 (slen s))"

definition replace :: "(nat \<Rightarrow> bool) \<Rightarrow> String \<Rightarrow> String \<Rightarrow> String \<Rightarrow> String option" where
  "replace alloc fnd repl s =
     (if slen s = 0 \<or> slen fnd = 0 then Some s
      else do {
        m \<leftarrow> sbuffer s;
        f \<leftarrow> sbuffer fnd;
        pat \<leftarrow> c_string f 0;
        r \<leftarrow> bytes_of repl;
        if slen repl = slen fnd then do {
          m' \<leftarrow> replace_same pat r m 0;
          Some (s\<lparr>sbuffer := Some m'\<rparr>)
        }
        else if slen repl < slen fnd then do {
          (m', l) \<leftarrow> replace_shorter pat r m 0 0 (slen s);
          Some (s\<lparr>sbuffer := Some m', slen := l\<rparr>)
        }
        else do {
          n \<leftarrow> replaced_size pat m (slen repl - slen fnd) 0 (slen s);
          if n = slen s then Some s
          else if n \<le> scapacity s
          then replace_longer fnd r (slen repl - slen fnd) (int (slen s) - 1) s
          else do {
            (ok, s1) \<leftarrow> changeBuffer alloc n s;
            if ok then replace_longer fnd r (slen repl - slen fnd) (int (slen s1) - 1) s1
            else Some s1
          }
        }
      })"

definition remove_count :: "nat \<Rightarrow> nat \<Rightarrow> String \<Rightarrow> String option" where
  "remove_count index count s =
     (if slen s \<le> index \<or> count = 0 then Some s
      else let count = min count (slen s - index); l = slen s - count
           in do {
                m \<leftarrow> sbuffer s;
                cs \<leftarrow> c_string m (index + count);
                m1 \<leftarrow> memcpy m index (strncpy_bytes (l - index) cs);
                m2 \<leftarrow> memcpy m1 l [0];
                Some (s\<lparr>slen := l, sbuffer := Some m2\<rparr>)
              })"

definition remove_from :: "nat \<Rightarrow> String \<Rightarrow> String option" where
  "remove_from index s = remove_count index (2 ^ 32 - 1) s"

partial_function (option) skip_begin :: "u8 list \<Rightarrow> nat \<Rightarrow> nat option" where
  "skip_begin m i = do { c \<leftarrow> get_byte m i; if isspace c then skip_begin m (i + 1) else Some i }"

partial_function (option) skip_end :: "u8 list \<Rightarrow> nat \<Rightarrow> int \<Rightarrow> int option" where
  "skip_end m first stop = do {
     c \<leftarrow> (if stop < 0 then None else get_byte m (nat stop));
     if isspace c \<and> int first \<le> stop then skip_end m first (stop - 1) else Some stop
   }"

definition trim :: "String \<Rightarrow> String option" where
  "trim s =
     (if sbuffer s = None \<or> slen s = 0 then Some s
      else do {
        m \<leftarrow> sbuffer s;
        first \<leftarrow> skip_begin m 0;
        stop \<leftarrow> skip_end m first (int (slen s) - 1);
        let l = nat (stop + 1 - int first);
        bs \<leftarrow> memread m first l;
        m1 \<leftarrow> (if 0 < first then memcpy m 0 bs else Some m);
        m2 \<leftarrow> memcpy m1 l [0];
        Some (s\<lparr>slen := l, sbuffer := Some m2\<rparr>)
      })"

text \<open>\<open>atol\<close>: white space, a sign, digits; out of range it stays at the last value of the type.\<close>

definition isdigit :: "u8 \<Rightarrow> bool" where
  "isdigit c \<longleftrightarrow> 48 \<le> c \<and> c \<le> 57"

definition decimal :: "u8 list \<Rightarrow> int" where
  "decimal cs = foldl (\<lambda>v c. 10 * v + (uint c - 48)) 0 (takeWhile isdigit cs)"

definition atol :: "u8 list \<Rightarrow> int" where
  "atol text =
     (let v = (case dropWhile isspace text of
                 [] \<Rightarrow> 0
               | c # cs \<Rightarrow> if c = 45 then - decimal cs else if c = 43 then decimal cs else decimal (c # cs))
      in max (- (2 ^ 31)) (min (2 ^ 31 - 1) v))"

definition toInt :: "String \<Rightarrow> int option" where
  "toInt s = (case sbuffer s of None \<Rightarrow> Some 0 | Some m \<Rightarrow> map_option atol (c_string m 0))"

section \<open>Loops over a text in memory\<close>

lemma get_byte_at: "get_byte (pre @ c # rest) (length pre) = Some c"
  by (simp add: get_byte_def)

lemma map_loop_text:
  "0 \<notin> set cs \<Longrightarrow> map_loop f (pre @ cs @ 0 # rest) (length pre) = Some (pre @ map f cs @ 0 # rest)"
proof (induction cs arbitrary: pre)
  case Nil
  then show ?case by (simp add: map_loop.simps get_byte_at)
next
  case (Cons c cs)
  then show ?case
    using Cons.IH [of "pre @ [f c]"]
    by (subst map_loop.simps) (simp add: get_byte_at list_update_append)
qed

lemma map_chars_text:
  assumes "holds_text s cs" and "\<And>c. c \<in> set cs \<Longrightarrow> f c \<noteq> 0"
  shows "\<exists>s'. map_chars f s = Some s' \<and> holds_text s' (map f cs)"
proof (cases "sbuffer s")
  case None
  with assms(1) show ?thesis by (auto simp: map_chars_def dest: holds_no_memory)
next
  case (Some m)
  from holds_memory [OF assms(1) Some] obtain rest where m: "m = cs @ 0 # rest" by blast
  have "map_loop f m 0 = Some (map f cs @ 0 # rest)"
    using map_loop_text [of cs f "[]" rest] holds_no_zero [OF assms(1)] by (simp add: m)
  moreover have "holds_text (s\<lparr>sbuffer := Some (map f cs @ 0 # rest)\<rparr>) (map f cs)"
    using assms Some m by (force simp: holds_text_iff)
  ultimately show ?thesis using Some by (simp add: map_chars_def)
qed

lemma not_space_0 [simp]: "\<not> isspace 0"
  by (simp add: isspace_def)

lemma skip_begin_text:
  "skip_begin (pre @ cs @ 0 # rest) (length pre) = Some (length pre + length (takeWhile isspace cs))"
proof (induction cs arbitrary: pre)
  case Nil
  then show ?case by (simp add: skip_begin.simps get_byte_at)
next
  case (Cons c cs)
  then show ?case
    using Cons.IH [of "pre @ [c]"] by (subst skip_begin.simps) (simp add: get_byte_at)
qed

definition rstrip :: "u8 list \<Rightarrow> u8 list" where
  "rstrip cs = rev (dropWhile isspace (rev cs))"

lemma rstrip_snoc: "rstrip (cs @ [c]) = (if isspace c then rstrip cs else cs @ [c])"
  by (simp add: rstrip_def)

lemma skip_end_text:
  assumes "first \<le> n" and "0 < n" and "n \<le> length cs" and "first < n \<Longrightarrow> \<not> isspace (cs ! first)"
  shows "skip_end (cs @ rest) first (int n - 1) = Some (int (first + length (rstrip (drop first (take n cs)))) - 1)"
  using assms
proof (induction n)
  case (Suc n)
  have byte: "get_byte (cs @ rest) n = Some (cs ! n)"
    using Suc.prems(3) by (simp add: get_byte_def nth_append)
  show ?case
  proof (cases "first \<le> n")
    case True
    then have "drop first (take (Suc n) cs) = drop first (take n cs) @ [cs ! n]"
      using Suc.prems(3) by (simp add: take_Suc_conv_app_nth)
    then have strip: "rstrip (drop first (take (Suc n) cs)) =
        (if isspace (cs ! n) then rstrip (drop first (take n cs)) else drop first (take n cs) @ [cs ! n])"
      by (simp add: rstrip_snoc)
    show ?thesis
    proof (cases "isspace (cs ! n)")
      case space: True
      then have "first < n" using True Suc.prems(4) by (cases "first = n") auto
      then have "skip_end (cs @ rest) first (int n - 1) =
          Some (int (first + length (rstrip (drop first (take n cs)))) - 1)"
        using Suc.IH Suc.prems(3,4) by simp
      then show ?thesis using True space strip byte by (subst skip_end.simps) simp
    next
      case False
      then show ?thesis using True Suc.prems(3) strip byte by (subst skip_end.simps) simp
    qed
  next
    case False
    with Suc.prems(1) have "first = Suc n" by simp
    then show ?thesis using byte by (subst skip_end.simps) (simp add: rstrip_def)
  qed
qed simp

text \<open>Cutting the text of a string down to a part of it.\<close>

lemma cut_buffer:
  assumes "holds_text s cs" and "sbuffer s = Some m" and "0 \<notin> set ds" and "m' = ds @ 0 # rest"
    and "length m' = length m"
  shows "holds_text (s\<lparr>slen := length ds, sbuffer := Some m'\<rparr>) ds"
  using assms holds_memory [OF assms(1,2)] by (auto simp: holds_text_iff)

lemma remove_count_text:
  assumes "holds_text s cs"
  shows "\<exists>s'. remove_count i n s = Some s' \<and> holds_text s' (take i cs @ drop (i + n) cs)"
proof (cases "length cs \<le> i \<or> n = 0")
  case True
  then show ?thesis using assms by (auto simp: remove_count_def holds_len)
next
  case False
  define k where "k = min n (length cs - i)"
  have l: "i + k \<le> length cs" using False unfolding k_def by linarith
  obtain m where m: "sbuffer s = Some m"
    using False holds_none [OF assms] by (cases "sbuffer s") auto
  from holds_memory [OF assms m] obtain rest where mem: "m = cs @ 0 # rest" by blast
  have str: "c_string m (i + k) = Some (drop (i + k) cs)"
    using holds_c_string [OF assms m l] .
  have strn: "strncpy_bytes (length cs - k - i) (drop (i + k) cs) = drop (i + k) cs"
    using l by (simp add: strncpy_bytes_def)
  let ?t = "take i cs @ drop (i + k) cs"
  let ?m1 = "?t @ drop (length cs - k) m"
  have m1: "memcpy m i (drop (i + k) cs) = Some ?m1"
    using False l by (simp add: memcpy_def store_def mem)
  have m2: "memcpy ?m1 (length cs - k) [0] = Some (?t @ 0 # drop (Suc (length cs - k)) m)"
    using False l by (simp add: memcpy_def store_def mem)
  have "0 \<notin> set ?t"
    using holds_no_zero [OF assms] by (auto dest: in_set_takeD in_set_dropD)
  then have "holds_text (s\<lparr>slen := length ?t, sbuffer := Some (?t @ 0 # drop (Suc (length cs - k)) m)\<rparr>) ?t"
    using False l by (intro cut_buffer [OF assms m _ refl]) (simp_all add: mem)
  moreover have "remove_count i n s =
      Some (s\<lparr>slen := length ?t, sbuffer := Some (?t @ 0 # drop (Suc (length cs - k)) m)\<rparr>)"
    using False l str strn m1 m2 m
    by (simp add: remove_count_def Let_def holds_len [OF assms] flip: k_def)
  moreover have "?t = take i cs @ drop (i + n) cs" by (simp add: k_def min_def)
  ultimately show ?thesis by metis
qed

lemma strip_parts:
  "drop (length (takeWhile isspace cs)) cs = dropWhile isspace cs"
  by (simp add: dropWhile_eq_drop)

lemma rstrip_prefix: "\<exists>sp. cs = rstrip cs @ sp"
  by (metis rev_append rev_rev_ident rstrip_def takeWhile_dropWhile_id)

lemma trim_text:
  assumes "holds_text s cs"
  shows "\<exists>s'. trim s = Some s' \<and> holds_text s' (rstrip (dropWhile isspace cs))"
proof (cases "cs = []")
  case True
  then show ?thesis using assms by (auto simp: trim_def holds_len rstrip_def)
next
  case False
  obtain m where m: "sbuffer s = Some m"
    using False holds_none [OF assms] by (cases "sbuffer s") auto
  from holds_memory [OF assms m] obtain rest where mem: "m = cs @ 0 # rest" by blast
  define first where "first = length (takeWhile isspace cs)"
  have le: "first \<le> length cs" by (simp add: first_def length_takeWhile_le)
  define t where "t = rstrip (dropWhile isspace cs)"
  obtain sp where sp: "dropWhile isspace cs = t @ sp" using rstrip_prefix by (metis t_def)
  then have cs: "cs = take first cs @ t @ sp"
    by (metis append_take_drop_id first_def strip_parts)
  have b: "skip_begin m 0 = Some first"
    using skip_begin_text [of "[]" cs rest] by (simp add: mem first_def)
  have "skip_end (cs @ 0 # rest) first (int (length cs) - 1) =
      Some (int (first + length (rstrip (drop first (take (length cs) cs)))) - 1)"
    using False le by (intro skip_end_text) (simp_all add: first_def nth_length_takeWhile)
  then have e: "skip_end m first (int (slen s) - 1) = Some (int (first + length t) - 1)"
    by (simp add: mem holds_len [OF assms] t_def first_def strip_parts)
  have l: "first + length t \<le> length cs"
  proof -
    have "length (take first cs) = first" using le by simp
    then show ?thesis using arg_cong [OF cs, of length] by (simp only: length_append)
  qed
  have r: "memread m first (length t) = Some t"
  proof -
    have "take (length t) (drop first cs) = t" using le by (subst cs) simp
    then show ?thesis using l by (simp add: memread_def load_def mem)
  qed
  have c: "(if 0 < first then memcpy m 0 t else Some m) = Some (t @ drop (length t) m)"
  proof (cases "0 < first")
    case True
    then show ?thesis using l by (simp add: memcpy_def store_def mem)
  next
    case False
    then have "cs = t @ sp" using cs by simp
    then show ?thesis using False by (simp add: mem)
  qed
  have z: "memcpy (t @ drop (length t) m) (length t) [0] = Some (t @ 0 # drop (Suc (length t)) m)"
    using l by (simp add: memcpy_def store_def mem)
  have "0 \<notin> set t" using holds_no_zero [OF assms] by (subst (asm) cs) simp
  then have "holds_text (s\<lparr>slen := length t, sbuffer := Some (t @ 0 # drop (Suc (length t)) m)\<rparr>) t"
    using l by (intro cut_buffer [OF assms m _ refl]) (simp_all add: mem)
  moreover have "trim s = Some (s\<lparr>slen := length t, sbuffer := Some (t @ 0 # drop (Suc (length t)) m)\<rparr>)"
    using False m b e r c z by (simp add: trim_def holds_len [OF assms] Let_def)
  ultimately show ?thesis by (auto simp: t_def)
qed

section \<open>Replacing\<close>

text \<open>What \<open>replace\<close> is to do: the occurrences from the left, without overlaps.\<close>

function replace_all :: "u8 list \<Rightarrow> u8 list \<Rightarrow> u8 list \<Rightarrow> u8 list" where
  "replace_all fnd repl cs =
     (case strstr fnd cs of
        None \<Rightarrow> cs
      | Some n \<Rightarrow> if fnd = [] then cs
                  else take n cs @ repl @ replace_all fnd repl (drop (n + length fnd) cs))"
  by pat_completeness auto
termination
proof (relation "measure (\<lambda>(fnd, repl, cs). length cs)")
  fix fnd repl cs :: "u8 list" and n
  assume "strstr fnd cs = Some n" and ne: "fnd \<noteq> []"
  then have "prefix fnd (drop n cs)" and "n \<le> length cs" by (simp_all add: strstr_Some)
  then have "length fnd \<le> length cs - n" by (auto dest: prefix_length_le)
  moreover have "0 < length fnd" using ne by simp
  ultimately show "((fnd, repl, drop (n + length fnd) cs), (fnd, repl, cs)) \<in> measure (\<lambda>(fnd, repl, cs). length cs)"
    by (simp only: in_measure split_conv length_drop)
qed simp

declare replace_all.simps [simp del]

lemma occurrence:
  assumes "strstr fnd cs = Some n"
  obtains tail where "cs = take n cs @ fnd @ tail" and "drop (n + length fnd) cs = tail"
    and "n + length fnd \<le> length cs"
proof -
  from assms obtain tail where t: "drop n cs = fnd @ tail"
    by (auto simp: strstr_Some prefix_def)
  then have "cs = take n cs @ fnd @ tail" by (metis append_take_drop_id)
  moreover have "drop (n + length fnd) cs = tail"
    by (metis add.commute append_eq_conv_conj drop_drop t)
  moreover have "n + length fnd \<le> length cs"
  proof -
    have "n \<le> length cs" using assms by (simp add: strstr_Some)
    then show ?thesis using arg_cong [OF t, of length] by simp
  qed
  ultimately show ?thesis by (rule that)
qed

lemma replace_all_step:
  assumes "strstr fnd cs = Some n" and "fnd \<noteq> []"
  shows "replace_all fnd repl cs = take n cs @ repl @ replace_all fnd repl (drop (n + length fnd) cs)"
  using assms by (subst replace_all.simps) simp

lemma replace_all_none: "strstr fnd cs = None \<Longrightarrow> replace_all fnd repl cs = cs"
  by (subst replace_all.simps) simp

lemma replace_all_no_zero:
  "0 \<notin> set cs \<Longrightarrow> 0 \<notin> set repl \<Longrightarrow> 0 \<notin> set (replace_all fnd repl cs)"
proof (induction fnd repl cs rule: replace_all.induct)
  case (1 fnd repl cs)
  show ?case
  proof (cases "strstr fnd cs")
    case None
    then show ?thesis using 1 by (simp add: replace_all_none)
  next
    case (Some n)
    have "0 \<notin> set (replace_all fnd repl (drop (n + length fnd) cs))" if "fnd \<noteq> []"
      using "1.IH" [OF Some that] "1.prems" by (meson in_set_dropD)
    then show ?thesis
      using 1 Some by (subst replace_all.simps) (auto dest: in_set_takeD)
  qed
qed

lemma length_replace_all:
  "length repl \<le> length fnd \<Longrightarrow> length (replace_all fnd repl cs) \<le> length cs"
proof (induction fnd repl cs rule: replace_all.induct)
  case (1 fnd repl cs)
  show ?case
  proof (cases "strstr fnd cs")
    case None
    then show ?thesis by (simp add: replace_all_none)
  next
    case (Some n)
    then have "n + length fnd \<le> length cs" by (blast elim: occurrence)
    moreover have "length (replace_all fnd repl (drop (n + length fnd) cs)) \<le> length cs - (n + length fnd)"
      if "fnd \<noteq> []" using "1.IH" [OF Some that "1.prems"] by simp
    ultimately show ?thesis
      using Some "1.prems" by (cases "fnd = []") (simp_all add: replace_all_step, simp add: replace_all.simps)
  qed
qed

lemma c_string_at:
  assumes "0 \<notin> set cs"
  shows "c_string (pre @ cs @ 0 # rest) (length pre) = Some cs"
proof -
  have "c_string (pre @ cs @ 0 # rest) (length pre) = c_string (cs @ 0 # rest) 0"
    by (simp add: c_string_def)
  with assms show ?thesis by simp
qed

lemma same_length: "length repl = length fnd \<Longrightarrow> length (replace_all fnd repl cs) = length cs"
proof (induction fnd repl cs rule: replace_all.induct)
  case (1 fnd repl cs)
  show ?case
  proof (cases "strstr fnd cs")
    case None
    then show ?thesis by (simp add: replace_all_none)
  next
    case (Some n)
    then have "n + length fnd \<le> length cs" by (blast elim: occurrence)
    then show ?thesis
      using 1 Some by (cases "fnd = []") (simp_all add: replace_all_step, simp add: replace_all.simps)
  qed
qed

lemma replace_same_text:
  assumes "length repl = length fnd" and "fnd \<noteq> []" and "0 \<notin> set cs"
  shows "replace_same fnd repl (pre @ cs @ 0 # rest) (length pre) = Some (pre @ replace_all fnd repl cs @ 0 # rest)"
  using assms
proof (induction fnd repl cs arbitrary: pre rule: replace_all.induct)
  case (1 fnd repl cs)
  have str: "c_string (pre @ cs @ 0 # rest) (length pre) = Some cs"
    using "1.prems"(3) by (rule c_string_at)
  show ?case
  proof (cases "strstr fnd cs")
    case None
    then show ?thesis by (subst replace_same.simps) (simp add: str replace_all_none)
  next
    case (Some n)
    then obtain tail where t: "cs = take n cs @ fnd @ tail" "drop (n + length fnd) cs = tail"
      "n + length fnd \<le> length cs" by (rule occurrence)
    have "memcpy (pre @ cs @ 0 # rest) (length pre + n) repl = Some ((pre @ take n cs @ repl) @ tail @ 0 # rest)"
      using t(2,3) "1.prems"(1) by (simp add: memcpy_def store_def)
    moreover have "replace_same fnd repl ((pre @ take n cs @ repl) @ tail @ 0 # rest)
        (length (pre @ take n cs @ repl)) =
        Some ((pre @ take n cs @ repl) @ replace_all fnd repl tail @ 0 # rest)"
      using "1.IH" [OF Some "1.prems"(2), of "pre @ take n cs @ repl"] "1.prems" t
      by (metis Un_iff set_append)
    moreover have "length (pre @ take n cs @ repl) = length pre + n + length repl" using t(3) by simp
    ultimately show ?thesis
      using Some "1.prems"(2) t(2)
      by (subst replace_same.simps) (simp add: str replace_all_step add.assoc)
  qed
qed

lemma memcpy_at:
  "length bs \<le> length zs \<Longrightarrow> memcpy (xs @ zs) (length xs) bs = Some (xs @ bs @ drop (length bs) zs)"
  by (simp add: memcpy_def store_def)

lemma split_at: "drop k zs = ys \<Longrightarrow> zs = take k zs @ ys"
  by (metis append_take_drop_id)

lemma replace_shorter_text:
  assumes "length repl < length fnd" and "fnd \<noteq> []" and "0 \<notin> set cs" and "length cs \<le> l" and "l < 2 ^ 32"
  shows "\<exists>rest'. length (pre @ gap @ cs @ 0 # rest) = length (pre @ replace_all fnd repl cs @ 0 # rest') \<and>
    replace_shorter fnd repl (pre @ gap @ cs @ 0 # rest) (length (pre @ gap)) (length pre) l =
      Some (pre @ replace_all fnd repl cs @ 0 # rest', l - (length cs - length (replace_all fnd repl cs)))"
  using assms
proof (induction fnd repl cs arbitrary: pre gap l rule: replace_all.induct)
  case (1 fnd repl cs)
  let ?m = "pre @ gap @ cs @ 0 # rest"
  have str: "c_string ?m (length (pre @ gap)) = Some cs"
    using c_string_at [OF "1.prems"(3), of "pre @ gap" rest] by simp
  show ?case
  proof (cases "strstr fnd cs")
    case None
    let ?rest = "drop (Suc (length cs)) (gap @ cs @ 0 # rest)"
    have "strcpy ?m (length pre) cs = Some (pre @ cs @ 0 # ?rest)"
      by (subst strcpy_in) simp_all
    then have "replace_shorter fnd repl ?m (length (pre @ gap)) (length pre) l = Some (pre @ cs @ 0 # ?rest, l)"
      by (subst replace_shorter.simps) (simp only: str None option.case bind.bind_lunit)
    then show ?thesis
      by (intro exI [of _ ?rest]) (simp add: replace_all_none [OF None] del: drop_append)
  next
    case (Some n)
    then obtain tail where t: "cs = take n cs @ fnd @ tail" "drop (n + length fnd) cs = tail"
      "n + length fnd \<le> length cs" by (rule occurrence)
    let ?X = "gap @ cs @ 0 # rest"
    define gap' where "gap' = take (length gap + length fnd - length repl) (drop (n + length repl) ?X)"
    have gap': "drop (n + length repl) ?X = gap' @ tail @ 0 # rest"
    proof -
      have sum: "length gap + length fnd - length repl + (n + length repl) = length gap + (n + length fnd)"
        using "1.prems"(1) by simp
      have "drop (length gap + length fnd - length repl) (drop (n + length repl) ?X) =
          drop (length gap + (n + length fnd)) ?X"
        by (simp only: drop_drop sum)
      also have "\<dots> = tail @ 0 # rest" using t(2,3) by simp
      finally show ?thesis unfolding gap'_def by (rule split_at)
    qed
    have lg: "length gap' = length gap + length fnd - length repl"
      using t(3) "1.prems"(1) by (simp add: gap'_def min_def del: drop_append take_append)
    have tn: "length (take n cs) = n" using t(3) by simp
    have m1: "memcpy ?m (length pre) (take n cs) = Some (pre @ take n cs @ drop n ?X)"
      using memcpy_at [of "take n cs" ?X pre] tn t(3) by (simp del: drop_append)
    have "drop (length repl) (drop n ?X) = gap' @ tail @ 0 # rest"
      using gap' by (simp only: drop_drop add.commute)
    then have m2: "memcpy (pre @ take n cs @ drop n ?X) (length pre + n) repl =
        Some ((pre @ take n cs @ repl) @ gap' @ tail @ 0 # rest)"
      using memcpy_at [of repl "drop n ?X" "pre @ take n cs"] tn t(3) "1.prems"(1)
      by (simp del: drop_append length_take)
    have l: "minus32 l (length fnd - length repl) = l - (length fnd - length repl)"
      using t(3) "1.prems"(4,5) by (intro minus32_simps) simp_all
    have z: "0 \<notin> set tail" using "1.prems"(3) by (subst (asm) t(1)) simp
    have lt: "length tail + (n + length fnd) = length cs" using t(2,3) by auto
    have room: "length tail \<le> l - (length fnd - length repl)" "l - (length fnd - length repl) < 2 ^ 32"
      using lt "1.prems"(1,4,5) by linarith+
    obtain rest' where ih:
      "length ((pre @ take n cs @ repl) @ gap' @ tail @ 0 # rest) =
        length ((pre @ take n cs @ repl) @ replace_all fnd repl tail @ 0 # rest')"
      "replace_shorter fnd repl ((pre @ take n cs @ repl) @ gap' @ tail @ 0 # rest)
        (length ((pre @ take n cs @ repl) @ gap')) (length (pre @ take n cs @ repl)) (l - (length fnd - length repl)) =
        Some ((pre @ take n cs @ repl) @ replace_all fnd repl tail @ 0 # rest',
          l - (length fnd - length repl) - (length tail - length (replace_all fnd repl tail)))"
      using "1.IH" [OF Some "1.prems"(2,1,2), unfolded t(2), OF z room, of "pre @ take n cs @ repl" gap']
      by blast
    have pos: "length ((pre @ take n cs @ repl) @ gap') = length (pre @ gap) + n + length fnd"
      "length (pre @ take n cs @ repl) = length pre + n + length repl"
      using lg t(3) "1.prems"(1) by simp_all
    have step: "replace_shorter fnd repl ?m (length (pre @ gap)) (length pre) l =
        replace_shorter fnd repl ((pre @ take n cs @ repl) @ gap' @ tail @ 0 # rest)
          (length (pre @ gap) + n + length fnd) (length pre + n + length repl) (l - (length fnd - length repl))"
      by (subst replace_shorter.simps) (simp only: str Some option.case bind.bind_lunit m1 m2 l)
    have len: "l - (length fnd - length repl) - (length tail - length (replace_all fnd repl tail)) =
        l - (length cs - length (replace_all fnd repl cs))"
    proof -
      have "length (replace_all fnd repl cs) = n + length repl + length (replace_all fnd repl tail)"
        using Some "1.prems"(2) t(2) tn by (simp add: replace_all_step)
      moreover have "length (replace_all fnd repl tail) \<le> length tail"
        using "1.prems"(1) by (intro length_replace_all) simp
      ultimately show ?thesis using lt "1.prems"(1,4) by linarith
    qed
    have all: "replace_all fnd repl cs = take n cs @ repl @ replace_all fnd repl tail"
      using Some "1.prems"(2) t(2) by (simp add: replace_all_step)
    have same: "length ?m = length ((pre @ take n cs @ repl) @ gap' @ tail @ 0 # rest)"
      using lg t(2,3) "1.prems"(1) by auto
    show ?thesis
      using ih unfolding step pos [symmetric] same len all by (intro exI [of _ rest']) simp
  qed
qed

lemma replace_text:
  assumes "holds_text s cs" and "holds_text fnd f" and "holds_text repl r" and "length r \<le> length f"
  shows "\<exists>s'. replace alloc fnd repl s = Some s' \<and> holds_text s' (replace_all f r cs)"
proof (cases "cs = [] \<or> f = []")
  case True
  have "strstr f [] = None" if "f \<noteq> []" using that by simp
  with True have "replace_all f r cs = cs"
    by (cases "f = []") (auto simp: replace_all.simps split: option.split)
  with True show ?thesis
    using assms(1,2) by (auto simp: replace_def holds_len)
next
  case False
  obtain m where m: "sbuffer s = Some m"
    using False holds_none [OF assms(1)] by (cases "sbuffer s") auto
  from holds_memory [OF assms(1) m] obtain rest where mem: "m = cs @ 0 # rest" "length m < 2 ^ 32" by blast
  obtain b where b: "sbuffer fnd = Some b"
    using False holds_none [OF assms(2)] by (cases "sbuffer fnd") auto
  have bytes: "bytes_of repl = Some r"
  proof (cases "sbuffer repl")
    case None
    then show ?thesis using assms(3) holds_none [OF assms(3)] by (simp add: bytes_of_def holds_len)
  next
    case (Some k)
    with holds_memory [OF assms(3)] obtain rest' where "k = r @ 0 # rest'" by blast
    with Some show ?thesis by (simp add: bytes_of_def memread_def load_def holds_len [OF assms(3)])
  qed
  have pat: "c_string b 0 = Some f" using holds_c_string0 [OF assms(2) b] .
  have zs: "0 \<notin> set cs" "0 \<notin> set (replace_all f r cs)"
    using holds_no_zero assms(1,3) replace_all_no_zero by metis+
  have lens: "slen s = length cs" "slen fnd = length f" "slen repl = length r"
    using assms(1-3) by (simp_all add: holds_len)
  have ne: "length cs \<noteq> 0" "length f \<noteq> 0" using False by simp_all
  show ?thesis
  proof (cases "length r = length f")
    case True
    have same: "length (replace_all f r cs) = length cs"
      using True by (rule same_length)
    have "replace_same f r m 0 = Some (replace_all f r cs @ 0 # rest)"
      using replace_same_text [OF True _ zs(1), of "[]" rest] False by (simp add: mem)
    then have "replace alloc fnd repl s = Some (s\<lparr>sbuffer := Some (replace_all f r cs @ 0 # rest)\<rparr>)"
      using True ne by (simp add: replace_def lens m b pat bytes)
    moreover have "holds_text (s\<lparr>sbuffer := Some (replace_all f r cs @ 0 # rest)\<rparr>) (replace_all f r cs)"
      using cut_buffer [OF assms(1) m zs(2) refl, of rest] same lens(1) mem(1) by (simp add: holds_text_def)
    ultimately show ?thesis by blast
  next
    case False
    with assms(4) have less: "length r < length f" by simp
    have "length cs < 2 ^ 32" using mem by simp
    then obtain rest' where sh: "length m = length (replace_all f r cs @ 0 # rest')"
      "replace_shorter f r m 0 0 (length cs) =
        Some (replace_all f r cs @ 0 # rest', length cs - (length cs - length (replace_all f r cs)))"
      using replace_shorter_text [OF less _ zs(1) le_refl, of "[]" "[]" rest] ne(2) mem(1) by auto
    have "length (replace_all f r cs) \<le> length cs" using assms(4) by (rule length_replace_all)
    then have "replace alloc fnd repl s =
        Some (s\<lparr>sbuffer := Some (replace_all f r cs @ 0 # rest'), slen := length (replace_all f r cs)\<rparr>)"
      using less ne sh(2) by (simp add: replace_def lens m b pat bytes)
    moreover have "holds_text (s\<lparr>sbuffer := Some (replace_all f r cs @ 0 # rest'),
        slen := length (replace_all f r cs)\<rparr>) (replace_all f r cs)"
      using cut_buffer [OF assms(1) m zs(2) refl, of rest'] sh(1) by (simp add: holds_text_def)
    ultimately show ?thesis by blast
  qed
qed

lemma setCharAt_text:
  assumes "holds_text s cs" and "c \<noteq> 0"
  shows "\<exists>s'. setCharAt i c s = Some s' \<and> holds_text s' (cs[i := c])"
proof (cases "i < length cs")
  case True
  then obtain m where m: "sbuffer s = Some m"
    using holds_none [OF assms(1)] by (cases "sbuffer s") auto
  from holds_memory [OF assms(1) m] obtain rest where mem: "m = cs @ 0 # rest" by blast
  have w: "memcpy m i [c] = Some (cs[i := c] @ 0 # rest)"
    using True by (simp add: memcpy_def store_def mem upd_conv_take_nth_drop)
  have "0 \<notin> set (cs[i := c])"
    using holds_no_zero [OF assms(1)] assms(2) set_update_subset_insert [of cs i c] by auto
  then have "holds_text (s\<lparr>sbuffer := Some (cs[i := c] @ 0 # rest)\<rparr>) (cs[i := c])"
    using cut_buffer [OF assms(1) m _ refl, of "cs[i := c]" rest] mem holds_len [OF assms(1)]
    by (simp add: holds_text_def)
  then show ?thesis using True m w by (simp add: setCharAt_def holds_len [OF assms(1)])
next
  case False
  then show ?thesis using assms(1) by (simp add: setCharAt_def holds_len list_update_beyond)
qed

section \<open>Programs of edits\<close>

text \<open>What a client does with a string, as a list of edits; \<open>Cut l r\<close> is \<open>s = s.substring(l, r)\<close>.\<close>

datatype edit =
    Assign "u8 list" | Append "u8 list" | AppendChar u8 | SetChar nat u8 | Cut nat nat
  | Remove nat nat | Lower | Upper | Trim | Change u8 u8 | Replace "u8 list" "u8 list"

fun run_edit :: "(nat \<Rightarrow> bool) \<Rightarrow> edit \<Rightarrow> String \<Rightarrow> String option" where
  "run_edit alloc (Assign t) s = String_assign_cstr alloc (Some t) s"
| "run_edit alloc (Append t) s = map_option snd (concat_cstr alloc (Some t) s)"
| "run_edit alloc (AppendChar c) s = map_option snd (concat_char alloc c s)"
| "run_edit alloc (SetChar i c) s = setCharAt i c s"
| "run_edit alloc (Cut l r) s = do { u \<leftarrow> substring alloc l r s; map_option fst (String_assign_move u s) }"
| "run_edit alloc (Remove i n) s = remove_count i n s"
| "run_edit alloc Lower s = toLowerCase s"
| "run_edit alloc Upper s = toUpperCase s"
| "run_edit alloc Trim s = trim s"
| "run_edit alloc (Change a b) s = replace_char a b s"
| "run_edit alloc (Replace a b) s = do {
     f \<leftarrow> String_of_cstr alloc (Some a);
     r \<leftarrow> String_of_cstr alloc (Some b);
     replace alloc f r s
   }"

text \<open>The same on texts.\<close>

fun edit_text :: "edit \<Rightarrow> u8 list \<Rightarrow> u8 list" where
  "edit_text (Assign t) cs = t"
| "edit_text (Append t) cs = cs @ t"
| "edit_text (AppendChar c) cs = cs @ [c]"
| "edit_text (SetChar i c) cs = cs[i := c]"
| "edit_text (Cut l r) cs = drop l (take r cs)"
| "edit_text (Remove i n) cs = take i cs @ drop (i + n) cs"
| "edit_text Lower cs = map tolower cs"
| "edit_text Upper cs = map toupper cs"
| "edit_text Trim cs = rstrip (dropWhile isspace cs)"
| "edit_text (Change a b) cs = map (\<lambda>c. if c = a then b else c) cs"
| "edit_text (Replace a b) cs = replace_all a b cs"

text \<open>Edits without zero characters, texts within the range of the sizes, and replacements that do not grow.\<close>

fun proper_edit :: "edit \<Rightarrow> u8 list \<Rightarrow> bool" where
  "proper_edit (Assign t) cs \<longleftrightarrow> 0 \<notin> set t \<and> storable (length t)"
| "proper_edit (Append t) cs \<longleftrightarrow> 0 \<notin> set t \<and> storable (length cs + length t)"
| "proper_edit (AppendChar c) cs \<longleftrightarrow> c \<noteq> 0 \<and> storable (length cs + 1)"
| "proper_edit (SetChar i c) cs \<longleftrightarrow> c \<noteq> 0"
| "proper_edit (Cut l r) cs \<longleftrightarrow> l \<le> r \<and> storable (length cs)"
| "proper_edit (Change a b) cs \<longleftrightarrow> b \<noteq> 0"
| "proper_edit (Replace a b) cs \<longleftrightarrow> 0 \<notin> set a \<and> 0 \<notin> set b \<and> storable (length a) \<and> length b \<le> length a"
| "proper_edit _ cs \<longleftrightarrow> True"

fun proper_edits :: "edit list \<Rightarrow> u8 list \<Rightarrow> bool" where
  "proper_edits [] cs \<longleftrightarrow> True"
| "proper_edits (e # es) cs \<longleftrightarrow> proper_edit e cs \<and> proper_edits es (edit_text e cs)"

fun run_edits :: "(nat \<Rightarrow> bool) \<Rightarrow> edit list \<Rightarrow> String \<Rightarrow> String option" where
  "run_edits alloc [] s = Some s"
| "run_edits alloc (e # es) s = do { s' \<leftarrow> run_edit alloc e s; run_edits alloc es s' }"

lemma tolower_ne: "c \<noteq> 0 \<Longrightarrow> tolower c \<noteq> 0"
proof -
  assume "c \<noteq> 0"
  moreover have "c + 32 \<noteq> 0" if "c \<le> 90" for c :: u8
  proof
    assume "c + 32 = 0"
    then have "c = - 32" by (simp add: eq_neg_iff_add_eq_0)
    with that show False by simp
  qed
  ultimately show ?thesis by (auto simp: tolower_def)
qed

lemma toupper_ne: "c \<noteq> 0 \<Longrightarrow> toupper c \<noteq> 0"
  by (auto simp: toupper_def)

lemma run_edit_text:
  assumes "holds_text s cs" and "proper_edit e cs" and "\<And>k. alloc k"
  shows "\<exists>s'. run_edit alloc e s = Some s' \<and> holds_text s' (edit_text e cs)"
proof (cases e)
  case (Assign t)
  with assms copy_spec [OF assms(1), of t alloc] show ?thesis by (auto simp: String_assign_cstr_def)
next
  case (Append t)
  with assms concat_spec [OF assms(1), of t alloc] show ?thesis by (auto simp: concat_cstr_def)
next
  case (AppendChar c)
  with assms(2) have "c_string [c, 0] 0 = Some [c]" by (simp add: c_string_def)
  with AppendChar assms concat_spec [OF assms(1), of "[c]" alloc] show ?thesis
    by (auto simp: concat_char_def)
next
  case (SetChar i c)
  with assms show ?thesis by (simp add: setCharAt_text)
next
  case (Cut l r)
  with assms(2) have "l \<le> r" and "storable (length cs)" by simp_all
  from substring_text [where alloc = alloc, OF assms(1,3) this]
  obtain u where "substring alloc l r s = Some u" "holds_text u (drop l (take r cs))" "sbuffer u \<noteq> None"
    by blast
  with move_text [OF assms(1)] Cut show ?thesis by (fastforce simp: String_assign_move_def)
next
  case (Remove i n)
  with assms(1) show ?thesis by (simp add: remove_count_text)
next
  case Lower
  have "\<And>c. c \<in> set cs \<Longrightarrow> tolower c \<noteq> 0" using holds_no_zero [OF assms(1)] tolower_ne by metis
  with map_chars_text [OF assms(1), of tolower] Lower show ?thesis by (simp add: toLowerCase_def)
next
  case Upper
  have "\<And>c. c \<in> set cs \<Longrightarrow> toupper c \<noteq> 0" using holds_no_zero [OF assms(1)] toupper_ne by metis
  with map_chars_text [OF assms(1), of toupper] Upper show ?thesis by (simp add: toUpperCase_def)
next
  case Trim
  with assms(1) show ?thesis by (simp add: trim_text)
next
  case (Change a b)
  have "\<And>c. c \<in> set cs \<Longrightarrow> (if c = a then b else c) \<noteq> 0"
    using holds_no_zero [OF assms(1)] Change assms(2) by auto
  with map_chars_text [OF assms(1), of "\<lambda>c. if c = a then b else c"] Change show ?thesis
    by (simp add: replace_char_def)
next
  case (Replace a b)
  with assms(2) have p: "0 \<notin> set a" "0 \<notin> set b" "storable (length a)" "storable (length b)" "length b \<le> length a"
    by (simp_all add: storable_def)
  obtain f where f: "String_of_cstr alloc (Some a) = Some f" "holds_text f a" "sbuffer f \<noteq> None"
    by (rule new_text [where alloc = alloc, OF assms(3) p(3,1)])
  obtain r where r: "String_of_cstr alloc (Some b) = Some r" "holds_text r b" "sbuffer r \<noteq> None"
    by (rule new_text [where alloc = alloc, OF assms(3) p(4,2)])
  from replace_text [OF assms(1) f(2) r(2) p(5)] Replace f(1) r(1) show ?thesis by simp
qed



section \<open>A replacement that grows\<close>


lemma zeros:
  "replicate 10 (0 :: u8) = [0, 0, 0, 0, 0, 0, 0, 0, 0, 0]"
  "replicate 12 (0 :: u8) = [0, 0, 0, 0, 0, 0, 0, 0, 0, 0, 0, 0]"
  "replicate 14 (0 :: u8) = [0, 0, 0, 0, 0, 0, 0, 0, 0, 0, 0, 0, 0, 0]"
  by (simp_all add: numeral_eq_Suc)

text \<open>A longer replacement may leave the buffer: the occurrences are counted from the left in the old text
  and replaced from the right in the new one, where a replacement makes an occurrence of its own. The size
  for one replacement is reserved and three are done; the last one writes behind the buffer.\<close>

theorem growing_replace_overruns:
  "replaced_size [97, 98] (the (sbuffer (small_string [97, 97, 97, 98]))) 4 0 4 = Some 8 \<and>
   replace (\<lambda>_. True) (small_string [97, 98]) (small_string [98, 98, 98, 98, 98, 98])
     (small_string [97, 97, 97, 98]) = None"
proof -
  let ?t = "\<lambda>m l. \<lparr>sbuffer = Some m, scapacity = 15, slen = l\<rparr>"
  let ?f = "?t [97, 98, 0, 0, 0, 0, 0, 0, 0, 0, 0, 0, 0, 0, 0, 0] 2"
  let ?r = "[98, 98, 98, 98, 98, 98] :: u8 list"
  let ?m0 = "[97, 97, 97, 98, 0, 0, 0, 0, 0, 0, 0, 0, 0, 0, 0, 0] :: u8 list"
  let ?m1 = "[97, 97, 98, 98, 98, 98, 98, 98, 0, 0, 0, 0, 0, 0, 0, 0] :: u8 list"
  let ?m2 = "[97, 98, 98, 98, 98, 98, 98, 98, 98, 98, 98, 98, 0, 0, 0, 0] :: u8 list"
  have n: "replaced_size [97, 98] ?m0 4 0 4 = Some 8"
    by (simp add: replaced_size.simps c_string_def)
  have l0: "lastIndexOf_from ?f 3 (?t ?m0 4) = Some 2"
    by (simp add: lastIndexOf_from_def lastIndexOf_loop.simps c_string_def)
  have l1: "lastIndexOf_from ?f (Suc 0) (?t ?m1 8) = Some 1"
    by (simp add: lastIndexOf_from_def lastIndexOf_loop.simps c_string_def)
  have l2: "lastIndexOf_from ?f 0 (?t ?m2 12) = Some 0"
    by (simp add: lastIndexOf_from_def lastIndexOf_loop.simps c_string_def)
  have "replace_longer ?f ?r 4 0 (?t ?m2 12) = None"
    by (subst replace_longer.simps) (simp add: l2 memread_def memcpy_def load_def store_def)
  then have "replace_longer ?f ?r 4 1 (?t ?m1 8) = None"
    by (subst replace_longer.simps) (simp add: l1 memread_def memcpy_def load_def store_def)
  then have "replace_longer ?f ?r 4 3 (?t ?m0 4) = None"
    by (subst replace_longer.simps) (simp add: l0 memread_def memcpy_def load_def store_def)
  moreover have "small_string [97, 98] = ?f" and "small_string ?r = ?t (?r @ replicate 10 0) 6"
    and "small_string [97, 97, 97, 98] = ?t ?m0 4"
    by (simp_all add: small_string_def zeros)
  ultimately show ?thesis
    by (simp add: n replace_def bytes_of_def memread_def load_def c_string_def zeros)
qed

section \<open>Numbers to text and back\<close>

lemma digit_bytes:
  assumes "d < 10"
  shows "(of_char (digit_char d) :: u8) = of_nat (48 + d)"
proof -
  from assms have "d \<in> {0, 1, 2, 3, 4, 5, 6, 7, 8, 9}"
    by (simp add: less_Suc_eq numeral_eq_Suc)
  then show ?thesis by (elim insertE emptyE) (simp_all add: digit_char_def)
qed

lemma digit_byte_facts:
  assumes "d < 10"
  shows "isdigit (of_nat (48 + d))" and "uint (of_nat (48 + d) :: u8) = 48 + int d"
    and "(of_nat (48 + d) :: u8) \<noteq> 0" and "\<not> isspace (of_nat (48 + d))"
    and "(of_nat (48 + d) :: u8) \<noteq> 45" and "(of_nat (48 + d) :: u8) \<noteq> 43"
proof -
  from assms have "d \<in> {0, 1, 2, 3, 4, 5, 6, 7, 8, 9}"
    by (simp add: less_Suc_eq numeral_eq_Suc)
  then show "isdigit (of_nat (48 + d))" and "uint (of_nat (48 + d) :: u8) = 48 + int d"
    and "(of_nat (48 + d) :: u8) \<noteq> 0" and "\<not> isspace (of_nat (48 + d))"
    and "(of_nat (48 + d) :: u8) \<noteq> 45" and "(of_nat (48 + d) :: u8) \<noteq> 43"
    by (elim insertE emptyE; simp add: isdigit_def isspace_def)+
qed

lemma decimal_digits:
  assumes "\<And>d. d \<in> set ds \<Longrightarrow> d < 10"
  shows "decimal (map (\<lambda>d. of_nat (48 + d)) (rev ds)) = int (digits_value 10 ds)"
proof -
  have "takeWhile isdigit (map (\<lambda>d. of_nat (48 + d)) (rev ds)) = map (\<lambda>d. of_nat (48 + d)) (rev ds)"
    using assms by (simp add: takeWhile_eq_all_conv digit_byte_facts(1) del: of_nat_add)
  moreover have "foldl (\<lambda>v c. 10 * v + (uint (c :: u8) - 48)) 0 (map (\<lambda>d. of_nat (48 + d)) (rev ds)) =
      int (digits_value 10 ds)"
    using assms by (induction ds) (simp_all add: digit_byte_facts(2) del: of_nat_add)
  ultimately show ?thesis by (simp only: decimal_def)
qed

lemma long_bytes:
  assumes "- (2 ^ 31) < v"
  shows "map_option (map of_char) (ltoa before v 10) =
    Some ((if v < 0 then [45] else []) @ map (\<lambda>d. of_nat (48 + d)) (rev (digits 10 (nat \<bar>v\<bar>))) :: u8 list)"
proof -
  have "\<And>d. d \<in> set (digits 10 n) \<Longrightarrow> (of_char (digit_char d) :: u8) = of_nat (48 + d)" for n
    using digits_less [of 10] digit_bytes by simp
  then show ?thesis
    using ltoa_digits [of 10 v before] assms by (auto simp: rev_map)
qed

text \<open>A \<open>String\<close> made of a \<open>long\<close> fits its local array, and \<open>toInt\<close> gives the number back, for every
  value but the smallest.\<close>

theorem toInt_of_long:
  assumes "- (2 ^ 31) < v" and "v < 2 ^ 31" and "\<And>k. alloc k"
  shows "\<exists>s. String_of_long alloc before v 10 = Some s \<and> toInt s = Some v"
proof -
  let ?ds = "digits 10 (nat \<bar>v\<bar>)"
  let ?num = "map (\<lambda>d. of_nat (48 + d)) (rev ?ds) :: u8 list"
  let ?text = "(if v < 0 then [45] else []) @ ?num"
  have small: "\<And>d. d \<in> set ?ds \<Longrightarrow> d < 10" using digits_less by simp
  obtain t where t: "ltoa before v 10 = Some t" "map of_char t = ?text"
    using long_bytes [OF assms(1), of before] by auto
  have z: "0 \<notin> set ?text" using digit_byte_facts(3) [OF small] by force
  have len: "length ?text \<le> 33"
  proof -
    have "nat \<bar>v\<bar> < 2 ^ 31" using assms by simp
    then have "length ?ds \<le> 31" by (intro length_digits) simp_all
    moreover have "length ?text \<le> Suc (length ?ds)" by simp
    ultimately show ?thesis by linarith
  qed
  have "strcpy (replicate 34 0) 0 ?text = Some (?text @ 0 # drop (Suc (length ?text)) (replicate 34 0))"
    using len by (subst strcpy_in) simp_all
  then have local: "local_text 34 (ltoa before v 10) = Some ?text"
    by (simp only: local_text_def t bind.bind_lunit c_string_text [OF z])
  have st: "storable (length ?text)" using len by (simp add: storable_def)
  obtain s where s: "String_copy alloc ?text (length ?text) String_init = Some s" "holds_text s ?text" "sbuffer s \<noteq> None"
    using copy_spec [OF holds_init st z, of alloc] assms(3) by blast
  then obtain m where m: "sbuffer s = Some m" by blast
  have made: "String_of_long alloc before v 10 = Some s"
    using s(1) local by (simp add: String_of_long_def String_assign_cstr_def)
  obtain d ds where ds: "rev ?ds = d # ds" using digits_ne by (cases "rev ?ds") auto
  then have d: "d < 10" using small by (metis list.set_intros(1) set_rev)
  have num: "decimal ?num = \<bar>v\<bar>"
    using decimal_digits [of ?ds] small by (simp add: digits_value_digits)
  have "atol ?text = v"
  proof (cases "v < 0")
    case True
    have "\<not> isspace 45" by (simp add: isspace_def)
    then show ?thesis using True num assms by (simp add: atol_def)
  next
    case False
    then show ?thesis
      using num assms digit_byte_facts(4-6) [OF d] ds by (simp add: atol_def del: of_nat_add)
  qed
  then have "toInt s = Some v"
    using holds_c_string0 [OF s(2) m] m by (simp add: toInt_def)
  with made show ?thesis by blast
qed

lemma toInt_of_long_witness:
  "\<exists>s. String_of_long (\<lambda>_. True) (\<lambda>_. CHR ''?'') (- 90210) 10 = Some s \<and> toInt s = Some (- 90210)"
  by (rule toInt_of_long) simp_all

end
