(* ===== verification/FlashTyped.thy ===== *)
theory FlashTyped
  imports SpiFlash WStringEdit
begin

unbundle bit_operations_syntax

text \<open>
  \<open>SPIFlash.cpp\<close> and \<open>SPIFlash.h\<close>, continued: reads and writes of typed values and strings, block and chip erase,
  suspend and resume, power down and up. A value is its little-endian bytes; a \<open>float\<close> is
  its 32 bits, signed values are their words. \<open>pause\<close> is \<open>delayMicroseconds\<close> seen by the chip.
\<close>

section \<open>Reading values\<close>

abbreviation (input) MANID :: u8 where "MANID \<equiv> 0x90"
abbreviation (input) WRITEDISABLE :: u8 where "WRITEDISABLE \<equiv> 0x04"
abbreviation (input) READSTAT2 :: u8 where "READSTAT2 \<equiv> 0x35"
abbreviation (input) BLOCK32ERASE :: u8 where "BLOCK32ERASE \<equiv> 0x52"
abbreviation (input) BLOCK64ERASE :: u8 where "BLOCK64ERASE \<equiv> 0xD8"
abbreviation (input) CHIPERASE :: u8 where "CHIPERASE \<equiv> 0xC7"
abbreviation (input) SUSPEND :: u8 where "SUSPEND \<equiv> 0x75"
abbreviation (input) RESUME :: u8 where "RESUME \<equiv> 0x7A"
abbreviation (input) RELEASE :: u8 where "RELEASE \<equiv> 0xAB"
abbreviation (input) POWERDOWN :: u8 where "POWERDOWN \<equiv> 0xB9"
abbreviation (input) SYSSUSPEND :: u8 where "SYSSUSPEND \<equiv> 0x09"
abbreviation (input) ERRORCHKFAIL :: u8 where "ERRORCHKFAIL \<equiv> 0x0B"

definition le16 :: "u16 \<Rightarrow> u8 list" where
  "le16 w = [lowByte w, highByte w]"

fun of_le16 :: "u8 list \<Rightarrow> u16" where
  "of_le16 [l, h] = makeWord h l"
| "of_le16 _ = 0"

text \<open>The common body of the typed reads: the bytes, or none when \<open>_prep\<close> fails.\<close>

definition read_value ::
    "('c, 'z) chip_ops_scheme \<Rightarrow> u32 \<Rightarrow> u32 \<Rightarrow> bool \<Rightarrow> 'c spiflash \<Rightarrow> (u8 list option \<times> 'c spiflash) option" where
  "read_value io sz address fastRead f =
     (case prep io READDATA address sz f of
        None \<Rightarrow> None
      | Some (ok, f1) \<Rightarrow>
          if \<not> ok then Some (None, f1)
          else let f2 = beginSPI io (if fastRead then FASTREAD else READDATA) f1;
                   (rs, f3) = nextBytes io (replicate (unat sz) NULLBYTE) f2
               in Some (Some rs, endSPI io f3))"

text \<open>A failed read returns \<open>false\<close>, which is 0 in the type of the value.\<close>

definition or_zero :: "(u8 list \<Rightarrow> 'v::zero) \<Rightarrow> u8 list option \<times> 'c spiflash \<Rightarrow> 'v \<times> 'c spiflash" where
  "or_zero conv r = (case fst r of None \<Rightarrow> 0 | Some bs \<Rightarrow> conv bs, snd r)"

definition readByte ::
    "('c, 'z) chip_ops_scheme \<Rightarrow> u32 \<Rightarrow> bool \<Rightarrow> 'c spiflash \<Rightarrow> (u8 \<times> 'c spiflash) option" where
  "readByte io address fastRead f = map_option (or_zero hd) (read_value io 1 address fastRead f)"

definition readChar ::
    "('c, 'z) chip_ops_scheme \<Rightarrow> u32 \<Rightarrow> bool \<Rightarrow> 'c spiflash \<Rightarrow> (int \<times> 'c spiflash) option" where
  "readChar io address fastRead f =
     map_option (or_zero (\<lambda>bs. sint (hd bs))) (read_value io 1 address fastRead f)"

definition readCharArray ::
    "('c, 'z) chip_ops_scheme \<Rightarrow> u32 \<Rightarrow> u16 \<Rightarrow> bool \<Rightarrow> 'c spiflash \<Rightarrow> (u8 list option \<times> 'c spiflash) option" where
  "readCharArray io address bufferSize fastRead f = read_value io (ucast bufferSize) address fastRead f"

definition readWord ::
    "('c, 'z) chip_ops_scheme \<Rightarrow> u32 \<Rightarrow> bool \<Rightarrow> 'c spiflash \<Rightarrow> (u16 \<times> 'c spiflash) option" where
  "readWord io address fastRead f = map_option (or_zero of_le16) (read_value io 2 address fastRead f)"

definition readShort ::
    "('c, 'z) chip_ops_scheme \<Rightarrow> u32 \<Rightarrow> bool \<Rightarrow> 'c spiflash \<Rightarrow> (int \<times> 'c spiflash) option" where
  "readShort io address fastRead f =
     map_option (or_zero (\<lambda>bs. sint (of_le16 bs))) (read_value io 2 address fastRead f)"

definition readULong ::
    "('c, 'z) chip_ops_scheme \<Rightarrow> u32 \<Rightarrow> bool \<Rightarrow> 'c spiflash \<Rightarrow> (u32 \<times> 'c spiflash) option" where
  "readULong io address fastRead f = map_option (or_zero of_le32) (read_value io 4 address fastRead f)"

definition readLong ::
    "('c, 'z) chip_ops_scheme \<Rightarrow> u32 \<Rightarrow> bool \<Rightarrow> 'c spiflash \<Rightarrow> (int \<times> 'c spiflash) option" where
  "readLong io address fastRead f =
     map_option (or_zero (\<lambda>bs. sint (of_le32 bs))) (read_value io 4 address fastRead f)"

definition readFloat ::
    "('c, 'z) chip_ops_scheme \<Rightarrow> u32 \<Rightarrow> bool \<Rightarrow> 'c spiflash \<Rightarrow> (u32 \<times> 'c spiflash) option" where
  "readFloat io address fastRead f = map_option (or_zero of_le32) (read_value io 4 address fastRead f)"

text \<open>\<open>readAnything\<close> leaves the variable alone when it fails.\<close>

definition readAnything ::
    "('c, 'z) chip_ops_scheme \<Rightarrow> u32 \<Rightarrow> u8 list \<Rightarrow> bool \<Rightarrow> 'c spiflash \<Rightarrow> (bool \<times> u8 list \<times> 'c spiflash) option" where
  "readAnything io address var fastRead f =
     map_option (\<lambda>(r, f'). case r of None \<Rightarrow> (False, var, f') | Some bs \<Rightarrow> (True, bs, f'))
       (read_value io (of_nat (length var)) address fastRead f)"

text \<open>\<open>readStr\<close>: a failed read leaves the array as it is on the stack (\<open>stack n\<close>), and the text ends at the
  first zero, in the array or behind it (the value \<open>None\<close>). The length is read without \<open>fastRead\<close>.\<close>

definition readStr ::
    "(nat \<Rightarrow> bool) \<Rightarrow> (nat \<Rightarrow> u8 list) \<Rightarrow> ('c, 'z) chip_ops_scheme \<Rightarrow> u32 \<Rightarrow> bool \<Rightarrow> 'c spiflash \<Rightarrow>
     (String \<times> 'c spiflash) option" where
  "readStr alloc stack io address fastRead f = do {
     (strLen, f1) \<leftarrow> readWord io address False f;
     (r, f2) \<leftarrow> readCharArray io (address + 2) strLen fastRead f1;
     let outputChar = (case r of None \<Rightarrow> stack (unat strLen) | Some bs \<Rightarrow> bs);
     text \<leftarrow> c_string outputChar 0;
     s \<leftarrow> String_of_cstr alloc (Some text);
     Some (s, f2)
   }"

text \<open>Both variants of \<open>getAddress\<close> and \<open>sizeofStr\<close>.\<close>

definition nextAddress :: "u16 \<Rightarrow> 'c spiflash \<Rightarrow> u32 \<times> 'c spiflash" where
  "nextAddress sz f =
     (let (ok, f1) = addressCheck (currentAddress f) (ucast sz) f
      in if \<not> ok then (0, f1\<lparr>errorcode := OUTOFBOUNDS\<rparr>)
         else (currentAddress f1, f1\<lparr>currentAddress := currentAddress f1 + ucast sz\<rparr>))"

definition nextPageAddress :: "u16 \<Rightarrow> 'c spiflash \<Rightarrow> u16 \<times> u8 \<times> 'c spiflash" where
  "nextPageAddress sz f =
     (let (address, f1) = nextAddress sz f in (ucast (drop_bit 8 address), ucast address, f1))"

definition sizeofStr :: "String \<Rightarrow> u16" where
  "sizeofStr s = of_nat (String_length s + 1) + 4"

section \<open>Writing values\<close>

text \<open>\<open>_writeErrorCheck\<close>: after a failed \<open>_prep\<close> it goes on when the chip is not busy; a mismatch leaves the chip
  selected.\<close>

definition writeErrorCheck ::
    "('c, 'z) chip_ops_scheme \<Rightarrow> u32 \<Rightarrow> u8 list \<Rightarrow> 'c spiflash \<Rightarrow> (bool \<times> 'c spiflash) option" where
  "writeErrorCheck io address data f = do {
     (ok, f1) \<leftarrow> prep io READDATA address (of_nat (length data)) f;
     (go, f2) \<leftarrow> (if ok then Some (True, f1) else notBusy io BUSY_TIMEOUT f1);
     if \<not> go then Some (False, f2)
     else let f3 = beginSPI io READDATA f2; (same, c) = verify io data (chip f3)
          in Some (if same then (True, endSPI io (f3\<lparr>chip := c\<rparr>))
                   else (False, f3\<lparr>chip := c, errorcode := ERRORCHKFAIL\<rparr>))
   }"

definition finish_write ::
    "('c, 'z) chip_ops_scheme \<Rightarrow> u32 \<Rightarrow> u8 list \<Rightarrow> bool \<Rightarrow> 'c spiflash \<Rightarrow> (bool \<times> 'c spiflash) option" where
  "finish_write io address data errorCheck f =
     (if \<not> errorCheck then Some (True, endSPI io f) else writeErrorCheck io address data f)"

text \<open>One page program without another look at the status.\<close>

definition program_once ::
    "('c, 'z) chip_ops_scheme \<Rightarrow> u8 list \<Rightarrow> 'c spiflash \<Rightarrow> 'c spiflash" where
  "program_once io data f = chip_deselect io (snd (nextBytes io data (beginSPI io PAGEPROG f)))"

definition writeByte ::
    "('c, 'z) chip_ops_scheme \<Rightarrow> u32 \<Rightarrow> u8 \<Rightarrow> bool \<Rightarrow> 'c spiflash \<Rightarrow> (bool \<times> 'c spiflash) option" where
  "writeByte io address data errorCheck f = do {
     (ok, f1) \<leftarrow> prep io PAGEPROG address 1 f;
     if \<not> ok then Some (False, f1)
     else finish_write io address [data] errorCheck (program_once io [data] f1)
   }"

definition writeChar ::
    "('c, 'z) chip_ops_scheme \<Rightarrow> u32 \<Rightarrow> int \<Rightarrow> bool \<Rightarrow> 'c spiflash \<Rightarrow> (bool \<times> 'c spiflash) option" where
  "writeChar io address data errorCheck f = do {
     (ok, f1) \<leftarrow> prep io PAGEPROG address 1 f;
     if \<not> ok then Some (False, f1)
     else finish_write io address [word_of_int data] errorCheck (program_once io [word_of_int data] f1)
   }"

text \<open>The common body of the writes of two and four bytes: a value that ends before the page is programmed
  at once, any other one through the page loop.\<close>

definition write_value ::
    "('c, 'z) chip_ops_scheme \<Rightarrow> u32 \<Rightarrow> u8 list \<Rightarrow> bool \<Rightarrow> 'c spiflash \<Rightarrow> (bool \<times> 'c spiflash) option" where
  "write_value io address data errorCheck f = do {
     (ok, f1) \<leftarrow> prep io PAGEPROG address (of_nat (length data)) f;
     if \<not> ok then Some (False, f1)
     else do {
       let maxBytes = 256 - unat address mod 256;
       (ok, f2) \<leftarrow> (if length data < maxBytes then Some (True, program_once io data f1)
                   else program_pages io maxBytes data f1);
       if \<not> ok then Some (False, f2) else finish_write io address data errorCheck f2
     }
   }"

definition writeWord ::
    "('c, 'z) chip_ops_scheme \<Rightarrow> u32 \<Rightarrow> u16 \<Rightarrow> bool \<Rightarrow> 'c spiflash \<Rightarrow> (bool \<times> 'c spiflash) option" where
  "writeWord io address data errorCheck f = write_value io address (le16 data) errorCheck f"

definition writeShort ::
    "('c, 'z) chip_ops_scheme \<Rightarrow> u32 \<Rightarrow> int \<Rightarrow> bool \<Rightarrow> 'c spiflash \<Rightarrow> (bool \<times> 'c spiflash) option" where
  "writeShort io address data errorCheck f = write_value io address (le16 (word_of_int data)) errorCheck f"

definition writeULong ::
    "('c, 'z) chip_ops_scheme \<Rightarrow> u32 \<Rightarrow> u32 \<Rightarrow> bool \<Rightarrow> 'c spiflash \<Rightarrow> (bool \<times> 'c spiflash) option" where
  "writeULong io address data errorCheck f = write_value io address (le32 data) errorCheck f"

definition writeLong ::
    "('c, 'z) chip_ops_scheme \<Rightarrow> u32 \<Rightarrow> int \<Rightarrow> bool \<Rightarrow> 'c spiflash \<Rightarrow> (bool \<times> 'c spiflash) option" where
  "writeLong io address data errorCheck f = write_value io address (le32 (word_of_int data)) errorCheck f"

definition writeFloat ::
    "('c, 'z) chip_ops_scheme \<Rightarrow> u32 \<Rightarrow> u32 \<Rightarrow> bool \<Rightarrow> 'c spiflash \<Rightarrow> (bool \<times> 'c spiflash) option" where
  "writeFloat io address data errorCheck f = write_value io address (le32 data) errorCheck f"

text \<open>\<open>writeAnything\<close> goes through the page loop always. \<open>writeCharArray\<close> has the statements of
  \<open>writeByteArray\<close>.\<close>

definition writeAnything ::
    "('c, 'z) chip_ops_scheme \<Rightarrow> u32 \<Rightarrow> u8 list \<Rightarrow> bool \<Rightarrow> 'c spiflash \<Rightarrow> (bool \<times> 'c spiflash) option" where
  "writeAnything io address data errorCheck f = do {
     (ok, f1) \<leftarrow> prep io PAGEPROG address (of_nat (length data)) f;
     if \<not> ok then Some (False, f1)
     else do {
       (ok, f2) \<leftarrow> program_pages io (256 - unat address mod 256) data f1;
       if \<not> ok then Some (False, f2) else finish_write io address data errorCheck f2
     }
   }"

definition writeCharArray ::
    "('c, 'z) chip_ops_scheme \<Rightarrow> u32 \<Rightarrow> u8 list \<Rightarrow> bool \<Rightarrow> 'c spiflash \<Rightarrow> (bool \<times> 'c spiflash) option" where
  "writeCharArray io address data errorCheck f = do {
     (ok, f1) \<leftarrow> prep io PAGEPROG address (of_nat (length data)) f;
     if \<not> ok then Some (False, f1)
     else do {
       (ok, f2) \<leftarrow> program_pages io (256 - unat address mod 256) data f1;
       if \<not> ok then Some (False, f2)
       else if \<not> errorCheck then Some (True, endSPI io f2)
       else read_back io address data f2
     }
   }"

text \<open>The page loop of \<open>writeStr\<close>: the length goes in front of the first chunk, on top of its size.\<close>

function program_string ::
    "('c, 'z) chip_ops_scheme \<Rightarrow> nat \<Rightarrow> u8 list \<Rightarrow> u8 list \<Rightarrow> 'c spiflash \<Rightarrow> (bool \<times> 'c spiflash) option" where
  "program_string io maxBytes strLen data f =
     (if data = [] \<or> maxBytes = 0 then Some (True, f)
      else let chunk = take maxBytes data
           in case ready_to_write io f of
                None \<Rightarrow> None
              | Some (ok, f1) \<Rightarrow>
                  if \<not> ok then Some (False, f1)
                  else let f2 = snd (nextBytes io (strLen @ chunk) (beginSPI io PAGEPROG f1));
                           f3 = f2\<lparr>currentAddress := currentAddress f2 + of_nat (length chunk)\<rparr>
                       in program_string io 256 [] (drop maxBytes data) (chip_deselect io f3))"
  by pat_completeness auto
termination by (relation "measure (\<lambda>(io, maxBytes, strLen, data, f). length data)") auto

declare program_string.simps [simp del]

text \<open>\<open>writeStr\<close>; \<open>_prep\<close> is asked for the text and its terminator, without the two bytes of the length.\<close>

definition writeStr ::
    "(nat \<Rightarrow> bool) \<Rightarrow> (nat \<Rightarrow> u8 list) \<Rightarrow> ('c, 'z) chip_ops_scheme \<Rightarrow> u32 \<Rightarrow> String \<Rightarrow> bool \<Rightarrow> 'c spiflash \<Rightarrow>
     (bool \<times> 'c spiflash) option" where
  "writeStr alloc stack io address inputStr errorCheck f = do {
     let inStrLen = (of_nat (String_length inputStr + 1) :: u16);
     (ok, f1) \<leftarrow> prep io PAGEPROG address (ucast inStrLen) f;
     if \<not> ok then Some (False, f1)
     else do {
       r \<leftarrow> getBytes inputStr (Some (stack (unat inStrLen))) (unat inStrLen) 0;
       inputChar \<leftarrow> r;
       let maxBytes = 256 - unat address mod 256;
       (ok, f2) \<leftarrow> (if unat inStrLen < maxBytes then Some (True, program_once io (le16 inStrLen @ inputChar) f1)
                   else program_string io maxBytes (le16 inStrLen) inputChar f1);
       if \<not> ok then Some (False, f2)
       else if \<not> errorCheck then Some (True, endSPI io f2)
       else do {
         (tempStr, f3) \<leftarrow> readStr alloc stack io address False f2;
         same \<leftarrow> String_equals inputStr tempStr;
         Some (same, f3)
       }
     }
   }"

section \<open>Erasing, suspending, power\<close>

definition erase_block ::
    "u8 \<Rightarrow> u32 \<Rightarrow> ('c, 'z) chip_ops_scheme \<Rightarrow> u32 \<Rightarrow> 'c spiflash \<Rightarrow> (bool \<times> 'c spiflash) option" where
  "erase_block opcode timeout io address f = do {
     (ok, f1) \<leftarrow> ready_to_write io f;
     if \<not> ok then Some (False, f1)
     else notBusy io timeout (endSPI io (snd (nextBytes io
            [ucast (drop_bit 16 address), ucast (drop_bit 8 address), 0] (beginSPI io opcode f1))))
   }"

definition eraseBlock32K ::
    "('c, 'z) chip_ops_scheme \<Rightarrow> u32 \<Rightarrow> 'c spiflash \<Rightarrow> (bool \<times> 'c spiflash) option" where
  "eraseBlock32K io address f = erase_block BLOCK32ERASE 1000 io address f"

definition eraseBlock64K ::
    "('c, 'z) chip_ops_scheme \<Rightarrow> u32 \<Rightarrow> 'c spiflash \<Rightarrow> (bool \<times> 'c spiflash) option" where
  "eraseBlock64K io address f = erase_block BLOCK64ERASE 1200 io address f"

definition eraseChip ::
    "('c, 'z) chip_ops_scheme \<Rightarrow> 'c spiflash \<Rightarrow> (bool \<times> 'c spiflash) option" where
  "eraseChip io f = do {
     (ok, f1) \<leftarrow> ready_to_write io f;
     if \<not> ok then Some (False, f1)
     else notBusy io (eraseTime f1) (endSPI io (beginSPI io CHIPERASE f1))
   }"

definition readStat1 :: "('c, 'z) chip_ops_scheme \<Rightarrow> 'c spiflash \<Rightarrow> u8 \<times> 'c spiflash" where
  "readStat1 io f =
     (let (rs, f1) = nextBytes io [NULLBYTE] (beginSPI io READSTAT1 f) in (hd rs, chip_deselect io f1))"

definition readStat2 :: "('c, 'z) chip_ops_scheme \<Rightarrow> 'c spiflash \<Rightarrow> u8 \<times> 'c spiflash" where
  "readStat2 io f =
     (let (rs, f1) = nextBytes io [NULLBYTE, NULLBYTE] (beginSPI io READSTAT2 f)
      in (rs ! 1, chip_deselect io f1))"

text \<open>\<open>||\<close> reads the status a second time only when \<open>WSE\<close> is not set.\<close>

definition noSuspend :: "('c, 'z) chip_ops_scheme \<Rightarrow> 'c spiflash \<Rightarrow> bool \<times> 'c spiflash" where
  "noSuspend io f =
     (if manufacturerID f = WINBOND_MANID then
        let (b, f1) = readStat2 io f
        in if b AND 0x80 \<noteq> 0 then (False, f1\<lparr>errorcode := SYSSUSPEND\<rparr>) else (True, f1)
      else if manufacturerID f = MICROCHIP_MANID then
        let (b, f1) = readStat1 io f
        in if b AND 0x04 \<noteq> 0 then (False, f1\<lparr>errorcode := SYSSUSPEND\<rparr>)
           else let (b', f2) = readStat1 io f1
                in if b' AND 0x08 \<noteq> 0 then (False, f2\<lparr>errorcode := SYSSUSPEND\<rparr>) else (True, f2)
      else (True, f))"

definition paused :: "(nat \<Rightarrow> 'c \<Rightarrow> 'c) \<Rightarrow> nat \<Rightarrow> 'c spiflash \<Rightarrow> 'c spiflash" where
  "paused pause us f = f\<lparr>chip := pause us (chip f)\<rparr>"

definition suspendProg ::
    "(nat \<Rightarrow> 'c \<Rightarrow> 'c) \<Rightarrow> ('c, 'z) chip_ops_scheme \<Rightarrow> 'c spiflash \<Rightarrow> (bool \<times> 'c spiflash) option" where
  "suspendProg pause io f = do {
     (idle, f1) \<leftarrow> notBusy io BUSY_TIMEOUT f;
     if idle then Some (False, f1)
     else let (none, f2) = noSuspend io f1
          in if \<not> none then Some (True, f2)
             else do {
               (ok, f3) \<leftarrow> notBusy io 50 (paused pause 20 (endSPI io (beginSPI io SUSPEND f2)));
               if \<not> ok then Some (False, f3)
               else let (none, f4) = noSuspend io f3 in Some (\<not> none, f4)
             }
   }"

definition resumeProg ::
    "(nat \<Rightarrow> 'c \<Rightarrow> 'c) \<Rightarrow> ('c, 'z) chip_ops_scheme \<Rightarrow> 'c spiflash \<Rightarrow> (bool \<times> 'c spiflash) option" where
  "resumeProg pause io f = do {
     (idle, f1) \<leftarrow> notBusy io BUSY_TIMEOUT f;
     if \<not> idle then Some (False, f1)
     else let (none, f2) = noSuspend io f1
          in if none then Some (False, f2)
             else do {
               (idle, f3) \<leftarrow> notBusy io 10 (paused pause 20 (endSPI io (beginSPI io RESUME f2)));
               if idle then Some (False, f3)
               else let (none, f4) = noSuspend io f3 in Some (none, f4)
             }
   }"

text \<open>Whether the chip takes a write-enable, as \<open>powerDown\<close> and \<open>powerUp\<close> ask.\<close>

definition probe_enable :: "('c, 'z) chip_ops_scheme \<Rightarrow> 'c spiflash \<Rightarrow> bool \<times> 'c spiflash" where
  "probe_enable io f =
     (let (b, f1) = readStat1 io (chip_deselect io (beginSPI io WRITEENABLE f))
      in if b AND 0x02 \<noteq> 0 then (True, endSPI io f1) else (False, f1))"

definition powerDown ::
    "(nat \<Rightarrow> 'c \<Rightarrow> 'c) \<Rightarrow> ('c, 'z) chip_ops_scheme \<Rightarrow> 'c spiflash \<Rightarrow> (bool \<times> 'c spiflash) option" where
  "powerDown pause io f = do {
     (ok, f1) \<leftarrow> notBusy io 20 f;
     if \<not> ok then Some (False, f1)
     else let (awake, f2) = probe_enable io (paused pause 5 (endSPI io (beginSPI io POWERDOWN f1)))
          in Some (\<not> awake, f2)
   }"

definition powerUp ::
    "(nat \<Rightarrow> 'c \<Rightarrow> 'c) \<Rightarrow> ('c, 'z) chip_ops_scheme \<Rightarrow> 'c spiflash \<Rightarrow> bool \<times> 'c spiflash" where
  "powerUp pause io f = probe_enable io (paused pause 3 (endSPI io (beginSPI io RELEASE f)))"

definition writeDisable :: "('c, 'z) chip_ops_scheme \<Rightarrow> 'c spiflash \<Rightarrow> bool \<times> 'c spiflash" where
  "writeDisable io f = (True, chip_deselect io (beginSPI io WRITEDISABLE f))"

text \<open>The two bytes of \<open>getManID\<close> are not initialised when the chip is busy: they come with the call.\<close>

definition getManId ::
    "('c, 'z) chip_ops_scheme \<Rightarrow> u8 \<times> u8 \<Rightarrow> 'c spiflash \<Rightarrow> ((u8 \<times> u8) \<times> 'c spiflash) option" where
  "getManId io b f = do {
     (ok, f1) \<leftarrow> notBusy io BUSY_TIMEOUT f;
     if \<not> ok then Some (b, f1)
     else let (rs, f2) = nextBytes io [NULLBYTE, NULLBYTE, NULLBYTE, NULLBYTE, NULLBYTE] (beginSPI io MANID f1)
          in Some ((rs ! 3, rs ! 4), chip_deselect io f2)
   }"

definition getManID ::
    "('c, 'z) chip_ops_scheme \<Rightarrow> u8 \<times> u8 \<Rightarrow> 'c spiflash \<Rightarrow> (u16 \<times> 'c spiflash) option" where
  "getManID io b f =
     map_option (\<lambda>((b1, b2), f'). (ucast (push_bit 8 (ucast b1 :: u32) OR ucast b2), f')) (getManId io b f)"

section \<open>Typed access on a NOR chip\<close>

lemma of_le16_le16 [simp]: "of_le16 (le16 w) = w"
  by (simp add: le16_def makeWord_high_low)

lemma length_le16 [simp]: "length (le16 w) = 2"
  by (simp add: le16_def)

text \<open>The bytes at an address.\<close>

definition bytes_at :: "(nat \<Rightarrow> u8) \<Rightarrow> nat \<Rightarrow> nat \<Rightarrow> u8 list" where
  "bytes_at m a n = map (\<lambda>i. m (a + i)) [0..<n]"

definition written :: "(nat \<Rightarrow> u8) \<Rightarrow> nat \<Rightarrow> u8 list \<Rightarrow> nat \<Rightarrow> u8" where
  "written m a ds = (\<lambda>i. if a \<le> i \<and> i < a + length ds then ds ! (i - a) else m i)"

lemma bytes_at_written: "bytes_at (written m a ds) a (length ds) = ds"
  by (rule nth_equalityI) (simp_all add: bytes_at_def written_def)

context nor_flash
begin

lemma prep_read_settles:
  assumes "settles io cells wel idle BUSY_TIMEOUT (chip f) m" and "usable cap f"
    and "unat a + unat n \<le> cap"
  shows "\<exists>f'. prep io READDATA a n f = Some (True, f') \<and> calm idle cap f' \<and> cells (chip f') = m \<and>
    currentAddress f' = a"
proof -
  have "settles io cells wel idle BUSY_TIMEOUT (chip (f\<lparr>currentAddress := a\<rparr>)) m"
    using assms(1) by simp
  from notBusy_settles [OF this] obtain f' where
    "notBusy io BUSY_TIMEOUT (f\<lparr>currentAddress := a\<rparr>) = Some (True, f')" "idle (chip f')"
    "cells (chip f') = m" "currentAddress f' = a" "kept (f\<lparr>currentAddress := a\<rparr>) f'" by auto
  then show ?thesis
    using assms addressCheck_inside [of cap f a n] usable_kept [of cap "f\<lparr>currentAddress := a\<rparr>" f']
    by (auto simp: prep_def prep_read_def calm_def usable_def)
qed

lemma read_value_ok:
  assumes "calm idle cap f" and "unat a + unat n \<le> cap"
  shows "\<exists>f'. read_value io n a False f = Some (Some (bytes_at (cells (chip f)) (unat a) (unat n)), f') \<and>
    calm idle cap f' \<and> cells (chip f') = cells (chip f)"
proof -
  from prep_read_settles [OF _ _ assms(2), of f] obtain f1 where
    f1: "prep io READDATA a n f = Some (True, f1)" "calm idle cap f1" "cells (chip f1) = cells (chip f)"
      "currentAddress f1 = a"
    using calm_settles [OF assms(1)] assms(1) by (auto simp: calm_def)
  then have "idle (chip f1)" by (simp add: calm_def)
  from read_command [OF this assms(2)] obtain c1 where
    c1: "xfers io (replicate (unat n) NULLBYTE)
           (snd (xfers io (READDATA # address_bytes a) (cs_low io (chip f1))))
         = (bytes_at (cells (chip f1)) (unat a) (unat n), c1)"
      "idle (cs_high io c1)" "cells (cs_high io c1) = cells (chip f1)" by (auto simp: bytes_at_def)
  with f1 show ?thesis
    by (simp add: read_value_def Let_def nextBytes_def beginSPI_def opcode_bytes_def
        endSPI_def chip_deselect_def calm_def usable_def)
qed

lemma prep_write_erased:
  assumes "calm idle cap f" and "unat a + unat n \<le> cap"
    and "\<forall>i < unat n. cells (chip f) (unat a + i) = 0xFF"
  shows "\<exists>f'. prep io PAGEPROG a n f = Some (True, f') \<and> calm idle cap f' \<and>
    cells (chip f') = cells (chip f) \<and> currentAddress f' = a \<and> wel (chip f')"
proof -
  let ?f = "f\<lparr>currentAddress := a\<rparr>"
  have u: "usable cap ?f" using assms(1) by (simp add: calm_def usable_def)
  have "settles io cells wel idle BUSY_TIMEOUT (chip ?f) (cells (chip f))"
    using calm_settles [OF assms(1)] by simp
  from ready_to_write_settles [OF this] obtain f1 where f1: "ready_to_write io ?f = Some (True, f1)"
    "idle (chip f1)" "wel (chip f1)" "cells (chip f1) = cells (chip f)" "currentAddress f1 = a" "kept ?f f1"
    by auto
  then have "unat (currentAddress f1) + unat n \<le> cap" using assms(2) by simp
  from notPrevWritten_ok [OF f1(2) this] obtain f2 where
    f2: "notPrevWritten io n f1 = (\<forall>i < unat n. cells (chip f1) (unat (currentAddress f1) + i) = 0xFF, f2)"
    "idle (chip f2)" "cells (chip f2) = cells (chip f1)" "wel (chip f2) = wel (chip f1)"
    "currentAddress f2 = currentAddress f1" "kept f1 f2" by blast
  have "prep io PAGEPROG a n f = Some (True, f2)"
    using assms f1 f2(1) addressCheck_inside [of cap f a n] by (simp add: prep_def prep_write_def calm_def)
  moreover have "usable cap f2" using u f1(6) f2(6) by (metis usable_kept)
  ultimately show ?thesis using f1 f2 by (simp add: calm_def)
qed

text \<open>Writing inside a page.\<close>

lemma program_once_settles:
  assumes "calm idle cap f" and "wel (chip f)" and "ds \<noteq> []" and "currentAddress f = a"
    and "unat a mod 256 + length ds \<le> 256" and "unat a + length ds \<le> cap"
  shows "settles io cells wel idle BUSY_TIMEOUT (chip (program_once io ds f))
      (programmed (cells (chip f)) (unat a) ds) \<and> kept f (program_once io ds f)"
proof -
  obtain rs c' where cmd: "command io (PAGEPROG # address_bytes a @ ds) (chip f) = (rs, c')" by fastforce
  have "idle (chip f)" using assms(1) by (simp add: calm_def)
  from program [OF this assms(2,3,5,6) cmd]
  have "settles io cells wel idle BUSY_TIMEOUT c' (programmed (cells (chip f)) (unat a) ds)"
    by (auto simp: settles_def programmed_def)
  moreover have "chip (program_once io ds f) = c'"
    using chip_command [of io ds PAGEPROG f] cmd assms(4) by (simp add: program_once_def opcode_bytes_def)
  moreover have "kept f (program_once io ds f)"
    by (simp add: program_once_def chip_deselect_def nextBytes_def beginSPI_def kept_def case_prod_beta)
  ultimately show ?thesis by simp
qed

lemma writeErrorCheck_ok:
  assumes "settles io cells wel idle BUSY_TIMEOUT (chip f) m" and "usable cap f"
    and "unat a + length data \<le> cap" and "\<forall>i < length data. m (unat a + i) = data ! i"
  shows "\<exists>f'. writeErrorCheck io a data f = Some (True, f') \<and> calm idle cap f' \<and> cells (chip f') = m"
proof -
  have n: "unat (of_nat (length data) :: u32) = length data"
    using assms(3) cap_24 by (simp add: unat_of_nat)
  from prep_read_settles [OF assms(1,2), of a "of_nat (length data)"] assms(3) n obtain f1 where
    f1: "prep io READDATA a (of_nat (length data)) f = Some (True, f1)" "calm idle cap f1"
      "cells (chip f1) = m" "currentAddress f1 = a" by auto
  have idle1: "idle (chip f1)" using f1(2) by (simp add: calm_def)
  have "map (\<lambda>i. cells (chip f1) (unat a + i)) [0..<length data] = data"
    using assms(4) f1(3) by (intro nth_equalityI) simp_all
  with read_command [OF idle1 assms(3)] obtain c1 where
    "xfers io (replicate (length data) NULLBYTE)
       (snd (xfers io (READDATA # address_bytes a) (cs_low io (chip f1)))) = (data, c1)"
    and c1: "idle (cs_high io c1)" "cells (cs_high io c1) = m"
    unfolding f1(3) by metis
  then have "verify io data (snd (xfers io (READDATA # address_bytes a) (cs_low io (chip f1)))) = (True, c1)"
    by (simp_all only: verify_True)
  with f1 c1 show ?thesis
    by (simp add: writeErrorCheck_def Let_def endSPI_def chip_deselect_def calm_def usable_def
        beginSPI_def opcode_bytes_def)
qed

lemma write_value_ok:
  assumes "calm idle cap f" and "unat a + length data \<le> cap" and "data \<noteq> []"
    and "\<forall>i < length data. cells (chip f) (unat a + i) = 0xFF"
  shows "\<exists>f'. write_value io a data True f = Some (True, f') \<and> calm idle cap f' \<and>
    cells (chip f') = written (cells (chip f)) (unat a) data"
proof -
  have n: "unat (of_nat (length data) :: u32) = length data"
    using assms(2) cap_24 by (simp add: unat_of_nat)
  obtain f1 where f1: "prep io PAGEPROG a (of_nat (length data)) f = Some (True, f1)" "calm idle cap f1"
      "cells (chip f1) = cells (chip f)" "currentAddress f1 = a" "wel (chip f1)"
    using prep_write_erased [OF assms(1), of a "of_nat (length data)"] assms(2,4) n by auto
  let ?m = "written (cells (chip f)) (unat a) data"
  let ?max = "256 - unat a mod 256"
  have m: "programmed (cells (chip f)) (unat a) data = ?m"
    unfolding written_def using assms(4) by (rule programmed_erased)
  have "\<exists>f2. (if length data < ?max then Some (True, program_once io data f1)
        else program_pages io ?max data f1) = Some (True, f2) \<and> kept f1 f2 \<and>
      settles io cells wel idle BUSY_TIMEOUT (chip f2) ?m"
  proof (cases "length data < ?max")
    case True
    then have "unat a mod 256 + length data \<le> 256" by linarith
    from program_once_settles [OF f1(2,5) assms(3) f1(4) this assms(2)] True show ?thesis
      by (simp add: f1(3) m)
  next
    case False
    have "settles io cells wel idle BUSY_TIMEOUT (chip f1) (cells (chip f))"
      using calm_settles [OF f1(2)] f1(3) by simp
    from program_pages_ok [OF this, of ?max data] assms(2) False show ?thesis
      by (simp add: f1(4) m)
  qed
  then obtain f2 where f2: "(if length data < ?max then Some (True, program_once io data f1)
        else program_pages io ?max data f1) = Some (True, f2)" "kept f1 f2"
      "settles io cells wel idle BUSY_TIMEOUT (chip f2) ?m" by blast
  have "usable cap f2" using usable_kept [OF _ f2(2)] f1(2) by (simp add: calm_def)
  moreover have "\<forall>i < length data. ?m (unat a + i) = data ! i" by (simp add: written_def)
  ultimately obtain f3 where "writeErrorCheck io a data f2 = Some (True, f3)" "calm idle cap f3"
    "cells (chip f3) = ?m"
    using writeErrorCheck_ok [OF f2(3) _ assms(2)] by blast
  with f1(1) f2(1) show ?thesis by (simp add: write_value_def finish_write_def Let_def)
qed

lemma value_round_trip:
  assumes "calm idle cap f" and "unat a + length data \<le> cap" and "data \<noteq> []"
    and "\<forall>i < length data. cells (chip f) (unat a + i) = 0xFF" and "unat n = length data"
  shows "\<exists>f1 f2. write_value io a data True f = Some (True, f1) \<and>
    read_value io n a False f1 = Some (Some data, f2) \<and> calm idle cap f2 \<and>
    cells (chip f2) = written (cells (chip f)) (unat a) data"
proof -
  obtain f1 where f1: "write_value io a data True f = Some (True, f1)" "calm idle cap f1"
    "cells (chip f1) = written (cells (chip f)) (unat a) data"
    using write_value_ok [OF assms(1-4)] by blast
  with read_value_ok [OF f1(2), of a n] assms(2,5) show ?thesis
    by (simp add: bytes_at_written)
qed

end

text \<open>A 32-bit value written to erased cells at any address, across a page boundary or not, is read back,
  and no other cell changes.\<close>

theorem typed_round_trip:
  fixes f :: "nor spiflash"
  assumes "calm nor_idle (2 * 1024 * 1024) f" and "unat a + 4 \<le> 2 * 1024 * 1024"
    and "\<forall>i < 4. nor_cells (chip f) (unat a + i) = 0xFF"
  shows "\<exists>f1 f2. writeULong nor_chip a v True f = Some (True, f1) \<and>
    readULong nor_chip a False f1 = Some (v, f2) \<and> calm nor_idle (2 * 1024 * 1024) f2 \<and>
    (\<forall>i. i < unat a \<or> unat a + 4 \<le> i \<longrightarrow> nor_cells (chip f2) i = nor_cells (chip f) i)"
proof -
  obtain f1 f2 where "write_value nor_chip a (le32 v) True f = Some (True, f1)"
    "read_value nor_chip 4 a False f1 = Some (Some (le32 v), f2)" "calm nor_idle (2 * 1024 * 1024) f2"
    "nor_cells (chip f2) = written (nor_cells (chip f)) (unat a) (le32 v)"
    using w25.value_round_trip [OF assms(1), of a "le32 v" 4] assms(2,3) by (auto simp: le32_def)
  then show ?thesis
    by (auto simp: writeULong_def readULong_def or_zero_def written_def)
qed

section \<open>Blocks\<close>

text \<open>What the data sheet says of the larger erases, on top of the sector.\<close>

locale nor_flash_blocks = nor_flash +
  fixes chip_time :: u32
  assumes erase_32K: "idle c \<Longrightarrow> wel c \<Longrightarrow> unat (a :: u32) < cap \<Longrightarrow>
      command io [BLOCK32ERASE, ucast (drop_bit 16 a), ucast (drop_bit 8 a), 0] c = (rs, c') \<Longrightarrow>
      settles io cells wel idle 1000 c' (\<lambda>i. if i div 32768 = unat a div 32768 then 0xFF else cells c i)"
    and erase_64K: "idle c \<Longrightarrow> wel c \<Longrightarrow> unat a < cap \<Longrightarrow>
      command io [BLOCK64ERASE, ucast (drop_bit 16 a), ucast (drop_bit 8 a), 0] c = (rs, c') \<Longrightarrow>
      settles io cells wel idle 1200 c' (\<lambda>i. if i div 65536 = unat a div 65536 then 0xFF else cells c i)"
    and erase_all: "idle c \<Longrightarrow> wel c \<Longrightarrow> chip_time \<le> t \<Longrightarrow> command io [CHIPERASE] c = (rs, c') \<Longrightarrow>
      settles io cells wel idle t c' (\<lambda>i. 0xFF)"

context nor_flash_blocks
begin

text \<open>An erase command that settles: the common steps of the three operations.\<close>

lemma erase_steps:
  assumes "calm idle cap f"
    and "opcode \<notin> {FASTREAD, READDATA, PAGEPROG}"
    and "\<And>c rs c'. idle c \<Longrightarrow> wel c \<Longrightarrow> cells c = cells (chip f) \<Longrightarrow> command io (opcode # ds) c = (rs, c') \<Longrightarrow>
      settles io cells wel idle t c' m"
  obtains f1 f2 where "ready_to_write io f = Some (True, f1)" and "kept f f1"
    and "notBusy io t (endSPI io (snd (nextBytes io ds (beginSPI io opcode f1)))) = Some (True, f2)"
    and "calm idle cap f2" and "cells (chip f2) = m"
proof -
  have u: "usable cap f" using assms(1) by (simp add: calm_def)
  have "settles io cells wel idle BUSY_TIMEOUT (chip f) (cells (chip f))"
    using calm_settles [OF assms(1)] by simp
  from ready_to_write_settles [OF this] obtain f1 where f1: "ready_to_write io f = Some (True, f1)"
    "idle (chip f1)" "wel (chip f1)" "cells (chip f1) = cells (chip f)" "kept f f1" by blast
  define g where "g = endSPI io (snd (nextBytes io ds (beginSPI io opcode f1)))"
  obtain rs c' where cmd: "command io (opcode # ds) (chip f1) = (rs, c')" by fastforce
  have "chip g = c'"
    using chip_command [of io ds opcode f1] cmd assms(2) by (simp add: g_def endSPI_def opcode_bytes_def)
  with assms(3) [OF f1(2-4) cmd] have "settles io cells wel idle t (chip g) m" by simp
  from notBusy_settles [OF this] obtain f2 where f2: "notBusy io t g = Some (True, f2)"
    "idle (chip f2)" "kept g f2" "cells (chip f2) = m" by blast
  have "kept f1 g"
    by (simp add: g_def endSPI_def chip_deselect_def nextBytes_def beginSPI_def kept_def case_prod_beta)
  then have "usable cap f2" using u f1(5) f2(3) by (metis usable_kept)
  with f1(1,5) f2 that show thesis by (simp add: g_def calm_def)
qed

lemma eraseBlock32K_ok:
  assumes "calm idle cap f" and "unat a < cap"
  shows "\<exists>f'. eraseBlock32K io a f = Some (True, f') \<and> calm idle cap f' \<and>
    cells (chip f') = (\<lambda>i. if i div 32768 = unat a div 32768 then 0xFF else cells (chip f) i)"
proof -
  let ?m = "\<lambda>i. if i div 32768 = unat a div 32768 then 0xFF else cells (chip f) i"
  have law: "settles io cells wel idle 1000 c' ?m"
    if "idle c" "wel c" "cells c = cells (chip f)"
      "command io (BLOCK32ERASE # [ucast (drop_bit 16 a), ucast (drop_bit 8 a), 0]) c = (rs, c')" for c rs c'
    using erase_32K [OF that(1,2) assms(2) that(4)] unfolding that(3) .
  obtain f1 f2 where "ready_to_write io f = Some (True, f1)" and "kept f f1"
    and "notBusy io 1000 (endSPI io (snd (nextBytes io [ucast (drop_bit 16 a), ucast (drop_bit 8 a), 0]
      (beginSPI io BLOCK32ERASE f1)))) = Some (True, f2)" and "calm idle cap f2"
    and "cells (chip f2) = ?m"
    by (rule erase_steps [OF assms(1), where opcode = BLOCK32ERASE and t = 1000 and m = ?m
        and ds = "[ucast (drop_bit 16 a), ucast (drop_bit 8 a), 0]"]) (simp, erule (3) law, blast)
  then show ?thesis by (simp add: eraseBlock32K_def erase_block_def)
qed

lemma eraseBlock64K_ok:
  assumes "calm idle cap f" and "unat a < cap"
  shows "\<exists>f'. eraseBlock64K io a f = Some (True, f') \<and> calm idle cap f' \<and>
    cells (chip f') = (\<lambda>i. if i div 65536 = unat a div 65536 then 0xFF else cells (chip f) i)"
proof -
  let ?m = "\<lambda>i. if i div 65536 = unat a div 65536 then 0xFF else cells (chip f) i"
  have law: "settles io cells wel idle 1200 c' ?m"
    if "idle c" "wel c" "cells c = cells (chip f)"
      "command io (BLOCK64ERASE # [ucast (drop_bit 16 a), ucast (drop_bit 8 a), 0]) c = (rs, c')" for c rs c'
    using erase_64K [OF that(1,2) assms(2) that(4)] unfolding that(3) .
  obtain f1 f2 where "ready_to_write io f = Some (True, f1)" and "kept f f1"
    and "notBusy io 1200 (endSPI io (snd (nextBytes io [ucast (drop_bit 16 a), ucast (drop_bit 8 a), 0]
      (beginSPI io BLOCK64ERASE f1)))) = Some (True, f2)" and "calm idle cap f2"
    and "cells (chip f2) = ?m"
    by (rule erase_steps [OF assms(1), where opcode = BLOCK64ERASE and t = 1200 and m = ?m
        and ds = "[ucast (drop_bit 16 a), ucast (drop_bit 8 a), 0]"]) (simp, erule (3) law, blast)
  then show ?thesis by (simp add: eraseBlock64K_def erase_block_def)
qed

lemma eraseChip_ok:
  assumes "calm idle cap f" and "chip_time \<le> eraseTime f"
  shows "\<exists>f'. eraseChip io f = Some (True, f') \<and> calm idle cap f' \<and> cells (chip f') = (\<lambda>i. 0xFF)"
proof -
  obtain f1 f2 where "ready_to_write io f = Some (True, f1)" and "kept f f1"
    and "notBusy io (eraseTime f) (endSPI io (snd (nextBytes io [] (beginSPI io CHIPERASE f1)))) = Some (True, f2)"
    and "calm idle cap f2" and "cells (chip f2) = (\<lambda>i. 0xFF)"
    by (rule erase_steps [OF assms(1)]) (use erase_all [OF _ _ assms(2)] in auto)
  then show ?thesis by (simp add: eraseChip_def kept_def nextBytes_def)
qed

end

text \<open>The chip with timing meets them, too.\<close>

lemma of_address_block:
  fixes a :: u32
  assumes "unat a < 2 ^ 24"
  shows "of_address [ucast (drop_bit 16 a), ucast (drop_bit 8 a), 0] div (256 * k) = unat a div (256 * k)"
proof -
  define q where "q = unat (ucast (drop_bit 16 a) :: u8) * 256 + unat (ucast (drop_bit 8 a) :: u8)"
  have "unat a = 256 * q + unat (ucast a :: u8)"
    using unat_bytes_24 [OF assms, of "[]"] by (simp add: address_bytes_def q_def)
  moreover have "unat (ucast a :: u8) < 256" using unsigned_less [of "ucast a :: u8", where ?'a = nat] by simp
  ultimately have "unat a div 256 = q" by simp
  moreover have "of_address [ucast (drop_bit 16 a), ucast (drop_bit 8 a), 0] = 256 * q"
    by (simp add: q_def)
  ultimately show ?thesis by (simp add: div_mult2_eq)
qed

lemma settles_nor:
  assumes "\<not> nor_selected c" and "nor_got c = []" and "nor_busy c \<le> unat t" and "1 \<le> t"
  shows "settles nor_chip nor_cells nor_wel nor_idle t c (nor_cells c)"
proof -
  from wait_ready_nor [OF assms] obtain b k where
    "wait_ready nor_chip t c = Some (True, b, c\<lparr>nor_busy := 0, nor_clock := k\<rparr>)" "bit b (Suc 0) \<longleftrightarrow> nor_wel c"
    by blast
  with assms(1,2) show ?thesis by (simp add: settles_def nor_idle_def)
qed

interpretation w25b: nor_flash_blocks nor_chip nor_cells nor_wel nor_idle "2 * 1024 * 1024" 6000
proof
  fix c and a :: u32 and rs c'
  assume pre: "nor_idle c" "nor_wel c" "unat a < 2 * 1024 * 1024"
    and cmd: "command nor_chip [BLOCK32ERASE, ucast (drop_bit 16 a), ucast (drop_bit 8 a), 0] c = (rs, c')"
  have "unat a < 2 ^ 24" using pre(3) by simp
  then have block: "of_address [ucast (drop_bit 16 a), ucast (drop_bit 8 a), 0] div 32768 = unat a div 32768"
    using of_address_block [of a 128] by simp
  have "c' = c\<lparr>nor_wel := False, nor_busy := 800, nor_selected := False, nor_got := [],
      nor_cells := (\<lambda>i. if i div 32768 = unat a div 32768 then 0xFF else nor_cells c i)\<rparr>"
    using command_nor [of "[BLOCK32ERASE, ucast (drop_bit 16 a), ucast (drop_bit 8 a), 0]" c] cmd pre(2)
    by (simp add: nor_execute_def block del: of_address.simps cong: if_cong)
  then show "settles nor_chip nor_cells nor_wel nor_idle 1000 c'
      (\<lambda>i. if i div 32768 = unat a div 32768 then 0xFF else nor_cells c i)"
    using settles_nor [of c' 1000] by simp
next
  fix c and a :: u32 and rs c'
  assume pre: "nor_idle c" "nor_wel c" "unat a < 2 * 1024 * 1024"
    and cmd: "command nor_chip [BLOCK64ERASE, ucast (drop_bit 16 a), ucast (drop_bit 8 a), 0] c = (rs, c')"
  have "unat a < 2 ^ 24" using pre(3) by simp
  then have block: "of_address [ucast (drop_bit 16 a), ucast (drop_bit 8 a), 0] div 65536 = unat a div 65536"
    using of_address_block [of a 256] by simp
  have "c' = c\<lparr>nor_wel := False, nor_busy := 1000, nor_selected := False, nor_got := [],
      nor_cells := (\<lambda>i. if i div 65536 = unat a div 65536 then 0xFF else nor_cells c i)\<rparr>"
    using command_nor [of "[BLOCK64ERASE, ucast (drop_bit 16 a), ucast (drop_bit 8 a), 0]" c] cmd pre(2)
    by (simp add: nor_execute_def block del: of_address.simps cong: if_cong)
  then show "settles nor_chip nor_cells nor_wel nor_idle 1200 c'
      (\<lambda>i. if i div 65536 = unat a div 65536 then 0xFF else nor_cells c i)"
    using settles_nor [of c' 1200] by simp
next
  fix c and t :: u32 and rs c'
  assume pre: "nor_idle c" "nor_wel c" "6000 \<le> t" and cmd: "command nor_chip [CHIPERASE] c = (rs, c')"
  have "c' = c\<lparr>nor_wel := False, nor_busy := 6000, nor_selected := False, nor_got := [],
      nor_cells := (\<lambda>i. 0xFF)\<rparr>"
    using command_nor [of "[CHIPERASE]" c] cmd pre(2) by (simp add: nor_execute_def)
  moreover have "6000 \<le> unat t" and "1 \<le> t"
    using pre(3) order_trans [of 1 6000 t] by (simp_all add: word_le_nat_alt)
  ultimately show "settles nor_chip nor_cells nor_wel nor_idle t c' (\<lambda>i. 0xFF)"
    using settles_nor [of c' t] by simp
qed

text \<open>The block and chip erases set exactly their block to 0xFF and leave every other cell alone.\<close>

theorem erase_blocks:
  fixes f :: "nor spiflash"
  assumes "calm nor_idle (2 * 1024 * 1024) f" and "unat a < 2 * 1024 * 1024" and "6000 \<le> eraseTime f"
  shows "(\<exists>f'. eraseBlock32K nor_chip a f = Some (True, f') \<and> calm nor_idle (2 * 1024 * 1024) f' \<and>
      nor_cells (chip f') = (\<lambda>i. if i div 32768 = unat a div 32768 then 0xFF else nor_cells (chip f) i)) \<and>
    (\<exists>f'. eraseBlock64K nor_chip a f = Some (True, f') \<and> calm nor_idle (2 * 1024 * 1024) f' \<and>
      nor_cells (chip f') = (\<lambda>i. if i div 65536 = unat a div 65536 then 0xFF else nor_cells (chip f) i)) \<and>
    (\<exists>f'. eraseChip nor_chip f = Some (True, f') \<and> calm nor_idle (2 * 1024 * 1024) f' \<and>
      nor_cells (chip f') = (\<lambda>i. 0xFF))"
  using w25b.eraseBlock32K_ok [OF assms(1,2)] w25b.eraseBlock64K_ok [OF assms(1,2)]
    w25b.eraseChip_ok [OF assms(1,3)] by blast

text \<open>A chip that has been erased, between two operations.\<close>

definition blank_flash :: "nor spiflash" where
  "blank_flash =
     \<lparr>chip = \<lparr>nor_cells = (\<lambda>i. 0xFF), nor_wel = False, nor_busy = 0, nor_selected = False, nor_got = [], nor_clock = 0\<rparr>,
      currentAddress = 0, status = 0, errorcode = 0, SPIBusState = False, manufacturerID = 0xEF, memoryTypeID = 0x40,
      capacityID = 0x15, supported = 0xEF, sfdp = 0x50444653, capacity = 2 * 1024 * 1024, eraseTime = 10000,
      pageOverflow = False\<rparr>"

lemma blank_calm: "calm nor_idle (2 * 1024 * 1024) blank_flash"
  by (simp add: calm_def usable_def nor_idle_def blank_flash_def)

lemma typed_round_trip_witness:
  "\<exists>f1 f2. writeULong nor_chip 254 0xDEADBEEF True blank_flash = Some (True, f1) \<and>
     readULong nor_chip 254 False f1 = Some (0xDEADBEEF, f2) \<and> calm nor_idle (2 * 1024 * 1024) f2 \<and>
     (\<forall>i. i < unat (254 :: u32) \<or> unat (254 :: u32) + 4 \<le> i \<longrightarrow>
        nor_cells (chip f2) i = nor_cells (chip blank_flash) i)"
  by (rule typed_round_trip [OF blank_calm]) (simp_all add: blank_flash_def)

lemma erase_blocks_witness:
  "(\<exists>f'. eraseBlock32K nor_chip 70000 blank_flash = Some (True, f') \<and> calm nor_idle (2 * 1024 * 1024) f' \<and>
      nor_cells (chip f') = (\<lambda>i. if i div 32768 = unat (70000 :: u32) div 32768 then 0xFF
        else nor_cells (chip blank_flash) i)) \<and>
   (\<exists>f'. eraseBlock64K nor_chip 70000 blank_flash = Some (True, f') \<and> calm nor_idle (2 * 1024 * 1024) f' \<and>
      nor_cells (chip f') = (\<lambda>i. if i div 65536 = unat (70000 :: u32) div 65536 then 0xFF
        else nor_cells (chip blank_flash) i)) \<and>
   (\<exists>f'. eraseChip nor_chip blank_flash = Some (True, f') \<and> calm nor_idle (2 * 1024 * 1024) f' \<and>
      nor_cells (chip f') = (\<lambda>i. 0xFF))"
  by (rule erase_blocks [OF blank_calm]) (simp_all add: blank_flash_def)

end
