(* ===== verification/CircBuf.thy ===== *)
theory CircBuf
  imports Prelude "HOL-Library.Monad_Syntax"
begin

text \<open>
  \<open>cbuf.cpp\<close>: the circular byte buffer under the UDP socket. Its four pointers are indices into its memory;
  an access outside of it is \<open>None\<close>. The contract is a queue of bounded length: every program of operations
  answers as the queue does, with one exception in \<open>resize\<close>, which is stated too.
\<close>

section \<open>The code\<close>

record cbuf =
  csize :: nat
  cbytes :: "u8 list"
  cbegin :: nat
  cend :: nat

text \<open>The copies of \<open>memcpy\<close> from and to the buffer.\<close>

definition fetch :: "cbuf \<Rightarrow> nat \<Rightarrow> nat \<Rightarrow> u8 list option" where
  "fetch c i n = (if i + n \<le> length (cbytes c) then Some (load (cbytes c) i n) else None)"

definition deposit :: "nat \<Rightarrow> u8 list \<Rightarrow> cbuf \<Rightarrow> cbuf option" where
  "deposit i bs c = (if i + length bs \<le> length (cbytes c) then Some (c\<lparr>cbytes := store (cbytes c) i bs\<rparr>) else None)"

text \<open>A new buffer; \<open>junk\<close> is what its memory holds.\<close>

definition cbuf_new :: "(nat \<Rightarrow> u8) \<Rightarrow> nat \<Rightarrow> cbuf" where
  "cbuf_new junk n =
     (let s = (n + 1) mod 2 ^ 32 in \<lparr>csize = s, cbytes = map junk [0..<s], cbegin = 0, cend = 0\<rparr>)"

definition wrap_if_bufend :: "cbuf \<Rightarrow> nat \<Rightarrow> nat" where
  "wrap_if_bufend c p = (if p = csize c then 0 else p)"

definition cbuf_empty :: "cbuf \<Rightarrow> bool" where
  "cbuf_empty c \<longleftrightarrow> cbegin c = cend c"

definition cbuf_full :: "cbuf \<Rightarrow> bool" where
  "cbuf_full c \<longleftrightarrow> wrap_if_bufend c (cend c + 1) = cbegin c"

definition available :: "cbuf \<Rightarrow> nat" where
  "available c = (if cbegin c \<le> cend c then cend c - cbegin c else csize c - (cbegin c - cend c))"

definition cbuf_room :: "cbuf \<Rightarrow> nat" where
  "cbuf_room c =
     (if cbegin c \<le> cend c then (csize c + 2 ^ 32 - (cend c - cbegin c) - 1) mod 2 ^ 32
      else cbegin c - cend c - 1)"

definition peek_byte :: "cbuf \<Rightarrow> int option" where
  "peek_byte c = (if cbuf_empty c then Some (- 1) else do { bs \<leftarrow> fetch c (cbegin c) 1; Some (uint (hd bs)) })"

definition cbuf_peek :: "nat \<Rightarrow> cbuf \<Rightarrow> u8 list option" where
  "cbuf_peek n c =
     (let k = min n (available c); top = csize c - cbegin c
      in if cend c < cbegin c \<and> top < k
         then do { d1 \<leftarrow> fetch c (cbegin c) top; d2 \<leftarrow> fetch c 0 (k - top); Some (d1 @ d2) }
         else fetch c (cbegin c) k)"

definition read_byte :: "cbuf \<Rightarrow> (int \<times> cbuf) option" where
  "read_byte c =
     (if cbuf_empty c then Some (- 1, c)
      else do { bs \<leftarrow> fetch c (cbegin c) 1; Some (uint (hd bs), c\<lparr>cbegin := wrap_if_bufend c (cbegin c + 1)\<rparr>) })"

definition cbuf_read :: "nat \<Rightarrow> cbuf \<Rightarrow> (u8 list \<times> cbuf) option" where
  "cbuf_read n c =
     (let k = min n (available c); top = csize c - cbegin c
      in if cend c < cbegin c \<and> top < k
         then do {
           d1 \<leftarrow> fetch c (cbegin c) top;
           d2 \<leftarrow> fetch c 0 (k - top);
           Some (d1 @ d2, c\<lparr>cbegin := wrap_if_bufend c (0 + (k - top))\<rparr>)
         }
         else do {
           d \<leftarrow> fetch c (cbegin c) k;
           Some (d, c\<lparr>cbegin := wrap_if_bufend c (cbegin c + k)\<rparr>)
         })"

definition write_byte :: "u8 \<Rightarrow> cbuf \<Rightarrow> (nat \<times> cbuf) option" where
  "write_byte b c =
     (if cbuf_full c then Some (0, c)
      else do { c1 \<leftarrow> deposit (cend c) [b] c; Some (1, c1\<lparr>cend := wrap_if_bufend c1 (cend c1 + 1)\<rparr>) })"

definition cbuf_write :: "u8 list \<Rightarrow> cbuf \<Rightarrow> (nat \<times> cbuf) option" where
  "cbuf_write src c =
     (let k = min (length src) (cbuf_room c); top = csize c - cend c
      in if cbegin c \<le> cend c \<and> top < k
         then do {
           c1 \<leftarrow> deposit (cend c) (take top src) c;
           c2 \<leftarrow> deposit 0 (take (k - top) (drop top src)) c1;
           Some (k, c2\<lparr>cend := wrap_if_bufend c2 (0 + (k - top))\<rparr>)
         }
         else do {
           c1 \<leftarrow> deposit (cend c) (take k src) c;
           Some (k, c1\<lparr>cend := wrap_if_bufend c1 (cend c + k)\<rparr>)
         })"

definition cbuf_flush :: "cbuf \<Rightarrow> cbuf" where
  "cbuf_flush c = c\<lparr>cbegin := 0, cend := 0\<rparr>"

definition cbuf_remove :: "nat \<Rightarrow> cbuf \<Rightarrow> nat \<times> cbuf" where
  "cbuf_remove n c =
     (if available c \<le> n then (0, cbuf_flush c)
      else let k = min n (available c); top = csize c - cbegin c;
               (b, k') = (if cend c < cbegin c \<and> top < k then (0, k - top) else (cbegin c, k));
               c' = c\<lparr>cbegin := wrap_if_bufend c (b + k')\<rparr>
           in (available c', c'))"

definition cbuf_resize :: "bool \<Rightarrow> nat \<Rightarrow> cbuf \<Rightarrow> (nat \<times> cbuf) option" where
  "cbuf_resize alloc newSize c =
     (let bytes = available c; n = (newSize + 1) mod 2 ^ 32
      in if n < bytes \<or> n = csize c then Some (csize c, c)
         else if \<not> alloc then Some (csize c, c)
         else do {
           (d, _) \<leftarrow> cbuf_read bytes c;
           Some (n, \<lparr>csize = n, cbytes = d @ replicate (n - bytes) 0, cbegin = 0, cend = bytes\<rparr>)
         })"

definition resizeAdd :: "bool \<Rightarrow> nat \<Rightarrow> cbuf \<Rightarrow> (nat \<times> cbuf) option" where
  "resizeAdd alloc addSize c = cbuf_resize alloc ((csize c + addSize) mod 2 ^ 32) c"

section \<open>The queue\<close>

text \<open>What the buffer holds, from its oldest byte on, and the states in which its pointers are in place.\<close>

definition content :: "cbuf \<Rightarrow> u8 list" where
  "content c =
     (if cbegin c \<le> cend c then load (cbytes c) (cbegin c) (cend c - cbegin c)
      else drop (cbegin c) (cbytes c) @ take (cend c) (cbytes c))"

definition wf_cbuf :: "cbuf \<Rightarrow> bool" where
  "wf_cbuf c \<longleftrightarrow> length (cbytes c) = csize c \<and> cbegin c < csize c \<and> cend c < csize c \<and> csize c < 2 ^ 32"

lemma available_content: "wf_cbuf c \<Longrightarrow> available c = length (content c)"
  by (simp add: wf_cbuf_def available_def content_def)

lemma content_lt: "wf_cbuf c \<Longrightarrow> length (content c) < csize c"
  by (auto simp: wf_cbuf_def content_def)

lemma room_content:
  assumes "wf_cbuf c"
  shows "cbuf_room c = csize c - 1 - length (content c)"
proof (cases "cbegin c \<le> cend c")
  case True
  with assms have "csize c + 2 ^ 32 - (cend c - cbegin c) - 1 = csize c - 1 - (cend c - cbegin c) + 2 ^ 32"
    and "csize c - 1 - (cend c - cbegin c) < 2 ^ 32" and "length (content c) = cend c - cbegin c"
    by (auto simp: wf_cbuf_def content_def)
  with True show ?thesis by (simp only: cbuf_room_def if_True mod_add_self2 mod_less)
next
  case False
  with assms show ?thesis by (simp add: wf_cbuf_def cbuf_room_def content_def)
qed

lemma empty_content: "wf_cbuf c \<Longrightarrow> cbuf_empty c \<longleftrightarrow> content c = []"
  by (auto simp: wf_cbuf_def cbuf_empty_def content_def load_def)

lemma full_content: "wf_cbuf c \<Longrightarrow> cbuf_full c \<longleftrightarrow> length (content c) = csize c - 1"
  by (auto simp: wf_cbuf_def cbuf_full_def content_def wrap_if_bufend_def split: if_splits)

lemma new_content:
  assumes "n + 1 < 2 ^ 32"
  shows "wf_cbuf (cbuf_new junk n) \<and> content (cbuf_new junk n) = [] \<and> csize (cbuf_new junk n) = n + 1"
  using assms by (simp add: cbuf_new_def wf_cbuf_def content_def load_def)

lemma peek_content:
  assumes "wf_cbuf c"
  shows "cbuf_peek n c = Some (take n (content c))"
proof (cases "cbegin c \<le> cend c")
  case True
  moreover have "cbegin c + min n (cend c - cbegin c) \<le> csize c"
    using True assms min.cobounded2 [of n "cend c - cbegin c"] unfolding wf_cbuf_def by linarith
  ultimately show ?thesis
    using assms by (simp add: cbuf_peek_def Let_def fetch_def available_def content_def wf_cbuf_def load_def)
next
  case False
  show ?thesis
  proof (cases "csize c - cbegin c < min n (available c)")
    case True
    have w: "length (cbytes c) = csize c" "cbegin c < csize c" "cend c < csize c" "cend c < cbegin c"
      and av: "available c = csize c - cbegin c + cend c"
      using assms False by (simp_all add: wf_cbuf_def available_def)
    have n: "csize c - cbegin c < n" and k: "min n (available c) - (csize c - cbegin c) = min (n - (csize c - cbegin c)) (cend c)"
      using True unfolding av by linarith+
    show ?thesis
      using n True w by (simp add: cbuf_peek_def Let_def fetch_def k content_def load_def)
  next
    case in_top: False
    have "take n (content c) = take (min n (available c)) (content c)"
      by (simp add: available_content [OF assms] min_def)
    also have "\<dots> = take (min n (available c)) (drop (cbegin c) (cbytes c))"
    proof -
      have "min n (available c) \<le> length (drop (cbegin c) (cbytes c))"
        using in_top assms by (auto simp: wf_cbuf_def not_less min_def)
      then show ?thesis using False by (simp only: content_def if_False take_append) simp
    qed
    moreover have "cbegin c + min n (available c) \<le> csize c"
      using in_top assms by (auto simp: wf_cbuf_def min_def)
    ultimately show ?thesis
      using in_top False assms by (simp add: cbuf_peek_def Let_def fetch_def wf_cbuf_def load_def)
  qed
qed

text \<open>Reading and removing move the begin around the ring.\<close>

definition advance :: "nat \<Rightarrow> cbuf \<Rightarrow> cbuf" where
  "advance k c = c\<lparr>cbegin := (cbegin c + k) mod csize c\<rparr>"

lemma ring_mod:
  fixes p :: nat
  assumes "s \<le> p" and "p < 2 * s"
  shows "p mod s = p - s"
  using assms by (simp add: le_mod_geq)

lemma advance_content:
  assumes "wf_cbuf c" and "k \<le> length (content c)"
  shows "wf_cbuf (advance k c) \<and> content (advance k c) = drop k (content c) \<and> csize (advance k c) = csize c"
proof (cases "cbegin c \<le> cend c")
  case True
  then have "cbegin c + k \<le> cend c" using assms by (simp add: content_def wf_cbuf_def)
  then have "(cbegin c + k) mod csize c = cbegin c + k" using assms by (simp add: wf_cbuf_def)
  with True \<open>cbegin c + k \<le> cend c\<close> assms show ?thesis
    by (simp add: advance_def content_def wf_cbuf_def load_def drop_take add.commute)
next
  case False
  then have k: "k \<le> csize c - cbegin c + cend c" using assms by (simp add: content_def wf_cbuf_def)
  show ?thesis
  proof (cases "cbegin c + k < csize c")
    case True
    with False assms show ?thesis by (simp add: advance_def content_def wf_cbuf_def add.commute)
  next
    case wrapped: False
    then have "(cbegin c + k) mod csize c = cbegin c + k - csize c"
      using k False assms(1) unfolding wf_cbuf_def by (intro ring_mod) linarith+
    with wrapped False k assms show ?thesis
      by (auto simp: advance_def content_def wf_cbuf_def load_def drop_take add.commute)
  qed
qed

lemma advance_wraps:
  assumes "wf_cbuf c" and "k \<le> length (content c)"
  shows "(if cend c < cbegin c \<and> csize c - cbegin c < k then wrap_if_bufend c (k - (csize c - cbegin c))
     else wrap_if_bufend c (cbegin c + k)) = (cbegin c + k) mod csize c"
proof -
  have w: "cbegin c < csize c" "cend c < csize c" "length (cbytes c) = csize c" using assms(1) by (simp_all add: wf_cbuf_def)
  consider (inside) "cbegin c + k < csize c" | (edge) "cbegin c + k = csize c"
    | (around) "csize c < cbegin c + k" by linarith
  then show ?thesis
  proof cases
    case inside
    then have "\<not> csize c - cbegin c < k" by linarith
    with inside show ?thesis by (simp add: wrap_if_bufend_def)
  next
    case edge
    then have "\<not> csize c - cbegin c < k" by linarith
    with edge show ?thesis by (simp add: wrap_if_bufend_def)
  next
    case around
    with assms(2) w have "cend c < cbegin c" and "k - (csize c - cbegin c) \<le> cend c"
      by (simp_all add: content_def split: if_splits)
    moreover have "(cbegin c + k) mod csize c = cbegin c + k - csize c"
      using around calculation w by (intro ring_mod) simp_all
    ultimately show ?thesis using around w by (auto simp: wrap_if_bufend_def add.commute)
  qed
qed

lemma read_content:
  assumes "wf_cbuf c"
  shows "cbuf_read n c = Some (take n (content c), advance (min n (length (content c))) c)"
proof -
  have k: "min n (available c) = min n (length (content c))" by (simp add: available_content [OF assms])
  have "cbuf_read n c = do { d \<leftarrow> cbuf_peek n c; Some (d, c\<lparr>cbegin :=
      (if cend c < cbegin c \<and> csize c - cbegin c < min n (available c)
       then wrap_if_bufend c (min n (available c) - (csize c - cbegin c))
       else wrap_if_bufend c (cbegin c + min n (available c)))\<rparr>) }"
    by (simp add: cbuf_read_def cbuf_peek_def Let_def)
  then show ?thesis
    unfolding k advance_wraps [OF assms min.cobounded2] by (simp add: peek_content [OF assms] advance_def)
qed

lemma remove_content:
  assumes "wf_cbuf c"
  shows "cbuf_remove n c = (length (content c) - n,
    (if length (content c) \<le> n then cbuf_flush c else advance n c))"
proof (cases "length (content c) \<le> n")
  case False
  then have n: "n \<le> length (content c)" by simp
  have "available (advance n c) = length (content c) - n"
    using advance_content [OF assms n] available_content [of "advance n c"] by simp
  then show ?thesis
    using False advance_wraps [OF assms n]
    by (cases "cend c < cbegin c \<and> csize c - cbegin c < n")
      (auto simp: cbuf_remove_def available_content [OF assms] Let_def advance_def)
qed (simp add: cbuf_remove_def available_content [OF assms])

lemma flush_content: "wf_cbuf c \<Longrightarrow> wf_cbuf (cbuf_flush c) \<and> content (cbuf_flush c) = []"
  by (simp add: cbuf_flush_def wf_cbuf_def content_def load_def)

lemma write_content:
  assumes "wf_cbuf c"
  shows "\<exists>c'. cbuf_write src c = Some (min (length src) (csize c - 1 - length (content c)), c') \<and> wf_cbuf c' \<and>
    content c' = content c @ take (csize c - 1 - length (content c)) src \<and> csize c' = csize c"
proof -
  let ?m = "cbytes c" and ?b = "cbegin c" and ?e = "cend c" and ?s = "csize c"
  define k where "k = min (length src) (?s - 1 - length (content c))"
  have k: "min (length src) (cbuf_room c) = k" by (simp add: room_content [OF assms] k_def)
  have w: "length ?m = ?s" "?b < ?s" "?e < ?s" "?s < 2 ^ 32" using assms by (simp_all add: wf_cbuf_def)
  have taken: "take (?s - 1 - length (content c)) src = take k src" by (simp add: k_def min_def)
  have ks: "k \<le> length src" and kr: "k + length (content c) < ?s"
    using content_lt [OF assms] by (simp_all add: k_def)
  consider (over) "?b \<le> ?e" "?s - ?e < k" | (tail) "?b \<le> ?e" "k \<le> ?s - ?e" | (gap) "?e < ?b" by linarith
  then show ?thesis
  proof cases
    case over
    define m1 where "m1 = take ?e ?m @ take (?s - ?e) src"
    define r where "r = take (k - (?s - ?e)) (drop (?s - ?e) src)"
    have len: "length m1 = ?s" "length r = k - (?s - ?e)" using w over ks by (simp_all add: m1_def r_def)
    have "k + (?e - ?b) < ?s" using kr over w by (simp add: content_def)
    then have rb: "k - (?s - ?e) < ?b" using over w by linarith
    let ?c = "c\<lparr>cbytes := r @ drop (length r) m1, cend := length r\<rparr>"
    have "take k src = take (?s - ?e) src @ r" using over by (simp add: r_def flip: take_add)
    then have "content ?c = content c @ take k src"
      using over rb len w by (simp add: content_def load_def m1_def drop_take)
    moreover have "wf_cbuf ?c" using rb len w by (simp add: wf_cbuf_def)
    moreover have "cbuf_write src c = Some (k, ?c)"
      using over ks w rb len
      by (simp add: cbuf_write_def Let_def k deposit_def store_def wrap_if_bufend_def r_def flip: m1_def)
    ultimately show ?thesis unfolding taken k_def [symmetric] by auto
  next
    case tail
    have "k + (?e - ?b) < ?s" using kr tail w by (simp add: content_def)
    then have zero: "?e + k = ?s \<Longrightarrow> 0 < ?b" using tail by linarith
    let ?c = "c\<lparr>cbytes := take ?e ?m @ take k src @ drop (?e + k) ?m, cend := (if ?e + k = ?s then 0 else ?e + k)\<rparr>"
    have "content ?c = content c @ take k src"
      using tail zero w ks by (auto simp: content_def load_def drop_take)
    moreover have "wf_cbuf ?c" using tail w ks by (auto simp: wf_cbuf_def)
    moreover have "cbuf_write src c = Some (k, ?c)"
      using tail ks w by (simp add: cbuf_write_def Let_def k deposit_def store_def wrap_if_bufend_def)
    ultimately show ?thesis unfolding taken k_def [symmetric] by auto
  next
    case gap
    have "k + (?s - ?b + ?e) < ?s" using kr gap w by (simp add: content_def)
    then have kb: "?e + k < ?b" using w by linarith
    let ?c = "c\<lparr>cbytes := take ?e ?m @ take k src @ drop (?e + k) ?m, cend := ?e + k\<rparr>"
    have "content ?c = content c @ take k src"
      using gap kb w ks by (simp add: content_def)
    moreover have "wf_cbuf ?c" using kb w ks by (simp add: wf_cbuf_def)
    moreover have "cbuf_write src c = Some (k, ?c)"
      using gap kb ks w by (simp add: cbuf_write_def Let_def k deposit_def store_def wrap_if_bufend_def)
    ultimately show ?thesis unfolding taken k_def [symmetric] by auto
  qed
qed

text \<open>The operations on one byte are those on a list of one byte.\<close>

lemma content_hd:
  assumes "wf_cbuf c" and "content c \<noteq> []"
  shows "fetch c (cbegin c) 1 = Some [hd (content c)]"
  using assms by (auto simp: fetch_def wf_cbuf_def content_def load_def take_Suc hd_append split: if_splits)

lemma peek_byte_content:
  assumes "wf_cbuf c"
  shows "peek_byte c = Some (if content c = [] then - 1 else uint (hd (content c)))"
  using content_hd [OF assms] by (simp add: peek_byte_def empty_content [OF assms])

lemma read_byte_content:
  assumes "wf_cbuf c"
  shows "read_byte c = Some (if content c = [] then (- 1, c) else (uint (hd (content c)), advance 1 c))"
proof (cases "content c = []")
  case False
  then have "wrap_if_bufend c (cbegin c + 1) = (cbegin c + 1) mod csize c"
    using assms by (simp add: wrap_if_bufend_def wf_cbuf_def)
  with False show ?thesis
    using content_hd [OF assms] by (simp add: read_byte_def empty_content [OF assms] advance_def)
qed (simp add: read_byte_def empty_content [OF assms])

lemma write_byte_write:
  assumes "wf_cbuf c"
  shows "write_byte b c = cbuf_write [b] c"
proof (cases "cbuf_room c = 0")
  case True
  then have "cbuf_full c" using content_lt [OF assms] by (simp add: full_content [OF assms] room_content [OF assms])
  with True assms show ?thesis
    by (simp add: write_byte_def cbuf_write_def deposit_def store_def wrap_if_bufend_def wf_cbuf_def)
next
  case False
  then have "\<not> cbuf_full c" and "min 1 (cbuf_room c) = 1"
    by (simp_all add: full_content [OF assms] room_content [OF assms])
  with assms show ?thesis
    by (simp add: write_byte_def cbuf_write_def Let_def wf_cbuf_def deposit_def wrap_if_bufend_def)
qed

lemma resize_content:
  assumes "wf_cbuf c" and "n + 1 < 2 ^ 32" and "n + 1 \<noteq> length (content c)"
  shows "\<exists>c'. cbuf_resize alloc n c = Some (csize c', c') \<and> wf_cbuf c' \<and> content c' = content c \<and>
    csize c' = (if n + 1 < length (content c) \<or> \<not> alloc then csize c else n + 1)"
proof (cases "n + 1 < length (content c) \<or> n + 1 = csize c \<or> \<not> alloc")
  case True
  then show ?thesis using assms(1,2) by (auto simp: cbuf_resize_def Let_def available_content)
next
  case False
  let ?c = "\<lparr>csize = n + 1, cbytes = content c @ replicate (n + 1 - length (content c)) 0, cbegin = 0,
    cend = length (content c)\<rparr>"
  have "cbuf_resize alloc n c = Some (n + 1, ?c)"
    using False assms(2) by (simp add: cbuf_resize_def Let_def available_content [OF assms(1)] read_content [OF assms(1)])
  moreover have "wf_cbuf ?c" using False assms(2,3) by (simp add: wf_cbuf_def)
  moreover have "content ?c = content c" by (simp add: content_def load_def)
  ultimately show ?thesis using False by (intro exI [of _ ?c]) simp
qed

section \<open>Programs\<close>

text \<open>A call, and what it gives: the number returned and the bytes copied out.\<close>

datatype cbuf_op = Put u8 | PutAll "u8 list" | Take | TakeAll nat | Look | LookAll nat | Drop nat | Clear
  | Resize bool nat

definition cbuf_call :: "cbuf_op \<Rightarrow> cbuf \<Rightarrow> ((int \<times> u8 list) \<times> cbuf) option" where
  "cbuf_call op c = (case op of
     Put b \<Rightarrow> do { (k, c1) \<leftarrow> write_byte b c; Some ((int k, []), c1) }
   | PutAll bs \<Rightarrow> do { (k, c1) \<leftarrow> cbuf_write bs c; Some ((int k, []), c1) }
   | Take \<Rightarrow> do { (r, c1) \<leftarrow> read_byte c; Some ((r, []), c1) }
   | TakeAll n \<Rightarrow> do { (d, c1) \<leftarrow> cbuf_read n c; Some ((int (length d), d), c1) }
   | Look \<Rightarrow> do { r \<leftarrow> peek_byte c; Some ((r, []), c) }
   | LookAll n \<Rightarrow> do { d \<leftarrow> cbuf_peek n c; Some ((int (length d), d), c) }
   | Drop n \<Rightarrow> (let (k, c1) = cbuf_remove n c in Some ((int k, []), c1))
   | Clear \<Rightarrow> Some ((0, []), cbuf_flush c)
   | Resize alloc n \<Rightarrow> do { (k, c1) \<leftarrow> cbuf_resize alloc n c; Some ((int k, []), c1) })"

text \<open>The queue: its capacity and its bytes.\<close>

definition queue_call :: "cbuf_op \<Rightarrow> nat \<times> u8 list \<Rightarrow> (int \<times> u8 list) \<times> nat \<times> u8 list" where
  "queue_call op = (\<lambda>(cap, q). case op of
     Put b \<Rightarrow> (if length q < cap then ((1, []), cap, q @ [b]) else ((0, []), cap, q))
   | PutAll bs \<Rightarrow> ((int (min (length bs) (cap - length q)), []), cap, q @ take (cap - length q) bs)
   | Take \<Rightarrow> (case q of [] \<Rightarrow> ((- 1, []), cap, []) | b # q' \<Rightarrow> ((uint b, []), cap, q'))
   | TakeAll n \<Rightarrow> ((int (min (length q) n), take n q), cap, drop n q)
   | Look \<Rightarrow> ((case q of [] \<Rightarrow> - 1 | b # _ \<Rightarrow> uint b, []), cap, q)
   | LookAll n \<Rightarrow> ((int (min (length q) n), take n q), cap, q)
   | Drop n \<Rightarrow> ((int (length q - n), []), cap, drop n q)
   | Clear \<Rightarrow> ((0, []), cap, [])
   | Resize alloc n \<Rightarrow>
       (let cap' = (if n + 1 < length q \<or> \<not> alloc then cap else n) in ((int cap' + 1, []), cap', q)))"

primrec run_cbuf :: "cbuf_op list \<Rightarrow> cbuf \<Rightarrow> ((int \<times> u8 list) list \<times> cbuf) option" where
  "run_cbuf [] c = Some ([], c)"
| "run_cbuf (op # ops) c = do { (r, c1) \<leftarrow> cbuf_call op c; (rs, c2) \<leftarrow> run_cbuf ops c1; Some (r # rs, c2) }"

primrec run_queue :: "cbuf_op list \<Rightarrow> nat \<times> u8 list \<Rightarrow> (int \<times> u8 list) list \<times> nat \<times> u8 list" where
  "run_queue [] q = ([], q)"
| "run_queue (op # ops) q = (let (r, q1) = queue_call op q; (rs, q2) = run_queue ops q1 in (r # rs, q2))"

text \<open>The one call that is not the queue's: a new size of one less than the bytes held.\<close>

definition resize_ok :: "cbuf_op \<Rightarrow> nat \<times> u8 list \<Rightarrow> bool" where
  "resize_ok op = (\<lambda>(cap, q). case op of Resize _ n \<Rightarrow> n + 1 < 2 ^ 32 \<and> n + 1 \<noteq> length q | _ \<Rightarrow> True)"

primrec resizes_ok :: "cbuf_op list \<Rightarrow> nat \<times> u8 list \<Rightarrow> bool" where
  "resizes_ok [] q \<longleftrightarrow> True"
| "resizes_ok (op # ops) q \<longleftrightarrow> resize_ok op q \<and> resizes_ok ops (snd (queue_call op q))"

definition queue_of :: "cbuf \<Rightarrow> nat \<times> u8 list" where
  "queue_of c = (csize c - 1, content c)"

lemma call_refines:
  assumes "wf_cbuf c" and "resize_ok op (queue_of c)"
  shows "\<exists>r c'. cbuf_call op c = Some (r, c') \<and> wf_cbuf c' \<and> queue_call op (queue_of c) = (r, queue_of c')"
proof -
  note w = assms(1)
  have cap: "csize c - 1 - length (content c) = 0 \<longleftrightarrow> csize c - 1 \<le> length (content c)" by linarith
  show ?thesis
  proof (cases op)
    case (Put b)
    then show ?thesis
      using write_content [OF w, of "[b]"] cap
      by (auto simp: cbuf_call_def queue_call_def queue_of_def write_byte_write [OF w] take_Cons' min_def)
  next
    case (PutAll bs)
    then show ?thesis
      using write_content [OF w, of bs] by (auto simp: cbuf_call_def queue_call_def queue_of_def)
  next
    case Take
    then show ?thesis
      using advance_content [OF w, of 1] w
      by (cases "content c") (simp_all add: cbuf_call_def queue_call_def queue_of_def read_byte_content [OF w])
  next
    case (TakeAll n)
    then show ?thesis
      using advance_content [OF w, of "min n (length (content c))"]
      by (auto simp: cbuf_call_def queue_call_def queue_of_def read_content [OF w] min_def)
  next
    case Look
    then show ?thesis
      using w by (cases "content c") (simp_all add: cbuf_call_def queue_call_def queue_of_def peek_byte_content [OF w])
  next
    case (LookAll n)
    then show ?thesis
      using w by (simp add: cbuf_call_def queue_call_def queue_of_def peek_content [OF w])
  next
    case (Drop n)
    then show ?thesis
      using advance_content [OF w, of n] flush_content [OF w]
      by (auto simp: cbuf_call_def queue_call_def queue_of_def remove_content [OF w] cbuf_flush_def)
  next
    case Clear
    then show ?thesis
      using flush_content [OF w] by (simp add: cbuf_call_def queue_call_def queue_of_def cbuf_flush_def)
  next
    case (Resize alloc n)
    then have "n + 1 < 2 ^ 32" "n + 1 \<noteq> length (content c)"
      using assms(2) by (simp_all add: resize_ok_def queue_of_def)
    from resize_content [OF w this, of alloc] obtain c' where r: "cbuf_resize alloc n c = Some (csize c', c')"
        "wf_cbuf c'" "content c' = content c"
        "csize c' = (if n + 1 < length (content c) \<or> \<not> alloc then csize c else n + 1)" by blast
    have "csize c \<noteq> 0" using w by (auto simp: wf_cbuf_def)
    with Resize r show ?thesis
      by (auto simp: cbuf_call_def queue_call_def queue_of_def Let_def)
  qed
qed


text \<open>A resize to one byte less than the buffer holds leaves the end pointer behind the memory: the buffer
  reports four gigabytes of room, and the next byte is written behind it.\<close>

theorem resize_below_content:
  assumes "wf_cbuf c" and "n + 1 = length (content c)"
  shows "\<exists>c'. cbuf_resize True n c = Some (n + 1, c') \<and> cbuf_room c' = 2 ^ 32 - 1 \<and> write_byte b c' = None"
proof -
  let ?c = "\<lparr>csize = n + 1, cbytes = content c, cbegin = 0, cend = n + 1\<rparr>"
  have "n + 1 < csize c" using content_lt [OF assms(1)] assms(2) by simp
  moreover from this have "n + 1 < 2 ^ 32" using assms(1) by (simp add: wf_cbuf_def)
  ultimately have "cbuf_resize True n c = Some (n + 1, ?c)"
    using assms(2) by (simp add: cbuf_resize_def Let_def available_content [OF assms(1)] read_content [OF assms(1)])
  moreover have "cbuf_room ?c = 2 ^ 32 - 1" by (simp add: cbuf_room_def)
  moreover have "write_byte b ?c = None"
    using assms(2) by (simp add: write_byte_def cbuf_full_def wrap_if_bufend_def deposit_def)
  ultimately show ?thesis by blast
qed

section \<open>Witnesses\<close>


theorem resize_below_content_witness:
  "\<exists>c'. cbuf_resize True 1 \<lparr>csize = 4, cbytes = [1, 2, 3, 4], cbegin = 3, cend = 1\<rparr> = Some (1 + 1, c') \<and>
     cbuf_room c' = 2 ^ 32 - 1 \<and> write_byte 9 c' = None"
  by (rule resize_below_content) (simp_all add: wf_cbuf_def content_def)

end
