(* ===== verification/AnalogInput.thy ===== *)
theory AnalogInput
  imports Prelude Complex_Main "HOL-Library.Multiset"
begin

unbundle bit_operations_syntax

text \<open>
  \<open>AnalogSensor.cpp\<close> and \<open>Mcp3208.cpp\<close>: a sensor value is sixteen conversions of an ADC, averaged without the
  three smallest and the three largest, turned into a voltage and then into the quantity of the sensor's type.
  Floating point is a parameter; its exact instance \<open>exact\<close> serves to state that the voltage curve is monotone.
\<close>

section \<open>The external ADC\<close>

record 's adc_io =
  spi_begin :: "'s \<Rightarrow> 's"
  spi_select :: "bool \<Rightarrow> 's \<Rightarrow> 's"
  spi_byte :: "u8 \<Rightarrow> 's \<Rightarrow> u8 \<times> 's"
  analog_read :: "u8 \<Rightarrow> 's \<Rightarrow> u16 \<times> 's"
  adc_pause :: "'s \<Rightarrow> 's"

definition mcp3208_read :: "('s, 'z) adc_io_scheme \<Rightarrow> u8 \<Rightarrow> 's \<Rightarrow> u16 \<times> 's" where
  "mcp3208_read io ch s =
     (let v = 0x0400 OR push_bit 6 (ucast ch) :: u16;
          s1 = spi_select io True s;
          (_, s2) = spi_byte io (highByte v) s1;
          (h, s3) = spi_byte io (lowByte v) s2;
          (l, s4) = spi_byte io 0 s3
      in (makeWord (h AND 0x0F) l, spi_select io False s4))"

definition toAnalog :: "u16 \<Rightarrow> u16 \<Rightarrow> u16" where
  "toAnalog vref raw = of_nat (unat raw * unat vref div 4096)"

definition toDigital :: "u16 \<Rightarrow> u16 \<Rightarrow> u16 option" where
  "toDigital vref val = (if vref = 0 then None else Some (of_nat (unat val * 4096 div unat vref)))"

definition getAnalogRes :: "u16 \<Rightarrow> u16" where
  "getAnalogRes vref = of_nat (unat vref * 1000 div 4096)"

section \<open>The trimmed mean\<close>

record extremes =
  minVal :: nat
  minnVal :: nat
  minnnVal :: nat
  maxVal :: nat
  maxxVal :: nat
  maxxxVal :: nat
  sumVal :: nat

definition trim_init :: extremes where
  "trim_init = \<lparr>minVal = 4095, minnVal = 4095, minnnVal = 4095, maxVal = 0, maxxVal = 0, maxxxVal = 0, sumVal = 0\<rparr>"

definition trim_min :: "nat \<Rightarrow> extremes \<Rightarrow> extremes" where
  "trim_min val t =
     (if val < minVal t
      then if val < minnVal t
           then let t1 = t\<lparr>minVal := minnVal t\<rparr>
                in if val < minnnVal t then t1\<lparr>minnVal := minnnVal t, minnnVal := val\<rparr> else t1\<lparr>minnVal := val\<rparr>
           else t\<lparr>minVal := val\<rparr>
      else t)"

definition trim_max :: "nat \<Rightarrow> extremes \<Rightarrow> extremes" where
  "trim_max val t =
     (if maxVal t < val
      then if maxxVal t < val
           then let t1 = t\<lparr>maxVal := maxxVal t\<rparr>
                in if maxxxVal t < val then t1\<lparr>maxxVal := maxxxVal t, maxxxVal := val\<rparr> else t1\<lparr>maxxVal := val\<rparr>
           else t\<lparr>maxVal := val\<rparr>
      else t)"

definition trim_step :: "nat \<Rightarrow> extremes \<Rightarrow> extremes" where
  "trim_step val t =
     (let t2 = trim_max val (trim_min val t) in t2\<lparr>sumVal := (sumVal t2 + val) mod 2 ^ 32\<rparr>)"

record 'f analog =
  sensorPin :: "u8 list"
  sensorType :: "u8 list"
  adcExt :: u8
  sensorRange :: "('f \<times> 'f) list"

text \<open>One conversion, and the loop over all of them.\<close>

definition convert :: "('s, 'z) adc_io_scheme \<Rightarrow> ('f, 'y) analog_scheme \<Rightarrow> u8 \<Rightarrow> 's \<Rightarrow> nat \<times> 's" where
  "convert io a ch s =
     (let (v, s1) = (if adcExt a = 0 then analog_read io (sensorPin a ! unat ch) s
                     else mcp3208_read io (8 + ch) (spi_begin io s))
      in (unat v, s1))"

primrec convert_loop ::
  "('s, 'z) adc_io_scheme \<Rightarrow> ('f, 'y) analog_scheme \<Rightarrow> u8 \<Rightarrow> nat \<Rightarrow> extremes \<Rightarrow> 's \<Rightarrow> extremes \<times> 's" where
  "convert_loop io a ch 0 t s = (t, s)"
| "convert_loop io a ch (Suc n) t s =
     (let (v, s1) = convert io a ch s in convert_loop io a ch n (trim_step v t) (adc_pause io s1))"

text \<open>The division is unsigned: six conversions divide by zero, fewer by a huge number.\<close>

definition getAvgAdc ::
  "('s, 'z) adc_io_scheme \<Rightarrow> ('f, 'y) analog_scheme \<Rightarrow> nat \<Rightarrow> u8 \<Rightarrow> 's \<Rightarrow> (nat \<times> 's) option" where
  "getAvgAdc io a num ch s =
     (let (t, s1) = convert_loop io a ch num trim_init s;
          rest = nat ((int (sumVal t) - int (minnnVal t) - int (minnVal t) - int (minVal t) - int (maxVal t)
                        - int (maxxVal t) - int (maxxxVal t)) mod 2 ^ 32);
          divisor = nat ((int num - 6) mod 2 ^ 32)
      in if divisor = 0 then None else Some (rest div divisor mod 2 ^ 16, s1))"

section \<open>Volts and units\<close>

text \<open>The floating-point operations; \<open>fround\<close> stores a \<open>double\<close> in a \<open>float\<close>.\<close>

record 'f fops =
  flit :: "rat \<Rightarrow> 'f"
  fadd :: "'f \<Rightarrow> 'f \<Rightarrow> 'f"
  fsub :: "'f \<Rightarrow> 'f \<Rightarrow> 'f"
  fmul :: "'f \<Rightarrow> 'f \<Rightarrow> 'f"
  fdiv :: "'f \<Rightarrow> 'f \<Rightarrow> 'f"
  flog :: "'f \<Rightarrow> 'f"
  fless :: "'f \<Rightarrow> 'f \<Rightarrow> bool"
  fround :: "'f \<Rightarrow> 'f"

definition adcVoltage :: "nat list" where
  "adcVoltage =
     [0, 0, 8, 16, 80, 128, 200, 240, 320, 356,
      430, 473, 560, 596, 672, 736, 790, 870, 912, 1000,
      1038, 1108, 1155, 1230, 1270, 1346, 1400, 1470, 1526, 1608,
      1677, 1720, 1793, 1838, 1910, 1960, 2032, 2087, 2167, 2197,
      2281, 2311, 2391, 2459, 2518, 2589, 2640, 2727, 2751, 2831,
      2899, 2982, 3043, 3127, 3183, 3306, 3408, 3479, 3607, 3703,
      3829, 3919, 4095, 4095, 4095, 4095, 4095]"

definition segment :: "'f fops \<Rightarrow> nat \<Rightarrow> nat \<Rightarrow> 'f" where
  "segment f reading i =
     fround f (fadd f (fmul f (flit f (5 / 100)) (flit f (of_int (int i - 1))))
       (fmul f (fround f (fdiv f (flit f (of_int (int reading - int (adcVoltage ! (i - 1)))))
                            (flit f (of_int (int (adcVoltage ! i) - int (adcVoltage ! (i - 1)))))))
               (flit f (5 / 100))))"

text \<open>The loop over the table from entry \<open>i\<close> on; \<open>None\<close> is a read in front of the table.\<close>

function table_loop :: "'f fops \<Rightarrow> nat \<Rightarrow> nat \<Rightarrow> 'f option" where
  "table_loop f reading i =
     (if 67 \<le> i then Some (fround f (flit f (33 / 10)))
      else if reading = 0 then Some (flit f 0)
      else if reading \<le> adcVoltage ! i
           then if i = 0 then None else Some (segment f reading i)
           else table_loop f reading (i + 1))"
  by pat_completeness auto
termination by (relation "measure (\<lambda>(f, reading, i). 67 - i)") auto

declare table_loop.simps [simp del]

definition getAdcVoltage :: "'f fops \<Rightarrow> u8 \<Rightarrow> nat \<Rightarrow> 'f option" where
  "getAdcVoltage f ext reading =
     (if ext = 1
      then Some (fround f (fmul f (fdiv f (flit f (of_nat reading)) (flit f 4095)) (flit f (33 / 10))))
      else table_loop f reading 0)"

definition valueRange :: "'f fops \<Rightarrow> 'f \<Rightarrow> 'f \<Rightarrow> 'f \<Rightarrow> 'f" where
  "valueRange f v lo hi = (if fless f v lo then lo else if fless f hi v then hi else v)"

text \<open>The resistance of a thermistor under \<open>r\<close> ohms, and its temperature.\<close>

definition cold_water :: "'f fops \<Rightarrow> rat \<Rightarrow> rat \<Rightarrow> 'f \<Rightarrow> 'f" where
  "cold_water f slope offset calVolt =
     (let calRes = fround f (fsub f (fround f (fdiv f (flit f 100000) calVolt)) (flit f 20000))
      in valueRange f (fround f (fadd f (fmul f (flit f (- slope)) (flog f calRes)) (flit f offset)))
           (flit f (- 5)) (flit f 24))"

definition hot_water :: "'f fops \<Rightarrow> rat \<Rightarrow> rat \<Rightarrow> 'f \<Rightarrow> 'f" where
  "hot_water f slope offset calVolt =
     (let r = fmul f (flit f (56 / 10)) (flit f 1000);
          calRes = fround f (fsub f (fdiv f (fmul f r (flit f 5)) calVolt) r)
      in valueRange f (fround f (fadd f (fmul f (flit f (- slope)) (flog f calRes)) (flit f offset)))
           (flit f 15) (flit f 45))"

definition loop_current :: "'f fops \<Rightarrow> 'f \<times> 'f \<Rightarrow> 'f \<Rightarrow> 'f" where
  "loop_current f rng calVolt =
     fround f (fsub f (fdiv f (fmul f (fsub f calVolt (flit f (66 / 100))) (snd rng))
                         (fsub f (flit f (33 / 10)) (flit f (66 / 100)))) (fst rng))"

definition calSensor :: "'f fops \<Rightarrow> u8 \<Rightarrow> u8 \<Rightarrow> nat \<Rightarrow> 'f \<times> 'f \<Rightarrow> 'f option" where
  "calSensor f ext type reading rng =
     map_option
       (\<lambda>calVolt.
          if type = 1 then cold_water f (2073 / 100) (21543 / 100) calVolt
          else if type = 2 then cold_water f (2286 / 100) (23506 / 100) calVolt
          else if type = 3 then hot_water f (2423 / 100) (24833 / 100) calVolt
          else if type = 4 then hot_water f (2545 / 100) (25954 / 100) calVolt
          else if type = 5 then loop_current f rng calVolt
          else calVolt)
       (getAdcVoltage f ext reading)"

definition analog_begin :: "u8 list \<Rightarrow> u8 list \<Rightarrow> u8 \<Rightarrow> ('f \<times> 'f) list \<Rightarrow> 'f analog" where
  "analog_begin pins types ext rng =
     \<lparr>sensorPin = take 8 pins, sensorType = take 8 types, adcExt = ext, sensorRange = take 8 rng\<rparr>"

definition getSensor :: "('s, 'z) adc_io_scheme \<Rightarrow> 'f fops \<Rightarrow> 'f analog \<Rightarrow> u8 \<Rightarrow> 's \<Rightarrow> ('f \<times> 's) option" where
  "getSensor io f a ch s =
     (case getAvgAdc io a 16 ch s of
        None \<Rightarrow> None
      | Some (avg, s1) \<Rightarrow>
          map_option (\<lambda>v. (v, s1)) (calSensor f (adcExt a) (sensorType a ! unat ch) avg (sensorRange a ! unat ch)))"

section \<open>Sorting the conversions\<close>

lemma insort_after: "\<forall>x\<in>set l. x < v \<Longrightarrow> insort v (l @ h) = l @ insort v h"
  by (induction l) auto

lemma insort_before: "\<forall>x\<in>set h. v \<le> x \<Longrightarrow> insort v (l @ h) = insort v l @ h"
  by (induction l) (cases h, auto)

lemma sorted_cut:
  assumes "sorted ys" and "\<not> (\<forall>x\<in>set (drop k ys). v \<le> x)"
  shows "\<forall>y\<in>set (take k ys). y < v"
proof
  fix y assume y: "y \<in> set (take k ys)"
  obtain x where x: "x \<in> set (drop k ys)" "x < v" using assms(2) by (auto simp: not_le)
  have "sorted (take k ys @ drop k ys)" using assms(1) by simp
  then have "y \<le> x" using y x(1) unfolding sorted_append by blast
  with x(2) show "y < v" by simp
qed

text \<open>The first and the last elements of a sorted list, after one more element.\<close>

lemma take_insort:
  fixes ys :: "nat list"
  assumes "sorted ys" and "k \<le> length ys"
  shows "take k (insort v (take k ys)) = take k (insort v ys)"
proof (cases "\<forall>x\<in>set (drop k ys). v \<le> x")
  case True
  then have "insort v (take k ys @ drop k ys) = insort v (take k ys) @ drop k ys" by (intro insort_before)
  then show ?thesis using assms(2) by simp
next
  case False
  then have low: "\<forall>y\<in>set (take k ys). y < v" using assms(1) by (intro sorted_cut)
  have "insort v (take k ys @ drop k ys) = take k ys @ insort v (drop k ys)" using low by (rule insort_after)
  moreover have "insort v (take k ys @ []) = take k ys @ insort v []" using low by (rule insort_after)
  ultimately show ?thesis using assms(2) by simp
qed

lemma drop_insort:
  fixes ys :: "nat list"
  assumes "sorted ys" and "k < length ys"
  shows "drop 1 (insort v (drop k ys)) = drop (k + 1) (insort v ys)"
proof (cases "\<forall>x\<in>set (drop k ys). v \<le> x")
  case True
  then have "insort v (take k ys @ drop k ys) = insort v (take k ys) @ drop k ys" by (intro insort_before)
  moreover have "insort v ([] @ drop k ys) = insort v [] @ drop k ys" using True by (intro insort_before)
  ultimately show ?thesis using assms(2) by simp
next
  case False
  then have low: "\<forall>y\<in>set (take k ys). y < v" using assms(1) by (intro sorted_cut)
  have "insort v (take k ys @ drop k ys) = take k ys @ insort v (drop k ys)" using low by (rule insort_after)
  then show ?thesis using assms(2) by simp
qed

text \<open>The three lows and the three highs are the ends of the sorted list.\<close>

definition lows :: "extremes \<Rightarrow> nat list" where
  "lows t = [minnnVal t, minnVal t, minVal t]"

definition highs :: "extremes \<Rightarrow> nat list" where
  "highs t = [maxVal t, maxxVal t, maxxxVal t]"

lemma lows_step: "sorted (lows t) \<Longrightarrow> lows (trim_step v t) = take 3 (insort v (lows t))"
  by (auto simp: lows_def trim_step_def trim_max_def trim_min_def Let_def numeral_3_eq_3)

lemma highs_step: "sorted (highs t) \<Longrightarrow> highs (trim_step v t) = drop 1 (insort v (highs t))"
  by (auto simp: highs_def trim_step_def trim_max_def trim_min_def Let_def)

lemma sum_step: "sumVal (trim_step v t) = (sumVal t + v) mod 2 ^ 32"
  by (simp add: trim_step_def Let_def trim_max_def trim_min_def)

lemma fold_lows:
  "lows (fold trim_step xs trim_init) = take 3 (sort (xs @ [4095, 4095, 4095]))"
proof (induction xs rule: rev_induct)
  case (snoc v xs)
  let ?s = "sort (xs @ [4095, 4095, 4095])"
  have m: "sort ((xs @ [v]) @ [4095, 4095, 4095]) = insort v ?s"
    by (rule properties_for_sort) (simp_all add: sorted_insort)
  have "sorted (take 3 ?s)" by (simp add: sorted_wrt_take)
  with snoc have "lows (fold trim_step (xs @ [v]) trim_init) = take 3 (insort v (take 3 ?s))"
    by (simp add: lows_step)
  also have "\<dots> = take 3 (insort v ?s)" by (rule take_insort) simp_all
  finally show ?case unfolding m .
qed (simp add: lows_def trim_init_def)

lemma fold_highs:
  "highs (fold trim_step xs trim_init) = drop (length xs) (sort (xs @ [0, 0, 0]))"
proof (induction xs rule: rev_induct)
  case (snoc v xs)
  let ?s = "sort (xs @ [0, 0, 0])"
  have m: "sort ((xs @ [v]) @ [0, 0, 0]) = insort v ?s"
    by (rule properties_for_sort) (simp_all add: sorted_insort)
  have "sorted (drop (length xs) ?s)" by (simp add: sorted_wrt_drop)
  with snoc have "highs (fold trim_step (xs @ [v]) trim_init) = drop 1 (insort v (drop (length xs) ?s))"
    by (simp add: highs_step)
  also have "\<dots> = drop (length xs + 1) (insort v ?s)" by (rule drop_insort) simp_all
  finally show ?case unfolding m by simp
qed (simp add: highs_def trim_init_def)

text \<open>The start values do not show once there are three conversions in range.\<close>

lemma sort_with_tops: "\<forall>x\<in>set xs. x \<le> m \<Longrightarrow> sort (xs @ replicate k (m :: nat)) = sort xs @ replicate k m"
  by (rule properties_for_sort) (auto simp: sorted_append)

lemma sort_with_zeros: "sort (xs @ replicate k (0 :: nat)) = replicate k 0 @ sort xs"
  by (rule properties_for_sort) (auto simp: sorted_append)

lemma lows_of:
  assumes "3 \<le> length xs" and "\<forall>x\<in>set xs. x \<le> 4095"
  shows "lows (fold trim_step xs trim_init) = take 3 (sort xs)"
  using assms sort_with_tops [OF assms(2), of 3] by (simp add: fold_lows numeral_3_eq_3)

lemma highs_of:
  assumes "3 \<le> length xs"
  shows "highs (fold trim_step xs trim_init) = drop (length xs - 3) (sort xs)"
  using assms sort_with_zeros [of xs 3] by (auto simp: fold_highs numeral_3_eq_3 drop_Cons' not_le)

lemma sum_of:
  assumes "\<forall>x\<in>set xs. x \<le> 4095" and "length xs < 1000000"
  shows "sumVal (fold trim_step xs trim_init) = sum_list xs \<and> sum_list xs \<le> 4095 * length xs"
  using assms
proof (induction xs rule: rev_induct)
  case (snoc v xs)
  then show ?case by (simp add: sum_step)
qed (simp add: trim_init_def)

text \<open>The conversions a call makes, and the middle of a list.\<close>

primrec conversions ::
  "('s, 'z) adc_io_scheme \<Rightarrow> ('f, 'y) analog_scheme \<Rightarrow> u8 \<Rightarrow> nat \<Rightarrow> 's \<Rightarrow> nat list \<times> 's" where
  "conversions io a ch 0 s = ([], s)"
| "conversions io a ch (Suc n) s =
     (let (v, s1) = convert io a ch s; (vs, s2) = conversions io a ch n (adc_pause io s1) in (v # vs, s2))"

definition middle :: "nat list \<Rightarrow> nat list" where
  "middle xs = take (length xs - 6) (drop 3 (sort xs))"

lemma convert_loop_fold:
  "convert_loop io a ch n t s = (fold trim_step (fst (conversions io a ch n s)) t, snd (conversions io a ch n s))"
  by (induction n arbitrary: t s) (simp_all add: split_beta Let_def)

lemma length_conversions [simp]: "length (fst (conversions io a ch n s)) = n"
  by (induction n arbitrary: s) (simp_all add: split_beta Let_def)

lemma mcp3208_range: "unat (fst (mcp3208_read io ch s)) \<le> 4095"
proof -
  have "unat (makeWord (h AND 0x0F) l) \<le> 4095" for h l
  proof -
    have "makeWord (h AND 0x0F) l AND 0x0FFF = makeWord (h AND 0x0F) l"
    proof -
      have masks: "(0x0FFF :: u16) = mask 12" "(0x0F :: u8) = mask 4" by (simp_all add: mask_eq_exp_minus_1)
      show ?thesis unfolding masks by (rule bit_eqI) (auto simp: bit_makeWord bit_simps)
    qed
    then have "makeWord (h AND 0x0F) l \<le> 0x0FFF" by (metis word_and_le1)
    then show ?thesis by (simp add: word_le_nat_alt)
  qed
  then show ?thesis by (simp add: mcp3208_read_def split_beta Let_def)
qed

definition twelve_bits :: "('s, 'z) adc_io_scheme \<Rightarrow> bool" where
  "twelve_bits io \<longleftrightarrow> (\<forall>p s. unat (fst (analog_read io p s)) \<le> 4095)"

lemma conversions_range:
  assumes "adcExt a = 0 \<Longrightarrow> twelve_bits io"
  shows "\<forall>x\<in>set (fst (conversions io a ch n s)). x \<le> 4095"
proof (induction n arbitrary: s)
  case (Suc n)
  have "fst (convert io a ch s) \<le> 4095"
    using assms mcp3208_range by (auto simp: convert_def twelve_bits_def split_beta Let_def)
  with Suc show ?case by (simp add: split_beta Let_def)
qed simp

lemma sum_list_sort: "sum_list (sort xs) = sum_list (xs :: nat list)"
  by (simp flip: sum_mset_sum_list)

lemma sum_middle:
  assumes "6 \<le> length xs"
  shows "sum_list xs = sum_list (take 3 (sort xs)) + sum_list (middle xs) + sum_list (drop (length xs - 3) (sort xs))"
proof -
  let ?s = "sort xs"
  have "drop 3 ?s = middle xs @ drop (length xs - 6) (drop 3 ?s)" by (simp add: middle_def del: drop_drop)
  also have "drop (length xs - 6) (drop 3 ?s) = drop (length xs - 3) ?s" using assms by simp
  finally have "?s = take 3 ?s @ middle xs @ drop (length xs - 3) ?s" by (metis append_take_drop_id)
  then have "sum_list ?s = sum_list (take 3 ?s @ middle xs @ drop (length xs - 3) ?s)" by simp
  then show ?thesis by (simp add: sum_list_sort)
qed

lemma average_between:
  fixes ys :: "nat list"
  assumes "ys \<noteq> []" and "\<forall>y\<in>set ys. lo \<le> y \<and> y \<le> hi"
  shows "lo \<le> sum_list ys div length ys \<and> sum_list ys div length ys \<le> hi"
proof -
  have "lo * length ys \<le> sum_list ys \<and> sum_list ys \<le> hi * length ys"
    using assms(2) by (induction ys) auto
  moreover have "0 < length ys" using assms(1) by simp
  ultimately show ?thesis
    by (metis div_le_mono div_mult_self_is_m)
qed

lemma middle_between:
  assumes "7 \<le> length xs" and "y \<in> set (middle xs)"
  shows "sort xs ! 3 \<le> y \<and> y \<le> sort xs ! (length xs - 4)"
proof -
  obtain i where i: "i < length xs - 6" "y = sort xs ! (3 + i)"
    using assms by (auto simp: middle_def in_set_conv_nth)
  have "sort xs ! 3 \<le> sort xs ! (3 + i)" by (rule sorted_nth_mono) (use i in simp_all)
  moreover have "sort xs ! (3 + i) \<le> sort xs ! (length xs - 4)" by (rule sorted_nth_mono) (use i assms in simp_all)
  ultimately show ?thesis using i(2) by simp
qed

text \<open>C29: The average of a sensor's conversions, by either ADC, is the mean of the sorted conversions without
  the three smallest and the three largest; so it lies between the fourth from either end, whatever three
  conversions on each side are.\<close>

theorem getAvgAdc_is_trimmed_mean:
  assumes "7 \<le> num" and "num < 256" and "adcExt a = 0 \<Longrightarrow> twelve_bits io"
    and "conversions io a ch num s = (xs, s')"
  shows "\<exists>avg. getAvgAdc io a num ch s = Some (avg, s') \<and> avg = sum_list (middle xs) div (num - 6) \<and>
    sort xs ! 3 \<le> avg \<and> avg \<le> sort xs ! (num - 4)"
proof -
  have len: "length xs = num" using length_conversions [of io a ch num s] assms(4) by simp
  have range: "\<forall>x\<in>set xs. x \<le> 4095" using conversions_range [where a = a and io = io and ch = ch and n = num and s = s, OF assms(3)] assms(4) by simp
  let ?t = "fold trim_step xs trim_init" and ?avg = "sum_list (middle xs) div (num - 6)"
  have sum: "sumVal ?t = sum_list xs" "sum_list xs \<le> 4095 * num" using sum_of [OF range] len assms(2) by simp_all
  have "minnnVal ?t + minnVal ?t + minVal ?t = sum_list (lows ?t)" by (simp add: lows_def)
  also have "\<dots> = sum_list (take 3 (sort xs))" using lows_of [OF _ range] len assms(1) by simp
  finally have low: "minnnVal ?t + minnVal ?t + minVal ?t = sum_list (take 3 (sort xs))" .
  have "maxVal ?t + maxxVal ?t + maxxxVal ?t = sum_list (highs ?t)" by (simp add: highs_def)
  also have "\<dots> = sum_list (drop (num - 3) (sort xs))" using highs_of [of xs] len assms(1) by simp
  finally have high: "maxVal ?t + maxxVal ?t + maxxxVal ?t = sum_list (drop (num - 3) (sort xs))" .
  have parts: "sum_list xs = sum_list (take 3 (sort xs)) + sum_list (middle xs) + sum_list (drop (num - 3) (sort xs))"
    using sum_middle [of xs] len assms(1) by simp
  have rest: "int (sumVal ?t) - int (minnnVal ?t) - int (minnVal ?t) - int (minVal ?t) - int (maxVal ?t)
      - int (maxxVal ?t) - int (maxxxVal ?t) = int (sum_list (middle xs))"
    using parts low high unfolding sum(1) by linarith
  have small: "sum_list (middle xs) < 2 ^ 32" using parts sum(2) assms(2) by simp
  have between: "sort xs ! 3 \<le> ?avg \<and> ?avg \<le> sort xs ! (num - 4)"
    using average_between [of "middle xs" "sort xs ! 3" "sort xs ! (num - 4)"] middle_between [of xs] len assms(1)
    by (simp add: middle_def)
  moreover have "?avg \<le> 4095"
  proof -
    have "sort xs ! (num - 4) \<in> set xs" using len assms(1) nth_mem [of "num - 4" "sort xs"] by simp
    with range between show ?thesis by fastforce
  qed
  moreover have "nat (int num - 6) = num - 6" by simp
  moreover have "(int num - 6) mod 2 ^ 32 = int num - 6" using assms(1,2) by simp
  ultimately show ?thesis
    using assms(1) small by (simp add: getAvgAdc_def convert_loop_fold assms(4) rest Let_def)
qed

section \<open>The voltage curve\<close>

lemma length_adcVoltage [simp]: "length adcVoltage = 67"
  by (simp add: adcVoltage_def)

lemma sorted_adcVoltage: "sorted adcVoltage"
  by (simp add: adcVoltage_def)

lemma adcVoltage_ends: "adcVoltage ! 0 = 0" "adcVoltage ! 62 = 4095"
  by (simp_all add: adcVoltage_def)

lemma table_loop_finds:
  assumes "0 < reading" and "reading \<le> adcVoltage ! k" and "k < 67" and "i \<le> k" and "i \<noteq> 0 \<Longrightarrow> adcVoltage ! (i - 1) < reading"
  shows "\<exists>j\<le>k. 0 < j \<and> adcVoltage ! (j - 1) < reading \<and> reading \<le> adcVoltage ! j \<and>
    table_loop f reading i = Some (segment f reading j)"
  using assms
proof (induction "k - i" arbitrary: i)
  case 0
  then have "i = k" by simp
  moreover from this have "i \<noteq> 0" using 0 adcVoltage_ends(1) by (cases i) auto
  ultimately show ?case using 0 by (intro exI [of _ k]) (simp add: table_loop.simps [of f reading k])
next
  case (Suc n)
  show ?case
  proof (cases "reading \<le> adcVoltage ! i")
    case True
    moreover from this have "i \<noteq> 0" using Suc.prems adcVoltage_ends(1) by (cases i) auto
    ultimately show ?thesis using Suc.prems by (intro exI [of _ i]) (simp add: table_loop.simps [of f reading i])
  next
    case False
    then have "table_loop f reading i = table_loop f reading (i + 1)"
      using Suc.prems by (simp add: table_loop.simps [of f reading i])
    moreover have "\<exists>j\<le>k. 0 < j \<and> adcVoltage ! (j - 1) < reading \<and> reading \<le> adcVoltage ! j \<and>
        table_loop f reading (i + 1) = Some (segment f reading j)"
      using Suc False by (intro Suc.hyps(1)) auto
    ultimately show ?thesis by simp
  qed
qed

lemma table_loop_behind:
  assumes "4095 < reading"
  shows "table_loop f reading i = Some (fround f (flit f (33 / 10)))"
proof (induction "67 - i" arbitrary: i)
  case (Suc n)
  then have "i < 67" by simp
  then have "adcVoltage ! i \<le> adcVoltage ! 66" by (intro sorted_nth_mono [OF sorted_adcVoltage]) simp_all
  also have "\<dots> = 4095" by (simp add: adcVoltage_def)
  finally have "\<not> reading \<le> adcVoltage ! i" using assms by simp
  then show ?case using Suc \<open>i < 67\<close> assms by (simp add: table_loop.simps [of f reading i])
qed (simp add: table_loop.simps)

text \<open>For every reading of the internal ADC the search ends in the table, never in front of it, at the step
  of the curve that the reading belongs to, and this step is rising, so that nothing is divided by zero.\<close>

theorem getAdcVoltage_in_table:
  assumes "0 < reading" and "reading \<le> 4095" and "ext \<noteq> 1"
  shows "\<exists>i. 0 < i \<and> i \<le> 62 \<and> adcVoltage ! (i - 1) < reading \<and> reading \<le> adcVoltage ! i \<and>
    getAdcVoltage f ext reading = Some (segment f reading i)"
  using table_loop_finds [of reading 62 0 f] assms adcVoltage_ends(2) by (auto simp: getAdcVoltage_def)

text \<open>The curve over the real numbers.\<close>

definition exact :: "real fops" where
  "exact = \<lparr>flit = of_rat, fadd = (+), fsub = (-), fmul = (*), fdiv = (/), flog = ln, fless = (<), fround = (\<lambda>x. x)\<rparr>"

lemma segment_exact:
  assumes "0 < i" and "adcVoltage ! (i - 1) < reading" and "reading \<le> adcVoltage ! i"
  shows "segment exact reading i = (real i - 1) / 20 +
    (real reading - real (adcVoltage ! (i - 1))) / (real (adcVoltage ! i) - real (adcVoltage ! (i - 1))) / 20"
  using assms by (simp add: segment_def exact_def of_rat_divide of_rat_diff of_rat_of_int_eq)

lemma exact_range:
  assumes "0 < reading" and "reading \<le> 4095" and "ext \<noteq> 1"
  obtains i x where "0 < i" "i \<le> 62" "adcVoltage ! (i - 1) < reading" "reading \<le> adcVoltage ! i"
    "getAdcVoltage exact ext reading = Some x" "(real i - 1) / 20 \<le> x" "x \<le> real i / 20" "x = segment exact reading i"
proof -
  obtain i where i: "0 < i" "i \<le> 62" "adcVoltage ! (i - 1) < reading" "reading \<le> adcVoltage ! i"
      "getAdcVoltage exact ext reading = Some (segment exact reading i)"
    using getAdcVoltage_in_table [OF assms] by blast
  define q where "q = (real reading - real (adcVoltage ! (i - 1))) / (real (adcVoltage ! i) - real (adcVoltage ! (i - 1)))"
  have "0 \<le> q" and "q \<le> 1" using i(3,4) by (simp_all add: q_def divide_simps)
  moreover have "segment exact reading i = (real i - 1) / 20 + q / 20"
    unfolding segment_exact [OF i(1,3,4)] q_def ..
  ultimately have "(real i - 1) / 20 \<le> segment exact reading i" and "segment exact reading i \<le> real i / 20"
    by (simp_all add: field_simps)
  with i that show ?thesis by blast
qed

lemma segment_mono:
  assumes "0 < i" and "adcVoltage ! (i - 1) < v" and "v \<le> w" and "w \<le> adcVoltage ! i"
  shows "segment exact v i \<le> segment exact w i"
proof -
  have w: "adcVoltage ! (i - 1) < w" and v: "v \<le> adcVoltage ! i" using assms by simp_all
  show ?thesis
    unfolding segment_exact [OF assms(1,2) v] segment_exact [OF assms(1) w assms(4)]
    by (intro add_left_mono divide_right_mono) (use assms in simp_all)
qed

text \<open>Over the real numbers the voltage of the internal ADC starts at 0, never falls as the reading grows, and
  stays below 3.3 V.\<close>

theorem voltage_is_monotone:
  assumes "v \<le> w" and "w \<le> 4095" and "ext \<noteq> 1"
  shows "\<exists>x y. getAdcVoltage exact ext v = Some x \<and> getAdcVoltage exact ext w = Some y \<and> 0 \<le> x \<and> x \<le> y \<and> y \<le> 33 / 10"
proof -
  have zero: "getAdcVoltage exact ext 0 = Some 0"
    using assms(3) by (simp add: getAdcVoltage_def table_loop.simps exact_def)
  show ?thesis
  proof (cases "w = 0")
    case True
    then show ?thesis using zero assms(1) by simp
  next
    case False
    then obtain j y where w: "0 < j" "j \<le> 62" "adcVoltage ! (j - 1) < w" "w \<le> adcVoltage ! j"
        "getAdcVoltage exact ext w = Some y" "(real j - 1) / 20 \<le> y" "y \<le> real j / 20" "y = segment exact w j"
      using exact_range [of w ext] assms(2,3) by blast
    have y: "0 \<le> y" "y \<le> 33 / 10" using w(1,2,6,7) by simp_all
    show ?thesis
    proof (cases "v = 0")
      case True
      then show ?thesis using zero w(5) y by simp
    next
      case False
      then have "0 < v" "v \<le> 4095" using assms(1,2) by simp_all
      then obtain i x where v: "0 < i" "i \<le> 62" "adcVoltage ! (i - 1) < v" "v \<le> adcVoltage ! i"
          "getAdcVoltage exact ext v = Some x" "(real i - 1) / 20 \<le> x" "x \<le> real i / 20" "x = segment exact v i"
        by (rule exact_range [OF _ _ assms(3)])
      have "\<not> j < i"
      proof
        assume "j < i"
        then have "adcVoltage ! j \<le> adcVoltage ! (i - 1)"
          using v(1,2) by (intro sorted_nth_mono [OF sorted_adcVoltage]) simp_all
        with w(4) v(3) assms(1) show False by simp
      qed
      then consider "i = j" | "i < j" by linarith
      then have "x \<le> y"
      proof cases
        case 1
        with segment_mono [of j v w] v w assms(1) show ?thesis by simp
      next
        case 2
        with v(7) w(6) show ?thesis by simp
      qed
      moreover have "0 \<le> x" using v(1,6) by simp
      ultimately show ?thesis using v(5) w(5) y by simp
    qed
  qed
qed

section \<open>Witnesses\<close>

text \<open>An SPI bus that answers \<open>0xF5\<close> and a counter.\<close>

definition demo_io :: "nat adc_io" where
  "demo_io = \<lparr>spi_begin = \<lambda>s. s, spi_select = \<lambda>on s. s, spi_byte = \<lambda>b s. (if b = 0 then of_nat s else 0xF5, s + 1),
     analog_read = \<lambda>p s. (of_nat s AND 0x0FFF, s + 1), adc_pause = \<lambda>s. s\<rparr>"

definition demo_analog :: "u8 \<Rightarrow> real analog" where
  "demo_analog ext = \<lparr>sensorPin = [32], sensorType = [5], adcExt = ext, sensorRange = [(0, 100)]\<rparr>"

lemma demo_twelve_bits: "twelve_bits demo_io"
proof -
  have "of_nat s AND 0x0FFF \<le> (0x0FFF :: u16)" for s by (rule word_and_le1)
  then show ?thesis by (simp add: twelve_bits_def demo_io_def word_le_nat_alt)
qed

theorem getAvgAdc_is_trimmed_mean_witness:
  "\<exists>avg. getAvgAdc demo_io (demo_analog 0) 16 0 0 = Some (avg, snd (conversions demo_io (demo_analog 0) 0 16 0)) \<and>
     avg = sum_list (middle (fst (conversions demo_io (demo_analog 0) 0 16 0))) div (16 - 6) \<and>
     sort (fst (conversions demo_io (demo_analog 0) 0 16 0)) ! 3 \<le> avg \<and>
     avg \<le> sort (fst (conversions demo_io (demo_analog 0) 0 16 0)) ! (16 - 4)"
  by (rule getAvgAdc_is_trimmed_mean) (simp_all add: demo_analog_def demo_twelve_bits)

theorem getAdcVoltage_in_table_witness:
  "\<exists>i. 0 < i \<and> i \<le> 62 \<and> adcVoltage ! (i - 1) < 2000 \<and> 2000 \<le> adcVoltage ! i \<and>
     getAdcVoltage exact 0 2000 = Some (segment exact 2000 i)"
  by (rule getAdcVoltage_in_table) simp_all

theorem voltage_is_monotone_witness:
  "\<exists>x y. getAdcVoltage exact 0 1000 = Some x \<and> getAdcVoltage exact 0 4095 = Some y \<and> 0 \<le> x \<and> x \<le> y \<and> y \<le> 33 / 10"
  by (rule voltage_is_monotone) simp_all

end
