(* ===== verification/PrintOut.thy ===== *)
theory PrintOut
  imports WStringEdit
begin

text \<open>
  \<open>Print.cpp\<close>: printing of numbers and texts to a sink of bytes. The two virtual \<open>write\<close> functions are the
  parameter \<open>io\<close>; the locale \<open>byte_sink\<close> says what a sink promises. \<open>StreamString\<close>, a \<open>String\<close> that is
  written to, keeps the promise. \<open>None\<close> is an access outside a buffer.
\<close>

section \<open>The code\<close>

record 'p sink =
  put_byte :: "u8 \<Rightarrow> 'p \<Rightarrow> (nat \<times> 'p) option"
  put_bytes :: "u8 list \<Rightarrow> 'p \<Rightarrow> (nat \<times> 'p) option"

text \<open>The default of the block write.\<close>

primrec write_each :: "(u8 \<Rightarrow> 'p \<Rightarrow> (nat \<times> 'p) option) \<Rightarrow> u8 list \<Rightarrow> 'p \<Rightarrow> (nat \<times> 'p) option" where
  "write_each put [] p = Some (0, p)"
| "write_each put (b # bs) p = do { (k, p1) \<leftarrow> put b p; (n, p2) \<leftarrow> write_each put bs p1; Some (k + n, p2) }"

definition print_text :: "('p, 'z) sink_scheme \<Rightarrow> u8 list option \<Rightarrow> 'p \<Rightarrow> (nat \<times> 'p) option" where
  "print_text io str p = (case str of None \<Rightarrow> Some (0, p) | Some cs \<Rightarrow> put_bytes io cs p)"

definition print_String :: "('p, 'z) sink_scheme \<Rightarrow> String \<Rightarrow> 'p \<Rightarrow> (nat \<times> 'p) option" where
  "print_String io s p =
     (case sbuffer s of
        None \<Rightarrow> if String_length s = 0 then put_bytes io [] p else None
      | Some m \<Rightarrow> do { cs \<leftarrow> memread m 0 (String_length s); put_bytes io cs p })"

definition print_char :: "('p, 'z) sink_scheme \<Rightarrow> u8 \<Rightarrow> 'p \<Rightarrow> (nat \<times> 'p) option" where
  "print_char io c p = put_byte io c p"

definition number_digit :: "nat \<Rightarrow> u8" where
  "number_digit c = of_nat (if c < 10 then c + 48 else c + 65 - 10)"

text \<open>The digits grow downwards in an array of 33 bytes, the last of which is the terminator.\<close>

function number_loop :: "nat \<Rightarrow> nat \<Rightarrow> u8 list \<Rightarrow> u8 list option" where
  "number_loop base n str =
     (if base < 2 \<or> 32 \<le> length str then None
      else let q = n div base; str' = number_digit (n - base * q) # str
           in if q = 0 then Some str' else number_loop base q str')"
  by pat_completeness auto
termination by (relation "measure (\<lambda>(base, n, str). n)") (auto simp: div_greater_zero_iff)

declare number_loop.simps [simp del]

definition printNumber :: "('p, 'z) sink_scheme \<Rightarrow> nat \<Rightarrow> nat \<Rightarrow> 'p \<Rightarrow> (nat \<times> 'p) option" where
  "printNumber io n base p = do {
     str \<leftarrow> number_loop (if base < 2 then 10 else base) n [];
     print_text io (Some (takeWhile (\<lambda>c. c \<noteq> 0) str)) p
   }"

definition print_long :: "('p, 'z) sink_scheme \<Rightarrow> int \<Rightarrow> int \<Rightarrow> 'p \<Rightarrow> (nat \<times> 'p) option" where
  "print_long io n base p =
     (if base = 0 then put_byte io (of_int n) p
      else if base = 10
           then if n < 0
                then do {
                  (t, p1) \<leftarrow> print_char io 45 p;
                  (k, p2) \<leftarrow> printNumber io (nat ((- n) mod 2 ^ 32)) 10 p1;
                  Some (k + t, p2)
                }
                else printNumber io (nat (n mod 2 ^ 32)) 10 p
           else printNumber io (nat (n mod 2 ^ 32)) (nat (base mod 256)) p)"

definition print_ulong :: "('p, 'z) sink_scheme \<Rightarrow> u32 \<Rightarrow> int \<Rightarrow> 'p \<Rightarrow> (nat \<times> 'p) option" where
  "print_ulong io n base p =
     (if base = 0 then put_byte io (ucast n) p else printNumber io (unat n) (nat (base mod 256)) p)"

definition print_uchar :: "('p, 'z) sink_scheme \<Rightarrow> u8 \<Rightarrow> int \<Rightarrow> 'p \<Rightarrow> (nat \<times> 'p) option" where
  "print_uchar io b base p = print_ulong io (ucast b) base p"

text \<open>\<open>println\<close> is \<open>print\<close> and the end of the line.\<close>

definition println :: "('p, 'z) sink_scheme \<Rightarrow> 'p \<Rightarrow> (nat \<times> 'p) option" where
  "println io p = print_text io (Some [13, 10]) p"

definition with_line_end ::
  "('p, 'z) sink_scheme \<Rightarrow> ('p \<Rightarrow> (nat \<times> 'p) option) \<Rightarrow> 'p \<Rightarrow> (nat \<times> 'p) option" where
  "with_line_end io print p = do { (n, p1) \<leftarrow> print p; (k, p2) \<leftarrow> println io p1; Some (n + k, p2) }"

section \<open>StreamString\<close>

definition ss_write_bytes :: "(nat \<Rightarrow> bool) \<Rightarrow> u8 list option \<Rightarrow> nat \<Rightarrow> String \<Rightarrow> (nat \<times> String) option" where
  "ss_write_bytes alloc data n s =
     (case data of
        None \<Rightarrow> Some (0, s)
      | Some bs \<Rightarrow>
          if n = 0 then Some (0, s)
          else do {
            (ok, s1) \<leftarrow> String_reserve alloc (wrap32 (String_length s + n + 1)) s;
            if \<not> ok then Some (0, s1)
            else do {
              m \<leftarrow> sbuffer s1;
              cs \<leftarrow> memread bs 0 n;
              m1 \<leftarrow> memcpy m (slen s1) cs;
              let l = wrap32 (slen s1 + n);
              m2 \<leftarrow> memcpy m1 l [0];
              Some (n, s1\<lparr>sbuffer := Some m2, slen := l\<rparr>)
            }
          })"

definition ss_write :: "(nat \<Rightarrow> bool) \<Rightarrow> u8 \<Rightarrow> String \<Rightarrow> (nat \<times> String) option" where
  "ss_write alloc c s = map_option (\<lambda>(ok, s1). (if ok then 1 else 0, s1)) (concat_char alloc c s)"

definition StreamString_sink :: "(nat \<Rightarrow> bool) \<Rightarrow> String sink" where
  "StreamString_sink alloc =
     \<lparr>put_byte = ss_write alloc, put_bytes = (\<lambda>bs s. ss_write_bytes alloc (Some bs) (length bs) s)\<rparr>"

section \<open>What a sink promises\<close>

locale byte_sink =
  fixes io :: "('p, 'z) sink_scheme" and written :: "'p \<Rightarrow> u8 list" and ready :: "'p \<Rightarrow> u8 list \<Rightarrow> bool"
  assumes put_byte: "ready p (b # bs) \<Longrightarrow>
      \<exists>p'. put_byte io b p = Some (1, p') \<and> written p' = written p @ [b] \<and> ready p' bs"
    and put_bytes: "ready p (cs @ bs) \<Longrightarrow>
      \<exists>p'. put_bytes io cs p = Some (length cs, p') \<and> written p' = written p @ cs \<and> ready p' bs"

text \<open>The default block write keeps the promise when the byte write does.\<close>

lemma write_each_sink:
  assumes "\<And>p b bs. ready p (b # bs) \<Longrightarrow> \<exists>p'. put b p = Some (1, p') \<and> written p' = written p @ [b] \<and> ready p' bs"
    and "ready p (cs @ bs)"
  shows "\<exists>p'. write_each put cs p = Some (length cs, p') \<and> written p' = written p @ cs \<and> ready p' bs"
  using assms(2)
proof (induction cs arbitrary: p)
  case (Cons c cs)
  from Cons.prems obtain p1 where p1: "put c p = Some (1, p1)" "written p1 = written p @ [c]" "ready p1 (cs @ bs)"
    using assms(1) [of p c "cs @ bs"] by auto
  with Cons.IH [OF p1(3)] show ?case by auto
qed simp

text \<open>The text of a number: its digits, the last one first in \<open>digits\<close>.\<close>

definition number_text :: "nat \<Rightarrow> nat \<Rightarrow> u8 list" where
  "number_text b n = map number_digit (rev (digits b n))"

definition long_text :: "int \<Rightarrow> u8 list" where
  "long_text n = (if n < 0 then 45 # number_text 10 (nat (- n)) else number_text 10 (nat n))"

lemma number_loop_digits:
  assumes "2 \<le> b" and "length (digits b n) + length str \<le> 32"
  shows "number_loop b n str = Some (number_text b n @ str)"
  using assms
proof (induction b n arbitrary: str rule: digits.induct)
  case (1 b n)
  have digit: "n - b * (n div b) = n mod b" by (simp add: minus_mult_div_eq_mod)
  show ?case
  proof (cases "n < b")
    case True
    then show ?thesis using 1(2,3) digit
      by (simp add: number_text_def digits.simps [of b n] number_loop.simps [of b n] Let_def)
  next
    case False
    then have "0 < n div b" using 1(2) by (simp add: div_greater_zero_iff)
    moreover have "number_loop b (n div b) (number_digit (n mod b) # str) =
        Some (number_text b (n div b) @ number_digit (n mod b) # str)"
      using 1 False by (intro 1(1)) (simp_all add: digits.simps [of b n])
    ultimately show ?thesis
      using False digit 1(2,3) by (simp add: number_text_def digits.simps [of b n] number_loop.simps [of b n] Let_def)
  qed
qed

lemma number_loop_fits: "2 \<le> b \<Longrightarrow> n < 2 ^ 32 \<Longrightarrow> number_loop b n [] = Some (number_text b n)"
  using number_loop_digits [of b n "[]"] length_digits [of b n 32] by simp

lemma unat_decimal_digit: "d < 10 \<Longrightarrow> unat (number_digit d) = 48 + d"
  unfolding number_digit_def by (simp add: unat_of_nat add.commute del: of_nat_add of_nat_numeral)

lemma number_text_digits: "c \<in> set (number_text 10 n) \<Longrightarrow> 48 \<le> c \<and> c \<le> 57"
  using digits_less [of 10 _ n] by (auto simp: number_text_def word_le_nat_alt unat_decimal_digit less_Suc_eq_le)
    fastforce

lemma long_text_no_zero: "0 \<notin> set (long_text n)"
  using number_text_digits [of 0] by (auto simp: long_text_def)

lemma digit_not_zero:
  assumes "d < 36"
  shows "number_digit d \<noteq> 0"
proof -
  have "unat (number_digit d) \<noteq> 0"
    unfolding number_digit_def using assms by (simp add: unat_of_nat del: of_nat_add of_nat_numeral of_nat_diff)
  then show ?thesis by auto
qed

lemma number_text_whole:
  assumes "2 \<le> b" and "b \<le> 36"
  shows "takeWhile (\<lambda>c. c \<noteq> 0) (number_text b n) = number_text b n"
  using digits_less [OF assms(1), of _ n] assms(2) digit_not_zero
  by (auto simp: number_text_def takeWhile_eq_all_conv) (meson less_le_trans)

context byte_sink
begin

lemma printNumber_prints:
  assumes "n < 2 ^ 32" and "base \<le> 36" and "ready p (number_text (if base < 2 then 10 else base) n @ bs)"
  shows "\<exists>p'. printNumber io n base p = Some (length (number_text (if base < 2 then 10 else base) n), p') \<and>
    written p' = written p @ number_text (if base < 2 then 10 else base) n \<and> ready p' bs"
  using number_loop_fits [of "if base < 2 then 10 else base" n] assms put_bytes [OF assms(3)]
  by (simp add: printNumber_def print_text_def number_text_whole)

lemma print_long_prints:
  assumes "- (2 ^ 31) < n" and "n < 2 ^ 31" and "ready p (long_text n @ bs)"
  shows "\<exists>p'. print_long io n 10 p = Some (length (long_text n), p') \<and> written p' = written p @ long_text n \<and> ready p' bs"
proof (cases "n < 0")
  case True
  with assms(3) obtain p1 where p1: "put_byte io 45 p = Some (1, p1)" "written p1 = written p @ [45]"
      "ready p1 (number_text 10 (nat (- n)) @ bs)"
    using put_byte [of p 45 "number_text 10 (nat (- n)) @ bs"] by (auto simp: long_text_def)
  moreover have "(- n) mod 2 ^ 32 = - n" and "nat (- n) < 2 ^ 32" using True assms(1) by simp_all
  ultimately show ?thesis
    using printNumber_prints [of "nat (- n)" 10 p1 bs] True by (auto simp: print_long_def print_char_def long_text_def)
next
  case False
  moreover have "nat n < 2 ^ 32" using assms(2) by simp
  moreover have "n mod 2 ^ 32 = n" using False assms(2) by simp
  ultimately show ?thesis
    using printNumber_prints [of "nat n" 10 p bs] assms(3) by (simp add: print_long_def long_text_def)
qed

lemma println_prints:
  assumes "ready p ([13, 10] @ bs)"
  shows "\<exists>p'. println io p = Some (2, p') \<and> written p' = written p @ [13, 10] \<and> ready p' bs"
  using put_bytes [OF assms] by (simp add: println_def print_text_def numeral_2_eq_2)

end

section \<open>StreamString keeps the promise\<close>

definition ss_text :: "String \<Rightarrow> u8 list" where
  "ss_text s = (case sbuffer s of None \<Rightarrow> [] | Some m \<Rightarrow> take (slen s) m)"

definition ss_ready :: "String \<Rightarrow> u8 list \<Rightarrow> bool" where
  "ss_ready s bs \<longleftrightarrow> holds_text s (ss_text s) \<and> storable (length (ss_text s) + length bs + 1) \<and> 0 \<notin> set bs"

lemma holds_ss_text: "holds_text s cs \<Longrightarrow> ss_text s = cs"
  by (auto simp: ss_text_def holds_text_def take_terminated split: option.splits)

lemma ss_write_spec:
  assumes "\<And>k. alloc k" and "holds_text s cs" and "storable (length cs + 1)" and "b \<noteq> 0"
  shows "\<exists>s'. ss_write alloc b s = Some (1, s') \<and> holds_text s' (cs @ [b])"
  using concat_spec [OF assms(2), of "[b]" alloc] assms(1,3,4)
  by (auto simp: ss_write_def concat_char_def c_string_def)

lemma ss_write_bytes_spec:
  assumes "\<And>k. alloc k" and "holds_text s cs" and "storable (length cs + length bs + 1)" and "0 \<notin> set bs"
  shows "\<exists>s'. ss_write_bytes alloc (Some bs) (length bs) s = Some (length bs, s') \<and> holds_text s' (cs @ bs)"
proof (cases "bs = []")
  case True
  then show ?thesis using assms(2) by (simp add: ss_write_bytes_def)
next
  case False
  let ?n = "length cs + length bs"
  have n: "wrap32 (String_length s + length bs + 1) = ?n + 1"
    using assms(2,3) holds_none [OF assms(2)] by (auto simp: String_length_def holds_len storable_def)
  obtain s1 m where s1: "String_reserve alloc (?n + 1) s = Some (True, s1)" "holds_text s1 cs"
      "?n + 1 \<le> scapacity s1" "sbuffer s1 = Some m"
    using reserve_ok [OF assms(2), of "?n + 1" alloc] assms(1,3) by (auto simp: add.assoc)
  obtain rest where m: "m = cs @ 0 # rest" "length m = Suc (scapacity s1)" "length m < 2 ^ 32"
    using holds_memory [OF s1(2,4)] by blast
  define m2 where "m2 = cs @ bs @ 0 # drop (?n + 1) m"
  have "length bs \<le> length rest" using m(1,2) s1(3) by simp
  then have "memcpy m (length cs) bs = Some (cs @ bs @ drop ?n m)"
    using m(1) by (simp add: memcpy_def store_def)
  moreover have "memcpy (cs @ bs @ drop ?n m) ?n [0] = Some m2"
    using m(2) s1(3) by (simp add: memcpy_def store_def m2_def)
  moreover have "wrap32 (slen s1 + length bs) = ?n" using assms(3) s1(2) by (simp add: holds_len storable_def)
  moreover have "memread bs 0 (length bs) = Some bs" by (simp add: memread_def load_def)
  ultimately have "ss_write_bytes alloc (Some bs) (length bs) s =
      Some (length bs, s1\<lparr>sbuffer := Some m2, slen := ?n\<rparr>)"
    using False s1(1,4) n holds_len [OF s1(2)] by (simp add: ss_write_bytes_def Let_def)
  moreover have "holds_text (s1\<lparr>sbuffer := Some m2, slen := ?n\<rparr>) (cs @ bs)"
    using m(2,3) s1(3) assms(4) holds_no_zero [OF assms(2)] by (simp add: holds_text_iff m2_def)
  ultimately show ?thesis by blast
qed

lemma ss_readyI:
  assumes "holds_text s' (cs @ t)" and "storable (length (cs @ t) + length bs + 1)" and "0 \<notin> set bs"
  shows "ss_text s' = cs @ t \<and> ss_ready s' bs"
  using assms holds_ss_text [OF assms(1)] by (simp add: ss_ready_def)

interpretation ss: byte_sink "StreamString_sink (\<lambda>_. True)" ss_text ss_ready
proof
  fix s :: String and b bs cs
  show "\<exists>p'. put_byte (StreamString_sink (\<lambda>_. True)) b s = Some (1, p') \<and> ss_text p' = ss_text s @ [b] \<and> ss_ready p' bs"
    if "ss_ready s (b # bs)"
  proof -
    have "holds_text s (ss_text s)" "storable (length (ss_text s) + 1)" "b \<noteq> 0"
      using that by (auto simp: ss_ready_def storable_def)
    then obtain s' where "ss_write (\<lambda>_. True) b s = Some (1, s')" and h: "holds_text s' (ss_text s @ [b])"
      using ss_write_spec [of "\<lambda>_. True" s "ss_text s" b] by blast
    moreover have "ss_text s' = ss_text s @ [b] \<and> ss_ready s' bs"
      by (rule ss_readyI [OF h]) (use that in \<open>simp_all add: ss_ready_def\<close>)
    ultimately show ?thesis by (simp add: StreamString_sink_def)
  qed
  show "\<exists>p'. put_bytes (StreamString_sink (\<lambda>_. True)) cs s = Some (length cs, p') \<and> ss_text p' = ss_text s @ cs \<and>
      ss_ready p' bs" if "ss_ready s (cs @ bs)"
  proof -
    have "holds_text s (ss_text s)" "storable (length (ss_text s) + length cs + 1)" "0 \<notin> set cs"
      using that by (auto simp: ss_ready_def storable_def)
    then obtain s' where "ss_write_bytes (\<lambda>_. True) (Some cs) (length cs) s = Some (length cs, s')"
        and h: "holds_text s' (ss_text s @ cs)"
      using ss_write_bytes_spec [of "\<lambda>_. True" s "ss_text s" cs] by blast
    moreover have "ss_text s' = ss_text s @ cs \<and> ss_ready s' bs"
      by (rule ss_readyI [OF h]) (use that in \<open>simp_all add: ss_ready_def add.assoc\<close>)
    ultimately show ?thesis by (simp add: StreamString_sink_def)
  qed
qed

end
