(* ===== verification/StreamIn.thy ===== *)
theory StreamIn
  imports PrintOut
begin

text \<open>
  \<open>Stream.cpp\<close>: reading with a timeout, searching and parsing. The stream's \<open>read\<close> and \<open>peek\<close> and the clock
  \<open>millis\<close> are the parameter \<open>io\<close>; the locale \<open>byte_source\<close> says what they promise when some bytes are there and
  no more come. The waiting loops have no bound of their own: they end because time passes, which is the
  locale's ranking \<open>rank\<close>. \<open>StreamString\<close> keeps the promise.
\<close>

section \<open>The code\<close>

record 'r source =
  src_read :: "'r \<Rightarrow> (int \<times> 'r) option"
  src_peek :: "'r \<Rightarrow> (int \<times> 'r) option"
  src_millis :: "'r \<Rightarrow> u32 \<times> 'r"

partial_function (option) timed_loop ::
  "('r \<Rightarrow> (int \<times> 'r) option) \<Rightarrow> ('r \<Rightarrow> u32 \<times> 'r) \<Rightarrow> u32 \<Rightarrow> u32 \<Rightarrow> 'r \<Rightarrow> (int \<times> 'r) option" where
  "timed_loop get millis timeout start r = do {
     (c, r1) \<leftarrow> get r;
     if 0 \<le> c then Some (c, r1)
     else let (now, r2) = millis r1
          in if now - start < timeout then timed_loop get millis timeout start r2 else Some (- 1, r2)
   }"

definition timedRead :: "('r, 'z) source_scheme \<Rightarrow> u32 \<Rightarrow> 'r \<Rightarrow> (int \<times> 'r) option" where
  "timedRead io timeout r =
     (let (start, r1) = src_millis io r in timed_loop (src_read io) (src_millis io) timeout start r1)"

definition timedPeek :: "('r, 'z) source_scheme \<Rightarrow> u32 \<Rightarrow> 'r \<Rightarrow> (int \<times> 'r) option" where
  "timedPeek io timeout r =
     (let (start, r1) = src_millis io r in timed_loop (src_peek io) (src_millis io) timeout start r1)"

definition is_digit :: "int \<Rightarrow> bool" where
  "is_digit c \<longleftrightarrow> 48 \<le> c \<and> c \<le> 57"

partial_function (option) peekNextDigit :: "('r, 'z) source_scheme \<Rightarrow> u32 \<Rightarrow> 'r \<Rightarrow> (int \<times> 'r) option" where
  "peekNextDigit io timeout r = do {
     (c, r1) \<leftarrow> timedPeek io timeout r;
     if c < 0 \<or> c = 45 \<or> is_digit c then Some (c, r1)
     else do { (_, r2) \<leftarrow> src_read io r1; peekNextDigit io timeout r2 }
   }"

text \<open>One character of a number: the sign and the value so far.\<close>

definition parse_step :: "int \<Rightarrow> int \<Rightarrow> bool \<times> int \<Rightarrow> bool \<times> int" where
  "parse_step skip c = (\<lambda>(neg, v).
     if c = skip then (neg, v)
     else if c = 45 then (True, v)
     else if is_digit c then (neg, signed_take_bit 31 (v * 10 + c - 48))
     else (neg, v))"

partial_function (option) parse_loop ::
  "('r, 'z) source_scheme \<Rightarrow> u32 \<Rightarrow> int \<Rightarrow> bool \<times> int \<Rightarrow> int \<Rightarrow> 'r \<Rightarrow> ((bool \<times> int) \<times> 'r) option" where
  "parse_loop io timeout skip acc c r = do {
     let acc1 = parse_step skip c acc;
     (_, r1) \<leftarrow> src_read io r;
     (c1, r2) \<leftarrow> timedPeek io timeout r1;
     if is_digit c1 \<or> c1 = skip then parse_loop io timeout skip acc1 c1 r2 else Some (acc1, r2)
   }"

definition parseInt_skip :: "('r, 'z) source_scheme \<Rightarrow> u32 \<Rightarrow> u8 \<Rightarrow> 'r \<Rightarrow> (int \<times> 'r) option" where
  "parseInt_skip io timeout skipChar r = do {
     (c, r1) \<leftarrow> peekNextDigit io timeout r;
     if c < 0 then Some (0, r1)
     else do {
       ((neg, v), r2) \<leftarrow> parse_loop io timeout (uint skipChar) (False, 0) c r1;
       Some (if neg then signed_take_bit 31 (- v) else v, r2)
     }
   }"

definition parseInt :: "('r, 'z) source_scheme \<Rightarrow> u32 \<Rightarrow> 'r \<Rightarrow> (int \<times> 'r) option" where
  "parseInt io timeout r = parseInt_skip io timeout 1 r"

text \<open>The search: \<open>target\<close> and \<open>terminator\<close> are the memories behind the pointers.\<close>

partial_function (option) find_loop ::
  "('r, 'z) source_scheme \<Rightarrow> u32 \<Rightarrow> u8 list \<Rightarrow> nat \<Rightarrow> u8 list \<Rightarrow> nat \<Rightarrow> nat \<Rightarrow> nat \<Rightarrow> 'r \<Rightarrow> (bool \<times> 'r) option" where
  "find_loop io timeout target targetLen terminator termLen index termIndex r = do {
     (c, r1) \<leftarrow> timedRead io timeout r;
     if c \<le> 0 then Some (False, r1)
     else do {
       t \<leftarrow> get_byte target index;
       let index0 = (if c \<noteq> uint t then 0 else index);
       t0 \<leftarrow> get_byte target index0;
       if c = uint t0 \<and> targetLen \<le> index0 + 1 then Some (True, r1)
       else do {
         let index1 = (if c = uint t0 then index0 + 1 else index0);
         if 0 < termLen then do {
           e \<leftarrow> get_byte terminator termIndex;
           if c = uint e
           then if termLen \<le> termIndex + 1 then Some (False, r1)
                else find_loop io timeout target targetLen terminator termLen index1 (termIndex + 1) r1
           else find_loop io timeout target targetLen terminator termLen index1 0 r1
         }
         else find_loop io timeout target targetLen terminator termLen index1 0 r1
       }
     }
   }"

definition findUntil ::
  "('r, 'z) source_scheme \<Rightarrow> u32 \<Rightarrow> u8 list \<Rightarrow> nat \<Rightarrow> u8 list \<Rightarrow> nat \<Rightarrow> 'r \<Rightarrow> (bool \<times> 'r) option" where
  "findUntil io timeout target targetLen terminator termLen r = do {
     t \<leftarrow> get_byte target 0;
     if t = 0 then Some (True, r) else find_loop io timeout target targetLen terminator termLen 0 0 r
   }"

definition stream_find :: "('r, 'z) source_scheme \<Rightarrow> u32 \<Rightarrow> u8 list \<Rightarrow> 'r \<Rightarrow> (bool \<times> 'r) option" where
  "stream_find io timeout target r = findUntil io timeout (target @ [0]) (length target) [0] 0 r"

primrec readBytes :: "('r, 'z) source_scheme \<Rightarrow> u32 \<Rightarrow> nat \<Rightarrow> 'r \<Rightarrow> (u8 list \<times> 'r) option" where
  "readBytes io timeout 0 r = Some ([], r)"
| "readBytes io timeout (Suc n) r = do {
     (c, r1) \<leftarrow> timedRead io timeout r;
     if c < 0 then Some ([], r1)
     else do { (bs, r2) \<leftarrow> readBytes io timeout n r1; Some (of_int c # bs, r2) }
   }"

primrec readBytesUntil :: "('r, 'z) source_scheme \<Rightarrow> u32 \<Rightarrow> u8 \<Rightarrow> nat \<Rightarrow> 'r \<Rightarrow> (u8 list \<times> 'r) option" where
  "readBytesUntil io timeout terminator 0 r = Some ([], r)"
| "readBytesUntil io timeout terminator (Suc n) r = do {
     (c, r1) \<leftarrow> timedRead io timeout r;
     if c < 0 \<or> c = uint terminator then Some ([], r1)
     else do { (bs, r2) \<leftarrow> readBytesUntil io timeout terminator n r1; Some (of_int c # bs, r2) }
   }"

text \<open>\<open>readString\<close> and \<open>readStringUntil\<close> append to a string, whatever the append answers.\<close>

partial_function (option) read_string_loop ::
  "(nat \<Rightarrow> bool) \<Rightarrow> ('r, 'z) source_scheme \<Rightarrow> u32 \<Rightarrow> (int \<Rightarrow> bool) \<Rightarrow> String \<Rightarrow> 'r \<Rightarrow> (String \<times> 'r) option" where
  "read_string_loop alloc io timeout stop ret r = do {
     (c, r1) \<leftarrow> timedRead io timeout r;
     if c < 0 \<or> stop c then Some (ret, r1)
     else do { (_, ret1) \<leftarrow> concat_char alloc (of_int c) ret; read_string_loop alloc io timeout stop ret1 r1 }
   }"

definition readString :: "(nat \<Rightarrow> bool) \<Rightarrow> ('r, 'z) source_scheme \<Rightarrow> u32 \<Rightarrow> 'r \<Rightarrow> (String \<times> 'r) option" where
  "readString alloc io timeout r = read_string_loop alloc io timeout (\<lambda>c. False) String_init r"

definition readStringUntil ::
  "(nat \<Rightarrow> bool) \<Rightarrow> ('r, 'z) source_scheme \<Rightarrow> u32 \<Rightarrow> u8 \<Rightarrow> 'r \<Rightarrow> (String \<times> 'r) option" where
  "readStringUntil alloc io timeout terminator r =
     read_string_loop alloc io timeout (\<lambda>c. c = uint terminator) String_init r"

section \<open>StreamString as a stream\<close>

text \<open>The string, and the state of the clock.\<close>

definition ss_read :: "String \<times> 'k \<Rightarrow> (int \<times> String \<times> 'k) option" where
  "ss_read = (\<lambda>(s, k).
     if String_length s \<noteq> 0 then do {
       c \<leftarrow> charAt s 0;
       s1 \<leftarrow> remove_count 0 1 s;
       Some (uint c, s1, k)
     }
     else Some (- 1, s, k))"

definition ss_peek :: "String \<times> 'k \<Rightarrow> (int \<times> String \<times> 'k) option" where
  "ss_peek = (\<lambda>(s, k).
     if String_length s \<noteq> 0 then do { c \<leftarrow> charAt s 0; Some (uint c, s, k) } else Some (- 1, s, k))"

definition StreamString_source :: "('k \<Rightarrow> u32 \<times> 'k) \<Rightarrow> (String \<times> 'k) source" where
  "StreamString_source millis =
     \<lparr>src_read = ss_read, src_peek = ss_peek, src_millis = (\<lambda>(s, k). let (now, k1) = millis k in (now, s, k1))\<rparr>"

section \<open>Numbers\<close>

text \<open>The value of a row of digits after the value \<open>v\<close>.\<close>

definition digits_after :: "int \<Rightarrow> u8 list \<Rightarrow> int" where
  "digits_after v cs = foldl (\<lambda>v c. 10 * v + (uint c - 48)) v cs"

lemma digits_after_simps [simp]:
  "digits_after v [] = v" "digits_after v (c # cs) = digits_after (10 * v + (uint c - 48)) cs"
  by (simp_all add: digits_after_def)

lemma digits_after_ge: "0 \<le> v \<Longrightarrow> \<forall>c\<in>set cs. is_digit (uint c) \<Longrightarrow> v \<le> digits_after v cs"
proof (induction cs arbitrary: v)
  case (Cons c cs)
  then have "10 * v + (uint c - 48) \<le> digits_after (10 * v + (uint c - 48)) cs"
    by (intro Cons.IH) (auto simp: is_digit_def)
  with Cons.prems show ?case by (simp add: is_digit_def)
qed simp

lemma parse_digit:
  assumes "is_digit c" and "c \<noteq> skip" and "0 \<le> v" and "10 * v + (c - 48) < 2 ^ 31"
  shows "parse_step skip c (neg, v) = (neg, 10 * v + (c - 48))"
proof -
  have "signed_take_bit 31 (v * 10 + c - 48) = v * 10 + c - 48"
    using assms by (intro signed_take_bit_int_eq_self) (simp_all add: is_digit_def)
  moreover have "c \<noteq> 45" using assms(1) by (simp add: is_digit_def)
  ultimately show ?thesis using assms(1,2) by (simp add: parse_step_def)
qed

lemma digits_after_number:
  assumes "\<forall>d\<in>set ds. d < 10"
  shows "digits_after 0 (map number_digit (rev ds)) = int (digits_value 10 ds)"
  using assms
proof (induction ds)
  case (Cons d ds)
  then have "unat (number_digit d) = 48 + d" by (intro unat_decimal_digit) simp
  then have "uint (number_digit d) = 48 + int d" by (simp only: uint_nat of_nat_add of_nat_numeral)
  with Cons show ?case by (simp add: digits_after_def)
qed simp

lemma number_text_reads:
  "digits_after 0 (number_text 10 n) = int n" "number_text 10 n \<noteq> []" "\<forall>c\<in>set (number_text 10 n). is_digit (uint c)"
proof -
  show "digits_after 0 (number_text 10 n) = int n"
    unfolding number_text_def by (subst digits_after_number) (auto intro: digits_less simp: digits_value_digits)
  show "number_text 10 n \<noteq> []" by (simp add: number_text_def digits_ne)
  show "\<forall>c\<in>set (number_text 10 n). is_digit (uint c)"
    by (auto dest!: number_text_digits simp: is_digit_def word_le_def)
qed

text \<open>After a number: nothing, or a byte that neither continues it nor is skipped.\<close>

definition number_ends :: "int \<Rightarrow> u8 list \<Rightarrow> bool" where
  "number_ends skip rest \<longleftrightarrow> (case rest of [] \<Rightarrow> True | b # _ \<Rightarrow> \<not> is_digit (uint b) \<and> uint b \<noteq> skip)"

section \<open>What a source promises\<close>

text \<open>\<open>pending\<close> is what the stream has and ever will have; \<open>rank start\<close> goes down with every look at the clock
  while the time since \<open>start\<close> is less than the timeout.\<close>

locale byte_source =
  fixes io :: "('r, 'z) source_scheme" and timeout :: u32 and inv :: "'r \<Rightarrow> bool"
    and pending :: "'r \<Rightarrow> u8 list" and rank :: "u32 \<Rightarrow> 'r \<Rightarrow> nat"
  assumes read_next: "inv r \<Longrightarrow> pending r = b # bs \<Longrightarrow>
      \<exists>r'. src_read io r = Some (uint b, r') \<and> inv r' \<and> pending r' = bs"
    and peek_next: "inv r \<Longrightarrow> pending r = b # bs \<Longrightarrow>
      \<exists>r'. src_peek io r = Some (uint b, r') \<and> inv r' \<and> pending r' = b # bs"
    and read_none: "inv r \<Longrightarrow> pending r = [] \<Longrightarrow>
      \<exists>c r'. src_read io r = Some (c, r') \<and> c < 0 \<and> inv r' \<and> pending r' = [] \<and> rank start r' \<le> rank start r"
    and peek_none: "inv r \<Longrightarrow> pending r = [] \<Longrightarrow>
      \<exists>c r'. src_peek io r = Some (c, r') \<and> c < 0 \<and> inv r' \<and> pending r' = [] \<and> rank start r' \<le> rank start r"
    and millis_keeps: "inv r \<Longrightarrow> inv (snd (src_millis io r)) \<and> pending (snd (src_millis io r)) = pending r"
    and time_passes: "inv r \<Longrightarrow> fst (src_millis io r) - start < timeout \<Longrightarrow>
      rank start (snd (src_millis io r)) < rank start r"
begin

lemma timed_none:
  assumes "inv r" and "pending r = []"
    and "\<And>r. inv r \<Longrightarrow> pending r = [] \<Longrightarrow>
      \<exists>c r'. get r = Some (c, r') \<and> c < 0 \<and> inv r' \<and> pending r' = [] \<and> rank start r' \<le> rank start r"
  shows "\<exists>r'. timed_loop get (src_millis io) timeout start r = Some (- 1, r') \<and> inv r' \<and> pending r' = []"
  using assms(1,2)
proof (induction "rank start r" arbitrary: r rule: less_induct)
  case less
  from assms(3) [OF less.prems] obtain c r1 where r1: "get r = Some (c, r1)" "c < 0" "inv r1" "pending r1 = []"
      "rank start r1 \<le> rank start r" by blast
  obtain now r2 where r2: "src_millis io r1 = (now, r2)" by fastforce
  with millis_keeps [OF r1(3)] r1(4) have keep: "inv r2" "pending r2 = []" by simp_all
  show ?case
  proof (cases "now - start < timeout")
    case True
    with time_passes [OF r1(3), of start] r2 r1(5) have "rank start r2 < rank start r" by simp
    from less.hyps [OF this keep] True r1(1,2) r2 show ?thesis
      by (subst timed_loop.simps) simp
  next
    case False
    with r1(1,2) r2 keep show ?thesis by (subst timed_loop.simps) simp
  qed
qed

lemma timed_next:
  assumes "get r = Some (uint (b :: u8), r')"
  shows "timed_loop get (src_millis io) timeout start r = Some (uint b, r')"
  using assms by (subst timed_loop.simps) simp

lemma timedRead_next:
  assumes "inv r" and "pending r = b # bs"
  shows "\<exists>r'. timedRead io timeout r = Some (uint b, r') \<and> inv r' \<and> pending r' = bs"
proof -
  obtain start r1 where r1: "src_millis io r = (start, r1)" by fastforce
  with millis_keeps [OF assms(1)] assms(2) have "inv r1" "pending r1 = b # bs" by simp_all
  from read_next [OF this] r1 show ?thesis by (auto simp: timedRead_def timed_next)
qed

lemma timedRead_none:
  assumes "inv r" and "pending r = []"
  shows "\<exists>r'. timedRead io timeout r = Some (- 1, r') \<and> inv r' \<and> pending r' = []"
proof -
  obtain start r1 where r1: "src_millis io r = (start, r1)" by fastforce
  with millis_keeps [OF assms(1)] assms(2) have "inv r1" "pending r1 = []" by simp_all
  from timed_none [OF this read_none] r1 show ?thesis by (simp add: timedRead_def)
qed

lemma timedPeek_next:
  assumes "inv r" and "pending r = b # bs"
  shows "\<exists>r'. timedPeek io timeout r = Some (uint b, r') \<and> inv r' \<and> pending r' = b # bs"
proof -
  obtain start r1 where r1: "src_millis io r = (start, r1)" by fastforce
  with millis_keeps [OF assms(1)] assms(2) have "inv r1" "pending r1 = b # bs" by simp_all
  from peek_next [OF this] r1 show ?thesis by (auto simp: timedPeek_def timed_next)
qed

lemma timedPeek_none:
  assumes "inv r" and "pending r = []"
  shows "\<exists>r'. timedPeek io timeout r = Some (- 1, r') \<and> inv r' \<and> pending r' = []"
proof -
  obtain start r1 where r1: "src_millis io r = (start, r1)" by fastforce
  with millis_keeps [OF assms(1)] assms(2) have "inv r1" "pending r1 = []" by simp_all
  from timed_none [OF this peek_none] r1 show ?thesis by (simp add: timedPeek_def)
qed

lemma peekNextDigit_skips:
  assumes "inv r" and "pending r = junk @ c # rest" and "\<forall>b\<in>set junk. b \<noteq> 45 \<and> \<not> is_digit (uint b)"
    and "c = 45 \<or> is_digit (uint c)"
  shows "\<exists>r'. peekNextDigit io timeout r = Some (uint c, r') \<and> inv r' \<and> pending r' = c # rest"
  using assms
proof (induction junk arbitrary: r)
  case Nil
  with timedPeek_next [of r c rest] obtain r1 where "timedPeek io timeout r = Some (uint c, r1)" "inv r1"
      "pending r1 = c # rest" by auto
  moreover have "uint c = 45 \<or> is_digit (uint c)" using Nil(4) by auto
  ultimately show ?case by (subst peekNextDigit.simps) auto
next
  case (Cons b junk)
  with timedPeek_next [of r b "junk @ c # rest"] obtain r1 where r1: "timedPeek io timeout r = Some (uint b, r1)" "inv r1"
      "pending r1 = b # junk @ c # rest" by auto
  with read_next [of r1 b "junk @ c # rest"] obtain r2 where r2: "src_read io r1 = Some (uint b, r2)" "inv r2"
      "pending r2 = junk @ c # rest" by auto
  have "\<not> (uint b < 0 \<or> uint b = 45 \<or> is_digit (uint b))"
    using Cons.prems(3) word_uint_eqI [of b 45] by auto
  with Cons.IH [OF r2(2,3)] Cons.prems(3,4) r1 r2 show ?case by (subst peekNextDigit.simps) auto
qed

lemma peek_rest:
  assumes "inv r" and "pending r = rest" and "number_ends skip rest" and "0 \<le> skip"
  shows "\<exists>c r'. timedPeek io timeout r = Some (c, r') \<and> \<not> (is_digit c \<or> c = skip) \<and> inv r' \<and> pending r' = rest"
proof (cases rest)
  case Nil
  then show ?thesis using timedPeek_none [of r] assms by (auto simp: is_digit_def)
next
  case (Cons b bs)
  then show ?thesis using timedPeek_next [of r b bs] assms by (auto simp: number_ends_def)
qed

lemma parse_loop_reads:
  assumes "inv r" and "pending r = c # cs @ rest" and "\<forall>b\<in>set (c # cs). is_digit (uint b) \<and> uint b \<noteq> skip"
    and "0 \<le> v" and "digits_after v (c # cs) < 2 ^ 31" and "number_ends skip rest" and "0 \<le> skip"
  shows "\<exists>r'. parse_loop io timeout skip (neg, v) (uint c) r = Some ((neg, digits_after v (c # cs)), r') \<and>
    inv r' \<and> pending r' = rest"
  using assms(1-5)
proof (induction cs arbitrary: r v c)
  case Nil
  from read_next [of r c rest] Nil(1,2) obtain r1 where r1: "src_read io r = Some (uint c, r1)" "inv r1" "pending r1 = rest"
    by auto
  from peek_rest [OF r1(2,3) assms(6,7)] obtain e r2 where r2: "timedPeek io timeout r1 = Some (e, r2)"
      "\<not> (is_digit e \<or> e = skip)" "inv r2" "pending r2 = rest" by blast
  have "parse_step skip (uint c) (neg, v) = (neg, digits_after v [c])"
    using Nil(3-5) by (subst parse_digit) simp_all
  with r1(1) r2 show ?case by (subst parse_loop.simps) (simp add: Let_def)
next
  case (Cons d cs)
  from read_next [of r c "d # cs @ rest"] Cons.prems(1,2) obtain r1 where r1: "src_read io r = Some (uint c, r1)" "inv r1"
      "pending r1 = d # cs @ rest" by auto
  from timedPeek_next [OF r1(2,3)] obtain r2 where r2: "timedPeek io timeout r1 = Some (uint d, r2)" "inv r2"
      "pending r2 = d # cs @ rest" by blast
  let ?v = "10 * v + (uint c - 48)"
  have v: "0 \<le> ?v" using Cons.prems(3,4) by (simp add: is_digit_def)
  moreover have "?v \<le> digits_after ?v (d # cs)" using Cons.prems(3) v by (intro digits_after_ge) simp_all
  then have "?v < 2 ^ 31" using Cons.prems(5) by simp
  then have step: "parse_step skip (uint c) (neg, v) = (neg, ?v)"
    using Cons.prems(3,4) by (intro parse_digit) simp_all
  have "\<exists>r'. parse_loop io timeout skip (neg, ?v) (uint d) r2 = Some ((neg, digits_after ?v (d # cs)), r') \<and>
      inv r' \<and> pending r' = rest"
    using Cons.prems v r2(2,3) by (intro Cons.IH) simp_all
  moreover have "is_digit (uint d)" using Cons.prems(3) by simp
  ultimately show ?case using r1(1) r2(1) step by (subst parse_loop.simps) (simp add: Let_def)
qed

lemma parse_number:
  assumes "inv r" and "pending r = number_text 10 n @ rest" and "number_ends 1 rest" and "n < 2 ^ 31"
    and "number_text 10 n = c # cs"
  shows "\<exists>r'. parse_loop io timeout 1 (neg, 0) (uint c) r = Some ((neg, int n), r') \<and> inv r' \<and> pending r' = rest"
proof -
  have "\<forall>b\<in>set (c # cs). is_digit (uint b) \<and> uint b \<noteq> 1"
    using number_text_reads(3) [of n] unfolding assms(5) by (auto simp: is_digit_def)
  then have "\<exists>r'. parse_loop io timeout 1 (neg, 0) (uint c) r = Some ((neg, digits_after 0 (c # cs)), r') \<and>
      inv r' \<and> pending r' = rest"
    using assms number_text_reads(1) [of n, unfolded assms(5)] by (intro parse_loop_reads) simp_all
  then show ?thesis using number_text_reads(1) [of n, unfolded assms(5)] by simp
qed

lemma parseInt_reads:
  assumes "inv r" and "pending r = junk @ long_text n @ rest" and "\<forall>b\<in>set junk. b \<noteq> 45 \<and> \<not> is_digit (uint b)"
    and "number_ends 1 rest" and "- (2 ^ 31) < n" and "n < 2 ^ 31"
  shows "\<exists>r'. parseInt io timeout r = Some (n, r') \<and> inv r' \<and> pending r' = rest"
proof -
  obtain c cs where num: "number_text 10 (nat \<bar>n\<bar>) = c # cs"
    using number_text_reads(2) by (cases "number_text 10 (nat \<bar>n\<bar>)") auto
  then have c: "is_digit (uint c)" using number_text_reads(3) [of "nat \<bar>n\<bar>"] by simp
  have small: "nat \<bar>n\<bar> < 2 ^ 31" using assms(5,6) by auto
  show ?thesis
  proof (cases "n < 0")
    case False
    then have shown: "long_text n = c # cs" using num by (simp add: long_text_def)
    from peekNextDigit_skips [OF assms(1) _ assms(3), of c "cs @ rest"] assms(2) c shown
    obtain r1 where r1: "peekNextDigit io timeout r = Some (uint c, r1)" "inv r1" "pending r1 = (c # cs) @ rest" by auto
    from parse_number [of r1 "nat \<bar>n\<bar>" rest c cs False] r1(2,3) assms(4) small num
    obtain r2 where "parse_loop io timeout 1 (False, 0) (uint c) r1 = Some ((False, int (nat \<bar>n\<bar>)), r2)" "inv r2"
        "pending r2 = rest" by auto
    with r1(1) False show ?thesis by (auto simp: parseInt_def parseInt_skip_def)
  next
    case True
    then have shown: "long_text n = 45 # c # cs" using num by (simp add: long_text_def)
    from peekNextDigit_skips [OF assms(1) _ assms(3), of 45 "c # cs @ rest"] assms(2) shown
    obtain r1 where r1: "peekNextDigit io timeout r = Some (45, r1)" "inv r1" "pending r1 = 45 # c # cs @ rest" by auto
    from read_next [OF r1(2,3)] obtain r2 where r2: "src_read io r1 = Some (45, r2)" "inv r2"
        "pending r2 = c # cs @ rest" by auto
    from timedPeek_next [OF r2(2,3)] obtain r3 where r3: "timedPeek io timeout r2 = Some (uint c, r3)" "inv r3"
        "pending r3 = c # cs @ rest" by blast
    from parse_number [of r3 "nat \<bar>n\<bar>" rest c cs True] r3(2,3) assms(4) small num
    obtain r4 where r4: "parse_loop io timeout 1 (True, 0) (uint c) r3 = Some ((True, int (nat \<bar>n\<bar>)), r4)" "inv r4"
        "pending r4 = rest" by auto
    have "parse_step 1 45 (False, 0) = (True, 0)" by (simp add: parse_step_def)
    then have "parse_loop io timeout 1 (False, 0) 45 r1 = Some ((True, int (nat \<bar>n\<bar>)), r4)"
      using r2(1) r3(1) r4(1) c by (subst parse_loop.simps) (simp add: Let_def)
    moreover have "signed_take_bit 31 (- int (nat \<bar>n\<bar>)) = n"
      using True assms(5) by (simp add: signed_take_bit_int_eq_self)
    ultimately show ?thesis using r1(1) r4(2,3) by (auto simp: parseInt_def parseInt_skip_def)
  qed
qed

text \<open>The search, for a target whose first byte does not come again in it.\<close>

lemma find_loop_finds:
  assumes "inv r" and "pending r = bs" and "0 \<notin> set bs" and "k < length ts" and "hd ts \<notin> set (tl ts)"
  shows "\<exists>found r'. find_loop io timeout (ts @ [0]) (length ts) [0] 0 k 0 r = Some (found, r') \<and> inv r' \<and>
    (if found then \<exists>pre. take k ts @ bs = pre @ ts @ pending r'
     else pending r' = [] \<and> \<not> prefix (drop k ts) bs \<and> \<not> sublist ts bs)"
  using assms(1-4)
proof (induction bs arbitrary: r k)
  case Nil
  from timedRead_none [OF Nil(1,2)] obtain r1 where r1: "timedRead io timeout r = Some (- 1, r1)" "inv r1"
      "pending r1 = []" by blast
  moreover have "ts \<noteq> []" using Nil(4) by auto
  ultimately show ?case using Nil(4) by (subst find_loop.simps, intro exI [of _ False] exI [of _ r1]) simp
next
  case (Cons b bs)
  from timedRead_next [OF Cons.prems(1,2)] obtain r1 where r1: "timedRead io timeout r = Some (uint b, r1)" "inv r1"
      "pending r1 = bs" by blast
  have ts: "ts = hd ts # tl ts" using Cons.prems(4) by (cases ts) auto
  have b: "\<not> uint b \<le> 0" using Cons.prems(3) by (auto simp: uint_0_iff word_le_def)
  have get: "get_byte (ts @ [0]) j = Some (ts ! j)" if "j < length ts" for j
    using that by (simp add: get_byte_def nth_append)
  have first: "ts ! 0 = hd ts" using ts by (metis nth_Cons_0)
  have later: "ts ! j \<noteq> hd ts" if "0 < j" "j < length ts" for j
  proof -
    have "j - 1 < length (tl ts)" using that by simp
    then have "tl ts ! (j - 1) \<in> set (tl ts)" by (rule nth_mem)
    moreover have "tl ts ! (j - 1) = ts ! j" using that by (simp add: nth_tl)
    ultimately show ?thesis using assms(5) by auto
  qed
  have eq: "uint b = uint x \<longleftrightarrow> b = x" for x by (simp add: word_uint_eq_iff)
  define k0 where "k0 = (if b \<noteq> ts ! k then 0 else k)"
  have k0: "k0 < length ts" using Cons.prems(4) by (auto simp: k0_def)
  show ?case
  proof (cases "b = ts ! k0 \<and> length ts \<le> k0 + 1")
    case True
    then have "take k0 ts @ [b] = ts" using k0 by (metis Suc_eq_plus1 take_Suc_conv_app_nth take_all)
    then have "take k ts @ b # bs = (if k0 = k then [] else take k ts) @ ts @ bs"
      by (auto simp: k0_def split: if_splits)
    with True r1 b k0 get [OF Cons.prems(4)] get [OF k0] show ?thesis
      by (subst find_loop.simps) (auto simp: Let_def eq k0_def)
  next
    case False
    define k1 where "k1 = (if b = ts ! k0 then k0 + 1 else k0)"
    have k1: "k1 < length ts" using False k0 by (auto simp: k1_def)
    have run: "find_loop io timeout (ts @ [0]) (length ts) [0] 0 k 0 r =
        find_loop io timeout (ts @ [0]) (length ts) [0] 0 k1 0 r1"
      using False r1(1) b get [OF Cons.prems(4)] get [OF k0]
      by (subst find_loop.simps) (auto simp: Let_def eq k0_def k1_def)
    have front: "take k ts @ b # bs = (if b = ts ! k then [] else if b = hd ts then take k ts else take k ts @ [b]) @ take k1 ts @ bs"
      using k1 k0 first by (auto simp: k1_def k0_def take_Suc_conv_app_nth)
    have miss: "prefix (drop k1 ts) bs \<or> sublist ts bs" if hit: "prefix (drop k ts) (b # bs) \<or> sublist ts (b # bs)"
    proof -
      consider "prefix (drop k ts) (b # bs)" | "prefix ts (b # bs)" | "sublist ts bs"
        using hit sublist_Cons_right [of ts b bs] by blast
      then show ?thesis
      proof cases
        case 1
        then have "b = ts ! k" and "prefix (drop (k + 1) ts) bs"
          using Cons.prems(4) by (simp_all add: Cons_nth_drop_Suc [symmetric])
        then show ?thesis by (simp add: k1_def k0_def)
      next
        case 2
        then have "b = hd ts" and "prefix (drop 1 ts) bs" using ts by (metis Cons_prefix_Cons, metis Cons_prefix_Cons drop0 drop_Suc_Cons One_nat_def)
        moreover have "k1 = 1"
          using calculation(1) first later [of k] Cons.prems(4) by (cases "k = 0") (auto simp: k1_def k0_def)
        ultimately show ?thesis by simp
      qed simp
    qed
    from Cons.IH [OF r1(2,3) _ k1] Cons.prems(3) obtain found r' where ih:
        "find_loop io timeout (ts @ [0]) (length ts) [0] 0 k1 0 r1 = Some (found, r')" "inv r'"
        "if found then \<exists>pre. take k1 ts @ bs = pre @ ts @ pending r'
         else pending r' = [] \<and> \<not> prefix (drop k1 ts) bs \<and> \<not> sublist ts bs" by auto
    show ?thesis
    proof (cases found)
      case True
      with ih(3) obtain pre where "take k1 ts @ bs = pre @ ts @ pending r'" by auto
      then have "take k ts @ b # bs =
          ((if b = ts ! k then [] else if b = hd ts then take k ts else take k ts @ [b]) @ pre) @ ts @ pending r'"
        unfolding front by simp
      then have "\<exists>pre. take k ts @ b # bs = pre @ ts @ pending r'" by blast
      with run ih(1,2) True show ?thesis by auto
    next
      case False
      with run ih miss show ?thesis by (intro exI [of _ False] exI [of _ r']) auto
    qed
  qed
qed

lemma stream_find_is_search:
  assumes "inv r" and "0 \<notin> set (pending r)" and "ts \<noteq> []" and "hd ts \<noteq> 0" and "hd ts \<notin> set (tl ts)"
  shows "\<exists>r'. stream_find io timeout ts r = Some (sublist ts (pending r), r') \<and> inv r' \<and>
    (if sublist ts (pending r) then \<exists>pre. pending r = pre @ ts @ pending r' else pending r' = [])"
proof -
  have "0 < length ts" using assms(3) by simp
  from find_loop_finds [OF assms(1) refl assms(2) this assms(5)] obtain found r' where
      run: "find_loop io timeout (ts @ [0]) (length ts) [0] 0 0 0 r = Some (found, r')" "inv r'"
      "if found then \<exists>pre. take 0 ts @ pending r = pre @ ts @ pending r'
       else pending r' = [] \<and> \<not> prefix (drop 0 ts) (pending r) \<and> \<not> sublist ts (pending r)" by blast
  moreover have "get_byte (ts @ [0]) 0 = Some (hd ts)"
    using assms(3) by (simp add: get_byte_def nth_append hd_conv_nth)
  moreover have "found = sublist ts (pending r)" using run(3) by (auto simp: sublist_def split: if_splits)
  ultimately show ?thesis using assms(4) by (auto simp: stream_find_def findUntil_def split: if_splits)
qed

lemma readBytesUntil_reads:
  assumes "inv r"
  shows "\<exists>r'. readBytesUntil io timeout t n r = Some (take n (takeWhile (\<lambda>b. b \<noteq> t) (pending r)), r') \<and> inv r' \<and>
    pending r' = (if length (takeWhile (\<lambda>b. b \<noteq> t) (pending r)) < n
                  then drop 1 (dropWhile (\<lambda>b. b \<noteq> t) (pending r)) else drop n (pending r))"
  using assms
proof (induction n arbitrary: r)
  case (Suc n)
  show ?case
  proof (cases "pending r")
    case Nil
    with timedRead_none [OF Suc.prems] show ?thesis by auto
  next
    case (Cons b bs)
    from timedRead_next [OF Suc.prems this] obtain r1 where r1: "timedRead io timeout r = Some (uint b, r1)" "inv r1"
        "pending r1 = bs" by blast
    have "uint b = uint t \<longleftrightarrow> b = t" by (simp add: word_uint_eq_iff)
    with Suc.IH [OF r1(2)] r1 Cons show ?thesis by auto
  qed
qed simp

lemma readBytes_reads:
  assumes "inv r"
  shows "\<exists>r'. readBytes io timeout n r = Some (take n (pending r), r') \<and> inv r' \<and> pending r' = drop n (pending r)"
  using assms
proof (induction n arbitrary: r)
  case (Suc n)
  show ?case
  proof (cases "pending r")
    case Nil
    with timedRead_none [OF Suc.prems] show ?thesis by auto
  next
    case (Cons b bs)
    from timedRead_next [OF Suc.prems this] obtain r1 where r1: "timedRead io timeout r = Some (uint b, r1)" "inv r1"
        "pending r1 = bs" by blast
    with Suc.IH [OF r1(2)] Cons show ?thesis by auto
  qed
qed simp

end

section \<open>StreamString keeps the promise\<close>

text \<open>A clock that reaches every time.\<close>

definition ticking :: "('k \<Rightarrow> u32 \<times> 'k) \<Rightarrow> u32 \<Rightarrow> (u32 \<Rightarrow> 'k \<Rightarrow> nat) \<Rightarrow> bool" where
  "ticking millis timeout rank \<longleftrightarrow>
     (\<forall>start k. fst (millis k) - start < timeout \<longrightarrow> rank start (snd (millis k)) < rank start k)"

definition ss_inv :: "String \<times> 'k \<Rightarrow> bool" where
  "ss_inv r \<longleftrightarrow> wf_String (fst r)"

definition ss_pending :: "String \<times> 'k \<Rightarrow> u8 list" where
  "ss_pending r = ss_text (fst r)"

lemma ss_inv_holds: "ss_inv (s, k) \<longleftrightarrow> holds_text s (ss_text s)"
  by (simp add: ss_inv_def wf_String_def ss_text_def)

lemma ss_first:
  assumes "holds_text s (b # bs)"
  shows "String_length s \<noteq> 0 \<and> charAt s 0 = Some b"
proof -
  obtain m where m: "sbuffer s = Some m" using holds_none [OF assms] by (cases "sbuffer s") auto
  moreover obtain rest where "m = (b # bs) @ 0 # rest" using holds_memory [OF assms m] by blast
  ultimately show ?thesis
    using holds_len [OF assms] by (simp add: String_length_def charAt_def String_index_def get_byte_def)
qed

lemma ss_empty: "holds_text s [] \<Longrightarrow> String_length s = 0"
  by (simp add: String_length_def holds_len)

lemma StreamString_is_source:
  assumes "ticking millis timeout rank"
  shows "byte_source (StreamString_source millis) timeout ss_inv ss_pending (\<lambda>start r. rank start (snd r))"
proof
  fix r :: "String \<times> 'a" and b bs start
  obtain s k where r: "r = (s, k)" by fastforce
  {
    assume "ss_inv r" and "ss_pending r = b # bs"
    then have h: "holds_text s (b # bs)" by (simp add: r ss_inv_holds ss_pending_def)
    obtain s1 where s1: "remove_count 0 1 s = Some s1" "holds_text s1 bs"
      using remove_count_text [OF h, of 0 1] by auto
    show "\<exists>r'. src_read (StreamString_source millis) r = Some (uint b, r') \<and> ss_inv r' \<and> ss_pending r' = bs"
      using ss_first [OF h] s1 holds_ss_text [OF s1(2)]
      by (simp add: StreamString_source_def ss_read_def r ss_inv_holds ss_pending_def)
    show "\<exists>r'. src_peek (StreamString_source millis) r = Some (uint b, r') \<and> ss_inv r' \<and> ss_pending r' = b # bs"
      using ss_first [OF h] h holds_ss_text [OF h]
      by (simp add: StreamString_source_def ss_peek_def r ss_inv_holds ss_pending_def)
  }
  {
    assume "ss_inv r" and "ss_pending r = []"
    then have h: "holds_text s []" by (simp add: r ss_inv_holds ss_pending_def)
    then show "\<exists>c r'. src_read (StreamString_source millis) r = Some (c, r') \<and> c < 0 \<and> ss_inv r' \<and> ss_pending r' = [] \<and>
        rank start (snd r') \<le> rank start (snd r)"
      using ss_empty [OF h] holds_ss_text [OF h]
      by (simp add: StreamString_source_def ss_read_def r ss_inv_holds ss_pending_def)
    show "\<exists>c r'. src_peek (StreamString_source millis) r = Some (c, r') \<and> c < 0 \<and> ss_inv r' \<and> ss_pending r' = [] \<and>
        rank start (snd r') \<le> rank start (snd r)"
      using h ss_empty [OF h] holds_ss_text [OF h]
      by (simp add: StreamString_source_def ss_peek_def r ss_inv_holds ss_pending_def)
  }
  show "ss_inv (snd (src_millis (StreamString_source millis) r)) \<and>
      ss_pending (snd (src_millis (StreamString_source millis) r)) = ss_pending r" if "ss_inv r"
    using that by (simp add: StreamString_source_def r ss_inv_def ss_pending_def split_beta Let_def)
  show "rank start (snd (snd (src_millis (StreamString_source millis) r))) < rank start (snd r)"
    if "ss_inv r" "fst (src_millis (StreamString_source millis) r) - start < timeout"
    using that assms by (simp add: StreamString_source_def r ticking_def split_beta Let_def)
qed

text \<open>A clock that goes on by one millisecond each time it is read.\<close>

definition millis_up :: "u32 \<Rightarrow> u32 \<times> u32" where
  "millis_up k = (k, k + 1)"

lemma millis_up_ticking: "ticking millis_up 1000 (\<lambda>start k. unat (start + 1000 - k))"
proof -
  have "unat (start + 1000 - (k + 1)) < unat (start + 1000 - k)" if "k - start < 1000" for start k :: u32
  proof -
    define d where "d = k - start"
    have k: "k = start + d" by (simp add: d_def)
    have "d < 1000" using that by (simp add: d_def)
    then have ne: "1000 - d \<noteq> 0" by auto
    have eqs: "start + 1000 - (k + 1) = 1000 - d - 1" "start + 1000 - k = 1000 - d" by (simp_all add: k)
    have "0 < unat (1000 - d)" using ne by (simp add: unat_gt_0)
    then show ?thesis unfolding eqs unat_minus_one [OF ne] by simp
  qed
  then show ?thesis by (simp add: ticking_def millis_up_def)
qed

interpretation ss_in: byte_source "StreamString_source millis_up" 1000 ss_inv ss_pending
    "\<lambda>start r. unat (start + 1000 - snd r)"
  using StreamString_is_source [OF millis_up_ticking] .

section \<open>Properties\<close>

text \<open>C30: A number printed as a line to a \<open>StreamString\<close> is the number that \<open>parseInt\<close> reads from it, whatever text
  without digits and minus signs stands before it; the end of the line stays in the stream. This holds for
  every \<open>long\<close> but the smallest.\<close>

theorem print_then_parse:
  assumes "ticking millis timeout rank" and "holds_text s junk" and "\<forall>b\<in>set junk. b \<noteq> 45 \<and> \<not> is_digit (uint b)"
    and "- (2 ^ 31) < n" and "n < 2 ^ 31" and "storable (length junk + length (long_text n) + 3)"
  shows "\<exists>s1 s2 k'. with_line_end (StreamString_sink (\<lambda>_. True)) (print_long (StreamString_sink (\<lambda>_. True)) n 10) s
        = Some (length (long_text n) + 2, s1) \<and>
      parseInt (StreamString_source millis) timeout (s1, k) = Some (n, s2, k') \<and> holds_text s2 [13, 10]"
proof -
  let ?sink = "StreamString_sink (\<lambda>_. True)" and ?src = "StreamString_source millis"
  have before: "ss_text s = junk" using assms(2) by (rule holds_ss_text)
  have "ss_ready s (long_text n @ [13, 10])"
  proof -
    have "0 \<notin> set (long_text n @ [13, 10])" using long_text_no_zero [of n] by simp
    moreover have "storable (length junk + length (long_text n @ [13, 10]) + 1)" using assms(6) by (simp add: storable_def)
    ultimately show ?thesis using assms(2) unfolding ss_ready_def before by blast
  qed
  from ss.print_long_prints [OF assms(4,5) this] obtain s0 where
      s0: "print_long ?sink n 10 s = Some (length (long_text n), s0)" "ss_text s0 = junk @ long_text n" "ss_ready s0 [13, 10]"
    unfolding before by blast
  from ss.println_prints [of s0 "[]"] s0(2,3) obtain s1 where
      s1: "println ?sink s0 = Some (2, s1)" "ss_text s1 = junk @ long_text n @ [13, 10]" "ss_ready s1 []" by auto
  have "ss_inv (s1, k)" and "ss_pending (s1, k) = junk @ long_text n @ [13, 10]"
    using s1(2,3) by (simp_all add: ss_inv_holds ss_ready_def ss_pending_def)
  then have "\<exists>r'. parseInt ?src timeout (s1, k) = Some (n, r') \<and> ss_inv r' \<and> ss_pending r' = [13, 10]"
    by (rule byte_source.parseInt_reads [OF StreamString_is_source [OF assms(1)]])
      (use assms(3-5) in \<open>simp_all add: number_ends_def is_digit_def\<close>)
  then obtain s2 k' where r: "parseInt ?src timeout (s1, k) = Some (n, s2, k')" "ss_inv (s2, k')"
      "ss_pending (s2, k') = [13, 10]" by auto
  then have "holds_text s2 [13, 10]" by (metis ss_inv_holds ss_pending_def fst_conv)
  moreover have "with_line_end ?sink (print_long ?sink n 10) s = Some (length (long_text n) + 2, s1)"
    using s0(1) s1(1) by (simp add: with_line_end_def)
  ultimately show ?thesis using r(1) by blast
qed

text \<open>C31: On every source of bytes without zeros, \<open>find\<close> with a target whose first byte does not come again in it
  answers whether the target occurs in what the stream has; it reads up to the end of an occurrence, or to
  the end of the stream, and never leaves the target's memory.\<close>

theorem find_is_search:
  assumes "byte_source io timeout ok pending rank" and "ok r" and "0 \<notin> set (pending r)"
    and "ts \<noteq> []" and "hd ts \<noteq> 0" and "hd ts \<notin> set (tl ts)"
  shows "\<exists>r'. stream_find io timeout ts r = Some (sublist ts (pending r), r') \<and>
    (if sublist ts (pending r) then \<exists>pre. pending r = pre @ ts @ pending r' else pending r' = [])"
  using byte_source.stream_find_is_search [OF assms] by blast

text \<open>Without that condition the search, which never goes back, misses targets.\<close>

definition list_source :: "u8 list source" where
  "list_source = \<lparr>src_read = (\<lambda>bs. case bs of [] \<Rightarrow> Some (- 1, []) | b # bs \<Rightarrow> Some (uint b, bs)),
     src_peek = (\<lambda>bs. case bs of [] \<Rightarrow> Some (- 1, []) | b # _ \<Rightarrow> Some (uint b, bs)),
     src_millis = (\<lambda>bs. (0, bs))\<rparr>"

lemma find_misses: "stream_find list_source 0 [97, 97, 98] [97, 97, 97, 98] = Some (False, [])"
proof -
  have next_byte: "timedRead list_source 0 (b # bs) = Some (uint b, bs)" for b bs
    by (subst timedRead_def) (simp add: list_source_def timed_loop.simps)
  have at_end: "timedRead list_source 0 [] = Some (- 1, [])"
    by (subst timedRead_def) (simp add: list_source_def timed_loop.simps)
  show ?thesis
    by (simp add: stream_find_def findUntil_def get_byte_def) (subst find_loop.simps, simp add: next_byte at_end get_byte_def)+
qed

section \<open>Witnesses\<close>

lemma holds_small_junk: "holds_text (small_string [116, 58]) [116, 58]"
  by (rule holds_small) simp_all

theorem print_then_parse_witness:
  "\<exists>s1 s2 k'. with_line_end (StreamString_sink (\<lambda>_. True)) (print_long (StreamString_sink (\<lambda>_. True)) (- 42) 10)
        (small_string [116, 58]) = Some (length (long_text (- 42)) + 2, s1) \<and>
      parseInt (StreamString_source millis_up) 1000 (s1, 0) = Some (- 42, s2, k') \<and> holds_text s2 [13, 10]"
proof (rule print_then_parse [OF millis_up_ticking holds_small_junk])
  show "storable (length [116, 58 :: u8] + length (long_text (- 42)) + 3)"
    using length_digits [of 10 42 32] by (simp add: long_text_def number_text_def storable_def)
qed (simp_all add: is_digit_def)

theorem find_is_search_witness:
  "\<exists>r'. stream_find (StreamString_source millis_up) 1000 [58] (small_string [116, 58], 0) =
      Some (sublist [58] (ss_pending (small_string [116, 58], 0 :: u32)), r')"
proof -
  have "ss_pending (small_string [116, 58], 0 :: u32) = [116, 58]"
    using holds_ss_text [OF holds_small_junk] by (simp add: ss_pending_def)
  then show ?thesis
    using find_is_search [OF ss_in.byte_source_axioms, of "(small_string [116, 58], 0)" "[58]"] holds_small_junk
    by (auto simp: ss_inv_def holds_wf)
qed

end
