(* ===== verification/IpAddress.thy ===== *)
theory IpAddress
  imports StreamIn
begin

text \<open>
  \<open>IPAddress.cpp\<close>: an IPv4 address as its four bytes, printed and parsed. The parser takes the texts that are
  four rows of digits with three dots between them, each row of a value up to 255; an empty row counts as 0.
\<close>

section \<open>The code\<close>

type_synonym ip = "u8 list"

definition ip_init :: ip where
  "ip_init = le32 0"

definition ip_of_octets :: "u8 \<Rightarrow> u8 \<Rightarrow> u8 \<Rightarrow> u8 \<Rightarrow> ip" where
  "ip_of_octets a b c d = [a, b, c, d]"

definition ip_of_dword :: "u32 \<Rightarrow> ip" where
  "ip_of_dword w = le32 w"

definition ip_of_memory :: "u8 list \<Rightarrow> ip option" where
  "ip_of_memory m = memread m 0 4"

definition ip_dword :: "ip \<Rightarrow> u32" where
  "ip_dword ip = of_le32 ip"

definition ip_equal :: "ip \<Rightarrow> ip \<Rightarrow> bool" where
  "ip_equal a b \<longleftrightarrow> ip_dword a = ip_dword b"

definition ip_equal_memory :: "ip \<Rightarrow> u8 list \<Rightarrow> bool option" where
  "ip_equal_memory a m = map_option (\<lambda>bs. bs = a) (memread m 0 4)"

definition ip_printTo :: "('p, 'z) sink_scheme \<Rightarrow> ip \<Rightarrow> 'p \<Rightarrow> (nat \<times> 'p) option" where
  "ip_printTo io ip p0 = do {
     (a0, p1) \<leftarrow> print_uchar io (ip ! 0) 10 p0; (d0, p2) \<leftarrow> print_char io 46 p1;
     (a1, p3) \<leftarrow> print_uchar io (ip ! 1) 10 p2; (d1, p4) \<leftarrow> print_char io 46 p3;
     (a2, p5) \<leftarrow> print_uchar io (ip ! 2) 10 p4; (d2, p6) \<leftarrow> print_char io 46 p5;
     (a3, p7) \<leftarrow> print_uchar io (ip ! 3) 10 p6;
     Some (a0 + d0 + a1 + d1 + a2 + d2 + a3, p7)
   }"

text \<open>The text of \<open>sprintf\<close>, copied into an array of 16 bytes.\<close>

definition ip_text :: "ip \<Rightarrow> u8 list" where
  "ip_text ip =
     number_text 10 (unat (ip ! 0)) @ [46] @ number_text 10 (unat (ip ! 1)) @ [46] @
     number_text 10 (unat (ip ! 2)) @ [46] @ number_text 10 (unat (ip ! 3))"

definition ip_toString :: "(nat \<Rightarrow> bool) \<Rightarrow> ip \<Rightarrow> String option" where
  "ip_toString alloc ip = do {
     m \<leftarrow> strcpy (replicate 16 0) 0 (ip_text ip);
     cs \<leftarrow> c_string m 0;
     String_of_cstr alloc (Some cs)
   }"

fun ip_parse :: "u8 list \<Rightarrow> nat \<Rightarrow> nat \<Rightarrow> ip \<Rightarrow> bool \<times> ip" where
  "ip_parse [] acc dots ip = (if dots \<noteq> 3 then (False, ip) else (True, ip[3 := of_nat acc]))"
| "ip_parse (c # cs) acc dots ip =
     (if is_digit (uint c)
      then let acc' = (acc * 10 + (unat c - 48)) mod 2 ^ 16
           in if 255 < acc' then (False, ip) else ip_parse cs acc' dots ip
      else if c = 46
           then if dots = 3 then (False, ip) else ip_parse cs 0 (dots + 1) (ip[dots := of_nat acc])
           else (False, ip))"

definition ip_fromString :: "u8 list \<Rightarrow> ip \<Rightarrow> bool \<times> ip" where
  "ip_fromString address ip = ip_parse address 0 0 ip"

section \<open>The texts the parser takes\<close>

fun split_dots :: "u8 list \<Rightarrow> u8 list list" where
  "split_dots [] = [[]]"
| "split_dots (c # cs) =
     (if c = 46 then [] # split_dots cs else case split_dots cs of [] \<Rightarrow> [[c]] | p # ps \<Rightarrow> (c # p) # ps)"

definition octet :: "u8 list \<Rightarrow> bool" where
  "octet p \<longleftrightarrow> (\<forall>c\<in>set p. is_digit (uint c)) \<and> digits_after 0 p \<le> 255"

lemma split_dots_ne: "split_dots cs \<noteq> []"
  by (induction cs) (auto split: list.splits)

lemma ip_parse_spec:
  assumes "acc \<le> 255" and "dots \<le> 3" and "length ip = 4" and "split_dots cs = p # ps"
  shows "fst (ip_parse cs acc dots ip) = ((\<forall>c\<in>set p. is_digit (uint c)) \<and> digits_after (int acc) p \<le> 255 \<and>
      list_all octet ps \<and> dots + length ps = 3) \<and>
    (fst (ip_parse cs acc dots ip) \<longrightarrow>
      snd (ip_parse cs acc dots ip) =
        take dots ip @ of_int (digits_after (int acc) p) # map (\<lambda>q. of_int (digits_after 0 q)) ps)"
  using assms
proof (induction cs arbitrary: acc dots ip p ps)
  case Nil
  then have "take 3 ip @ [x] = ip[3 := x]" for x
    by (auto simp: length_Suc_conv numeral_eq_Suc)
  with Nil show ?case by auto
next
  case (Cons c cs)
  obtain q qs where q: "split_dots cs = q # qs" using split_dots_ne [of cs] by (cases "split_dots cs") auto
  show ?case
  proof (cases "c = 46")
    case True
    then have p: "p = []" "ps = q # qs" using Cons.prems(4) q by simp_all
    have dot: "\<not> is_digit 46" by (simp add: is_digit_def)
    show ?thesis
    proof (cases "dots = 3")
      case True
      with \<open>c = 46\<close> p dot show ?thesis by simp
    next
      case False
      then have d: "dots < length ip" "dots + 1 \<le> 3" using Cons.prems(2,3) by simp_all
      have "take (Suc dots) (ip[dots := x]) = take dots ip @ [x]" for x
        using d(1) by (simp add: take_Suc_conv_app_nth)
      with Cons.IH [of 0 "dots + 1" "ip[dots := of_nat acc]" q qs] Cons.prems(1,3) d q \<open>c = 46\<close> p dot False
      show ?thesis by (auto simp: octet_def)
    qed
  next
    case False
    then have p: "p = c # q" "ps = qs" using Cons.prems(4) q by simp_all
    show ?thesis
    proof (cases "is_digit (uint c)")
      case True
      have u1: "uint c = int (unat c)" by (simp only: uint_nat)
      have u: "48 \<le> unat c" "unat c \<le> 57" using True unfolding is_digit_def u1 by linarith+
      let ?acc = "acc * 10 + (unat c - 48)"
      have acc: "?acc mod 2 ^ 16 = ?acc" using Cons.prems(1) u by simp
      have val: "digits_after (int acc) p = digits_after (int ?acc) q"
      proof -
        have "10 * int acc + (uint c - 48) = int ?acc" using u(1) by (simp add: of_nat_diff)
        then show ?thesis by (simp only: p(1) digits_after_simps)
      qed
      show ?thesis
      proof (cases "255 < ?acc")
        case over: True
        have "int ?acc \<le> digits_after (int ?acc) q" if "\<forall>c\<in>set q. is_digit (uint c)"
          using that by (intro digits_after_ge) simp_all
        then have "\<not> ((\<forall>c\<in>set p. is_digit (uint c)) \<and> digits_after (int acc) p \<le> 255)"
          unfolding val using over by (auto simp: p(1))
        with over True acc show ?thesis by auto
      next
        case False
        with Cons.IH [of ?acc dots ip q qs] Cons.prems(2,3) q True acc val p show ?thesis by auto
      qed
    next
      case no_digit: False
      with False p show ?thesis by simp
    qed
  qed
qed

text \<open>The text of an address is one of them.\<close>

lemma split_dots_digits:
  "\<forall>c\<in>set p. is_digit (uint c) \<Longrightarrow> split_dots (p @ 46 # cs) = p # split_dots cs"
  "\<forall>c\<in>set p. is_digit (uint c) \<Longrightarrow> split_dots p = [p]"
  by (induction p) (auto simp: is_digit_def)

lemma unat_octet_bound: "unat (b :: u8) < 256"
proof -
  have "unat b < 2 ^ LENGTH(8)" by (rule unsigned_less)
  then show ?thesis by simp
qed

lemma octet_number: "octet (number_text 10 (unat (b :: u8)))"
proof -
  have "int (unat b) \<le> 255" using unat_octet_bound [of b] by linarith
  then show ?thesis unfolding octet_def number_text_reads(1) using number_text_reads(3) by blast
qed

lemma length_octet: "length (number_text 10 (unat (b :: u8))) \<le> 3"
proof -
  have "unat b < 256" using unat_octet_bound [of b] by simp
  have "length (digits 10 n) \<le> 3" if "n < 256" for n :: nat
    using that by (simp add: digits.simps [of 10 n] digits.simps [of 10 "n div 10"] digits.simps [of 10 "n div 10 div 10"])
  with \<open>unat b < 256\<close> show ?thesis by (simp add: number_text_def)
qed

lemma split_ip_text:
  "split_dots (ip_text ip) = map (\<lambda>i. number_text 10 (unat (ip ! i))) [0, 1, 2, 3]"
  using number_text_reads(3) by (simp add: ip_text_def split_dots_digits)

lemma ip_parse_text:
  assumes "length ip = 4" and "length old = 4"
  shows "ip_fromString (ip_text ip) old = (True, ip)"
proof -
  have "split_dots (ip_text ip) = number_text 10 (unat (ip ! 0)) # map (\<lambda>i. number_text 10 (unat (ip ! i))) [1, 2, 3]"
    by (simp add: split_ip_text)
  from ip_parse_spec [OF _ _ assms(2) this, of 0 0]
  have "fst (ip_fromString (ip_text ip) old) \<and> snd (ip_fromString (ip_text ip) old) = [ip ! 0, ip ! 1, ip ! 2, ip ! 3]"
    using octet_number number_text_reads(1) by (simp add: ip_fromString_def octet_def)
  moreover have "[ip ! 0, ip ! 1, ip ! 2, ip ! 3] = ip" using assms(1) by (auto simp: length_Suc_conv numeral_eq_Suc)
  ultimately show ?thesis by (metis prod.collapse)
qed

lemma ip_text_fits: "length (ip_text ip) \<le> 15"
  using length_octet [of "ip ! 0"] length_octet [of "ip ! 1"] length_octet [of "ip ! 2"] length_octet [of "ip ! 3"]
  by (simp add: ip_text_def)

lemma ip_text_no_zero: "0 \<notin> set (ip_text ip)"
  using number_text_digits [of 0] by (auto simp: ip_text_def)

lemma ip_toString_holds: "\<exists>s. ip_toString (\<lambda>_. True) ip = Some s \<and> holds_text s (ip_text ip)"
proof -
  have fits: "length (ip_text ip @ [0]) \<le> 16" using ip_text_fits [of ip] by simp
  then obtain rest where "strcpy (replicate 16 0) 0 (ip_text ip) = Some (ip_text ip @ 0 # rest)"
    by (auto simp: strcpy_def memcpy_def store_def)
  moreover have "c_string (ip_text ip @ 0 # rest) 0 = Some (ip_text ip)" using ip_text_no_zero by simp
  moreover obtain s where "String_of_cstr (\<lambda>_. True) (Some (ip_text ip)) = Some s" "holds_text s (ip_text ip)"
    using new_text [of "\<lambda>_. True" "ip_text ip"] ip_text_no_zero ip_text_fits [of ip] by (auto simp: storable_def)
  ultimately show ?thesis by (simp add: ip_toString_def)
qed

context byte_sink
begin

lemma print_octet:
  assumes "ready p (number_text 10 (unat b) @ bs)"
  shows "\<exists>p'. print_uchar io b 10 p = Some (length (number_text 10 (unat b)), p') \<and>
    written p' = written p @ number_text 10 (unat b) \<and> ready p' bs"
proof -
  have "unat b < 2 ^ 32" using unat_octet_bound [of b] by simp
  moreover have "unat (ucast b :: u32) = unat b"
    using unat_octet_bound [of b] by (simp add: unsigned_ucast_eq take_bit_nat_eq_self)
  ultimately show ?thesis
    using printNumber_prints [of "unat b" 10 p bs] assms by (simp add: print_uchar_def print_ulong_def)
qed

lemma print_dot:
  assumes "ready p ([46] @ bs)"
  shows "\<exists>p'. print_char io 46 p = Some (1, p') \<and> written p' = written p @ [46] \<and> ready p' bs"
  using put_byte [of p 46 bs] assms by (simp add: print_char_def)

lemma ip_printTo_prints:
  assumes "ready p (ip_text ip @ bs)"
  shows "\<exists>p'. ip_printTo io ip p = Some (length (ip_text ip), p') \<and> written p' = written p @ ip_text ip \<and> ready p' bs"
proof -
  let ?n = "\<lambda>i. number_text 10 (unat (ip ! i))"
  have "ready p (?n 0 @ [46] @ ?n 1 @ [46] @ ?n 2 @ [46] @ ?n 3 @ bs)" using assms by (simp add: ip_text_def)
  from print_octet [OF this] obtain p1 where p1: "print_uchar io (ip ! 0) 10 p = Some (length (?n 0), p1)"
      "written p1 = written p @ ?n 0" "ready p1 ([46] @ ?n 1 @ [46] @ ?n 2 @ [46] @ ?n 3 @ bs)" by blast
  from print_dot [OF p1(3)] obtain p2 where p2: "print_char io 46 p1 = Some (1, p2)"
      "written p2 = written p1 @ [46]" "ready p2 (?n 1 @ [46] @ ?n 2 @ [46] @ ?n 3 @ bs)" by blast
  from print_octet [OF p2(3)] obtain p3 where p3: "print_uchar io (ip ! 1) 10 p2 = Some (length (?n 1), p3)"
      "written p3 = written p2 @ ?n 1" "ready p3 ([46] @ ?n 2 @ [46] @ ?n 3 @ bs)" by blast
  from print_dot [OF p3(3)] obtain p4 where p4: "print_char io 46 p3 = Some (1, p4)"
      "written p4 = written p3 @ [46]" "ready p4 (?n 2 @ [46] @ ?n 3 @ bs)" by blast
  from print_octet [OF p4(3)] obtain p5 where p5: "print_uchar io (ip ! 2) 10 p4 = Some (length (?n 2), p5)"
      "written p5 = written p4 @ ?n 2" "ready p5 ([46] @ ?n 3 @ bs)" by blast
  from print_dot [OF p5(3)] obtain p6 where p6: "print_char io 46 p5 = Some (1, p6)"
      "written p6 = written p5 @ [46]" "ready p6 (?n 3 @ bs)" by blast
  from print_octet [OF p6(3)] obtain p7 where p7: "print_uchar io (ip ! 3) 10 p6 = Some (length (?n 3), p7)"
      "written p7 = written p6 @ ?n 3" "ready p7 bs" by blast
  from p1 p2 p3 p4 p5 p6 p7 show ?thesis
    by (simp add: ip_printTo_def ip_text_def)
qed

end

section \<open>Properties\<close>

text \<open>C32: \<open>fromString\<close> takes exactly the texts of four rows of digits between three dots whose values are up to 255
  (an empty row counts as 0), and stores these values.\<close>

theorem fromString_takes:
  assumes "length old = 4"
  shows "fst (ip_fromString cs old) = (length (split_dots cs) = 4 \<and> list_all octet (split_dots cs)) \<and>
    (fst (ip_fromString cs old) \<longrightarrow>
      snd (ip_fromString cs old) = map (\<lambda>p. of_int (digits_after 0 p)) (split_dots cs))"
proof -
  obtain p ps where p: "split_dots cs = p # ps" using split_dots_ne [of cs] by (cases "split_dots cs") auto
  from ip_parse_spec [OF _ _ assms p, of 0 0] show ?thesis
    by (auto simp: ip_fromString_def p octet_def)
qed

text \<open>An address comes back from its text, however it is made: \<open>toString\<close> fills at most 16 bytes and gives a
  string of the text, \<open>printTo\<close> puts the same text into a \<open>StreamString\<close>, and \<open>fromString\<close> of the text gives the
  address.\<close>

theorem address_round_trip:
  assumes "length ip = 4" and "length old = 4"
  shows "\<exists>s s'. ip_toString (\<lambda>_. True) ip = Some s \<and> holds_text s (ip_text ip) \<and>
    ip_printTo (StreamString_sink (\<lambda>_. True)) ip String_init = Some (length (ip_text ip), s') \<and>
    ss_text s' = ip_text ip \<and> ip_fromString (ip_text ip) old = (True, ip)"
proof -
  have start: "ss_text String_init = []" by (simp add: ss_text_def String_init_def)
  then have "ss_ready String_init (ip_text ip @ [])"
    using ip_text_fits [of ip] ip_text_no_zero [of ip] by (simp add: ss_ready_def storable_def)
  from ss.ip_printTo_prints [OF this] ip_toString_holds [of ip] ip_parse_text [OF assms] start
  show ?thesis by auto
qed

section \<open>Witnesses\<close>

theorem fromString_takes_witness:
  "ip_fromString [49, 46, 46, 50, 53, 53, 46] [0, 0, 0, 0] = (True, [1, 0, 255, 0])"
proof -
  have "split_dots [49, 46, 46, 50, 53, 53, 46] = [[49], [], [50, 53, 53], []]" by simp
  with fromString_takes [of "[0, 0, 0, 0]" "[49, 46, 46, 50, 53, 53, 46]"]
  have "fst (ip_fromString [49, 46, 46, 50, 53, 53, 46] [0, 0, 0, 0])"
    and "snd (ip_fromString [49, 46, 46, 50, 53, 53, 46] [0, 0, 0, 0]) = [1, 0, 255, 0]"
    by (simp_all add: octet_def is_digit_def)
  then show ?thesis by (metis prod.collapse)
qed

theorem address_round_trip_witness:
  "\<exists>s s'. ip_toString (\<lambda>_. True) [192, 168, 0, 1] = Some s \<and> holds_text s (ip_text [192, 168, 0, 1]) \<and>
    ip_printTo (StreamString_sink (\<lambda>_. True)) [192, 168, 0, 1] String_init = Some (length (ip_text [192, 168, 0, 1]), s') \<and>
    ss_text s' = ip_text [192, 168, 0, 1] \<and> ip_fromString (ip_text [192, 168, 0, 1]) [0, 0, 0, 0] = (True, [192, 168, 0, 1])"
  by (rule address_round_trip) simp_all

end
