(* ===== verification/HttpText.thy ===== *)
theory HttpText
  imports StreamIn WStringEdit
begin

text \<open>
  The texts of the HTTP client. The client's strings are represented by their texts; each operation on texts
  here is what the operation of class \<open>String\<close> does to the text of a string, as the lemmas say. The client is
  taken to have the memory for its strings.
\<close>

section \<open>Operations on texts\<close>

definition chars :: "string \<Rightarrow> u8 list" where
  "chars s = map of_char s"

text \<open>An index that is \<open>-1\<close> is a large unsigned number.\<close>

definition size_arg :: "int \<Rightarrow> nat" where
  "size_arg i = nat (i mod 2 ^ 32)"

definition text_index_from :: "u8 \<Rightarrow> nat \<Rightarrow> u8 list \<Rightarrow> int" where
  "text_index_from c k cs = (if length cs \<le> k then - 1 else found_at k (strchr c (drop k cs)))"

definition text_index :: "u8 \<Rightarrow> u8 list \<Rightarrow> int" where
  "text_index c cs = text_index_from c 0 cs"

definition text_index_text :: "u8 list \<Rightarrow> u8 list \<Rightarrow> int" where
  "text_index_text pat cs = (if cs = [] then - 1 else found_at 0 (strstr pat cs))"

definition text_substring :: "nat \<Rightarrow> nat \<Rightarrow> u8 list \<Rightarrow> u8 list" where
  "text_substring l r cs = (let (l, r) = (if r < l then (r, l) else (l, r)) in drop l (take r cs))"

definition text_from :: "nat \<Rightarrow> u8 list \<Rightarrow> u8 list" where
  "text_from l cs = text_substring l (length cs) cs"

definition text_remove :: "nat \<Rightarrow> nat \<Rightarrow> u8 list \<Rightarrow> u8 list" where
  "text_remove i n cs = take i cs @ drop (i + n) cs"

definition text_trim :: "u8 list \<Rightarrow> u8 list" where
  "text_trim cs = rstrip (dropWhile isspace cs)"

definition text_same :: "u8 list \<Rightarrow> u8 list \<Rightarrow> bool" where
  "text_same cs ds \<longleftrightarrow> map tolower cs = map tolower ds"

section \<open>They are what the class does\<close>

lemma indexOf_char_is_text:
  assumes "holds_text s cs"
  shows "indexOf_char_from c k s = Some (text_index_from c k cs)"
proof (cases "length cs \<le> k")
  case True
  then show ?thesis using assms by (simp add: indexOf_char_from_def text_index_from_def holds_len)
next
  case False
  then obtain m where m: "sbuffer s = Some m" using holds_none [OF assms] by (cases "sbuffer s") auto
  with False show ?thesis
    using holds_c_string [OF assms m, of k] by (simp add: indexOf_char_from_def text_index_from_def holds_len [OF assms])
qed

lemma substring_is_text:
  assumes "holds_text s cs" and "\<And>k. alloc k" and "storable (length cs)"
  shows "\<exists>s'. substring alloc l r s = Some s' \<and> holds_text s' (text_substring l r cs)"
proof (cases "r < l")
  case True
  then have "substring alloc l r s = substring alloc r l s" by (simp add: substring_def)
  moreover have "r \<le> l" using True by simp
  ultimately show ?thesis using substring_text [where alloc = alloc, OF assms(1,2) _ assms(3), of r l] True
    by (auto simp: text_substring_def)
next
  case False
  then show ?thesis using substring_text [where alloc = alloc, OF assms(1,2) _ assms(3), of l r]
    by (auto simp: text_substring_def)
qed

lemma remove_is_text:
  assumes "holds_text s cs"
  shows "\<exists>s'. remove_count i n s = Some s' \<and> holds_text s' (text_remove i n cs)"
  unfolding text_remove_def using assms by (rule remove_count_text)

lemma trim_is_text:
  assumes "holds_text s cs"
  shows "\<exists>s'. trim s = Some s' \<and> holds_text s' (text_trim cs)"
  unfolding text_trim_def using assms by (rule trim_text)

lemma toInt_is_text: "holds_text s cs \<Longrightarrow> toInt s = Some (atol cs)"
  by (cases "sbuffer s") (auto simp: toInt_def holds_c_string0 atol_def decimal_def dest: holds_none)

lemma same_letters_text:
  "0 \<notin> set cs \<Longrightarrow> 0 \<notin> set ds \<Longrightarrow> length cs = length ds \<Longrightarrow>
    same_letters (cs @ 0 # xs) (ds @ 0 # ys) = Some (text_same cs ds)"
proof (induction cs arbitrary: ds)
  case (Cons c cs)
  then obtain d ds' where "ds = d # ds'" by (cases ds) auto
  with Cons show ?case by (auto simp: text_same_def)
qed (simp add: text_same_def)

lemma equalsIgnoreCase_is_text:
  assumes "holds_text s cs" and "holds_text t ds"
  shows "equalsIgnoreCase False s t = Some (text_same cs ds)"
proof (cases "length cs = length ds \<and> cs \<noteq> []")
  case True
  obtain m where m: "sbuffer s = Some m" using True holds_none [OF assms(1)] by (cases "sbuffer s") auto
  obtain n where n: "sbuffer t = Some n" using True holds_none [OF assms(2)] by (cases "sbuffer t") auto
  from holds_memory [OF assms(1) m] obtain xs where "m = cs @ 0 # xs" by blast
  moreover from holds_memory [OF assms(2) n] obtain ys where "n = ds @ 0 # ys" by blast
  ultimately show ?thesis
    using True m n same_letters_text [of cs ds xs ys] assms
    by (auto simp: equalsIgnoreCase_def holds_len holds_no_zero)
next
  case False
  then show ?thesis
    using assms by (auto simp: equalsIgnoreCase_def holds_len text_same_def dest: map_eq_imp_length_eq)
qed

section \<open>Splitting at a character\<close>

lemma strchr_split:
  assumes "c \<notin> set cs"
  shows "strchr c (cs @ c # ds) = Some (length cs)"
  using assms unfolding strchr_def by (induction cs) auto

lemma strchr_none: "c \<notin> set cs \<Longrightarrow> c \<noteq> 0 \<Longrightarrow> strchr c cs = None"
  unfolding strchr_def by (induction cs) auto

lemma text_index_split [simp]: "c \<notin> set cs \<Longrightarrow> text_index c (cs @ c # ds) = int (length cs)"
  by (simp add: text_index_def text_index_from_def strchr_split found_at_def)

lemma text_index_none [simp]: "c \<notin> set cs \<Longrightarrow> c \<noteq> 0 \<Longrightarrow> text_index c cs = - 1"
  by (simp add: text_index_def text_index_from_def strchr_none found_at_def)

lemma size_arg_simps [simp]: "n < 2 ^ 32 \<Longrightarrow> size_arg (int n) = n" "size_arg (- 1) = 4294967295"
  by (simp_all add: size_arg_def nat_mod_distrib)

section \<open>Trimming\<close>

lemma rstrip_append: "rstrip (cs @ ds) = (if \<forall>d\<in>set ds. isspace d then rstrip cs else cs @ rstrip ds)"
proof (induction ds rule: rev_induct)
  case (snoc d ds)
  show ?case
  proof (cases "isspace d")
    case True
    then have "rstrip ((cs @ ds) @ [d]) = rstrip (cs @ ds)" "rstrip (ds @ [d]) = rstrip ds"
      by (simp_all only: rstrip_snoc if_True)
    with snoc True show ?thesis by simp
  next
    case False
    then have "rstrip ((cs @ ds) @ [d]) = (cs @ ds) @ [d]" "rstrip (ds @ [d]) = ds @ [d]"
      by (simp_all only: rstrip_snoc if_False)
    with False show ?thesis by simp
  qed
qed (simp add: rstrip_def)

lemma rstrip_simps [simp]:
  "rstrip [] = []" "rstrip (c # cs) = (if isspace c \<and> (\<forall>d\<in>set cs. isspace d) then [] else c # rstrip cs)"
  using rstrip_append [of "[c]" cs] by (auto simp: rstrip_def dropWhile_eq_Nil_conv)

lemma rstrip_all: "\<forall>c\<in>set cs. isspace c \<Longrightarrow> rstrip cs = []"
  by (induction cs) auto

lemma rstrip_nil [simp]: "rstrip cs = [] \<longleftrightarrow> (\<forall>c\<in>set cs. isspace c)"
  by (auto simp: rstrip_def)

lemma rstrip_idem [simp]: "rstrip (rstrip cs) = rstrip cs"
  by (simp add: rstrip_def dropWhile_idem)

lemma dropWhile_rstrip: "dropWhile isspace (rstrip cs) = rstrip (dropWhile isspace cs)"
  by (induction cs) (auto simp: rstrip_all)

lemma text_trim_rstrip [simp]: "text_trim (rstrip cs) = text_trim cs"
  by (simp add: text_trim_def dropWhile_rstrip)

lemma text_trim_space [simp]: "isspace c \<Longrightarrow> text_trim (c # cs) = text_trim cs"
  by (simp add: text_trim_def)

lemma text_trim_end [simp]: "isspace c \<Longrightarrow> text_trim (cs @ [c]) = text_trim cs"
  using text_trim_rstrip [of "cs @ [c]"] text_trim_rstrip [of cs] by (simp only: rstrip_snoc if_True)

lemma text_trim_word: "c \<in> set cs \<Longrightarrow> \<not> isspace c \<Longrightarrow> text_trim cs \<noteq> []"
  by (auto simp: text_trim_def) (metis (full_types) dropWhile_eq_Nil_conv hd_dropWhile list.set_sel(1))

section \<open>Numbers\<close>

lemma atol_number:
  assumes "n < 2 ^ 31" and "rest = [] \<or> \<not> isdigit (hd rest)"
  shows "atol (number_text 10 n @ rest) = int n"
proof -
  have dig: "isdigit c = is_digit (uint c)" for c by (simp add: isdigit_def is_digit_def word_le_def)
  have all: "\<forall>c\<in>set (number_text 10 n). isdigit c" using number_text_reads(3) [of n] by (simp add: dig)
  have "takeWhile isdigit rest = []" using assms(2) by (cases rest) auto
  with all have "takeWhile isdigit (number_text 10 n @ rest) = number_text 10 n" by simp
  then have "decimal (number_text 10 n @ rest) = int n"
    using number_text_reads(1) [of n] by (simp add: decimal_def digits_after_def)
  moreover obtain c cs where c: "number_text 10 n = c # cs" using number_text_reads(2) [of n] by (cases "number_text 10 n") auto
  moreover have "isdigit c" using all c by simp
  then have "\<not> isspace c" "c \<noteq> 45" "c \<noteq> 43" by (auto simp: isdigit_def isspace_def word_le_nat_alt)
  ultimately show ?thesis using assms(1) by (simp add: atol_def)
qed

end
