(* ===== verification/HttpClient.thy ===== *)
theory HttpClient
  imports HttpText Base64 PrintOut
begin

text \<open>
  \<open>HTTPClient.cpp\<close>: the requests of the logger. A request is a text that is written to the connection; the
  answer is read line by line, its status, length and encoding are kept, and the body is copied to a stream
  block by block or chunk by chunk. The connection, class \<open>WiFiClient\<close>, is the parameter \<open>io\<close>: a stream that can
  be connected, asked and written. Strings are their texts; \<open>alloc\<close> tells whether the block buffer is there.
\<close>

section \<open>State\<close>

record 'p ostream = "'p sink" +
  writeError :: "'p \<Rightarrow> bool"
  clearWriteError :: "'p \<Rightarrow> 'p"

record 'r tcp = "'r source" +
  tcp_connect :: "u8 list \<Rightarrow> u16 \<Rightarrow> 'r \<Rightarrow> bool \<times> 'r"
  tcp_connected :: "'r \<Rightarrow> bool \<times> 'r"
  tcp_available :: "'r \<Rightarrow> int \<times> 'r"
  tcp_write :: "u8 list \<Rightarrow> 'r \<Rightarrow> nat \<times> 'r"
  tcp_stop :: "'r \<Rightarrow> 'r"
  tcp_setTimeout :: "u32 \<Rightarrow> 'r \<Rightarrow> 'r"

record http_client =
  http_host :: "u8 list"
  http_port :: u16
  reuse :: bool
  tcpTimeout :: u16
  useHTTP10 :: bool
  uri :: "u8 list"
  protocol :: "u8 list"
  headers :: "u8 list"
  userAgent :: "u8 list"
  base64Authorization :: "u8 list"
  currentHeaders :: "(u8 list \<times> u8 list) list"
  returnCode :: int
  body_size :: int
  canReuse :: bool
  te_chunked :: bool
  has_transport :: bool
  has_tcp :: bool

definition HTTPClient :: http_client where
  "HTTPClient =
     \<lparr>http_host = [], http_port = 0, reuse = False, tcpTimeout = 5000, useHTTP10 = False, uri = [], protocol = [],
      headers = [], userAgent = chars ''ESP32HTTPClient'', base64Authorization = [], currentHeaders = [],
      returnCode = 0, body_size = - 1, canReuse = False, te_chunked = False, has_transport = False, has_tcp = False\<rparr>"

abbreviation (input) HTTPC_ERROR_CONNECTION_REFUSED :: int where "HTTPC_ERROR_CONNECTION_REFUSED \<equiv> - 1"
abbreviation (input) HTTPC_ERROR_SEND_HEADER_FAILED :: int where "HTTPC_ERROR_SEND_HEADER_FAILED \<equiv> - 2"
abbreviation (input) HTTPC_ERROR_SEND_PAYLOAD_FAILED :: int where "HTTPC_ERROR_SEND_PAYLOAD_FAILED \<equiv> - 3"
abbreviation (input) HTTPC_ERROR_NOT_CONNECTED :: int where "HTTPC_ERROR_NOT_CONNECTED \<equiv> - 4"
abbreviation (input) HTTPC_ERROR_CONNECTION_LOST :: int where "HTTPC_ERROR_CONNECTION_LOST \<equiv> - 5"
abbreviation (input) HTTPC_ERROR_NO_HTTP_SERVER :: int where "HTTPC_ERROR_NO_HTTP_SERVER \<equiv> - 7"
abbreviation (input) HTTPC_ERROR_TOO_LESS_RAM :: int where "HTTPC_ERROR_TOO_LESS_RAM \<equiv> - 8"
abbreviation (input) HTTPC_ERROR_ENCODING :: int where "HTTPC_ERROR_ENCODING \<equiv> - 9"
abbreviation (input) HTTPC_ERROR_STREAM_WRITE :: int where "HTTPC_ERROR_STREAM_WRITE \<equiv> - 10"
abbreviation (input) HTTPC_ERROR_READ_TIMEOUT :: int where "HTTPC_ERROR_READ_TIMEOUT \<equiv> - 11"
abbreviation (input) HTTP_TCP_BUFFER_SIZE :: int where "HTTP_TCP_BUFFER_SIZE \<equiv> 1460"

text \<open>The time-out of class \<open>Stream\<close>, in milliseconds; the client's own is given to \<open>WiFiClient::setTimeout\<close>, which
  sets the socket's, in seconds.\<close>

abbreviation (input) STREAM_TIMEOUT :: u32 where "STREAM_TIMEOUT \<equiv> 1000"

section \<open>The request\<close>

definition http_clear :: "http_client \<Rightarrow> http_client" where
  "http_clear h = h\<lparr>returnCode := 0, body_size := - 1, headers := []\<rparr>"

text \<open>The host part of an address: the user's name and password, the host and the port.\<close>

definition parse_host :: "u8 list \<Rightarrow> http_client \<Rightarrow> http_client" where
  "parse_host host h =
     (let at = text_index 64 host;
          (host1, h1) =
            (if 0 \<le> at
             then (text_remove 0 (size_arg (at + 1)) host,
                   h\<lparr>base64Authorization := base64_encode_chars (text_substring 0 (size_arg at) host)\<rparr>)
             else (host, h));
          colon = text_index 58 host1
      in if 0 \<le> colon
         then h1\<lparr>http_host := text_substring 0 (size_arg colon) host1,
                 http_port := of_int (atol (text_remove 0 (size_arg (colon + 1)) host1))\<rparr>
         else h1\<lparr>http_host := host1\<rparr>)"

definition beginInternal :: "u8 list \<Rightarrow> u8 list \<Rightarrow> http_client \<Rightarrow> bool \<times> http_client" where
  "beginInternal url expectedProtocol h0 =
     (let h = http_clear h0; index = text_index 58 url
      in if index < 0 then (False, h)
         else let h1 = h\<lparr>protocol := text_substring 0 (size_arg index) url\<rparr>;
                  url1 = text_remove 0 (size_arg (index + 3)) url;
                  slash = text_index 47 url1;
                  host = text_substring 0 (size_arg slash) url1;
                  h2 = (parse_host host h1)\<lparr>uri := text_remove 0 (size_arg slash) url1\<rparr>
              in (protocol h2 = expectedProtocol, h2))"

definition http_begin :: "u8 list \<Rightarrow> http_client \<Rightarrow> bool \<times> http_client" where
  "http_begin url h =
     (let (ok, h1) = beginInternal url (chars ''http'') (h\<lparr>has_transport := False, http_port := 80\<rparr>)
      in if \<not> ok then (False, h1) else (True, h1\<lparr>has_transport := True\<rparr>))"

definition http_begin_host :: "u8 list \<Rightarrow> u16 \<Rightarrow> u8 list \<Rightarrow> http_client \<Rightarrow> bool \<times> http_client" where
  "http_begin_host host port u h =
     (True, (http_clear h)\<lparr>http_host := host, http_port := port, uri := u, has_transport := True\<rparr>)"

definition setReuse :: "bool \<Rightarrow> http_client \<Rightarrow> http_client" where
  "setReuse r h = h\<lparr>reuse := r\<rparr>"

definition setAuthorization :: "u8 list \<Rightarrow> u8 list \<Rightarrow> http_client \<Rightarrow> http_client" where
  "setAuthorization user password h = h\<lparr>base64Authorization := base64_encode_chars (user @ chars '':'' @ password)\<rparr>"

definition setUserAgent :: "u8 list \<Rightarrow> http_client \<Rightarrow> http_client" where
  "setUserAgent agent h = h\<lparr>userAgent := agent\<rparr>"

definition collectHeaders :: "u8 list list \<Rightarrow> http_client \<Rightarrow> http_client" where
  "collectHeaders keys h = h\<lparr>currentHeaders := map (\<lambda>k. (k, [])) keys\<rparr>"

definition header_value :: "u8 list \<Rightarrow> http_client \<Rightarrow> u8 list" where
  "header_value name h = (case map_of (currentHeaders h) name of None \<Rightarrow> [] | Some v \<Rightarrow> v)"

definition hasHeader :: "u8 list \<Rightarrow> http_client \<Rightarrow> bool" where
  "hasHeader name h \<longleftrightarrow> (\<exists>(k, v)\<in>set (currentHeaders h). k = name \<and> v \<noteq> [])"

definition reserved_header :: "u8 list \<Rightarrow> http_client \<Rightarrow> bool" where
  "reserved_header name h \<longleftrightarrow>
     text_same name (chars ''Connection'') \<or> text_same name (chars ''User-Agent'') \<or> text_same name (chars ''Host'') \<or>
     text_same name (chars ''Authorization'') \<and> base64Authorization h \<noteq> []"

definition addHeader :: "u8 list \<Rightarrow> u8 list \<Rightarrow> bool \<Rightarrow> bool \<Rightarrow> http_client \<Rightarrow> http_client" where
  "addHeader name val first repl h =
     (if reserved_header name h then h
      else let key = name @ chars '': '';
               start = text_index_text key (headers h);
               kept = (if repl \<and> start \<noteq> - 1
                       then text_substring 0 (nat start) (headers h) @
                            text_from (size_arg (text_index_from 10 (nat start) (headers h) + 1)) (headers h)
                       else headers h);
               headerLine = key @ val @ [13, 10]
           in h\<lparr>headers := (if first then headerLine @ kept else kept @ headerLine)\<rparr>)"

definition header_text :: "u8 list \<Rightarrow> http_client \<Rightarrow> u8 list" where
  "header_text type h =
     type @ chars '' '' @ uri h @ chars '' HTTP/1.'' @ chars (if useHTTP10 h then ''0'' else ''1'') @
     [13, 10] @ chars ''Host: '' @ http_host h @
     (if http_port h \<noteq> 80 \<and> http_port h \<noteq> 443 then chars '':'' @ number_text 10 (unat (http_port h)) else []) @
     [13, 10] @ chars ''User-Agent: '' @ userAgent h @ [13, 10] @ chars ''Connection: '' @
     chars (if reuse h then ''keep-alive'' else ''close'') @ [13, 10] @
     (if useHTTP10 h then [] else chars ''Accept-Encoding: identity;q=1,chunked;q=0.1,*;q=0'' @ [13, 10]) @
     (if base64Authorization h \<noteq> []
      then chars ''Authorization: Basic '' @ replace_all [10] [] (base64Authorization h) @ [13, 10] else []) @
     headers h @ [13, 10]"

section \<open>The connection\<close>

definition connected :: "('r, 'z) tcp_scheme \<Rightarrow> http_client \<Rightarrow> 'r \<Rightarrow> bool \<times> 'r" where
  "connected io h r =
     (if has_tcp h
      then let (c, r1) = tcp_connected io r
           in if c then (True, r1) else let (n, r2) = tcp_available io r1 in (0 < n, r2)
      else (False, r))"

partial_function (option) drain :: "('r, 'z) tcp_scheme \<Rightarrow> 'r \<Rightarrow> 'r option" where
  "drain io r =
     (let (n, r1) = tcp_available io r
      in if 0 < n then do { (_, r2) \<leftarrow> src_read io r1; drain io r2 } else Some r1)"

definition http_end :: "('r, 'z) tcp_scheme \<Rightarrow> http_client \<Rightarrow> 'r \<Rightarrow> 'r option" where
  "http_end io h r =
     (let (c, r1) = connected io h r
      in if c then do {
           r3 \<leftarrow> (let (n, r2) = tcp_available io r1 in if 0 < n then drain io r2 else Some r2);
           Some (if reuse h \<and> canReuse h then r3 else tcp_stop io r3)
         }
         else Some r1)"

definition http_connect :: "('r, 'z) tcp_scheme \<Rightarrow> http_client \<Rightarrow> 'r \<Rightarrow> (bool \<times> http_client \<times> 'r) option" where
  "http_connect io h r =
     (let (c, r1) = connected io h r
      in if c then do { r2 \<leftarrow> drain io r1; Some (True, h, r2) }
         else if \<not> has_transport h then Some (False, h, r1)
         else let r2 = (if has_tcp h then tcp_stop io r1 else r1); h1 = h\<lparr>has_tcp := True\<rparr>;
                  (ok, r3) = tcp_connect io (http_host h) (http_port h) r2
              in if \<not> ok then Some (False, h1, r3)
                 else let (c, r4) = connected io h1 (tcp_setTimeout io (ucast (tcpTimeout h1)) r3)
                      in Some (c, h1, r4))"

definition returnError :: "('r, 'z) tcp_scheme \<Rightarrow> http_client \<Rightarrow> int \<Rightarrow> 'r \<Rightarrow> int \<times> 'r" where
  "returnError io h error r =
     (if error < 0 then let (c, r1) = connected io h r in (error, if c then tcp_stop io r1 else r1) else (error, r))"

definition sendHeader :: "('r, 'z) tcp_scheme \<Rightarrow> u8 list \<Rightarrow> http_client \<Rightarrow> 'r \<Rightarrow> bool \<times> http_client \<times> 'r" where
  "sendHeader io type h r =
     (let (c, r1) = connected io h r
      in if \<not> c then (False, h, r1)
         else let h1 = (if base64Authorization h \<noteq> []
                        then h\<lparr>base64Authorization := replace_all [10] [] (base64Authorization h)\<rparr> else h);
                  (n, r2) = tcp_write io (header_text type h) r1
              in (n = length (header_text type h), h1, r2))"

section \<open>The answer\<close>

text \<open>\<open>readStringUntil\<close>, as a text.\<close>

partial_function (option) read_text_until ::
  "('r, 'z) source_scheme \<Rightarrow> u32 \<Rightarrow> u8 \<Rightarrow> u8 list \<Rightarrow> 'r \<Rightarrow> (u8 list \<times> 'r) option" where
  "read_text_until io timeout stop acc r = do {
     (c, r1) \<leftarrow> timedRead io timeout r;
     if c < 0 \<or> c = uint stop then Some (acc, r1)
     else read_text_until io timeout stop (acc @ [of_int c]) r1
   }"

primrec store_header :: "u8 list \<Rightarrow> u8 list \<Rightarrow> (u8 list \<times> u8 list) list \<Rightarrow> (u8 list \<times> u8 list) list" where
  "store_header name value [] = []"
| "store_header name value (kv # kvs) =
     (if text_same (fst kv) name then (fst kv, value) # kvs else kv # store_header name value kvs)"

text \<open>One line of the header: the client and the transfer encoding.\<close>

definition header_line :: "u8 list \<Rightarrow> http_client \<times> u8 list \<Rightarrow> http_client \<times> u8 list" where
  "header_line line = (\<lambda>(h, te).
     if prefix (chars ''HTTP/1.'') line
     then (h\<lparr>returnCode := atol (text_substring 9 (size_arg (text_index_from 32 9 line)) line)\<rparr>, te)
     else if text_index 58 line \<noteq> 0
     then let name = text_substring 0 (size_arg (text_index 58 line)) line;
              value = text_trim (text_from (size_arg (text_index 58 line + 1)) line);
              h1 = (if text_same name (chars ''Content-Length'') then h\<lparr>body_size := atol value\<rparr> else h);
              h2 = (if text_same name (chars ''Connection'')
                    then h1\<lparr>canReuse := text_same value (chars ''keep-alive'')\<rparr> else h1);
              te1 = (if text_same name (chars ''Transfer-Encoding'') then value else te)
          in (h2\<lparr>currentHeaders := store_header name value (currentHeaders h2)\<rparr>, te1)
     else (h, te))"

text \<open>The empty line ends the header.\<close>

definition header_end :: "http_client \<times> u8 list \<Rightarrow> int \<times> http_client" where
  "header_end = (\<lambda>(h, te).
     if te \<noteq> [] \<and> \<not> text_same te (chars ''chunked'') then (HTTPC_ERROR_ENCODING, h)
     else let h1 = h\<lparr>te_chunked := (te \<noteq> [])\<rparr>
          in if returnCode h1 \<noteq> 0 then (returnCode h1, h1) else (HTTPC_ERROR_NO_HTTP_SERVER, h1))"

partial_function (option) header_loop ::
  "('r, 'z) tcp_scheme \<Rightarrow> u32 \<Rightarrow> http_client \<times> u8 list \<Rightarrow> 'r \<Rightarrow> (int \<times> http_client \<times> 'r) option" where
  "header_loop io lastDataTime ht r =
     (let (c, r1) = connected io (fst ht) r
      in if \<not> c then Some (HTTPC_ERROR_CONNECTION_LOST, fst ht, r1)
         else let (len, r2) = tcp_available io r1
              in if len \<noteq> 0 then do {
                   (line0, r3) \<leftarrow> read_text_until io STREAM_TIMEOUT 10 [] r2;
                   let line = text_trim line0;
                   let (now, r4) = src_millis io r3;
                   let ht1 = header_line line ht;
                   if line = [] then let (code, h1) = header_end ht1 in Some (code, h1, r4)
                   else header_loop io now ht1 r4
                 }
                 else let (now, r3) = src_millis io r2
                      in if ucast (tcpTimeout (fst ht)) < now - lastDataTime
                         then Some (HTTPC_ERROR_READ_TIMEOUT, fst ht, r3)
                         else header_loop io lastDataTime ht r3)"

definition handleHeaderResponse :: "('r, 'z) tcp_scheme \<Rightarrow> http_client \<Rightarrow> 'r \<Rightarrow> (int \<times> http_client \<times> 'r) option" where
  "handleHeaderResponse io h r =
     (let (c, r1) = connected io h r
      in if \<not> c then Some (HTTPC_ERROR_NOT_CONNECTED, h, r1)
         else let (now, r2) = src_millis io r1
              in header_loop io now (h\<lparr>returnCode := - 1, body_size := - 1, te_chunked := False\<rparr>, []) r2)"

definition sendRequest ::
  "('r, 'z) tcp_scheme \<Rightarrow> u8 list \<Rightarrow> u8 list \<Rightarrow> http_client \<Rightarrow> 'r \<Rightarrow> (int \<times> http_client \<times> 'r) option" where
  "sendRequest io type payload h0 r0 = do {
     (ok, h1, r1) \<leftarrow> http_connect io h0 r0;
     let fail = (\<lambda>error h r. let (code, r') = returnError io h error r in Some (code, h, r'));
     if \<not> ok then fail HTTPC_ERROR_CONNECTION_REFUSED h1 r1
     else do {
       let h2 = (if payload \<noteq> [] then addHeader (chars ''Content-Length'') (number_text 10 (length payload)) False True h1
                 else h1);
       let (sent, h3, r2) = sendHeader io type h2 r1;
       if \<not> sent then fail HTTPC_ERROR_SEND_HEADER_FAILED h3 r2
       else do {
         let (n, r3) = (if payload \<noteq> [] then tcp_write io payload r2 else (0, r2));
         if payload \<noteq> [] \<and> n \<noteq> length payload then fail HTTPC_ERROR_SEND_PAYLOAD_FAILED h3 r3
         else do { (code, h4, r4) \<leftarrow> handleHeaderResponse io h3 r3; fail code h4 r4 }
       }
     }
   }"

definition http_GET :: "('r, 'z) tcp_scheme \<Rightarrow> http_client \<Rightarrow> 'r \<Rightarrow> (int \<times> http_client \<times> 'r) option" where
  "http_GET io h r = sendRequest io (chars ''GET'') [] h r"

definition http_POST :: "('r, 'z) tcp_scheme \<Rightarrow> u8 list \<Rightarrow> http_client \<Rightarrow> 'r \<Rightarrow> (int \<times> http_client \<times> 'r) option" where
  "http_POST io payload h r = sendRequest io (chars ''POST'') payload h r"

section \<open>The body\<close>

text \<open>The copying loop: \<open>buff\<close> is the buffer's memory and \<open>written\<close> the bytes written so far; the second component
  of the result is \<open>False\<close> when the loop returned an error. More bytes than the buffer holds is \<open>None\<close>.\<close>

partial_function (option) block_loop ::
  "('r, 'z) tcp_scheme \<Rightarrow> ('p, 'y) ostream_scheme \<Rightarrow> http_client \<Rightarrow> int \<Rightarrow> int \<Rightarrow> u8 list \<Rightarrow> 'r \<times> 'p \<Rightarrow>
   (int \<times> bool \<times> 'r \<times> 'p) option" where
  "block_loop io out h len written buff s =
     (let (c, r1) = connected io h (fst s)
      in if c \<and> (0 < len \<or> len = - 1) then
           let (n, r2) = tcp_available io r1
           in if n \<noteq> 0 then do {
                let n1 = (if 0 < len \<and> len < n then len else n);
                let n2 = (if int (length buff) < n1 then int (length buff) else n1);
                (bs, r3) \<leftarrow> StreamIn.readBytes io STREAM_TIMEOUT (size_arg n2) r2;
                _ \<leftarrow> (if length bs \<le> length buff then Some () else None);
                let buff1 = store buff 0 bs;
                let len1 = (if 0 < len then len - n2 else len);
                (w, p1) \<leftarrow> put_bytes out bs (snd s);
                if w \<noteq> length bs then do {
                  let p2 = (if writeError out p1 then clearWriteError out p1 else p1);
                  let left = size_arg (n2 - int w);
                  (w2, p3) \<leftarrow> put_bytes out (load buff1 w left) p2;
                  if w2 \<noteq> left \<or> writeError out p3 then Some (HTTPC_ERROR_STREAM_WRITE, False, r3, p3)
                  else block_loop io out h len1 (written + int w + int w2) buff1 (r3, p3)
                }
                else if writeError out p1 then Some (HTTPC_ERROR_STREAM_WRITE, False, r3, p1)
                else block_loop io out h len1 (written + int w) buff1 (r3, p1)
              }
              else block_loop io out h len written buff (r2, snd s)
         else Some (written, True, r1, snd s))"

definition writeToStreamDataBlock ::
  "(nat \<Rightarrow> bool) \<Rightarrow> ('r, 'z) tcp_scheme \<Rightarrow> ('p, 'y) ostream_scheme \<Rightarrow> http_client \<Rightarrow> int \<Rightarrow> 'r \<times> 'p \<Rightarrow> (int \<times> 'r \<times> 'p) option" where
  "writeToStreamDataBlock alloc io out h asked s =
     (let buff_size = nat (if 0 < asked \<and> asked < HTTP_TCP_BUFFER_SIZE then asked else HTTP_TCP_BUFFER_SIZE)
      in if \<not> alloc buff_size then Some (HTTPC_ERROR_TOO_LESS_RAM, s)
         else do {
           (written, ok, s1) \<leftarrow> block_loop io out h asked 0 (replicate buff_size 0) s;
           Some (if ok \<and> 0 < asked \<and> asked \<noteq> written then HTTPC_ERROR_STREAM_WRITE else written, s1)
         })"

text \<open>\<open>strtol\<close> with base 16: white space, a sign, \<open>0x\<close>, digits.\<close>

definition hex_digit :: "u8 \<Rightarrow> int option" where
  "hex_digit c =
     (if 48 \<le> c \<and> c \<le> 57 then Some (uint c - 48)
      else if 97 \<le> c \<and> c \<le> 102 then Some (uint c - 87)
      else if 65 \<le> c \<and> c \<le> 70 then Some (uint c - 55) else None)"

fun hex_value :: "int \<Rightarrow> u8 list \<Rightarrow> int" where
  "hex_value v [] = v"
| "hex_value v (c # cs) = (case hex_digit c of None \<Rightarrow> v | Some d \<Rightarrow> hex_value (16 * v + d) cs)"

definition strip_0x :: "u8 list \<Rightarrow> u8 list" where
  "strip_0x cs = (case cs of a # b # d # ds \<Rightarrow>
       if a = 48 \<and> (b = 120 \<or> b = 88) \<and> hex_digit d \<noteq> None then d # ds else cs | _ \<Rightarrow> cs)"

definition strtol16 :: "u8 list \<Rightarrow> int" where
  "strtol16 text =
     (let v = (case dropWhile isspace text of
                 [] \<Rightarrow> 0
               | c # cs \<Rightarrow> if c = 45 then - hex_value 0 (strip_0x cs)
                           else if c = 43 then hex_value 0 (strip_0x cs) else hex_value 0 (strip_0x (c # cs)))
      in max (- (2 ^ 31)) (min (2 ^ 31 - 1) v))"

text \<open>The loop over the chunks; \<open>total_len\<close> is the sum of their lengths, \<open>ret\<close> what was written.\<close>

partial_function (option) chunk_loop ::
  "(nat \<Rightarrow> bool) \<Rightarrow> ('r, 'z) tcp_scheme \<Rightarrow> ('p, 'y) ostream_scheme \<Rightarrow> int \<Rightarrow> int \<Rightarrow> http_client \<Rightarrow> 'r \<times> 'p \<Rightarrow>
   (int \<times> http_client \<times> 'r \<times> 'p) option" where
  "chunk_loop alloc io out total_len ret h s =
     (let (c, r1) = connected io h (fst s)
      in if \<not> c then Some (HTTPC_ERROR_CONNECTION_LOST, h, r1, snd s)
         else do {
           (line, r2) \<leftarrow> read_text_until io STREAM_TIMEOUT 10 [] r1;
           if line = [] then Some (HTTPC_ERROR_READ_TIMEOUT, h, r2, snd s)
           else do {
             let len = strtol16 (text_trim line);
             if 0 < len then do {
               (n, r3, p3) \<leftarrow> writeToStreamDataBlock alloc io out h len (r2, snd s);
               if n < 0 then Some (n, h, r3, p3)
               else do {
                 (end_bytes, r4) \<leftarrow> StreamIn.readBytes io STREAM_TIMEOUT 2 r3;
                 if end_bytes \<noteq> [13, 10] then Some (HTTPC_ERROR_READ_TIMEOUT, h, r4, p3)
                 else chunk_loop alloc io out (total_len + len) (ret + n) h (r4, p3)
               }
             }
             else let h1 = (if body_size h \<le> 0 then h\<lparr>body_size := total_len + len\<rparr> else h)
                  in Some (if ret \<noteq> body_size h1 then HTTPC_ERROR_STREAM_WRITE else ret, h1, r2, snd s)
           }
         })"

definition writeToStream ::
  "(nat \<Rightarrow> bool) \<Rightarrow> ('r, 'z) tcp_scheme \<Rightarrow> ('p, 'y) ostream_scheme \<Rightarrow> http_client \<Rightarrow> 'r \<times> 'p \<Rightarrow>
   (int \<times> http_client \<times> 'r \<times> 'p) option" where
  "writeToStream alloc io out h s =
     (let (c, r1) = connected io h (fst s);
          finish = (\<lambda>(code, h1, r, p).
            if code < 0 then let (code1, r') = returnError io h1 code r in Some (code1, h1, r', p)
            else do { r' \<leftarrow> http_end io h1 r; Some (code, h1, r', p) })
      in if \<not> c then let (code, r2) = returnError io h HTTPC_ERROR_NOT_CONNECTED r1 in Some (code, h, r2, snd s)
         else if te_chunked h then do { res \<leftarrow> chunk_loop alloc io out 0 0 h (r1, snd s); finish res }
         else do {
           (n, s2) \<leftarrow> writeToStreamDataBlock alloc io out h (body_size h) (r1, snd s);
           finish (n, h, s2)
         })"

text \<open>\<open>getString\<close>: what was written so far is the result, whatever \<open>writeToStream\<close> answers. A \<open>StreamString\<close> never
  has a write error.\<close>

definition StreamString_out :: "(nat \<Rightarrow> bool) \<Rightarrow> String ostream" where
  "StreamString_out alloc =
     \<lparr>put_byte = put_byte (StreamString_sink alloc), put_bytes = put_bytes (StreamString_sink alloc),
      writeError = (\<lambda>s. False), clearWriteError = (\<lambda>s. s)\<rparr>"

definition getString ::
  "(nat \<Rightarrow> bool) \<Rightarrow> ('r, 'z) tcp_scheme \<Rightarrow> http_client \<Rightarrow> 'r \<Rightarrow> (String \<times> http_client \<times> 'r) option" where
  "getString alloc io h r = do {
     (ok, s0) \<leftarrow> (if body_size h \<noteq> 0 then String_reserve alloc (nat ((body_size h + 1) mod 2 ^ 32)) String_init
                  else Some (True, String_init));
     if \<not> ok then do { s1 \<leftarrow> String_of_cstr alloc (Some []); Some (s1, h, r) }
     else do {
       (_, h1, r1, s1) \<leftarrow> writeToStream alloc io (StreamString_out alloc) h (r, s0);
       Some (s1, h1, r1)
     }
   }"

section \<open>The request of the logger\<close>

text \<open>The part of \<open>main.cpp\<close> that posts a payload: the client lives in the block, and its end stops the connection. A code
  other than 200 leaves the block before \<open>end\<close>.\<close>

definition post_json ::
  "(nat \<Rightarrow> bool) \<Rightarrow> ('r, 'z) tcp_scheme \<Rightarrow> u8 list \<Rightarrow> u8 list \<Rightarrow> u8 list \<Rightarrow> 'r \<Rightarrow> (u16 \<times> String \<times> 'r) option" where
  "post_json alloc io host path payload r = do {
     let (_, h0) = http_begin (chars ''http://'' @ host @ path) HTTPClient;
     let h1 = addHeader (chars ''Content-Type'') (chars ''application/json'') False True h0;
     (httpCode, h2, r1) \<leftarrow> http_POST io payload h1 r;
     (response, h3, r2) \<leftarrow> getString alloc io h2 r1;
     r3 \<leftarrow> (if of_int httpCode \<noteq> (200 :: u16) then Some r2 else http_end io h3 r2);
     Some (of_int httpCode, response, if has_tcp h3 then tcp_stop io r3 else r3)
   }"

end
