(* ===== verification/HttpProofs.thy ===== *)
theory HttpProofs
  imports HttpClient
begin

text \<open>
  What the HTTP client does over a connection that works: the locale \<open>http_wire\<close> says what the client needs of
  the connection, and the lemmas what it makes of the bytes.
\<close>

section \<open>The header of an answer\<close>

definition field_line :: "u8 list \<times> u8 list \<Rightarrow> u8 list" where
  "field_line = (\<lambda>(name, val). name @ [58, 32] @ val @ [13])"

definition good_field :: "u8 list \<times> u8 list \<Rightarrow> bool" where
  "good_field = (\<lambda>(name, val). name \<noteq> [] \<and> (\<forall>c\<in>set name. c \<noteq> 58 \<and> \<not> isspace c) \<and> length name < 2 ^ 31 \<and>
     \<not> prefix (chars ''HTTP/1.'') name \<and> 10 \<notin> set val \<and> text_trim val = val)"

definition status_line :: "u8 \<Rightarrow> nat \<Rightarrow> u8 list \<Rightarrow> u8 list" where
  "status_line minor code reason =
     chars ''HTTP/1.'' @ [minor, 32] @ number_text 10 code @ [32] @ reason @ [13]"

text \<open>The value of the last field of a name.\<close>

definition last_value :: "string \<Rightarrow> (u8 list \<times> u8 list) list \<Rightarrow> u8 list option" where
  "last_value key fs = map_option snd (List.find (\<lambda>f. text_same (fst f) (chars key)) (rev fs))"

definition answer_text :: "u8 \<Rightarrow> nat \<Rightarrow> u8 list \<Rightarrow> (u8 list \<times> u8 list) list \<Rightarrow> u8 list \<Rightarrow> u8 list" where
  "answer_text minor code reason fs body =
     status_line minor code reason @ [10] @ concat (map (\<lambda>f. field_line f @ [10]) fs) @ [13, 10] @ body"

lemma last_value_simps [simp]:
  "last_value key [] = None"
  "last_value key (fs @ [f]) = (if text_same (fst f) (chars key) then Some (snd f) else last_value key fs)"
  by (simp_all add: last_value_def)

lemma space_consts [simp]: "isspace 32" "isspace 13" "isspace 10" "\<not> isspace 58"
  by (simp_all add: isspace_def)

lemma trim_field:
  assumes "good_field (name, val)"
  shows "text_trim (field_line (name, val)) = name @ 58 # rstrip (32 # val @ [13])"
proof -
  obtain c cs where name: "name = c # cs" and "\<not> isspace c" using assms by (cases name) (auto simp: good_field_def)
  then have "text_trim (field_line (name, val)) = rstrip (name @ 58 # 32 # val @ [13])"
    by (simp add: text_trim_def field_line_def)
  also have "\<dots> = name @ 58 # rstrip (32 # val @ [13])"
    by (subst rstrip_append) simp
  finally show ?thesis .
qed

lemma prefix_before:
  assumes "prefix p (cs @ d # ds)" and "d \<notin> set p"
  shows "prefix p cs"
proof (cases "length p \<le> length cs")
  case True
  with assms(1) show ?thesis by (auto simp: prefix_def append_eq_append_conv2)
next
  case False
  from assms(1) obtain zs where "cs @ d # ds = p @ zs" by (auto simp: prefix_def)
  then have "(cs @ d # ds) ! length cs = (p @ zs) ! length cs" by simp
  with False have "d = p ! length cs" by (simp add: nth_append)
  with False assms(2) show ?thesis by simp
qed

lemma header_line_field:
  assumes "good_field (name, val)"
  shows "header_line (text_trim (field_line (name, val))) (h, te) =
    ((let h1 = (if text_same name (chars ''Content-Length'') then h\<lparr>body_size := atol val\<rparr> else h);
          h2 = (if text_same name (chars ''Connection'')
                then h1\<lparr>canReuse := text_same val (chars ''keep-alive'')\<rparr> else h1)
      in h2\<lparr>currentHeaders := store_header name val (currentHeaders h2)\<rparr>),
     if text_same name (chars ''Transfer-Encoding'') then val else te)"
proof -
  let ?line = "name @ 58 # rstrip (32 # val @ [13])"
  have n: "58 \<notin> set name" "name \<noteq> []" "length name < 2 ^ 31" "text_trim val = val"
    using assms by (auto simp: good_field_def)
  have "(58 :: u8) \<notin> set (chars ''HTTP/1.'')" by (simp add: chars_def)
  then have pre: "\<not> prefix (chars ''HTTP/1.'') ?line"
    using prefix_before [of "chars ''HTTP/1.''" name 58] assms by (auto simp: good_field_def)
  have colon: "text_index 58 ?line = int (length name)" by (rule text_index_split [OF n(1)])
  have front: "text_substring 0 (size_arg (int (length name))) ?line = name"
    using n(3) by (simp add: text_substring_def)
  have "size_arg (int (length name) + 1) = length name + 1"
    using n(3) size_arg_simps(1) [of "length name + 1"] by (simp add: add.commute)
  moreover have "text_trim (rstrip (32 # val @ [13])) = val"
    using n(4) text_trim_end [of 13 val] text_trim_space [of 32 "val @ [13]"] by (simp only: text_trim_rstrip space_consts)
  ultimately have rest: "text_trim (text_from (size_arg (int (length name) + 1)) ?line) = val"
    by (simp add: text_from_def text_substring_def del: rstrip_simps)
  show ?thesis unfolding trim_field [OF assms] header_line_def
    using n(2) by (simp only: pre colon front rest) (simp add: Let_def)
qed

lemma fold_fields:
  assumes "\<forall>f\<in>set fs. good_field f"
  shows "fold header_line (map (text_trim \<circ> field_line) fs) (h, te) =
    (h\<lparr>body_size := (case last_value ''Content-Length'' fs of None \<Rightarrow> body_size h | Some v \<Rightarrow> atol v),
       canReuse := (case last_value ''Connection'' fs of None \<Rightarrow> canReuse h | Some v \<Rightarrow> text_same v (chars ''keep-alive'')),
       currentHeaders := fold (\<lambda>f. store_header (fst f) (snd f)) fs (currentHeaders h)\<rparr>,
     case last_value ''Transfer-Encoding'' fs of None \<Rightarrow> te | Some v \<Rightarrow> v)"
  using assms
proof (induction fs rule: rev_induct)
  case (snoc f fs)
  obtain name val where f: "f = (name, val)" by (cases f)
  with snoc show ?case by (simp add: header_line_field Let_def)
qed simp

lemma header_line_status:
  assumes "code < 2 ^ 31" and "reason \<noteq> []" and "\<not> isspace (last reason)"
  shows "header_line (text_trim (status_line minor code reason)) (h, te) = (h\<lparr>returnCode := int code\<rparr>, te)"
proof -
  let ?num = "number_text 10 code"
  let ?line = "chars ''HTTP/1.'' @ [minor, 32] @ ?num @ 32 # reason"
  have "\<not> isspace (of_char (CHR ''H''))" by (simp add: isspace_def)
  then have "text_trim (status_line minor code reason) = rstrip (?line @ [13])"
    by (simp add: text_trim_def status_line_def chars_def)
  also have "\<dots> = rstrip ((chars ''HTTP/1.'' @ [minor, 32] @ ?num @ 32 # butlast reason) @ [last reason])"
    using assms(2) rstrip_snoc [of ?line 13] by (simp add: append_butlast_last_id)
  also have "\<dots> = ?line" using assms(2,3) by (subst rstrip_snoc) simp
  finally have trim: "text_trim (status_line minor code reason) = ?line" .
  have len: "length ?num \<le> 32" using assms(1) length_digits [of 10 code 32] by (simp add: number_text_def)
  have sp: "32 \<notin> set ?num" using number_text_reads(3) [of code] by (auto simp: is_digit_def)
  have "drop 9 ?line = ?num @ 32 # reason" by (simp add: chars_def)
  then have "text_index_from 32 9 ?line = int (9 + length ?num)"
    using strchr_split [OF sp, of reason] by (simp add: text_index_from_def found_at_def chars_def)
  then have "size_arg (text_index_from 32 9 ?line) = 9 + length ?num"
    using len size_arg_simps(1) [of "9 + length ?num"] by simp
  then have "text_substring 9 (size_arg (text_index_from 32 9 ?line)) ?line = ?num"
    by (simp add: text_substring_def chars_def eval_nat_numeral)
  moreover have "atol ?num = int code" using atol_number [of code "[]"] assms(1) by simp
  moreover have "prefix (chars ''HTTP/1.'') ?line" by simp
  ultimately show ?thesis unfolding trim by (simp add: header_line_def)
qed

lemma header_line_empty: "header_line [] (h, te) = (h\<lparr>currentHeaders := store_header [] [] (currentHeaders h)\<rparr>, te)"
  by (simp add: header_line_def Let_def chars_def text_substring_def text_from_def text_trim_def text_same_def)

text \<open>The client after the header of an answer.\<close>

definition answered :: "nat \<Rightarrow> (u8 list \<times> u8 list) list \<Rightarrow> http_client \<Rightarrow> http_client" where
  "answered code fs h = h\<lparr>returnCode := int code,
     body_size := (case last_value ''Content-Length'' fs of None \<Rightarrow> - 1 | Some v \<Rightarrow> atol v),
     canReuse := (case last_value ''Connection'' fs of None \<Rightarrow> canReuse h | Some v \<Rightarrow> text_same v (chars ''keep-alive'')),
     te_chunked := (last_value ''Transfer-Encoding'' fs \<noteq> None),
     currentHeaders := store_header [] [] (fold (\<lambda>f. store_header (fst f) (snd f)) fs (currentHeaders h))\<rparr>"

definition good_answer :: "nat \<Rightarrow> u8 list \<Rightarrow> (u8 list \<times> u8 list) list \<Rightarrow> bool" where
  "good_answer code reason fs \<longleftrightarrow>
     0 < code \<and> code < 2 ^ 31 \<and> reason \<noteq> [] \<and> 10 \<notin> set reason \<and> \<not> isspace (last reason) \<and> (\<forall>f\<in>set fs. good_field f) \<and>
     (case last_value ''Transfer-Encoding'' fs of None \<Rightarrow> True | Some v \<Rightarrow> text_same v (chars ''chunked''))"

lemma header_end_ok:
  assumes "te = [] \<or> text_same te (chars ''chunked'')" and "returnCode h \<noteq> 0"
  shows "header_end (h, te) = (returnCode h, h\<lparr>te_chunked := (te \<noteq> [])\<rparr>)"
  using assms by (auto simp: header_end_def)

lemma header_end_answered:
  assumes "good_answer code reason fs" and "minor \<noteq> 10"
  shows "header_end (header_line [] (fold header_line (map text_trim (status_line minor code reason # map field_line fs))
      (h\<lparr>returnCode := - 1, body_size := - 1, te_chunked := False\<rparr>, []))) = (int code, answered code fs h)"
proof -
  have fs: "\<forall>f\<in>set fs. good_field f" and code: "code < 2 ^ 31" "reason \<noteq> []" "\<not> isspace (last reason)" "0 < code"
    using assms(1) by (simp_all add: good_answer_def)
  have "\<not> text_same [] (chars ''chunked'')" by (simp add: text_same_def chars_def)
  then have te: "case last_value ''Transfer-Encoding'' fs of None \<Rightarrow> True | Some v \<Rightarrow> v \<noteq> [] \<and> text_same v (chars ''chunked'')"
    using assms(1) by (auto simp: good_answer_def split: option.splits)
  have run: "header_line [] (fold header_line (map text_trim (status_line minor code reason # map field_line fs))
      (h\<lparr>returnCode := - 1, body_size := - 1, te_chunked := False\<rparr>, [])) =
     (answered code fs h\<lparr>te_chunked := False\<rparr>, case last_value ''Transfer-Encoding'' fs of None \<Rightarrow> [] | Some v \<Rightarrow> v)"
    unfolding list.map(2) map_map fold_simps(2) header_line_status [OF code(1-3)] fold_fields [OF fs] header_line_empty
    by (cases h) (simp add: answered_def cong: option.case_cong)
  let ?te = "case last_value ''Transfer-Encoding'' fs of None \<Rightarrow> [] | Some v \<Rightarrow> v"
  have "?te = [] \<or> text_same ?te (chars ''chunked'')" and chunked: "?te \<noteq> [] \<longleftrightarrow> last_value ''Transfer-Encoding'' fs \<noteq> None"
    using te by (auto split: option.splits)
  moreover have "returnCode (answered code fs h\<lparr>te_chunked := False\<rparr>) = int code" by (simp add: answered_def)
  ultimately have "header_end (answered code fs h\<lparr>te_chunked := False\<rparr>, ?te) =
      (int code, answered code fs h\<lparr>te_chunked := False, te_chunked := (?te \<noteq> [])\<rparr>)"
    using header_end_ok [of ?te "answered code fs h\<lparr>te_chunked := False\<rparr>"] code(4) by simp
  then show ?thesis unfolding run chunked by (simp add: answered_def)
qed

section \<open>Chunks\<close>

text \<open>A chunk of a body: its data, after their length in hexadecimal.\<close>

definition chunk_header :: "u8 list \<Rightarrow> u8 list" where
  "chunk_header d = number_text 16 (length d) @ [13]"

definition chunks_text :: "u8 list list \<Rightarrow> u8 list" where
  "chunks_text ds = concat (map (\<lambda>d. chunk_header d @ 10 # d @ [13, 10]) ds) @ [48, 13, 10]"

lemma hex_digit_number: "d < 16 \<Longrightarrow>
    hex_digit (number_digit d) = Some (int d) \<and> \<not> isspace (number_digit d) \<and>
    number_digit d \<noteq> 10 \<and> number_digit d \<noteq> 43 \<and> number_digit d \<noteq> 45 \<and> number_digit d \<noteq> 120 \<and> number_digit d \<noteq> 88"
proof -
  assume "d < 16"
  then have "d \<in> {0, 1, 2, 3, 4, 5, 6, 7, 8, 9, 10, 11, 12, 13, 14, 15}"
    by (simp add: eval_nat_numeral less_Suc_eq)
  then show ?thesis by (elim insertE emptyE; simp add: hex_digit_def number_digit_def isspace_def)
qed

lemma hex_value_append: "\<forall>d\<in>set ds. d < 16 \<Longrightarrow>
    hex_value v (map number_digit ds) = foldl (\<lambda>v d. 16 * v + int d) v ds"
  by (induction ds arbitrary: v) (auto simp: hex_digit_number)

lemma foldl_digits: "foldl (\<lambda>v d. 16 * v + int d) 0 (rev ds) = int (digits_value 16 ds)"
  by (induction ds) simp_all

lemma strtol16_number:
  assumes "n < 2 ^ 31"
  shows "strtol16 (number_text 16 n) = int n"
proof -
  have small: "\<forall>d\<in>set (digits 16 n). d < 16" using digits_less by simp
  obtain d ds where d: "rev (digits 16 n) = d # ds" using digits_ne by (cases "rev (digits 16 n)") auto
  then have "set (d # ds) = set (digits 16 n)" by (metis set_rev)
  with small have all: "\<forall>e\<in>set (d # ds). e < 16" by simp
  then have first: "\<not> isspace (number_digit d)" "number_digit d \<noteq> 45" "number_digit d \<noteq> 43"
    using hex_digit_number [of d] by auto
  have "strip_0x (map number_digit (d # ds)) = map number_digit (d # ds)"
    using all hex_digit_number by (cases ds) (auto simp: strip_0x_def split: list.splits)
  moreover have "hex_value 0 (map number_digit (d # ds)) = int n"
    using hex_value_append [OF all] foldl_digits [of "digits 16 n"] d by (simp add: digits_value_digits)
  ultimately show ?thesis using first assms by (simp add: strtol16_def number_text_def d)
qed

lemma chunk_header_reads:
  assumes "length d < 2 ^ 31"
  shows "strtol16 (text_trim (chunk_header d)) = int (length d)" and "10 \<notin> set (chunk_header d)"
proof -
  let ?n = "number_text 16 (length d)"
  have "\<forall>e\<in>set (digits 16 (length d)). e < 16" using digits_less by simp
  then have no: "\<forall>c\<in>set ?n. \<not> isspace c \<and> c \<noteq> 10" using hex_digit_number by (auto simp: number_text_def)
  have "?n \<noteq> []" by (simp add: number_text_def digits_ne)
  then have "dropWhile isspace ?n = ?n" "dropWhile isspace (rev ?n) = rev ?n"
    using no by (auto simp: dropWhile_eq_self_iff hd_rev)
  then have "text_trim ?n = ?n" by (simp add: text_trim_def rstrip_def)
  then show "strtol16 (text_trim (chunk_header d)) = int (length d)"
    using strtol16_number [OF assms] by (simp add: chunk_header_def)
  show "10 \<notin> set (chunk_header d)" using no by (auto simp: chunk_header_def)
qed

section \<open>The address of a request\<close>

definition url_text :: "u8 list option \<Rightarrow> u8 list \<Rightarrow> nat option \<Rightarrow> u8 list \<Rightarrow> u8 list" where
  "url_text user host port path =
     chars ''http://'' @ (case user of None \<Rightarrow> [] | Some u \<Rightarrow> u @ [64]) @ host @
     (case port of None \<Rightarrow> [] | Some n \<Rightarrow> 58 # number_text 10 n) @ path"

lemma text_remove_front: "text_remove 0 n cs = drop n cs"
  by (simp add: text_remove_def)

lemma protocol_parse_host [simp]: "protocol (parse_host host h) = protocol h"
  by (auto simp: parse_host_def Let_def)

lemma begin_steps:
  assumes "47 \<notin> set site" and "length site < 2 ^ 31"
  shows "beginInternal (chars ''http://'' @ site @ 47 # path) (chars ''http'') h =
    (True, (parse_host site ((http_clear h)\<lparr>protocol := chars ''http''\<rparr>))\<lparr>uri := 47 # path\<rparr>)"
proof -
  let ?url = "chars ''http'' @ 58 # [47, 47] @ site @ 47 # path"
  have url: "chars ''http://'' @ site @ 47 # path = ?url" by (simp add: chars_def)
  have "58 \<notin> set (chars ''http'')" by (simp add: chars_def)
  then have colon: "text_index 58 ?url = 4" using text_index_split [of 58 "chars ''http''"] by (simp add: chars_def)
  have sizes: "size_arg 4 = 4" "size_arg (4 + 3) = 7" "size_arg (int (length site)) = length site"
    using size_arg_simps(1) [of 4] size_arg_simps(1) [of 7] assms(2) by simp_all
  have parts: "text_substring 0 4 ?url = chars ''http''" "text_remove 0 7 ?url = site @ 47 # path"
    by (simp_all add: text_substring_def text_remove_def chars_def eval_nat_numeral)
  have site: "text_substring 0 (length site) (site @ 47 # path) = site" "text_remove 0 (length site) (site @ 47 # path) = 47 # path"
    by (simp_all add: text_substring_def text_remove_def)
  have neg: "\<not> (4 :: int) < 0" by simp
  show ?thesis
    unfolding beginInternal_def Let_def url colon if_not_P [OF neg] sizes parts text_index_split [OF assms(1)] site
    by simp
qed

text \<open>The host part, with and without a user and a port.\<close>

lemma parse_port:
  assumes "64 \<notin> set host" and "58 \<notin> set host" and "length host < 2 ^ 31" and "n < 2 ^ 16"
  shows "parse_host (host @ 58 # number_text 10 n) h = h\<lparr>http_host := host, http_port := of_nat n\<rparr>"
    and "parse_host host h = h\<lparr>http_host := host\<rparr>"
proof -
  have num: "64 \<notin> set (number_text 10 n)" using number_text_reads(3) [of n] by (auto simp: is_digit_def)
  have "size_arg (int (length host) + 1) = length host + 1"
    using assms(3) size_arg_simps(1) [of "length host + 1"] by (simp add: add.commute)
  moreover have "atol (number_text 10 n) = int n" using atol_number [of n "[]"] assms(4) by simp
  moreover have "size_arg (int (length host)) = length host" using assms(3) by simp
  ultimately show "parse_host (host @ 58 # number_text 10 n) h = h\<lparr>http_host := host, http_port := of_nat n\<rparr>"
    using num assms(1,2) by (simp add: parse_host_def text_substring_def text_remove_front)
  show "parse_host host h = h\<lparr>http_host := host\<rparr>" using assms(1,2) by (simp add: parse_host_def)
qed

lemma parse_user:
  assumes "64 \<notin> set user" and "length user < 2 ^ 31" and "64 \<notin> set host"
  shows "parse_host (user @ 64 # host) h = parse_host host (h\<lparr>base64Authorization := base64_encode_chars user\<rparr>)"
proof -
  have "size_arg (int (length user) + 1) = length user + 1"
    using assms(2) size_arg_simps(1) [of "length user + 1"] by (simp add: add.commute)
  moreover have "size_arg (int (length user)) = length user" using assms(2) by simp
  ultimately show ?thesis
    using assms(1,3) by (simp add: parse_host_def text_substring_def text_remove_front)
qed

section \<open>The request\<close>

text \<open>The client that writes the header of a request, and what it is afterwards.\<close>

definition requesting :: "u8 list \<Rightarrow> http_client \<Rightarrow> http_client" where
  "requesting payload h =
     (let h1 = h\<lparr>has_tcp := True\<rparr>
      in if payload \<noteq> [] then addHeader (chars ''Content-Length'') (number_text 10 (length payload)) False True h1 else h1)"

definition requested :: "u8 list \<Rightarrow> http_client \<Rightarrow> http_client" where
  "requested payload h =
     (let h1 = requesting payload h
      in if base64Authorization h1 \<noteq> []
         then h1\<lparr>base64Authorization := replace_all [10] [] (base64Authorization h1)\<rparr> else h1)"

lemma addHeader_keeps [simp]: "has_tcp (addHeader name val first repl h) = has_tcp h"
  by (simp add: addHeader_def Let_def)

lemma has_tcp_requested [simp]: "has_tcp (requesting payload h)" "has_tcp (requested payload h)"
  by (simp_all add: requested_def requesting_def Let_def)

lemma header_text_ne [simp]: "header_text type h \<noteq> []"
  by (simp add: header_text_def)

section \<open>What a connection promises\<close>

text \<open>\<open>reply w bs\<close> is what the server at \<open>host\<close> answers to \<open>bs\<close> after it got \<open>w\<close>.\<close>

locale http_wire =
  fixes io :: "('r, 'z) tcp_scheme" and up idle :: "'r \<Rightarrow> bool" and pending sent :: "'r \<Rightarrow> u8 list"
    and rank :: "u32 \<Rightarrow> 'r \<Rightarrow> nat" and reply :: "u8 list \<Rightarrow> u8 list \<Rightarrow> u8 list" and host :: "u8 list" and port :: u16
  assumes source: "byte_source io STREAM_TIMEOUT (\<lambda>r. up r \<and> sent r = w) pending rank"
    and connected_up: "up r \<Longrightarrow>
      \<exists>r'. tcp_connected io r = (True, r') \<and> up r' \<and> pending r' = pending r \<and> sent r' = sent r"
    and available_up: "up r \<Longrightarrow>
      \<exists>r'. tcp_available io r = (int (length (pending r)), r') \<and> up r' \<and> pending r' = pending r \<and> sent r' = sent r"
    and write_up: "up r \<Longrightarrow> bs \<noteq> [] \<Longrightarrow>
      \<exists>r'. tcp_write io bs r = (length bs, r') \<and> up r' \<and> pending r' = pending r @ reply (sent r) bs \<and> sent r' = sent r @ bs"
    and timeout_up: "up r \<Longrightarrow> up (tcp_setTimeout io t r) \<and> pending (tcp_setTimeout io t r) = pending r \<and>
      sent (tcp_setTimeout io t r) = sent r"
    and stop_up: "up r \<Longrightarrow> idle (tcp_stop io r) \<and> sent (tcp_stop io r) = sent r"
    and stop_idle: "idle r \<Longrightarrow> idle (tcp_stop io r) \<and> sent (tcp_stop io r) = sent r"
    and connected_idle: "idle r \<Longrightarrow> \<exists>r'. tcp_connected io r = (False, r') \<and> idle r' \<and> sent r' = sent r"
    and available_idle: "idle r \<Longrightarrow> \<exists>r'. tcp_available io r = (0, r') \<and> idle r' \<and> sent r' = sent r"
    and connect_idle: "idle r \<Longrightarrow>
      \<exists>r'. tcp_connect io host port r = (True, r') \<and> up r' \<and> pending r' = [] \<and> sent r' = []"
begin

lemma connected_is_up:
  assumes "up r" and "has_tcp h"
  shows "\<exists>r'. connected io h r = (True, r') \<and> up r' \<and> pending r' = pending r \<and> sent r' = sent r"
  using connected_up [OF assms(1)] assms(2) by (auto simp: connected_def)

lemma connected_is_idle:
  assumes "idle r"
  shows "\<exists>r'. connected io h r = (False, r') \<and> idle r' \<and> sent r' = sent r"
proof (cases "has_tcp h")
  case True
  from connected_idle [OF assms] obtain r1 where "tcp_connected io r = (False, r1)" "idle r1" "sent r1 = sent r" by blast
  moreover from available_idle [OF this(2)] obtain r2 where "tcp_available io r1 = (0, r2)" "idle r2" "sent r2 = sent r1"
    by blast
  ultimately show ?thesis using True by (simp add: connected_def)
qed (use assms in \<open>simp add: connected_def\<close>)

lemma millis_up:
  assumes "up r"
  shows "\<exists>now r'. src_millis io r = (now, r') \<and> up r' \<and> pending r' = pending r \<and> sent r' = sent r"
  using byte_source.millis_keeps [OF source, of r "sent r"] assms by (cases "src_millis io r") auto

lemma read_text_reads:
  assumes "up r" and "pending r = cs @ 10 # rest" and "10 \<notin> set cs"
  shows "\<exists>r'. read_text_until io STREAM_TIMEOUT 10 acc r = Some (acc @ cs, r') \<and> up r' \<and> pending r' = rest \<and> sent r' = sent r"
  using assms
proof (induction cs arbitrary: acc r)
  case Nil
  from byte_source.timedRead_next [OF source, of r "sent r" 10 rest] Nil obtain r1 where
      "timedRead io STREAM_TIMEOUT r = Some (10, r1)" "up r1" "pending r1 = rest" "sent r1 = sent r" by auto
  then show ?case by (subst read_text_until.simps) simp
next
  case (Cons c cs)
  from byte_source.timedRead_next [OF source, of r "sent r" c "cs @ 10 # rest"] Cons.prems obtain r1 where r1:
      "timedRead io STREAM_TIMEOUT r = Some (uint c, r1)" "up r1" "pending r1 = cs @ 10 # rest" "sent r1 = sent r" by auto
  have "uint c \<noteq> 10" using Cons.prems(3) word_uint_eqI [of c 10] by auto
  with Cons.IH [OF r1(2,3), of "acc @ [c]"] Cons.prems(3) r1 show ?case by (subst read_text_until.simps) auto
qed

section \<open>The header of the answer\<close>

lemma header_loop_reads:
  assumes "up r" and "has_tcp (fst ht)" and "pending r = concat (map (\<lambda>l. l @ [10]) ls) @ e @ 10 # body"
    and "\<forall>l\<in>set ls. 10 \<notin> set l \<and> text_trim l \<noteq> []" and "10 \<notin> set e" and "text_trim e = []"
  shows "\<exists>r'. header_loop io now ht r =
      (let (code, h) = header_end (header_line [] (fold header_line (map text_trim ls) ht)) in Some (code, h, r')) \<and>
    up r' \<and> pending r' = body \<and> sent r' = sent r"
  using assms(1-4)
proof (induction ls arbitrary: now ht r)
  case Nil
  from connected_is_up [OF Nil(1,2)] obtain r1 where r1: "connected io (fst ht) r = (True, r1)" "up r1"
      "pending r1 = pending r" "sent r1 = sent r" by blast
  from available_up [OF r1(2)] obtain r2 where r2: "tcp_available io r1 = (int (length (pending r)), r2)" "up r2"
      "pending r2 = pending r" "sent r2 = sent r" unfolding r1 by blast
  from read_text_reads [OF r2(2) _ assms(5), of body "[]"] r2(3,4) Nil(3) obtain r3 where r3:
      "read_text_until io STREAM_TIMEOUT 10 [] r2 = Some (e, r3)" "up r3" "pending r3 = body" "sent r3 = sent r" by auto
  from millis_up [OF r3(2)] r3 obtain n r4 where r4: "src_millis io r3 = (n, r4)" "up r4" "pending r4 = body"
      "sent r4 = sent r" by auto
  show ?case using r1(1) r2(1) r3(1) r4 Nil(3) assms(6)
    by (subst header_loop.simps) (auto simp: Let_def split: prod.splits)
next
  case (Cons l ls)
  let ?rest = "concat (map (\<lambda>l. l @ [10]) ls) @ e @ 10 # body"
  from connected_is_up [OF Cons.prems(1,2)] obtain r1 where r1: "connected io (fst ht) r = (True, r1)" "up r1"
      "pending r1 = pending r" "sent r1 = sent r" by blast
  from available_up [OF r1(2)] obtain r2 where r2: "tcp_available io r1 = (int (length (pending r)), r2)" "up r2"
      "pending r2 = pending r" "sent r2 = sent r" unfolding r1 by blast
  from read_text_reads [OF r2(2), of l ?rest "[]"] r2(3,4) Cons.prems(3,4) obtain r3 where r3:
      "read_text_until io STREAM_TIMEOUT 10 [] r2 = Some (l, r3)" "up r3" "pending r3 = ?rest" "sent r3 = sent r" by auto
  from millis_up [OF r3(2)] r3 obtain n r4 where r4: "src_millis io r3 = (n, r4)" "up r4" "pending r4 = ?rest"
      "sent r4 = sent r" by auto
  have tcp: "has_tcp (fst (header_line (text_trim l) ht))"
    using Cons.prems(2) by (auto simp: header_line_def Let_def split: prod.splits)
  from Cons.IH [OF r4(2) tcp r4(3), of n] Cons.prems(4) r4(4) obtain r' where
      "header_loop io n (header_line (text_trim l) ht) r4 =
        (let (code, h) = header_end (header_line [] (fold header_line (map text_trim (l # ls)) ht)) in Some (code, h, r'))"
      "up r'" "pending r' = body" "sent r' = sent r" by auto
  with r1(1) r2(1) r3(1) r4(1) Cons.prems(3,4) show ?case
    by (subst header_loop.simps) (auto simp: Let_def)
qed

lemma handleHeaderResponse_reads:
  assumes "up r" and "has_tcp h" and "pending r = concat (map (\<lambda>l. l @ [10]) ls) @ e @ 10 # body"
    and "\<forall>l\<in>set ls. 10 \<notin> set l \<and> text_trim l \<noteq> []" and "10 \<notin> set e" and "text_trim e = []"
  shows "\<exists>r'. handleHeaderResponse io h r =
      (let (code, h1) = header_end (header_line [] (fold header_line (map text_trim ls)
           (h\<lparr>returnCode := - 1, body_size := - 1, te_chunked := False\<rparr>, []))) in Some (code, h1, r')) \<and>
    up r' \<and> pending r' = body \<and> sent r' = sent r"
proof -
  from connected_is_up [OF assms(1,2)] obtain r1 where r1: "connected io h r = (True, r1)" "up r1"
      "pending r1 = pending r" "sent r1 = sent r" by blast
  from millis_up [OF r1(2)] r1 obtain n r2 where r2: "src_millis io r1 = (n, r2)" "up r2" "pending r2 = pending r"
      "sent r2 = sent r" by auto
  from header_loop_reads [OF r2(2) _ _ assms(4-6),
      of "(h\<lparr>returnCode := - 1, body_size := - 1, te_chunked := False\<rparr>, [])" body n]
  show ?thesis using r1(1) r2(1,3,4) assms(2,3) by (simp add: handleHeaderResponse_def)
qed

lemma answer_is_handled:
  assumes "up r" and "has_tcp h" and "pending r = answer_text minor code reason fs body"
    and "good_answer code reason fs" and "minor \<noteq> 10"
  shows "\<exists>r'. handleHeaderResponse io h r = Some (int code, answered code fs h, r') \<and>
    up r' \<and> pending r' = body \<and> sent r' = sent r"
proof -
  let ?ls = "status_line minor code reason # map field_line fs"
  have txt_eq: "pending r = concat (map (\<lambda>l. l @ [10]) ?ls) @ [13] @ 10 # body"
    using assms(3) by (simp add: answer_text_def comp_def)
  have num: "10 \<notin> set (number_text 10 code)" using number_text_reads(3) [of code] by (auto simp: is_digit_def)
  have "10 \<notin> set l \<and> text_trim l \<noteq> []" if "l \<in> set ?ls" for l
  proof (cases "l = status_line minor code reason")
    case True
    have "72 \<in> set l" "\<not> isspace 72" unfolding True by (simp_all add: status_line_def chars_def isspace_def)
    moreover have "10 \<notin> set l"
      using num assms(4,5) unfolding True by (auto simp: status_line_def chars_def good_answer_def)
    ultimately show ?thesis using text_trim_word by blast
  next
    case False
    with that obtain name val where l: "l = field_line (name, val)" and "(name, val) \<in> set fs" by auto
    then have "good_field (name, val)" using assms(4) by (simp add: good_answer_def)
    moreover from this have "10 \<notin> set l" unfolding l by (auto simp: field_line_def good_field_def)
    moreover have "58 \<in> set l" unfolding l by (simp add: field_line_def)
    ultimately show ?thesis using text_trim_word [of 58 l] by simp
  qed
  then have ls: "\<forall>l\<in>set ?ls. 10 \<notin> set l \<and> text_trim l \<noteq> []" by blast
  have "text_trim [13] = []" by (simp add: text_trim_def)
  from handleHeaderResponse_reads [OF assms(1,2) txt_eq ls _ this] show ?thesis
    unfolding header_end_answered [OF assms(4,5)] by simp
qed

section \<open>A request\<close>

lemma connect_is_up:
  assumes "idle r" and "has_transport h" and "http_host h = host" and "http_port h = port"
  shows "\<exists>r'. http_connect io h r = Some (True, h\<lparr>has_tcp := True\<rparr>, r') \<and> up r' \<and> pending r' = [] \<and> sent r' = []"
proof -
  from connected_is_idle [OF assms(1), of h] obtain r1 where r1: "connected io h r = (False, r1)" "idle r1" by blast
  let ?r2 = "if has_tcp h then tcp_stop io r1 else r1"
  have "idle ?r2" using r1(2) stop_idle by simp
  from connect_idle [OF this] obtain r3 where r3: "tcp_connect io host port ?r2 = (True, r3)" "up r3" "pending r3 = []"
      "sent r3 = []" by blast
  let ?h = "h\<lparr>has_tcp := True\<rparr>"
  let ?r4 = "tcp_setTimeout io (ucast (tcpTimeout h)) r3"
  have r4: "up ?r4" "pending ?r4 = []" "sent ?r4 = []" using timeout_up [OF r3(2)] r3(3,4) by simp_all
  from connected_is_up [OF r4(1), of ?h] r4 obtain r5 where "connected io ?h ?r4 = (True, r5)" "up r5" "pending r5 = []"
      "sent r5 = []" by auto
  with r1(1) r3(1) assms(2-4) show ?thesis by (simp add: http_connect_def Let_def)
qed

lemma returnError_ok: "0 \<le> code \<Longrightarrow> returnError io h code r = (code, r)"
  by (simp add: returnError_def)

lemma sendHeader_sends:
  assumes "up r" and "has_tcp h"
  shows "\<exists>r'. sendHeader io type h r =
      (True, if base64Authorization h \<noteq> []
             then h\<lparr>base64Authorization := replace_all [10] [] (base64Authorization h)\<rparr> else h, r') \<and>
    up r' \<and> pending r' = pending r @ reply (sent r) (header_text type h) \<and> sent r' = sent r @ header_text type h"
proof -
  from connected_is_up [OF assms] obtain r1 where r1: "connected io h r = (True, r1)" "up r1" "pending r1 = pending r"
      "sent r1 = sent r" by blast
  from write_up [OF r1(2), of "header_text type h"] r1 show ?thesis by (auto simp: sendHeader_def Let_def)
qed

lemma request_is_answered:
  fixes type payload h
  defines "hdr \<equiv> header_text type (requesting payload h)"
  assumes "idle r" and "has_transport h" and "http_host h = host" and "http_port h = port"
    and "reply [] hdr @ (if payload = [] then [] else reply hdr payload) = answer_text minor code reason fs body"
    and "good_answer code reason fs" and "minor \<noteq> 10"
  shows "\<exists>r'. sendRequest io type payload h r = Some (int code, answered code fs (requested payload h), r') \<and>
    up r' \<and> pending r' = body \<and> sent r' = hdr @ payload"
proof -
  from connect_is_up [OF assms(2-5)] obtain r1 where r1: "http_connect io h r = Some (True, h\<lparr>has_tcp := True\<rparr>, r1)"
      "up r1" "pending r1 = []" "sent r1 = []" by blast
  from sendHeader_sends [OF r1(2), of "requesting payload h" type] r1(3,4) obtain r2 where r2:
      "sendHeader io type (requesting payload h) r1 = (True, requested payload h, r2)" "up r2" "pending r2 = reply [] hdr"
      "sent r2 = hdr" by (auto simp: hdr_def requested_def Let_def)
  obtain r3 where r3: "(if payload \<noteq> [] then tcp_write io payload r2 else (0, r2)) = (length payload, r3)" "up r3"
      "pending r3 = answer_text minor code reason fs body" "sent r3 = hdr @ payload"
  proof (cases "payload = []")
    case True
    with r2 assms(6) show thesis by (intro that [of r2]) simp_all
  next
    case False
    with write_up [OF r2(2) False] r2(3,4) assms(6) show thesis by (auto intro: that)
  qed
  from answer_is_handled [OF r3(2) _ r3(3) assms(7,8), of "requested payload h"] r3(4) obtain r4 where r4:
      "handleHeaderResponse io (requested payload h) r3 = Some (int code, answered code fs (requested payload h), r4)"
      "up r4" "pending r4 = body" "sent r4 = hdr @ payload" by auto
  have "(if payload \<noteq> [] then addHeader (chars ''Content-Length'') (number_text 10 (length payload)) False True
           (h\<lparr>has_tcp := True\<rparr>) else h\<lparr>has_tcp := True\<rparr>) = requesting payload h"
    by (simp add: requesting_def)
  with r1(1) r2(1) r3(1) r4 show ?thesis by (auto simp: sendRequest_def Let_def returnError_ok)
qed

lemma drain_drains:
  assumes "up r"
  shows "\<exists>r'. drain io r = Some r' \<and> up r' \<and> pending r' = [] \<and> sent r' = sent r"
  using assms
proof (induction "pending r" arbitrary: r)
  case Nil
  from available_up [OF Nil(2)] Nil(1) show ?case by (subst drain.simps) auto
next
  case (Cons b bs)
  from available_up [OF Cons.prems] Cons.hyps(2) obtain r1 where r1: "tcp_available io r = (int (length (b # bs)), r1)"
      "up r1" "pending r1 = b # bs" "sent r1 = sent r" by auto
  from byte_source.read_next [OF source, of r1 "sent r1" b bs] r1 obtain r2 where r2: "src_read io r1 = Some (uint b, r2)"
      "up r2" "bs = pending r2" "sent r2 = sent r" by auto
  from Cons.hyps(1) [OF r2(3,2)] r1(1) r2(1,4) show ?case by (subst drain.simps) auto
qed

text \<open>\<open>end\<close> leaves a connection that is used again, or none.\<close>

lemma end_ends:
  assumes "up r" and "has_tcp h"
  shows "\<exists>r'. http_end io h r = Some r' \<and> sent r' = sent r \<and>
    (if reuse h \<and> canReuse h then up r' \<and> pending r' = [] else idle r')"
proof -
  from connected_is_up [OF assms] obtain r1 where r1: "connected io h r = (True, r1)" "up r1" "sent r1 = sent r" by blast
  from available_up [OF r1(2)] obtain r2 where r2: "tcp_available io r1 = (int (length (pending r1)), r2)" "up r2"
      "pending r2 = pending r1" "sent r2 = sent r1" by blast
  from drain_drains [OF r2(2)] obtain r3 where r3: "drain io r2 = Some r3" "up r3" "pending r3 = []" "sent r3 = sent r2"
    by blast
  show ?thesis
  proof (cases "pending r1 = []")
    case True
    with r1 r2 stop_up [OF r2(2)] show ?thesis by (simp add: http_end_def)
  next
    case False
    with r1 r2 r3 stop_up [OF r3(2)] show ?thesis by (simp add: http_end_def)
  qed
qed

lemma end_idle:
  assumes "idle r"
  shows "\<exists>r'. http_end io h r = Some r' \<and> idle r' \<and> sent r' = sent r"
  using connected_is_idle [OF assms, of h] by (auto simp: http_end_def)

end

section \<open>A server that does not answer\<close>

text \<open>\<open>left start\<close> goes down with every look at the clock until more than \<open>patience\<close> has passed since \<open>start\<close>.\<close>

locale http_waiting = http_wire +
  fixes patience :: u16 and left :: "u32 \<Rightarrow> 'a \<Rightarrow> nat"
  assumes clock_runs: "up r \<Longrightarrow> fst (src_millis io r) - start \<le> ucast patience \<Longrightarrow>
      left start (snd (src_millis io r)) < left start r"
    and connected_waits: "up r \<Longrightarrow> left start (snd (tcp_connected io r)) \<le> left start r"
    and available_waits: "up r \<Longrightarrow> left start (snd (tcp_available io r)) \<le> left start r"
begin

lemma header_loop_times_out:
  assumes "up r" and "pending r = []" and "has_tcp (fst ht)" and "tcpTimeout (fst ht) = patience"
  shows "\<exists>r'. header_loop io start ht r = Some (HTTPC_ERROR_READ_TIMEOUT, fst ht, r') \<and> up r'"
  using assms(1,2)
proof (induction "left start r" arbitrary: r rule: less_induct)
  case less
  from connected_up [OF less.prems(1)] less.prems(2) obtain r1 where r1: "tcp_connected io r = (True, r1)" "up r1"
      "pending r1 = []" by auto
  then have "connected io (fst ht) r = (True, r1)" using assms(3) by (simp add: connected_def)
  moreover from available_up [OF r1(2)] r1(3) obtain r2 where r2: "tcp_available io r1 = (0, r2)" "up r2"
      "pending r2 = []" by auto
  moreover from millis_up [OF r2(2)] r2(3) obtain now r3 where r3: "src_millis io r2 = (now, r3)" "up r3"
      "pending r3 = []" by auto
  moreover have "left start r3 < left start r" if "now - start \<le> ucast patience"
    using connected_waits [OF less.prems(1), of start] available_waits [OF r1(2), of start]
      clock_runs [OF r2(2), of start] r1(1) r2(1) r3(1) that by simp
  ultimately show ?case
    using less.hyps [OF _ r3(2,3)] assms(4) by (subst header_loop.simps) (auto simp: Let_def not_less)
qed

lemma request_times_out:
  fixes type payload h
  defines "hdr \<equiv> header_text type (requesting payload h)"
  assumes "idle r" and "has_transport h" and "http_host h = host" and "http_port h = port" and "tcpTimeout h = patience"
    and "reply [] hdr = []" and "payload \<noteq> [] \<Longrightarrow> reply hdr payload = []"
  shows "\<exists>h' r'. sendRequest io type payload h r = Some (HTTPC_ERROR_READ_TIMEOUT, h', r') \<and> idle r' \<and>
    body_size h' = - 1"
proof -
  from connect_is_up [OF assms(2-5)] obtain r1 where r1: "http_connect io h r = Some (True, h\<lparr>has_tcp := True\<rparr>, r1)"
      "up r1" "pending r1 = []" "sent r1 = []" by blast
  from sendHeader_sends [OF r1(2), of "requesting payload h" type] r1(3,4) assms(7) obtain r2 where r2:
      "sendHeader io type (requesting payload h) r1 = (True, requested payload h, r2)" "up r2" "pending r2 = []"
      "sent r2 = hdr" by (auto simp: hdr_def requested_def Let_def)
  obtain r3 where r3: "(if payload \<noteq> [] then tcp_write io payload r2 else (0, r2)) = (length payload, r3)" "up r3"
      "pending r3 = []"
  proof (cases "payload = []")
    case False
    with write_up [OF r2(2) False] r2(3,4) assms(8) show thesis by (auto intro: that)
  qed (use r2 that in auto)
  have req: "(if payload \<noteq> [] then addHeader (chars ''Content-Length'') (number_text 10 (length payload)) False True
           (h\<lparr>has_tcp := True\<rparr>) else h\<lparr>has_tcp := True\<rparr>) = requesting payload h"
    by (simp add: requesting_def)
  let ?h = "requested payload h\<lparr>returnCode := - 1, body_size := - 1, te_chunked := False\<rparr>"
  from connected_is_up [OF r3(2), of "requested payload h"] r3(3) obtain r4 where r4:
      "connected io (requested payload h) r3 = (True, r4)" "up r4" "pending r4 = []" by auto
  from millis_up [OF r4(2)] r4(3) obtain now r5 where r5: "src_millis io r4 = (now, r5)" "up r5" "pending r5 = []" by auto
  have patient: "tcpTimeout ?h = patience"
    using assms(6) by (simp add: requested_def requesting_def addHeader_def Let_def)
  from header_loop_times_out [OF r5(2,3), of "(?h, [])" now] patient obtain r6 where r6:
      "header_loop io now (?h, []) r5 = Some (HTTPC_ERROR_READ_TIMEOUT, ?h, r6)" "up r6" by auto
  then have "handleHeaderResponse io (requested payload h) r3 = Some (HTTPC_ERROR_READ_TIMEOUT, ?h, r6)"
    using r4(1) r5(1) by (simp add: handleHeaderResponse_def)
  moreover from connected_is_up [OF r6(2), of ?h] obtain r7 where "connected io ?h r6 = (True, r7)" "up r7" by auto
  then have "returnError io ?h HTTPC_ERROR_READ_TIMEOUT r6 = (HTTPC_ERROR_READ_TIMEOUT, tcp_stop io r7)" "idle (tcp_stop io r7)"
    using stop_up by (simp_all add: returnError_def)
  ultimately show ?thesis using r1(1) r2(1) r3(1) req by (auto simp: sendRequest_def Let_def)
qed

end

section \<open>The body of an answer\<close>

locale http_transfer = http_wire io up idle pending sent rank reply host port + byte_sink out written ready
  for io :: "('r, 'z) tcp_scheme" and up idle pending sent rank reply host port
    and out :: "('p, 'y) ostream_scheme" and written ready +
  assumes no_error: "ready p bs \<Longrightarrow> \<not> writeError out p"
begin

lemma block_loop_copies:
  assumes "up r" and "has_tcp h" and "pending r = data @ rest" and "length data < 2 ^ 31" and "ready p (data @ later)"
    and "buff \<noteq> []"
  shows "\<exists>r' p'. block_loop io out h (int (length data)) k buff (r, p) = Some (k + int (length data), True, r', p') \<and>
    up r' \<and> pending r' = rest \<and> sent r' = sent r \<and> written p' = written p @ data \<and> ready p' later"
  using assms
proof (induction "length data" arbitrary: data r p k buff rule: less_induct)
  case less
  from connected_is_up [OF less.prems(1,2)] obtain r1 where r1: "connected io h r = (True, r1)" "up r1"
      "pending r1 = data @ rest" "sent r1 = sent r" using less.prems(3) by auto
  show ?case
  proof (cases "data = []")
    case True
    then show ?thesis using less.prems r1 by (subst block_loop.simps) auto
  next
    case False
    from available_up [OF r1(2)] r1 obtain r2 where r2: "tcp_available io r1 = (int (length (data @ rest)), r2)" "up r2"
        "pending r2 = data @ rest" "sent r2 = sent r" by auto
    define n where "n = min (length data) (length buff)"
    have n: "0 < n" "n \<le> length data" "n \<le> length buff" using False less.prems(6) by (auto simp: n_def)
    from byte_source.readBytes_reads [OF source, of r2 "sent r" n] r2 n obtain r3 where r3:
        "StreamIn.readBytes io STREAM_TIMEOUT n r2 = Some (take n data, r3)" "up r3" "pending r3 = drop n data @ rest"
        "sent r3 = sent r" by auto
    have "ready p (take n data @ (drop n data @ later))" using less.prems(5) by (simp flip: append.assoc)
    from put_bytes [OF this] n obtain p1 where p1: "put_bytes out (take n data) p = Some (n, p1)"
        "written p1 = written p @ take n data" "ready p1 (drop n data @ later)" by auto
    have cut: "(if int (length buff) < int (length data) then int (length buff) else int (length data)) = int n"
      by (simp add: n_def)
    have step: "block_loop io out h (int (length data)) k buff (r, p) =
        block_loop io out h (int (length (drop n data))) (k + int n) (store buff 0 (take n data)) (r3, p1)"
      using r1(1) r2(1) r3(1) p1(1) no_error [OF p1(3)] n False less.prems(4) cut
      by (subst block_loop.simps) (auto simp: Let_def of_nat_diff split: if_splits)
    have "length (drop n data) < length data" using n by simp
    moreover have "store buff 0 (take n data) \<noteq> []" using less.prems(6) length_store [of 0 "take n data" buff] n
      by (metis add_0 length_0_conv length_take min.absorb2)
    ultimately obtain r' p' where
        "block_loop io out h (int (length (drop n data))) (k + int n) (store buff 0 (take n data)) (r3, p1) =
          Some (k + int n + int (length (drop n data)), True, r', p')" "up r'" "pending r' = rest" "sent r' = sent r3"
        "written p' = written p1 @ drop n data" "ready p' later"
      using less.hyps [where data = "drop n data" and r = r3 and p = p1 and buff = "store buff 0 (take n data)" and k = "k + int n"] less.prems(2,4) r3(2,3) p1(3) by auto
    with step r3(4) p1(2) n show ?thesis by (simp add: of_nat_diff)
  qed
qed

lemma data_block_copies:
  assumes "up r" and "has_tcp h" and "pending r = data @ rest" and "length data < 2 ^ 31" and "ready p (data @ later)"
    and "\<And>k. alloc k"
  shows "\<exists>r' p'. writeToStreamDataBlock alloc io out h (int (length data)) (r, p) = Some (int (length data), r', p') \<and>
    up r' \<and> pending r' = rest \<and> sent r' = sent r \<and> written p' = written p @ data \<and> ready p' later"
proof -
  let ?buff = "replicate (nat (if 0 < int (length data) \<and> int (length data) < 1460 then int (length data) else 1460)) (0 :: u8)"
  have "?buff \<noteq> []" by simp
  from block_loop_copies [OF assms(1-5) this, of 0] assms(6) show ?thesis
    by (auto simp: writeToStreamDataBlock_def Let_def)
qed

lemma chunk_loop_copies:
  assumes "up r" and "has_tcp h" and "body_size h \<le> 0" and "pending r = chunks_text ds @ rest"
    and "\<forall>d\<in>set ds. d \<noteq> [] \<and> length d < 2 ^ 31" and "ready p (concat ds @ later)" and "\<And>k. alloc k"
  shows "\<exists>r' p'. chunk_loop alloc io out k k h (r, p) =
      Some (k + int (length (concat ds)), h\<lparr>body_size := k + int (length (concat ds))\<rparr>, r', p') \<and>
    up r' \<and> pending r' = rest \<and> sent r' = sent r \<and> written p' = written p @ concat ds \<and> ready p' later"
  using assms(1-6)
proof (induction ds arbitrary: r p k)
  case Nil
  from connected_is_up [OF Nil(1,2)] obtain r1 where r1: "connected io h r = (True, r1)" "up r1"
      "pending r1 = [48, 13] @ 10 # rest" "sent r1 = sent r" using Nil(4) by (auto simp: chunks_text_def)
  from read_text_reads [OF r1(2,3), of "[]"] r1(4) obtain r2 where r2:
      "read_text_until io STREAM_TIMEOUT 10 [] r1 = Some ([48, 13], r2)" "up r2" "pending r2 = rest" "sent r2 = sent r" by auto
  have "strtol16 (text_trim [48, 13]) = 0"
    by (simp add: text_trim_def isspace_def strtol16_def strip_0x_def hex_digit_def)
  with r1(1) r2 Nil(3,6) show ?case by (subst chunk_loop.simps) (auto simp: Let_def)
next
  case (Cons d ds)
  have d: "d \<noteq> []" "length d < 2 ^ 31" using Cons.prems(5) by simp_all
  from connected_is_up [OF Cons.prems(1,2)] obtain r1 where r1: "connected io h r = (True, r1)" "up r1"
      "pending r1 = chunk_header d @ 10 # (d @ [13, 10] @ chunks_text ds @ rest)" "sent r1 = sent r"
    using Cons.prems(4) by (auto simp: chunks_text_def)
  from read_text_reads [OF r1(2,3) chunk_header_reads(2) [OF d(2)], of "[]"] r1(4) obtain r2 where r2:
      "read_text_until io STREAM_TIMEOUT 10 [] r1 = Some (chunk_header d, r2)" "up r2"
      "pending r2 = d @ [13, 10] @ chunks_text ds @ rest" "sent r2 = sent r" by auto
  have "ready p (d @ (concat ds @ later))" using Cons.prems(6) by simp
  from data_block_copies [where alloc = alloc, OF r2(2) Cons.prems(2) r2(3) d(2) this assms(7)] obtain r3 p3 where r3:
      "writeToStreamDataBlock alloc io out h (int (length d)) (r2, p) = Some (int (length d), r3, p3)" "up r3"
      "pending r3 = [13, 10] @ chunks_text ds @ rest" "sent r3 = sent r" "written p3 = written p @ d"
      "ready p3 (concat ds @ later)" using r2(4) by auto
  from byte_source.readBytes_reads [OF source, of r3 "sent r3" 2] r3 obtain r4 where r4:
      "StreamIn.readBytes io STREAM_TIMEOUT 2 r3 = Some ([13, 10], r4)" "up r4" "pending r4 = chunks_text ds @ rest"
      "sent r4 = sent r" by auto
  from Cons.IH [OF r4(2) Cons.prems(2,3) r4(3) _ r3(6), of "k + int (length d)"] Cons.prems(5) obtain r' p' where
      "chunk_loop alloc io out (k + int (length d)) (k + int (length d)) h (r4, p3) =
        Some (k + int (length d) + int (length (concat ds)),
          h\<lparr>body_size := k + int (length d) + int (length (concat ds))\<rparr>, r', p')"
      "up r'" "pending r' = rest" "sent r' = sent r4" "written p' = written p3 @ concat ds" "ready p' later" by auto
  moreover have "chunk_header d \<noteq> []" by (simp add: chunk_header_def)
  moreover have "chunk_loop alloc io out k k h (r, p) =
      chunk_loop alloc io out (k + int (length d)) (k + int (length d)) h (r4, p3)"
    using r1(1) r2(1) r3(1) r4(1) chunk_header_reads(1) [OF d(2)] d(1) \<open>chunk_header d \<noteq> []\<close>
    by (subst chunk_loop.simps) (simp add: Let_def)
  ultimately show ?case using r3(5) r4(4) by (simp add: add.assoc)
qed

text \<open>The two encodings of a body: as it is, and in chunks.\<close>

lemma chunks_are_written:
  assumes "up r" and "has_tcp h" and "te_chunked h" and "body_size h \<le> 0" and "pending r = chunks_text ds @ rest"
    and "\<forall>d\<in>set ds. d \<noteq> [] \<and> length d < 2 ^ 31" and "ready p (concat ds @ later)" and "\<And>k. alloc k"
  shows "\<exists>r' p'. writeToStream alloc io out h (r, p) =
      Some (int (length (concat ds)), h\<lparr>body_size := int (length (concat ds))\<rparr>, r', p') \<and>
    written p' = written p @ concat ds \<and> ready p' later \<and> sent r' = sent r \<and>
    (if reuse h \<and> canReuse h then up r' \<and> pending r' = [] else idle r')"
proof -
  from connected_is_up [OF assms(1,2)] assms(5) obtain r1 where r1: "connected io h r = (True, r1)" "up r1"
      "pending r1 = chunks_text ds @ rest" "sent r1 = sent r" by auto
  from chunk_loop_copies [where alloc = alloc and k = 0, OF r1(2) assms(2,4) r1(3) assms(6-8)] obtain r2 p2 where r2:
      "chunk_loop alloc io out 0 0 h (r1, p) =
        Some (int (length (concat ds)), h\<lparr>body_size := int (length (concat ds))\<rparr>, r2, p2)"
      "up r2" "written p2 = written p @ concat ds" "ready p2 later" "sent r2 = sent r1" by auto
  from end_ends [OF r2(2), of "h\<lparr>body_size := int (length (concat ds))\<rparr>"] assms(2) obtain r3 where
      "http_end io (h\<lparr>body_size := int (length (concat ds))\<rparr>) r2 = Some r3"
      "if reuse h \<and> canReuse h then up r3 \<and> pending r3 = [] else idle r3" "sent r3 = sent r2" by auto
  with r1(1,4) r2 assms(3) show ?thesis by (auto simp: writeToStream_def Let_def)
qed

lemma body_is_written:
  assumes "up r" and "has_tcp h" and "\<not> te_chunked h" and "body_size h = int (length data)"
    and "pending r = data @ rest" and "length data < 2 ^ 31" and "ready p (data @ later)" and "\<And>k. alloc k"
  shows "\<exists>r' p'. writeToStream alloc io out h (r, p) = Some (int (length data), h, r', p') \<and>
    written p' = written p @ data \<and> ready p' later \<and> sent r' = sent r \<and>
    (if reuse h \<and> canReuse h then up r' \<and> pending r' = [] else idle r')"
proof -
  from connected_is_up [OF assms(1,2)] assms(5) obtain r1 where r1: "connected io h r = (True, r1)" "up r1"
      "pending r1 = data @ rest" "sent r1 = sent r" by auto
  from data_block_copies [where alloc = alloc, OF r1(2) assms(2) r1(3) assms(6-8)] obtain r2 p2 where r2:
      "writeToStreamDataBlock alloc io out h (int (length data)) (r1, p) = Some (int (length data), r2, p2)"
      "up r2" "written p2 = written p @ data" "ready p2 later" "sent r2 = sent r1" by auto
  from end_ends [OF r2(2) assms(2)] obtain r3 where "http_end io h r2 = Some r3"
      "if reuse h \<and> canReuse h then up r3 \<and> pending r3 = [] else idle r3" "sent r3 = sent r2" by auto
  with r1(1,4) r2 assms(3,4) show ?thesis by (auto simp: writeToStream_def Let_def)
qed

end

end
