(* ===== verification/WifiClient.thy ===== *)
theory WifiClient
  imports HttpClient
begin

text \<open>
  \<open>WiFiClient.cpp\<close>: a TCP connection over the sockets of the network stack. The stack is the parameter \<open>sk\<close>: its
  calls, and the error number they leave. The socket's handle is shared by reference in the code; here the
  client is its only owner, so that \<open>stop\<close> closes the socket.
\<close>

section \<open>The network stack\<close>

datatype errno = ENOTCONN | EPIPE | ECONNRESET | ECONNREFUSED | ECONNABORTED | EAGAIN | OtherErrno

record 's sockets =
  sk_socket :: "'s \<Rightarrow> int \<times> 's"
  sk_connect :: "int \<Rightarrow> u32 \<Rightarrow> u16 \<Rightarrow> 's \<Rightarrow> int \<times> 's"
  sk_close :: "int \<Rightarrow> 's \<Rightarrow> 's"
  sk_host :: "u8 list \<Rightarrow> 's \<Rightarrow> u32 option \<times> 's"
  sk_select :: "int \<Rightarrow> 's \<Rightarrow> int \<times> bool \<times> 's"
  sk_send :: "int \<Rightarrow> u8 list \<Rightarrow> 's \<Rightarrow> int \<times> 's"
  sk_recv :: "int \<Rightarrow> nat \<Rightarrow> 's \<Rightarrow> int \<times> u8 list \<times> 's"
  sk_peek :: "int \<Rightarrow> 's \<Rightarrow> int \<times> u8 list \<times> 's"
  sk_count :: "int \<Rightarrow> 's \<Rightarrow> int \<times> int \<times> 's"
  sk_timeouts :: "int \<Rightarrow> u32 \<Rightarrow> 's \<Rightarrow> 's"
  sk_errno :: "'s \<Rightarrow> errno"
  sk_millis :: "'s \<Rightarrow> u32 \<times> 's"

section \<open>The client\<close>

record wifi_client =
  wc_connected :: bool
  wc_socket :: "int option"

type_synonym 's wifi = "wifi_client \<times> 's"

definition WiFiClient :: wifi_client where
  "WiFiClient = \<lparr>wc_connected = False, wc_socket = None\<rparr>"

definition wifi_fd :: "wifi_client \<Rightarrow> int" where
  "wifi_fd c = (case wc_socket c of None \<Rightarrow> - 1 | Some fd \<Rightarrow> fd)"

definition wifi_stop :: "('s, 'z) sockets_scheme \<Rightarrow> 's wifi \<Rightarrow> 's wifi" where
  "wifi_stop sk = (\<lambda>(c, s).
     (WiFiClient, case wc_socket c of None \<Rightarrow> s | Some fd \<Rightarrow> sk_close sk fd s))"

text \<open>Taking the new handle gives the old one up.\<close>

definition wifi_connect_ip :: "('s, 'z) sockets_scheme \<Rightarrow> u32 \<Rightarrow> u16 \<Rightarrow> 's wifi \<Rightarrow> bool \<times> 's wifi" where
  "wifi_connect_ip sk ip port = (\<lambda>(c, s).
     let (fd, s1) = sk_socket sk s
     in if fd < 0 then (False, c, s1)
        else let (res, s2) = sk_connect sk fd ip port s1
             in if res < 0 then (False, c, sk_close sk fd s2)
                else (True, \<lparr>wc_connected = True, wc_socket = Some fd\<rparr>,
                      case wc_socket c of None \<Rightarrow> s2 | Some old \<Rightarrow> sk_close sk old s2))"

definition wifi_connect :: "('s, 'z) sockets_scheme \<Rightarrow> u8 list \<Rightarrow> u16 \<Rightarrow> 's wifi \<Rightarrow> bool \<times> 's wifi" where
  "wifi_connect sk host port = (\<lambda>(c, s).
     let (server, s1) = sk_host sk host s
     in case server of None \<Rightarrow> (False, c, s1) | Some ip \<Rightarrow> wifi_connect_ip sk ip port (c, s1))"

definition wifi_available :: "('s, 'z) sockets_scheme \<Rightarrow> 's wifi \<Rightarrow> int \<times> 's wifi" where
  "wifi_available sk = (\<lambda>(c, s).
     if \<not> wc_connected c then (0, c, s)
     else let (res, count, s1) = sk_count sk (wifi_fd c) s
          in if res < 0 then (0, wifi_stop sk (c, s1)) else (count, c, s1))"

definition wifi_recv :: "('s, 'z) sockets_scheme \<Rightarrow> nat \<Rightarrow> 's wifi \<Rightarrow> int \<times> u8 list \<times> 's wifi" where
  "wifi_recv sk n cs0 =
     (let (count, c, s) = wifi_available sk cs0
      in if count = 0 then (- 1, [], c, s)
         else let (res, bs, s1) = sk_recv sk (wifi_fd c) n s
              in (res, bs, if res < 0 \<and> sk_errno sk s1 \<noteq> EAGAIN then wifi_stop sk (c, s1) else (c, s1)))"

definition wifi_read :: "('s, 'z) sockets_scheme \<Rightarrow> 's wifi \<Rightarrow> int \<times> 's wifi" where
  "wifi_read sk cs =
     (let (res, bs, cs1) = wifi_recv sk 1 cs
      in (if res < 0 then res else case bs of [] \<Rightarrow> 0 | b # _ \<Rightarrow> uint b, cs1))"

text \<open>A failed \<open>recv\<close> leaves the byte \<open>0\<close>, which is the answer of \<open>peek\<close>.\<close>

definition wifi_peek :: "('s, 'z) sockets_scheme \<Rightarrow> 's wifi \<Rightarrow> int \<times> 's wifi" where
  "wifi_peek sk cs0 =
     (let (count, c, s) = wifi_available sk cs0
      in if count = 0 then (- 1, c, s)
         else let (res, bs, s1) = sk_peek sk (wifi_fd c) s
              in (if res < 0 then 0 else case bs of [] \<Rightarrow> 0 | b # _ \<Rightarrow> uint b,
                  if res < 0 \<and> sk_errno sk s1 \<noteq> EAGAIN then wifi_stop sk (c, s1) else (c, s1)))"

definition connection_gone :: "errno \<Rightarrow> bool" where
  "connection_gone e \<longleftrightarrow> e \<in> {ENOTCONN, EPIPE, ECONNRESET, ECONNREFUSED, ECONNABORTED}"

definition wifi_connected :: "('s, 'z) sockets_scheme \<Rightarrow> 's wifi \<Rightarrow> bool \<times> 's wifi" where
  "wifi_connected sk = (\<lambda>(c, s).
     if wc_connected c
     then let (res, _, s1) = sk_recv sk (wifi_fd c) 0 s;
              up = (0 < res \<or> \<not> connection_gone (sk_errno sk s1))
          in (up, c\<lparr>wc_connected := up\<rparr>, s1)
     else (False, c, s))"

text \<open>The tries of \<open>write\<close>: \<open>sent\<close> bytes are out and \<open>bs\<close> remain.\<close>

primrec write_tries :: "nat \<Rightarrow> ('s, 'z) sockets_scheme \<Rightarrow> int \<Rightarrow> nat \<Rightarrow> u8 list \<Rightarrow> 's wifi \<Rightarrow> nat \<times> 's wifi" where
  "write_tries 0 sk fd sent bs cs = (sent, cs)"
| "write_tries (Suc retry) sk fd sent bs cs =
     (let (res, isset, s1) = sk_select sk fd (snd cs)
      in if res < 0 then (0, fst cs, s1)
         else if \<not> isset then write_tries retry sk fd sent bs (fst cs, s1)
         else let (n, s2) = sk_send sk fd bs s1
              in if 0 < n
                 then if length bs \<le> nat n then (sent + nat n, fst cs, s2)
                      else write_tries retry sk fd (sent + nat n) (drop (nat n) bs) (fst cs, s2)
                 else if n < 0 \<and> sk_errno sk s2 \<noteq> EAGAIN then (sent, wifi_stop sk (fst cs, s2))
                 else write_tries retry sk fd sent bs (fst cs, s2))"

definition wifi_write :: "('s, 'z) sockets_scheme \<Rightarrow> u8 list \<Rightarrow> 's wifi \<Rightarrow> nat \<times> 's wifi" where
  "wifi_write sk bs cs =
     (if \<not> wc_connected (fst cs) \<or> wifi_fd (fst cs) < 0 then (0, cs)
      else write_tries 10 sk (wifi_fd (fst cs)) 0 bs cs)"

text \<open>\<open>flush\<close> drops what is there; a \<open>recv\<close> that gives nothing is tried again.\<close>

partial_function (option) flush_loop :: "('s, 'z) sockets_scheme \<Rightarrow> nat \<Rightarrow> 's wifi \<Rightarrow> 's wifi option" where
  "flush_loop sk a cs =
     (if a = 0 then Some cs
      else let (res, _, s1) = sk_recv sk (wifi_fd (fst cs)) (if 1024 < a then 1024 else a) (snd cs)
           in if res < 0 then Some (wifi_stop sk (fst cs, s1)) else flush_loop sk (size_arg (int a - res)) (fst cs, s1))"

definition wifi_flush :: "(nat \<Rightarrow> bool) \<Rightarrow> ('s, 'z) sockets_scheme \<Rightarrow> 's wifi \<Rightarrow> 's wifi option" where
  "wifi_flush alloc sk cs =
     (let (a, cs1) = wifi_available sk cs
      in if a = 0 \<or> \<not> alloc 1024 then Some cs1 else flush_loop sk (size_arg a) cs1)"

definition wifi_setTimeout :: "('s, 'z) sockets_scheme \<Rightarrow> u32 \<Rightarrow> 's wifi \<Rightarrow> 's wifi" where
  "wifi_setTimeout sk seconds = (\<lambda>(c, s). (c, sk_timeouts sk (wifi_fd c) seconds s))"

section \<open>What the HTTP client uses of it\<close>

definition wifi_tcp :: "('s, 'z) sockets_scheme \<Rightarrow> 's wifi tcp" where
  "wifi_tcp sk =
     \<lparr>src_read = (\<lambda>r. Some (wifi_read sk r)), src_peek = (\<lambda>r. Some (wifi_peek sk r)),
      src_millis = (\<lambda>(c, s). let (now, s1) = sk_millis sk s in (now, c, s1)),
      tcp_connect = wifi_connect sk, tcp_connected = wifi_connected sk, tcp_available = wifi_available sk,
      tcp_write = wifi_write sk, tcp_stop = wifi_stop sk, tcp_setTimeout = wifi_setTimeout sk\<rparr>"

end
