(* ===== verification/WifiProofs.thy ===== *)
theory WifiProofs
  imports HttpProofs WifiClient
begin

text \<open>
  The client of the sockets keeps the promises the HTTP client needs: the locale \<open>stream_sockets\<close> says what the
  network stack does for a connection that stands, and \<open>http_waiting\<close> follows. A write of the client is what the
  sockets took, whatever they do.
\<close>

section \<open>What a write sends\<close>

text \<open>\<open>out s\<close> is what the sockets took so far; a send takes a front part of what it is given.\<close>

locale sending_sockets =
  fixes sk :: "('s, 'z) sockets_scheme" and out :: "'s \<Rightarrow> u8 list"
  assumes send_takes: "0 < fst (sk_send sk fd bs s) \<Longrightarrow> nat (fst (sk_send sk fd bs s)) \<le> length bs \<and>
      out (snd (sk_send sk fd bs s)) = out s @ take (nat (fst (sk_send sk fd bs s))) bs"
    and send_fails: "fst (sk_send sk fd bs s) \<le> 0 \<Longrightarrow> out (snd (sk_send sk fd bs s)) = out s"
    and select_keeps: "out (snd (snd (sk_select sk fd s))) = out s"
    and close_keeps: "out (sk_close sk fd s) = out s"
begin

lemma stop_keeps: "out (snd (wifi_stop sk cs)) = out (snd cs)"
  by (auto simp: wifi_stop_def close_keeps split: prod.splits option.splits)

lemma write_tries_send:
  "\<exists>k \<le> length bs. out (snd (snd (write_tries retry sk fd n bs cs))) = out (snd cs) @ take k bs \<and>
     (fst (write_tries retry sk fd n bs cs) = n + k \<or> fst (write_tries retry sk fd n bs cs) = 0)"
proof (induction retry arbitrary: n bs cs)
  case (Suc retry)
  obtain res isset s1 where s1: "sk_select sk fd (snd cs) = (res, isset, s1)" by (metis prod_cases3)
  then have o1: "out s1 = out (snd cs)" using select_keeps [of fd "snd cs"] by simp
  obtain m s2 where s2: "sk_send sk fd bs s1 = (m, s2)" by fastforce
  have again: ?case if "write_tries (Suc retry) sk fd n bs cs = write_tries retry sk fd n bs cs1" "out (snd cs1) = out (snd cs)"
    for cs1 using Suc.IH [of bs n cs1] that by simp
  consider "res < 0" | "\<not> res < 0" "\<not> isset" | "\<not> res < 0" "isset" "0 < m" | "\<not> res < 0" "isset" "m \<le> 0" by linarith
  then show ?case
  proof cases
    case 1
    then show ?thesis using s1 o1 by (intro exI [of _ 0]) simp
  next
    case 2
    then show ?thesis using s1 o1 by (intro again [of "(fst cs, s1)"]) simp_all
  next
    case 3
    then have m: "nat m \<le> length bs" and o2: "out s2 = out (snd cs) @ take (nat m) bs"
      using send_takes [of fd bs s1] s2 o1 by simp_all
    show ?thesis
    proof (cases "length bs \<le> nat m")
      case True
      with 3 s1 s2 o2 m show ?thesis by (intro exI [of _ "nat m"]) simp
    next
      case False
      from Suc.IH [of "drop (nat m) bs" "n + nat m" "(fst cs, s2)"] obtain k where k: "k \<le> length bs - nat m"
          "out (snd (snd (write_tries retry sk fd (n + nat m) (drop (nat m) bs) (fst cs, s2)))) =
            out s2 @ take k (drop (nat m) bs)"
          "fst (write_tries retry sk fd (n + nat m) (drop (nat m) bs) (fst cs, s2)) = n + nat m + k \<or>
           fst (write_tries retry sk fd (n + nat m) (drop (nat m) bs) (fst cs, s2)) = 0" by auto
      have "take (nat m) bs @ take k (drop (nat m) bs) = take (nat m + k) bs" by (simp add: take_add)
      with 3 s1 s2 o2 k m False show ?thesis by (intro exI [of _ "nat m + k"]) (auto simp: add.assoc)
    qed
  next
    case 4
    then have o2: "out s2 = out (snd cs)" using send_fails [of fd bs s1] s2 o1 by simp
    show ?thesis
    proof (cases "m < 0 \<and> sk_errno sk s2 \<noteq> EAGAIN")
      case True
      with 4 s1 s2 o2 show ?thesis by (intro exI [of _ 0]) (simp add: stop_keeps)
    next
      case False
      with 4 s1 s2 o2 show ?thesis by (intro again [of "(fst cs, s2)"]) auto
    qed
  qed
qed (simp add: exI [of _ 0])

lemma write_sends:
  "\<exists>k \<le> length bs. out (snd (snd (wifi_write sk bs cs))) = out (snd cs) @ take k bs \<and>
     (fst (wifi_write sk bs cs) = k \<or> fst (wifi_write sk bs cs) = 0)"
  using write_tries_send [of bs 10 "wifi_fd (fst cs)" 0 cs] by (auto simp: wifi_write_def)

end

section \<open>A connection that stands\<close>

locale stream_sockets =
  fixes sk :: "('s, 'z) sockets_scheme" and live :: "int \<Rightarrow> 's \<Rightarrow> bool" and free :: "'s \<Rightarrow> bool" and rx tx :: "'s \<Rightarrow> u8 list"
    and srank sleft :: "u32 \<Rightarrow> 's \<Rightarrow> nat" and reply :: "u8 list \<Rightarrow> u8 list \<Rightarrow> u8 list" and host :: "u8 list" and port :: u16
    and patience :: u16
  assumes opens: "free s \<Longrightarrow> \<exists>ip s1 fd s2 s3. sk_host sk host s = (Some ip, s1) \<and> sk_socket sk s1 = (fd, s2) \<and> 0 \<le> fd \<and>
      sk_connect sk fd ip port s2 = (0, s3) \<and> live fd s3 \<and> rx s3 = [] \<and> tx s3 = []"
    and closes: "live fd s \<Longrightarrow> free (sk_close sk fd s) \<and> tx (sk_close sk fd s) = tx s"
    and probe: "live fd s \<Longrightarrow> \<exists>res bs s1. sk_recv sk fd 0 s = (res, bs, s1) \<and>
      (0 < res \<or> \<not> connection_gone (sk_errno sk s1)) \<and> live fd s1 \<and> rx s1 = rx s \<and> tx s1 = tx s \<and> sleft t s1 \<le> sleft t s"
    and counts: "live fd s \<Longrightarrow> \<exists>s1. sk_count sk fd s = (0, int (length (rx s)), s1) \<and> live fd s1 \<and> rx s1 = rx s \<and>
      tx s1 = tx s \<and> srank t s1 \<le> srank t s \<and> sleft t s1 \<le> sleft t s"
    and receives: "live fd s \<Longrightarrow> rx s = b # bs \<Longrightarrow>
      \<exists>s1. sk_recv sk fd 1 s = (1, [b], s1) \<and> live fd s1 \<and> rx s1 = bs \<and> tx s1 = tx s"
    and peeks: "live fd s \<Longrightarrow> rx s = b # bs \<Longrightarrow>
      \<exists>s1. sk_peek sk fd s = (1, [b], s1) \<and> live fd s1 \<and> rx s1 = rx s \<and> tx s1 = tx s"
    and selects: "live fd s \<Longrightarrow> \<exists>s1. sk_select sk fd s = (1, True, s1) \<and> live fd s1 \<and> rx s1 = rx s \<and> tx s1 = tx s"
    and sends: "live fd s \<Longrightarrow> bs \<noteq> [] \<Longrightarrow> \<exists>s1. sk_send sk fd bs s = (int (length bs), s1) \<and> live fd s1 \<and>
      rx s1 = rx s @ reply (tx s) bs \<and> tx s1 = tx s @ bs"
    and sets: "live fd s \<Longrightarrow> live fd (sk_timeouts sk fd n s) \<and> rx (sk_timeouts sk fd n s) = rx s \<and>
      tx (sk_timeouts sk fd n s) = tx s"
    and clock: "live fd s \<Longrightarrow> live fd (snd (sk_millis sk s)) \<and> rx (snd (sk_millis sk s)) = rx s \<and>
      tx (snd (sk_millis sk s)) = tx s"
    and ticks: "live fd s \<Longrightarrow> fst (sk_millis sk s) - t < STREAM_TIMEOUT \<Longrightarrow> srank t (snd (sk_millis sk s)) < srank t s"
    and waits: "live fd s \<Longrightarrow> fst (sk_millis sk s) - t \<le> ucast patience \<Longrightarrow> sleft t (snd (sk_millis sk s)) < sleft t s"

definition wifi_live :: "(int \<Rightarrow> 's \<Rightarrow> bool) \<Rightarrow> 's wifi \<Rightarrow> bool" where
  "wifi_live live = (\<lambda>(c, s). wc_connected c \<and> (\<exists>fd. wc_socket c = Some fd \<and> 0 \<le> fd \<and> live fd s))"

definition wifi_idle :: "('s \<Rightarrow> bool) \<Rightarrow> 's wifi \<Rightarrow> bool" where
  "wifi_idle free = (\<lambda>(c, s). c = WiFiClient \<and> free s)"

lemma wifi_liveE:
  assumes "wifi_live live r"
  obtains c fd s where "r = (c, s)" "wc_connected c" "wc_socket c = Some fd" "wifi_fd c = fd" "0 \<le> fd" "live fd s"
proof -
  from assms obtain fd where "wc_connected (fst r)" "wc_socket (fst r) = Some fd" "0 \<le> fd" "live fd (snd r)"
    by (auto simp: wifi_live_def)
  then show thesis by (intro that [of "fst r" "snd r" fd]) (simp_all add: wifi_fd_def)
qed

lemma wifi_liveI: "wc_connected c \<Longrightarrow> wc_socket c = Some fd \<Longrightarrow> 0 \<le> fd \<Longrightarrow> live fd s \<Longrightarrow> wifi_live live (c, s)"
  by (simp add: wifi_live_def)

context stream_sockets
begin

lemma available_live:
  assumes "wifi_live live r"
  shows "\<exists>s1. wifi_available sk r = (int (length (rx (snd r))), fst r, s1) \<and> wifi_live live (fst r, s1) \<and>
    rx s1 = rx (snd r) \<and> tx s1 = tx (snd r) \<and> srank t s1 \<le> srank t (snd r) \<and> sleft t s1 \<le> sleft t (snd r)"
proof -
  from assms obtain c fd s where r: "r = (c, s)" "wc_connected c" "wc_socket c = Some fd" "wifi_fd c = fd" "0 \<le> fd" "live fd s"
    by (rule wifi_liveE)
  from counts [OF r(6), of t] r wifi_liveI [of c fd live] show ?thesis by (auto simp: wifi_available_def)
qed

lemma wifi_source:
  "byte_source (wifi_tcp sk) STREAM_TIMEOUT (\<lambda>r. wifi_live live r \<and> tx (snd r) = w) (\<lambda>r. rx (snd r)) (\<lambda>t r. srank t (snd r))"
proof
  fix r :: "'s wifi" and b bs
  assume up: "wifi_live live r \<and> tx (snd r) = w" and rx: "rx (snd r) = b # bs"
  from available_live [of r] up obtain s1 where s1: "wifi_available sk r = (int (length (rx (snd r))), fst r, s1)"
      "wifi_live live (fst r, s1)" "rx s1 = b # bs" "tx s1 = w" using rx by auto
  from s1(2) obtain fd where fd: "wc_connected (fst r)" "wc_socket (fst r) = Some fd" "wifi_fd (fst r) = fd" "0 \<le> fd" "live fd s1"
    by (auto elim: wifi_liveE)
  from receives [OF fd(5) s1(3)] obtain s2 where s2: "sk_recv sk fd 1 s1 = (1, [b], s2)" "live fd s2" "rx s2 = bs" "tx s2 = tx s1"
    by blast
  then show "\<exists>r'. src_read (wifi_tcp sk) r = Some (uint b, r') \<and> (wifi_live live r' \<and> tx (snd r') = w) \<and> rx (snd r') = bs"
    using s1 fd rx by (auto simp: wifi_tcp_def wifi_read_def wifi_recv_def intro!: wifi_liveI)
  from peeks [OF fd(5) s1(3)] obtain s2 where s2: "sk_peek sk fd s1 = (1, [b], s2)" "live fd s2" "rx s2 = rx s1" "tx s2 = tx s1"
    by blast
  then show "\<exists>r'. src_peek (wifi_tcp sk) r = Some (uint b, r') \<and> (wifi_live live r' \<and> tx (snd r') = w) \<and> rx (snd r') = b # bs"
    using s1 fd rx by (auto simp: wifi_tcp_def wifi_peek_def intro!: wifi_liveI)
next
  fix r :: "'s wifi" and t
  assume up: "wifi_live live r \<and> tx (snd r) = w" and rx: "rx (snd r) = []"
  from available_live [of r t] up rx show
    "\<exists>c r'. src_read (wifi_tcp sk) r = Some (c, r') \<and> c < 0 \<and> (wifi_live live r' \<and> tx (snd r') = w) \<and> rx (snd r') = [] \<and>
      srank t (snd r') \<le> srank t (snd r)"
    by (auto simp: wifi_tcp_def wifi_read_def wifi_recv_def)
  from available_live [of r t] up rx show
    "\<exists>c r'. src_peek (wifi_tcp sk) r = Some (c, r') \<and> c < 0 \<and> (wifi_live live r' \<and> tx (snd r') = w) \<and> rx (snd r') = [] \<and>
      srank t (snd r') \<le> srank t (snd r)"
    by (auto simp: wifi_tcp_def wifi_peek_def)
next
  fix r :: "'s wifi"
  assume up: "wifi_live live r \<and> tx (snd r) = w"
  then obtain c fd s where r: "r = (c, s)" "wc_connected c" "wc_socket c = Some fd" "wifi_fd c = fd" "0 \<le> fd" "live fd s"
    by (auto elim: wifi_liveE)
  show "(wifi_live live (snd (src_millis (wifi_tcp sk) r)) \<and> tx (snd (snd (src_millis (wifi_tcp sk) r))) = w) \<and>
      rx (snd (snd (src_millis (wifi_tcp sk) r))) = rx (snd r)"
    using clock [OF r(6)] r up by (auto simp: wifi_tcp_def intro!: wifi_liveI split: prod.splits)
  fix t
  assume "fst (src_millis (wifi_tcp sk) r) - t < STREAM_TIMEOUT"
  then show "srank t (snd (snd (src_millis (wifi_tcp sk) r))) < srank t (snd r)"
    using ticks [OF r(6), of t] r by (auto simp: wifi_tcp_def split: prod.splits)
qed

end

sublocale stream_sockets \<subseteq> http_waiting "wifi_tcp sk" "wifi_live live" "wifi_idle free" "\<lambda>r. rx (snd r)" "\<lambda>r. tx (snd r)"
    "\<lambda>t r. srank t (snd r)" reply host port patience "\<lambda>t r. sleft t (snd r)"
proof (intro http_waiting.intro http_wire.intro http_waiting_axioms.intro)
  show "byte_source (wifi_tcp sk) STREAM_TIMEOUT (\<lambda>r. wifi_live live r \<and> tx (snd r) = w) (\<lambda>r. rx (snd r))
      (\<lambda>t r. srank t (snd r))" for w by (rule wifi_source)
next
  fix r :: "'s wifi" and bs and t :: u32 and n
  assume up: "wifi_live live r"
  then obtain c fd s where r: "r = (c, s)" "wc_connected c" "wc_socket c = Some fd" "wifi_fd c = fd" "0 \<le> fd" "live fd s"
    by (rule wifi_liveE)
  have keep: "c\<lparr>wc_connected := True\<rparr> = c" using r(2) by simp
  from probe [OF r(6), of t] show "\<exists>r'. tcp_connected (wifi_tcp sk) r = (True, r') \<and> wifi_live live r' \<and>
      rx (snd r') = rx (snd r) \<and> tx (snd r') = tx (snd r)"
    using r keep by (auto simp: wifi_tcp_def wifi_connected_def Let_def intro!: wifi_liveI)
  from probe [OF r(6), of t] show "sleft t (snd (snd (tcp_connected (wifi_tcp sk) r))) \<le> sleft t (snd r)"
    using r by (auto simp: wifi_tcp_def wifi_connected_def Let_def)
  from available_live [OF up, of t] show "\<exists>r'. tcp_available (wifi_tcp sk) r = (int (length (rx (snd r))), r') \<and>
      wifi_live live r' \<and> rx (snd r') = rx (snd r) \<and> tx (snd r') = tx (snd r)"
    by (auto simp: wifi_tcp_def)
  from available_live [OF up, of t] show "sleft t (snd (snd (tcp_available (wifi_tcp sk) r))) \<le> sleft t (snd r)"
    by (auto simp: wifi_tcp_def)
  show "wifi_live live (tcp_setTimeout (wifi_tcp sk) n r) \<and> rx (snd (tcp_setTimeout (wifi_tcp sk) n r)) = rx (snd r) \<and>
      tx (snd (tcp_setTimeout (wifi_tcp sk) n r)) = tx (snd r)"
    using sets [OF r(6)] r by (auto simp: wifi_tcp_def wifi_setTimeout_def intro!: wifi_liveI)
  show "wifi_idle free (tcp_stop (wifi_tcp sk) r) \<and> tx (snd (tcp_stop (wifi_tcp sk) r)) = tx (snd r)"
    using closes [OF r(6)] r by (simp add: wifi_tcp_def wifi_stop_def wifi_idle_def)
  show "\<exists>r'. tcp_write (wifi_tcp sk) bs r = (length bs, r') \<and> wifi_live live r' \<and>
      rx (snd r') = rx (snd r) @ reply (tx (snd r)) bs \<and> tx (snd r') = tx (snd r) @ bs" if "bs \<noteq> []"
  proof -
    from selects [OF r(6)] obtain s1 where s1: "sk_select sk fd s = (1, True, s1)" "live fd s1" "rx s1 = rx s" "tx s1 = tx s"
      by blast
    from sends [OF s1(2) that] obtain s2 where s2: "sk_send sk fd bs s1 = (int (length bs), s2)" "live fd s2"
        "rx s2 = rx s1 @ reply (tx s1) bs" "tx s2 = tx s1 @ bs" by blast
    have "write_tries 10 sk fd 0 bs (c, s) = (length bs, c, s2)"
      using s1 s2 that write_tries.simps(2) [of 9 sk fd 0 bs "(c, s)"] by simp
    with r s1 s2 show ?thesis by (auto simp: wifi_tcp_def wifi_write_def intro!: wifi_liveI)
  qed
  assume "fst (src_millis (wifi_tcp sk) r) - t \<le> ucast patience"
  then show "sleft t (snd (snd (src_millis (wifi_tcp sk) r))) < sleft t (snd r)"
    using waits [OF r(6), of t] r by (auto simp: wifi_tcp_def split: prod.splits)
next
  fix r :: "'s wifi"
  assume idle: "wifi_idle free r"
  then show "wifi_idle free (tcp_stop (wifi_tcp sk) r) \<and> tx (snd (tcp_stop (wifi_tcp sk) r)) = tx (snd r)"
    by (auto simp: wifi_tcp_def wifi_stop_def wifi_idle_def WiFiClient_def)
  from idle show "\<exists>r'. tcp_connected (wifi_tcp sk) r = (False, r') \<and> wifi_idle free r' \<and> tx (snd r') = tx (snd r)"
    by (auto simp: wifi_tcp_def wifi_connected_def wifi_idle_def WiFiClient_def)
  from idle show "\<exists>r'. tcp_available (wifi_tcp sk) r = (0, r') \<and> wifi_idle free r' \<and> tx (snd r') = tx (snd r)"
    by (auto simp: wifi_tcp_def wifi_available_def wifi_idle_def WiFiClient_def)
  from idle obtain s where r: "r = (WiFiClient, s)" "free s" by (auto simp: wifi_idle_def)
  from opens [OF r(2)] show "\<exists>r'. tcp_connect (wifi_tcp sk) host port r = (True, r') \<and> wifi_live live r' \<and>
      rx (snd r') = [] \<and> tx (snd r') = []"
    using r(1) by (auto simp: wifi_tcp_def wifi_connect_def wifi_connect_ip_def WiFiClient_def intro!: wifi_liveI)
qed

end
