(* ===== verification/HttpPost.thy ===== *)
theory HttpPost
  imports WifiProofs
begin

text \<open>
  The request of the logger from end to end: what the server gets, and what the logger gets back, over the
  HTTP client, the socket client and any network stack that works; and one such stack.
\<close>

section \<open>The request in bytes\<close>

abbreviation (input) crlf :: "u8 list" where "crlf \<equiv> [13, 10]"

definition request_head :: "u8 list \<Rightarrow> u8 list \<Rightarrow> u8 list \<Rightarrow> u8 list" where
  "request_head host path payload =
     chars ''POST '' @ path @ chars '' HTTP/1.1'' @ crlf @
     chars ''Host: '' @ host @ crlf @
     chars ''User-Agent: ESP32HTTPClient'' @ crlf @
     chars ''Connection: close'' @ crlf @
     chars ''Accept-Encoding: identity;q=1,chunked;q=0.1,*;q=0'' @ crlf @
     chars ''Content-Type: application/json'' @ crlf @
     (if payload = [] then [] else chars ''Content-Length: '' @ number_text 10 (length payload) @ crlf) @ crlf"

text \<open>The bytes of a body, as the header says they are encoded.\<close>

definition encodes :: "(u8 list \<times> u8 list) list \<Rightarrow> u8 list \<Rightarrow> u8 list \<Rightarrow> bool" where
  "encodes fs body bytes \<longleftrightarrow>
     (case last_value ''Transfer-Encoding'' fs of
        None \<Rightarrow> bytes = body \<and> last_value ''Content-Length'' fs = Some (number_text 10 (length body))
      | Some _ \<Rightarrow> last_value ''Content-Length'' fs = None \<and>
          (\<exists>ds. body = concat ds \<and> [] \<notin> set ds \<and> bytes = chunks_text ds @ crlf))"

text \<open>The client after \<open>begin\<close> and the first header.\<close>

definition json_client :: "u8 list \<Rightarrow> u8 list \<Rightarrow> http_client" where
  "json_client host path =
     addHeader (chars ''Content-Type'') (chars ''application/json'') False True
       (snd (http_begin (chars ''http://'' @ host @ path) HTTPClient))"

lemma json_client_is:
  assumes "47 \<notin> set host" and "58 \<notin> set host" and "64 \<notin> set host" and "length host < 2 ^ 31"
  shows "json_client host (47 # p) = HTTPClient\<lparr>has_transport := True, http_host := host, http_port := 80,
    protocol := chars ''http'', uri := 47 # p, headers := chars ''Content-Type: application/json'' @ crlf\<rparr>"
proof -
  have "snd (http_begin (chars ''http://'' @ host @ 47 # p) HTTPClient) = HTTPClient\<lparr>has_transport := True, http_host := host,
      http_port := 80, protocol := chars ''http'', uri := 47 # p\<rparr>"
    unfolding http_begin_def begin_steps [OF assms(1,4)] parse_port(2) [OF assms(3,2,4), of 0, simplified]
    by (simp add: http_clear_def HTTPClient_def)
  then show ?thesis
    by (simp add: json_client_def addHeader_def reserved_header_def HTTPClient_def text_same_def tolower_def
        text_index_text_def chars_def)
qed

lemma request_head_is:
  assumes "47 \<notin> set host" and "58 \<notin> set host" and "64 \<notin> set host" and "length host < 2 ^ 31"
  shows "header_text (chars ''POST'') (requesting payload (json_client host (47 # p))) = request_head host (47 # p) payload"
proof -
  have "text_index_text (chars ''Content-Length: '') (chars ''Content-Type: application/json'' @ crlf) = - 1"
    by code_simp
  then have "text_index_text (chars ''Content-Length'' @ chars '': '') (chars ''Content-Type: application/json'' @ crlf) = - 1"
    by (simp add: chars_def)
  then have "requesting payload (json_client host (47 # p)) = json_client host (47 # p)\<lparr>has_tcp := True,
      headers := chars ''Content-Type: application/json'' @ crlf @
        (if payload = [] then [] else chars ''Content-Length: '' @ number_text 10 (length payload) @ crlf)\<rparr>"
    unfolding json_client_is [OF assms]
    by (simp add: requesting_def addHeader_def reserved_header_def HTTPClient_def text_same_def tolower_def chars_def)
  then show ?thesis unfolding json_client_is [OF assms]
    by (simp add: header_text_def request_head_def HTTPClient_def chars_def)
qed

section \<open>The response as a string\<close>

lemma text_out: "ss_ready s (cs @ bs) \<Longrightarrow>
    \<exists>s'. put_bytes (StreamString_out (\<lambda>_. True)) cs s = Some (length cs, s') \<and> ss_text s' = ss_text s @ cs \<and> ss_ready s' bs"
  using ss.put_bytes by (simp add: StreamString_out_def)

sublocale http_wire \<subseteq> to_text: http_transfer io up idle pending sent rank reply host port "StreamString_out (\<lambda>_. True)"
    ss_text ss_ready
proof (intro http_transfer.intro http_transfer_axioms.intro byte_sink.intro)
  show "http_wire io up idle pending sent rank reply host port" by (rule http_wire_axioms)
  show "\<exists>s'. put_byte (StreamString_out (\<lambda>_. True)) b s = Some (1, s') \<and> ss_text s' = ss_text s @ [b] \<and> ss_ready s' bs"
    if "ss_ready s (b # bs)" for s b bs using ss.put_byte [OF that] by (simp add: StreamString_out_def)
qed (simp_all add: text_out, simp add: StreamString_out_def)

context http_wire
begin

lemma getString_gets:
  assumes "up r" and "has_tcp h" and "pending r = bytes" and "encodes fs body bytes" and "h = answered code fs h0"
    and "0 \<notin> set body" and "length body < 2 ^ 31 - 1"
  shows "\<exists>s h' r'. getString (\<lambda>_. True) io h r = Some (s, h', r') \<and> holds_text s body \<and> has_tcp h' \<and> sent r' = sent r \<and>
    (if reuse h \<and> canReuse h then up r' \<and> pending r' = [] else idle r')"
proof -
  define n where "n = nat ((body_size h + 1) mod 2 ^ 32)"
  have size: "body_size h = - 1 \<and> te_chunked h \<or> body_size h = int (length body) \<and> \<not> te_chunked h"
    using assms(4,5,7) atol_number [of "length body" "[]"]
    by (auto simp: encodes_def answered_def split: option.splits)
  then have "n \<le> length body + 1" using assms(7) by (auto simp: n_def nat_mod_distrib)
  then have "storable n" using assms(7) by (simp add: storable_def)
  from reserve_ok [OF holds_init this, of "\<lambda>_. True"] obtain s0 where
      "String_reserve (\<lambda>_. True) n String_init = Some (True, s0)" "holds_text s0 []" by auto
  then obtain s1 where s1: "(if body_size h \<noteq> 0 then String_reserve (\<lambda>_. True) n String_init else Some (True, String_init)) =
      Some (True, s1)" "holds_text s1 []" by (cases "body_size h = 0") auto
  then have s1_text: "ss_text s1 = []" by (simp add: holds_ss_text)
  with s1(2) assms(6,7) have ready: "ss_ready s1 (body @ [])" by (simp add: ss_ready_def storable_def)
  have finish: ?thesis if "writeToStream (\<lambda>_. True) io (StreamString_out (\<lambda>_. True)) h (r, s1) = Some (k, h', r', p')"
    "ss_text p' = ss_text s1 @ body" "ss_ready p' []" "sent r' = sent r" "has_tcp h' = has_tcp h"
    "if reuse h \<and> canReuse h then up r' \<and> pending r' = [] else idle r'" for k h' r' p'
  proof -
    have "holds_text p' body" using that(2,3) s1_text by (simp add: ss_ready_def)
    moreover have "getString (\<lambda>_. True) io h r = Some (p', h', r')"
      unfolding getString_def s1(1) [unfolded n_def] using that(1) by simp
    ultimately show ?thesis using that(4-6) assms(2) by blast
  qed
  show ?thesis
  proof (cases "last_value ''Transfer-Encoding'' fs")
    case None
    then have h: "\<not> te_chunked h" "body_size h = int (length body)" using assms(5) size by (auto simp: answered_def)
    have bytes: "pending r = body @ []" using None assms(3,4) by (simp add: encodes_def)
    from to_text.body_is_written [where alloc = "\<lambda>_. True" and p = s1 and later = "[]", OF assms(1,2) h bytes _ ready] assms(7)
    obtain r' p' where w: "writeToStream (\<lambda>_. True) io (StreamString_out (\<lambda>_. True)) h (r, s1) =
        Some (int (length body), h, r', p')" "ss_text p' = ss_text s1 @ body" "ss_ready p' []" "sent r' = sent r"
        "if reuse h \<and> canReuse h then up r' \<and> pending r' = [] else idle r'" by auto
    show ?thesis by (rule finish [OF w(1-4) refl w(5)])
  next
    case (Some v)
    then have h: "te_chunked h" "body_size h \<le> 0" using assms(5) size by (auto simp: answered_def)
    from Some assms(4) obtain ds where ds: "body = concat ds" "[] \<notin> set ds" "bytes = chunks_text ds @ crlf"
      by (auto simp: encodes_def)
    have "length d < 2 ^ 31" if "d \<in> set ds" for d
    proof -
      have "length d \<le> length (concat ds)" using that by (simp add: length_concat member_le_sum_list)
      then show ?thesis using assms(7) ds(1) by simp
    qed
    then have all: "\<forall>d\<in>set ds. d \<noteq> [] \<and> length d < 2 ^ 31" using ds(2) by auto
    from to_text.chunks_are_written [where alloc = "\<lambda>_. True" and p = s1 and later = "[]", OF assms(1,2) h _ all] ready
      assms(3) ds(1,3) obtain r' p' where w: "writeToStream (\<lambda>_. True) io (StreamString_out (\<lambda>_. True)) h (r, s1) =
        Some (int (length body), h\<lparr>body_size := int (length body)\<rparr>, r', p')" "ss_text p' = ss_text s1 @ body"
        "ss_ready p' []" "sent r' = sent r" "if reuse h \<and> canReuse h then up r' \<and> pending r' = [] else idle r'" by auto
    have "has_tcp (h\<lparr>body_size := int (length body)\<rparr>) = has_tcp h" by simp
    then show ?thesis by (rule finish [OF w(1-4) _ w(5)])
  qed
qed

lemma post_json_posts:
  assumes "idle r" and "port = 80" and "47 \<notin> set host" and "58 \<notin> set host" and "64 \<notin> set host" and "length host < 2 ^ 31"
  fixes p payload
  defines "req \<equiv> request_head host (47 # p) payload"
  assumes "reply [] req @ (if payload = [] then [] else reply req payload) = answer_text minor code reason fs bytes"
    and "good_answer code reason fs" and "minor \<noteq> 10" and "encodes fs body bytes" and "0 \<notin> set body"
    and "length body < 2 ^ 31 - 1"
  shows "\<exists>s r'. post_json (\<lambda>_. True) io host (47 # p) payload r = Some (of_nat code, s, r') \<and> holds_text s body \<and>
    idle r' \<and> sent r' = req @ payload"
proof -
  let ?h = "json_client host (47 # p)"
  note client = json_client_is [OF assms(3-6), of p]
  have h: "has_transport ?h" "http_host ?h = host" "http_port ?h = port" "\<not> reuse ?h"
    using assms(2) unfolding client by (simp_all add: HTTPClient_def)
  have hdr: "header_text (chars ''POST'') (requesting payload ?h) = req"
    unfolding req_def by (rule request_head_is [OF assms(3-6)])
  from request_is_answered [of r ?h "chars ''POST''" payload minor code reason fs bytes] assms h(1-3) obtain r1 where r1:
      "sendRequest io (chars ''POST'') payload ?h r = Some (int code, answered code fs (requested payload ?h), r1)"
      "up r1" "pending r1 = bytes" "sent r1 = req @ payload" unfolding hdr by auto
  let ?h2 = "answered code fs (requested payload ?h)"
  have h2: "has_tcp ?h2" "\<not> reuse ?h2"
    using h(4) by (simp_all add: answered_def requested_def requesting_def addHeader_def Let_def)
  from getString_gets [OF r1(2) h2(1) r1(3) assms(11) refl assms(12,13)] h2(2) obtain s h3 r2 where r2:
      "getString (\<lambda>_. True) io ?h2 r1 = Some (s, h3, r2)" "holds_text s body" "has_tcp h3" "sent r2 = sent r1" "idle r2"
    by auto
  from end_idle [OF r2(5), of h3] obtain r3 where r3: "http_end io h3 r2 = Some r3" "idle r3" "sent r3 = sent r2" by blast
  obtain ok h0 where h0: "http_begin (chars ''http://'' @ host @ 47 # p) HTTPClient = (ok, h0)" by fastforce
  then have "addHeader (chars ''Content-Type'') (chars ''application/json'') False True h0 = ?h" by (simp add: json_client_def)
  then have "post_json (\<lambda>_. True) io host (47 # p) payload r =
      Some (of_nat code, s, tcp_stop io (if (of_nat code :: u16) \<noteq> 200 then r2 else r3))"
    using h0 r1(1) r2(1,3) r3(1) by (simp add: post_json_def http_POST_def)
  with r1(4) r2 r3 stop_idle [OF r2(5)] stop_idle [OF r3(2)] show ?thesis by auto
qed

end

section \<open>A server that does not answer\<close>

context http_wire
begin

lemma getString_idle:
  assumes "idle r" and "body_size h = - 1"
  shows "\<exists>s r'. getString (\<lambda>_. True) io h r = Some (s, h, r') \<and> holds_text s [] \<and> idle r'"
proof -
  have "storable 0" by (simp add: storable_def)
  from reserve_ok [OF holds_init this, of "\<lambda>_. True"] obtain s0 where
      s0: "String_reserve (\<lambda>_. True) 0 String_init = Some (True, s0)" "holds_text s0 []" by auto
  from connected_is_idle [OF assms(1), of h] obtain r1 where r1: "connected io h r = (False, r1)" "idle r1" by blast
  from connected_is_idle [OF r1(2), of h] obtain r2 where r2: "connected io h r1 = (False, r2)" "idle r2" by blast
  have "writeToStream (\<lambda>_. True) io (StreamString_out (\<lambda>_. True)) h (r, s0) =
      Some (HTTPC_ERROR_NOT_CONNECTED, h, r2, s0)"
    using r1 r2 by (simp add: writeToStream_def returnError_def)
  with s0 r2(2) assms(2) show ?thesis by (simp add: getString_def)
qed

end

context http_waiting
begin

lemma post_json_times_out:
  assumes "idle r" and "port = 80" and "patience = 5000"
    and "47 \<notin> set host" and "58 \<notin> set host" and "64 \<notin> set host" and "length host < 2 ^ 31"
  fixes p payload
  defines "req \<equiv> request_head host (47 # p) payload"
  assumes "reply [] req = []" and "payload \<noteq> [] \<Longrightarrow> reply req payload = []"
  shows "\<exists>s r'. post_json (\<lambda>_. True) io host (47 # p) payload r = Some (0xFFF5, s, r') \<and> holds_text s [] \<and> idle r'"
proof -
  let ?h = "json_client host (47 # p)"
  note client = json_client_is [OF assms(4-7), of p]
  have h: "has_transport ?h" "http_host ?h = host" "http_port ?h = port" "tcpTimeout ?h = patience"
    using assms(2,3) unfolding client by (simp_all add: HTTPClient_def)
  have hdr: "header_text (chars ''POST'') (requesting payload ?h) = req"
    unfolding req_def by (rule request_head_is [OF assms(4-7)])
  from request_times_out [OF assms(1) h, of "chars ''POST''" payload] assms(9,10) obtain h1 r1 where r1:
      "sendRequest io (chars ''POST'') payload ?h r = Some (HTTPC_ERROR_READ_TIMEOUT, h1, r1)" "idle r1" "body_size h1 = - 1"
    unfolding hdr by auto
  from getString_idle [OF r1(2,3)] obtain s r2 where r2: "getString (\<lambda>_. True) io h1 r1 = Some (s, h1, r2)" "holds_text s []"
      "idle r2" by blast
  obtain ok h0 where h0: "http_begin (chars ''http://'' @ host @ 47 # p) HTTPClient = (ok, h0)" by fastforce
  then have "addHeader (chars ''Content-Type'') (chars ''application/json'') False True h0 = ?h" by (simp add: json_client_def)
  then have "post_json (\<lambda>_. True) io host (47 # p) payload r = Some (0xFFF5, s, if has_tcp h1 then tcp_stop io r2 else r2)"
    using h0 r1(1) r2(1) by (simp add: post_json_def http_POST_def)
  with r2 stop_idle [OF r2(3)] show ?thesis by auto
qed

end

context stream_sockets
begin

text \<open>The request over the sockets is the request over the connection that they make.\<close>

lemmas posts_over_sockets = post_json_posts
lemmas times_out_over_sockets = post_json_times_out

end

section \<open>A network stack\<close>

text \<open>One server, which answers \<open>reply w bs\<close> to \<open>bs\<close> after \<open>w\<close>; every look at the clock takes a millisecond.\<close>

record net =
  net_open :: bool
  net_rx :: "u8 list"
  net_tx :: "u8 list"
  net_now :: u32

definition net_sockets :: "(u8 list \<Rightarrow> u8 list \<Rightarrow> u8 list) \<Rightarrow> net sockets" where
  "net_sockets reply =
     \<lparr>sk_socket = (\<lambda>s. (3, s)),
      sk_connect = (\<lambda>fd ip port s. (0, s\<lparr>net_open := True, net_rx := [], net_tx := []\<rparr>)),
      sk_close = (\<lambda>fd s. s\<lparr>net_open := False\<rparr>),
      sk_host = (\<lambda>name s. (Some 0x0100007F, s)),
      sk_select = (\<lambda>fd s. (1, True, s)),
      sk_send = (\<lambda>fd bs s. (int (length bs), s\<lparr>net_tx := net_tx s @ bs, net_rx := net_rx s @ reply (net_tx s) bs\<rparr>)),
      sk_recv = (\<lambda>fd n s. (if net_rx s = [] then - 1 else int (min n (length (net_rx s))), take n (net_rx s),
                          s\<lparr>net_rx := drop n (net_rx s)\<rparr>)),
      sk_peek = (\<lambda>fd s. (if net_rx s = [] then - 1 else 1, take 1 (net_rx s), s)),
      sk_count = (\<lambda>fd s. (0, int (length (net_rx s)), s)),
      sk_timeouts = (\<lambda>fd n s. s),
      sk_errno = (\<lambda>s. EAGAIN),
      sk_millis = (\<lambda>s. (net_now s, s\<lparr>net_now := net_now s + 1\<rparr>))\<rparr>"

definition net_live :: "int \<Rightarrow> net \<Rightarrow> bool" where
  "net_live fd s \<longleftrightarrow> fd = 3 \<and> net_open s"

lemma wait_goes_down:
  fixes k t m :: u32
  assumes "k - t < m"
  shows "unat (t + m - (k + 1)) < unat (t + m - k)"
proof -
  define d where "d = k - t"
  have k: "k = t + d" by (simp add: d_def)
  have ne: "m - d \<noteq> 0" using assms by (auto simp: d_def)
  have eqs: "t + m - (k + 1) = m - d - 1" "t + m - k = m - d" by (simp_all add: k)
  have "0 < unat (m - d)" using ne by (simp add: unat_gt_0)
  then show ?thesis unfolding eqs unat_minus_one [OF ne] by simp
qed

lemma less_after:
  fixes d :: u32 and p :: u16
  assumes "d \<le> ucast p"
  shows "d < ucast p + 1"
proof -
  have p: "unat p < 65536" using unsigned_less [where ?'a = nat and w = p] by simp
  have "unat (ucast p :: u32) = unat p" using p by (simp add: unsigned_ucast_eq take_bit_nat_eq_self)
  moreover from this p have "unat (ucast p + 1 :: u32) = unat p + 1" by (simp add: unat_word_ariths(1))
  ultimately show ?thesis using assms by (simp add: word_less_nat_alt word_le_nat_alt)
qed

interpretation net: stream_sockets "net_sockets reply" net_live "\<lambda>s. True" net_rx net_tx
    "\<lambda>t s. unat (t + 1000 - net_now s)" "\<lambda>t s. unat (t + (ucast patience + 1) - net_now s)" reply host port patience
  for reply host port patience
proof
  fix fd :: int and s :: net and t :: u32
  show "unat (t + 1000 - net_now (snd (sk_millis (net_sockets reply) s))) < unat (t + 1000 - net_now s)"
    if "fst (sk_millis (net_sockets reply) s) - t < STREAM_TIMEOUT"
  proof -
    have "net_now s - t < 1000" using that by (simp add: net_sockets_def)
    from wait_goes_down [OF this] show ?thesis by (simp add: net_sockets_def)
  qed
  show "unat (t + (ucast patience + 1) - net_now (snd (sk_millis (net_sockets reply) s))) < unat (t + (ucast patience + 1) - net_now s)"
    if "fst (sk_millis (net_sockets reply) s) - t \<le> ucast patience"
  proof -
    have "net_now s - t < ucast patience + 1" using that by (simp add: net_sockets_def less_after)
    from wait_goes_down [OF this] show ?thesis by (simp add: net_sockets_def)
  qed
qed (auto simp: net_sockets_def net_live_def connection_gone_def wait_goes_down)

interpretation net_out: sending_sockets "net_sockets reply" net_tx for reply
  by unfold_locales (auto simp: net_sockets_def)

section \<open>Properties\<close>


definition ok_server :: "u8 list \<Rightarrow> u8 list \<Rightarrow> u8 list" where
  "ok_server w bs = (if w = [] then []
     else answer_text 49 200 (chars ''OK'') [(chars ''Transfer-Encoding'', chars ''chunked'')] (chunks_text [chars ''done''] @ crlf))"

lemma ok_answer:
  "good_answer 200 (chars ''OK'') [(chars ''Transfer-Encoding'', chars ''chunked'')]"
  "encodes [(chars ''Transfer-Encoding'', chars ''chunked'')] (chars ''done'') (chunks_text [chars ''done''] @ crlf)"
proof -
  have te: "last_value ''Transfer-Encoding'' [(chars ''Transfer-Encoding'', chars ''chunked'')] = Some (chars ''chunked'')"
    by (simp add: last_value_def text_same_def)
  have cl: "last_value ''Content-Length'' [(chars ''Transfer-Encoding'', chars ''chunked'')] = None"
    by (simp add: last_value_def text_same_def chars_def)
  have "good_field (chars ''Transfer-Encoding'', chars ''chunked'')"
    by (simp add: good_field_def chars_def isspace_def text_trim_def)
  then show "good_answer 200 (chars ''OK'') [(chars ''Transfer-Encoding'', chars ''chunked'')]"
    unfolding good_answer_def te by (simp add: text_same_def chars_def isspace_def)
  show "encodes [(chars ''Transfer-Encoding'', chars ''chunked'')] (chars ''done'') (chunks_text [chars ''done''] @ crlf)"
    unfolding encodes_def te cl by (auto intro!: exI [of _ "[chars ''done'']"] simp: chars_def)
qed


text \<open>A post to a server that takes the request and never answers comes back: the client gives up after five
  seconds without a byte, the logger gets the code of a read time-out as a 16 bit number, which is not 200, and an empty
  response, and the connection is closed.\<close>

theorem post_gives_up:
  assumes "stream_sockets sk live free rx tx srank sleft reply host 80 5000" and "free s"
    and "47 \<notin> set host" and "58 \<notin> set host" and "64 \<notin> set host" and "length host < 2 ^ 31"
    and "\<And>w bs. reply w bs = []"
  shows "\<exists>response c s'. post_json (\<lambda>_. True) (wifi_tcp sk) host (47 # p) payload (WiFiClient, s) =
      Some (0xFFF5, response, c, s') \<and> holds_text response [] \<and> c = WiFiClient \<and> free s'"
proof -
  have "wifi_idle free (WiFiClient, s)" using assms(2) by (simp add: wifi_idle_def)
  from stream_sockets.times_out_over_sockets [OF assms(1) this refl refl assms(3-7) assms(7)] show ?thesis
    by (auto simp: wifi_idle_def)
qed

lemma post_gives_up_witness:
  "\<exists>response c s'. post_json (\<lambda>_. True) (wifi_tcp (net_sockets (\<lambda>w bs. []))) (chars ''a.io'') (47 # chars ''log'') (chars ''[]'')
      (WiFiClient, \<lparr>net_open = False, net_rx = [], net_tx = [], net_now = 0xFFFFFFFF\<rparr>) = Some (0xFFF5, response, c, s') \<and>
    holds_text response [] \<and> c = WiFiClient \<and> True"
  by (rule post_gives_up [OF net.stream_sockets_axioms [where reply = "\<lambda>w bs. []" and host = "chars ''a.io''" and port = 80 and patience = 5000]]) (simp_all add: chars_def)



text \<open>C37: What a write of the socket client puts on the wire is a front part of what it was given, whatever the sockets do,
  partial sends, busy sockets and errors included; the number it answers is the length of that part, or 0 when waiting
  for the socket failed.\<close>

theorem wifi_write_sends_front:
  assumes "sending_sockets sk out"
  shows "\<exists>k \<le> length bs. out (snd (snd (wifi_write sk bs (c, s)))) = out s @ take k bs \<and>
    (fst (wifi_write sk bs (c, s)) = k \<or> fst (wifi_write sk bs (c, s)) = 0)"
  using sending_sockets.write_sends [OF assms, of bs "(c, s)"] by simp

lemma wifi_write_sends_front_witness:
  "\<exists>k \<le> length (chars ''abc''). net_tx (snd (snd (wifi_write (net_sockets (\<lambda>w bs. [])) (chars ''abc'')
      (\<lparr>wc_connected = True, wc_socket = Some 3\<rparr>, \<lparr>net_open = True, net_rx = [], net_tx = [], net_now = 0\<rparr>)))) =
      net_tx \<lparr>net_open = True, net_rx = [], net_tx = [], net_now = 0\<rparr> @ take k (chars ''abc'') \<and>
    (fst (wifi_write (net_sockets (\<lambda>w bs. [])) (chars ''abc'')
      (\<lparr>wc_connected = True, wc_socket = Some 3\<rparr>, \<lparr>net_open = True, net_rx = [], net_tx = [], net_now = 0\<rparr>)) = k \<or>
     fst (wifi_write (net_sockets (\<lambda>w bs. [])) (chars ''abc'')
      (\<lparr>wc_connected = True, wc_socket = Some 3\<rparr>, \<lparr>net_open = True, net_rx = [], net_tx = [], net_now = 0\<rparr>)) = 0)"
  by (rule wifi_write_sends_front [OF net_out.sending_sockets_axioms])

end
