(* ===== verification/RtcClock.thy ===== *)
theory RtcClock
  imports Prelude "HOL-Library.Monad_Syntax"
begin

unbundle bit_operations_syntax

text \<open>
  \<open>RTClib\<close>: the calendar of the logger and its clock chip. \<open>DateTime\<close> holds a date of this century in six bytes;
  its conversions from and to Unix time are loops and sums over a table. The MCP7940 keeps the time in
  BCD registers and has the RAM in which the logger mirrors its indices. Small unsigned fields are natural
  numbers, reduced where the code stores them in a narrower type; \<open>uint32_t\<close> sums are taken modulo \<open>2 ^ 32\<close>.
\<close>

section \<open>Calendar\<close>

record DateTime =
  yOff :: nat
  mon :: nat
  mday :: nat
  hh :: nat
  mm :: nat
  ss :: nat

abbreviation (input) SECONDS_FROM_1970_TO_2000 :: nat where
  "SECONDS_FROM_1970_TO_2000 \<equiv> 946684800"

definition daysInMonth :: "nat list" where
  "daysInMonth = [31, 28, 31, 30, 31, 30, 31, 31, 30, 31, 30, 31]"

text \<open>\<open>None\<close> is a read behind the table; the sums are taken in \<open>uint16_t\<close>.\<close>

definition date2days :: "nat \<Rightarrow> nat \<Rightarrow> nat \<Rightarrow> nat option" where
  "date2days y0 m d =
     (let y = (if 2000 \<le> y0 then y0 - 2000 else y0);
          days = d + sum_list (take (m - 1) daysInMonth);
          days' = (if 2 < m \<and> y mod 4 = 0 then days + 1 else days)
      in if m - 1 \<le> length daysInMonth
         then Some ((days' + 365 * y + (y + 3) div 4 + 2 ^ 16 - 1) mod 2 ^ 16) else None)"

definition time2long :: "nat \<Rightarrow> nat \<Rightarrow> nat \<Rightarrow> nat \<Rightarrow> nat" where
  "time2long days h m s = (((days * 24 + h) * 60 + m) * 60 + s) mod 2 ^ 32"

text \<open>The loop over the years: the offset, the days left and the leap flag.\<close>

function year_loop :: "nat \<Rightarrow> nat \<Rightarrow> nat \<times> nat \<times> nat" where
  "year_loop y days =
     (let leap = (if y mod 4 = 0 then 1 else 0)
      in if days < 365 + leap then (y, days, leap) else year_loop ((y + 1) mod 256) (days - (365 + leap)))"
  by pat_completeness auto
termination by (relation "measure (\<lambda>(y, days). days)") auto

declare year_loop.simps [simp del]

text \<open>The loop over the months; \<open>None\<close> is a read behind the table.\<close>

partial_function (option) month_loop :: "nat \<Rightarrow> nat \<Rightarrow> nat \<Rightarrow> (nat \<times> nat) option" where
  "month_loop leap m days = do {
     dpm \<leftarrow> (if m - 1 < length daysInMonth then Some (daysInMonth ! (m - 1)) else None);
     let daysPerMonth = (if leap \<noteq> 0 \<and> m = 2 then dpm + 1 else dpm);
     if days < daysPerMonth then Some (m, days) else month_loop leap (m + 1) (days - daysPerMonth)
   }"

definition DateTime_of_unix :: "nat \<Rightarrow> DateTime option" where
  "DateTime_of_unix t0 =
     (let t = (t0 + 2 ^ 32 - SECONDS_FROM_1970_TO_2000) mod 2 ^ 32;
          s = t mod 60; t1 = t div 60; mi = t1 mod 60; t2 = t1 div 60; h = t2 mod 24;
          days = t2 div 24 mod 2 ^ 16;
          (y, days1, leap) = year_loop 0 days
      in map_option (\<lambda>(m, days2). \<lparr>yOff = y, mon = m, mday = days2 + 1, hh = h, mm = mi, ss = s\<rparr>)
           (month_loop leap 1 days1))"

definition DateTime_of_fields :: "nat \<Rightarrow> nat \<Rightarrow> nat \<Rightarrow> nat \<Rightarrow> nat \<Rightarrow> nat \<Rightarrow> DateTime" where
  "DateTime_of_fields year month day hour minute sec =
     \<lparr>yOff = (if 2000 \<le> year then year - 2000 else year) mod 256, mon = month, mday = day,
      hh = hour, mm = minute, ss = sec\<rparr>"

text \<open>Two digits of text: a first character that is no digit counts as 0. The bytes wrap.\<close>

definition conv2d :: "u8 \<Rightarrow> u8 \<Rightarrow> nat" where
  "conv2d p q = unat ((if 48 \<le> p \<and> p \<le> 57 then 10 * (p - 48) else 0) + q - 48)"

text \<open>The date of the compiler, \<open>Dec 26 2009\<close> and \<open>12:34:56\<close>; another first letter leaves the month as it was.\<close>

definition month_of :: "u8 \<Rightarrow> u8 \<Rightarrow> u8 \<Rightarrow> nat \<Rightarrow> nat" where
  "month_of a b c old =
     (if a = 74 then (if b = 97 then 1 else if c = 110 then 6 else 7)
      else if a = 70 then 2
      else if a = 65 then (if c = 114 then 4 else 8)
      else if a = 77 then (if c = 114 then 3 else 5)
      else if a = 83 then 9 else if a = 79 then 10 else if a = 78 then 11 else if a = 68 then 12 else old)"

definition DateTime_of_text :: "nat \<Rightarrow> u8 list \<Rightarrow> u8 list \<Rightarrow> DateTime" where
  "DateTime_of_text old date time =
     \<lparr>yOff = conv2d (date ! 9) (date ! 10), mon = month_of (date ! 0) (date ! 1) (date ! 2) old,
      mday = conv2d (date ! 4) (date ! 5), hh = conv2d (time ! 0) (time ! 1),
      mm = conv2d (time ! 3) (time ! 4), ss = conv2d (time ! 6) (time ! 7)\<rparr>"

definition dayOfTheWeek :: "DateTime \<Rightarrow> nat option" where
  "dayOfTheWeek dt = do { day \<leftarrow> date2days (yOff dt) (mon dt) (mday dt); Some ((day + 6) mod 7) }"

definition unixtime :: "DateTime \<Rightarrow> nat option" where
  "unixtime dt = do {
     days \<leftarrow> date2days (yOff dt) (mon dt) (mday dt);
     Some ((time2long days (hh dt) (mm dt) (ss dt) + SECONDS_FROM_1970_TO_2000) mod 2 ^ 32)
   }"

definition secondstime :: "DateTime \<Rightarrow> int option" where
  "secondstime dt = do {
     days \<leftarrow> date2days (yOff dt) (mon dt) (mday dt);
     Some (signed_take_bit 31 (int (time2long days (hh dt) (mm dt) (ss dt))))
   }"

text \<open>Time spans are seconds in 32 bits.\<close>

definition TimeSpan_of :: "int \<Rightarrow> int \<Rightarrow> int \<Rightarrow> int \<Rightarrow> int" where
  "TimeSpan_of days hours minutes seconds =
     signed_take_bit 31 (days * 86400 + hours * 3600 + minutes * 60 + seconds)"

definition TimeSpan_plus :: "int \<Rightarrow> int \<Rightarrow> int" where
  "TimeSpan_plus a b = signed_take_bit 31 (a + b)"

definition TimeSpan_minus :: "int \<Rightarrow> int \<Rightarrow> int" where
  "TimeSpan_minus a b = signed_take_bit 31 (a - b)"

definition DateTime_plus :: "DateTime \<Rightarrow> int \<Rightarrow> DateTime option" where
  "DateTime_plus dt span = do { t \<leftarrow> unixtime dt; DateTime_of_unix (nat ((int t + span) mod 2 ^ 32)) }"

definition DateTime_minus_span :: "DateTime \<Rightarrow> int \<Rightarrow> DateTime option" where
  "DateTime_minus_span dt span = do { t \<leftarrow> unixtime dt; DateTime_of_unix (nat ((int t - span) mod 2 ^ 32)) }"

definition DateTime_minus :: "DateTime \<Rightarrow> DateTime \<Rightarrow> int option" where
  "DateTime_minus a b = do {
     ta \<leftarrow> unixtime a; tb \<leftarrow> unixtime b;
     Some (signed_take_bit 31 (int ta - int tb))
   }"

text \<open>The parts of a time span; C truncates towards zero, and the parts are read as 16 and 8 bits.\<close>

definition span_days :: "int \<Rightarrow> int" where
  "span_days seconds = signed_take_bit 15 (sgn seconds * (\<bar>seconds\<bar> div 86400))"

definition span_hours :: "int \<Rightarrow> int" where
  "span_hours seconds = sgn seconds * (\<bar>seconds\<bar> div 3600 mod 24)"

definition span_minutes :: "int \<Rightarrow> int" where
  "span_minutes seconds = sgn seconds * (\<bar>seconds\<bar> div 60 mod 60)"

definition span_seconds :: "int \<Rightarrow> int" where
  "span_seconds seconds = sgn seconds * (\<bar>seconds\<bar> mod 60)"

section \<open>The clock chip\<close>

text \<open>The I2C transactions of the driver: a write from a register on, and a read.\<close>

record 'c rtc_ops =
  bus_write :: "u8 \<Rightarrow> u8 list \<Rightarrow> 'c \<Rightarrow> 'c"
  bus_read :: "u8 \<Rightarrow> nat \<Rightarrow> 'c \<Rightarrow> u8 list \<times> 'c"

abbreviation (input) MCP7940_CONTROL :: u8 where "MCP7940_CONTROL \<equiv> 0x07"
abbreviation (input) MCP7940_NVRAM :: u8 where "MCP7940_NVRAM \<equiv> 0x20"

definition bcd2bin :: "u8 \<Rightarrow> u8" where
  "bcd2bin val = val - 6 * drop_bit 4 val"

definition bin2bcd :: "u8 \<Rightarrow> u8" where
  "bin2bcd val = val + 6 * (val div 10)"

definition isrunning :: "('c, 'z) rtc_ops_scheme \<Rightarrow> 'c \<Rightarrow> bool \<times> 'c" where
  "isrunning io c = (let (bs, c1) = bus_read io 0 1 c in (drop_bit 7 (bs ! 0) = 0, c1))"

definition rtc_adjust :: "('c, 'z) rtc_ops_scheme \<Rightarrow> DateTime \<Rightarrow> 'c \<Rightarrow> 'c" where
  "rtc_adjust io dt c =
     bus_write io 0
       [bin2bcd (of_nat (ss dt)) OR 0x80, bin2bcd (of_nat (mm dt)), bin2bcd (of_nat (hh dt)), 0x8,
        bin2bcd (of_nat (mday dt)), bin2bcd (of_nat (mon dt)), bin2bcd (of_nat (2000 + yOff dt - 2000))] c"

definition rtc_now :: "('c, 'z) rtc_ops_scheme \<Rightarrow> 'c \<Rightarrow> DateTime \<times> 'c" where
  "rtc_now io c =
     (let (bs, c1) = bus_read io 0 7 c
      in (DateTime_of_fields (unat (bcd2bin (bs ! 6)) + 2000) (unat (bcd2bin (bs ! 5))) (unat (bcd2bin (bs ! 4)))
            (unat (bcd2bin (bs ! 2))) (unat (bcd2bin (bs ! 1))) (unat (bcd2bin (bs ! 0 AND 0x7F))), c1))"

definition readSqwPinMode :: "('c, 'z) rtc_ops_scheme \<Rightarrow> 'c \<Rightarrow> u8 \<times> 'c" where
  "readSqwPinMode io c = (let (bs, c1) = bus_read io MCP7940_CONTROL 1 c in (bs ! 0 AND 0x93, c1))"

definition writeSqwPinMode :: "('c, 'z) rtc_ops_scheme \<Rightarrow> u8 \<Rightarrow> 'c \<Rightarrow> 'c" where
  "writeSqwPinMode io mode c = bus_write io MCP7940_CONTROL [mode] c"

definition readnvram :: "('c, 'z) rtc_ops_scheme \<Rightarrow> nat \<Rightarrow> u8 \<Rightarrow> 'c \<Rightarrow> u8 list \<times> 'c" where
  "readnvram io n address c = bus_read io (MCP7940_NVRAM + address) n c"

definition writenvram :: "('c, 'z) rtc_ops_scheme \<Rightarrow> u8 \<Rightarrow> u8 list \<Rightarrow> 'c \<Rightarrow> 'c" where
  "writenvram io address buf c = bus_write io (MCP7940_NVRAM + address) buf c"

definition readnvram_byte :: "('c, 'z) rtc_ops_scheme \<Rightarrow> u8 \<Rightarrow> 'c \<Rightarrow> u8 \<times> 'c" where
  "readnvram_byte io address c = (let (bs, c1) = readnvram io 1 address c in (bs ! 0, c1))"

definition writenvram_byte :: "('c, 'z) rtc_ops_scheme \<Rightarrow> u8 \<Rightarrow> u8 \<Rightarrow> 'c \<Rightarrow> 'c" where
  "writenvram_byte io address data c = writenvram io address [data] c"

section \<open>Days and dates\<close>

text \<open>A date of the years that 32 bits of Unix time reach.\<close>

definition month_length :: "nat \<Rightarrow> nat \<Rightarrow> nat" where
  "month_length y m = daysInMonth ! (m - 1) + (if m = 2 \<and> y mod 4 = 0 then 1 else 0)"

definition valid_DateTime :: "DateTime \<Rightarrow> bool" where
  "valid_DateTime dt \<longleftrightarrow> yOff dt < 107 \<and> 1 \<le> mon dt \<and> mon dt \<le> 12 \<and> 1 \<le> mday dt \<and>
     mday dt \<le> month_length (yOff dt) (mon dt) \<and> hh dt < 24 \<and> mm dt < 60 \<and> ss dt < 60"

text \<open>The days before a year and, in it, before a month.\<close>

definition year_start :: "nat \<Rightarrow> nat" where
  "year_start y = 365 * y + (y + 3) div 4"

definition month_start :: "nat \<Rightarrow> nat \<Rightarrow> nat" where
  "month_start y m = sum_list (take (m - 1) daysInMonth) + (if 2 < m \<and> y mod 4 = 0 then 1 else 0)"

definition year_length :: "nat \<Rightarrow> nat" where
  "year_length y = (if y mod 4 = 0 then 366 else 365)"

lemma year_start_Suc: "year_start (Suc y) = year_start y + year_length y"
  unfolding year_start_def year_length_def by presburger

lemma month_cases:
  fixes m :: nat
  assumes "1 \<le> m" and "m \<le> 12"
  obtains "m = 1" | "m = 2" | "m = 3" | "m = 4" | "m = 5" | "m = 6" | "m = 7" | "m = 8" | "m = 9"
    | "m = 10" | "m = 11" | "m = 12"
  using assms by (simp add: numeral_eq_Suc le_Suc_eq) blast

lemma month_start_Suc: "1 \<le> m \<Longrightarrow> m \<le> 12 \<Longrightarrow> month_start y (Suc m) = month_start y m + month_length y m"
  by (erule (1) month_cases) (simp_all add: month_start_def month_length_def daysInMonth_def)

lemma month_start_1 [simp]: "month_start y (Suc 0) = 0"
  by (simp add: month_start_def)

lemma month_start_13: "month_start y 13 = year_length y"
  by (simp add: month_start_def year_length_def daysInMonth_def)

text \<open>The two loops find the year and the month of a day.\<close>

lemma year_loop_spec:
  assumes "year_loop y days = (y', d, leap)" and "year_start y + days < 60000" and "y < 256"
  shows "year_start y' + d = year_start y + days \<and> d < year_length y' \<and> y' < 200 \<and>
    leap = (if y' mod 4 = 0 then 1 else 0)"
  using assms
proof (induction y days rule: year_loop.induct)
  case (1 y days)
  let ?leap = "if y mod 4 = 0 then 1 else 0 :: nat"
  have len: "365 + ?leap = year_length y" by (simp add: year_length_def)
  have "365 * y < 60000" using "1.prems"(2) by (simp add: year_start_def)
  then have y: "y < 200" by simp
  show ?case
  proof (cases "days < year_length y")
    case True
    then have "year_loop y days = (y, days, ?leap)" by (subst year_loop.simps) (simp only: Let_def len if_True)
    with "1.prems"(1) True y show ?thesis by (simp split: if_splits)
  next
    case False
    then have step: "year_loop y days = year_loop (y + 1) (days - year_length y)"
      using y by (subst year_loop.simps) (simp only: Let_def len if_False, simp)
    have sum: "year_start (y + 1) + (days - year_length y) = year_start y + days"
      using False by (simp add: year_start_Suc)
    have m: "(y + 1) mod 256 = y + 1" using y by simp
    have "year_start y' + d = year_start (y + 1) + (days - year_length y) \<and> d < year_length y' \<and>
        y' < 200 \<and> leap = (if y' mod 4 = 0 then 1 else 0)"
    proof (rule "1.IH" [OF refl, unfolded len m])
      show "\<not> days < year_length y" by fact
      show "year_loop (y + 1) (days - year_length y) = (y', d, leap)" using "1.prems"(1) step by simp
      show "year_start (y + 1) + (days - year_length y) < 60000" unfolding sum using "1.prems"(2) .
      show "y + 1 < 256" using y by simp
    qed
    then show ?thesis unfolding sum .
  qed
qed

lemma month_loop_spec:
  assumes "month_start y m + days < year_length y" and "1 \<le> m" and "m \<le> 12"
    and "leap = (if y mod 4 = 0 then 1 else 0)"
  shows "\<exists>m' d. month_loop leap m days = Some (m', d) \<and> month_start y m' + d = month_start y m + days \<and>
    1 \<le> m' \<and> m' \<le> 12 \<and> d < month_length y m'"
  using assms
proof (induction "13 - m" arbitrary: m days)
  case (Suc n)
  have i: "m - 1 < length daysInMonth" using Suc.prems(2,3) by (simp add: daysInMonth_def)
  have len: "(if leap \<noteq> 0 \<and> m = 2 then daysInMonth ! (m - 1) + 1 else daysInMonth ! (m - 1)) = month_length y m"
    using Suc.prems(4) by (simp add: month_length_def)
  have run: "month_loop leap m days =
      (if days < month_length y m then Some (m, days) else month_loop leap (m + 1) (days - month_length y m))"
    by (subst month_loop.simps) (simp only: i if_True bind.bind_lunit Let_def len)
  show ?case
  proof (cases "days < month_length y m")
    case True
    then show ?thesis using run Suc.prems(2,3) by simp
  next
    case False
    have next_month: "month_start y (Suc m) = month_start y m + month_length y m"
      using Suc.prems(2,3) by (rule month_start_Suc)
    then have sum: "month_start y (m + 1) + (days - month_length y m) = month_start y m + days"
      using False by simp
    have "m \<noteq> 12" using Suc.prems(1) False next_month month_start_13 [of y] by auto
    then have "m + 1 \<le> 12" "n = 13 - (m + 1)" using Suc.prems(3) Suc.hyps(2) by simp_all
    from Suc.hyps(1) [OF this(2), of "days - month_length y m"] this(1) Suc.prems(1,4) sum
    show ?thesis using run False by simp
  qed
qed simp

lemma wrap_pred:
  fixes n :: nat
  assumes "1 \<le> n" and "n - 1 < 2 ^ 16"
  shows "(n + 2 ^ 16 - 1) mod 2 ^ 16 = n - 1"
proof -
  have "n + 2 ^ 16 - 1 = n - 1 + 2 ^ 16" using assms(1) by simp
  with assms(2) show ?thesis by (simp only: mod_add_self2 mod_less)
qed

lemma date2days_start:
  assumes "y < 170" and "1 \<le> d" and "m \<le> 13" and "month_start y m + d \<le> year_length y"
  shows "date2days y m d = Some (year_start y + month_start y m + d - 1)"
proof -
  let ?n = "year_start y + month_start y m + d"
  have "year_start y \<le> 62122" using assms(1) div_le_mono [of "y + 3" 172 4] by (simp add: year_start_def)
  moreover have "year_length y \<le> 366" by (simp add: year_length_def)
  ultimately have "?n - 1 < 2 ^ 16" and "1 \<le> ?n" using assms(2,4) by simp_all
  then have "(?n + 2 ^ 16 - 1) mod 2 ^ 16 = ?n - 1" by (rule wrap_pred [rotated])
  moreover have "date2days y m d = Some ((?n + 2 ^ 16 - 1) mod 2 ^ 16)"
  proof -
    have in_table: "m - 1 \<le> length daysInMonth" using assms(3) by (simp add: daysInMonth_def)
    have y: "(if 2000 \<le> y then y - 2000 else y) = y" using assms(1) by simp
    have "(if 2 < m \<and> y mod 4 = 0 then d + sum_list (take (m - 1) daysInMonth) + 1
          else d + sum_list (take (m - 1) daysInMonth)) + 365 * y + (y + 3) div 4 = ?n"
      by (simp add: year_start_def month_start_def)
    then show ?thesis unfolding date2days_def Let_def y by (simp only: in_table if_True)
  qed
  ultimately show ?thesis by simp
qed

text \<open>The time of a date, without the machine's integers.\<close>

definition day_number :: "DateTime \<Rightarrow> nat" where
  "day_number dt = year_start (yOff dt) + month_start (yOff dt) (mon dt) + mday dt - 1"

definition seconds_of :: "DateTime \<Rightarrow> nat" where
  "seconds_of dt = 86400 * day_number dt + (3600 * hh dt + (60 * mm dt + ss dt)) + SECONDS_FROM_1970_TO_2000"

lemma unix_date:
  assumes "SECONDS_FROM_1970_TO_2000 \<le> t" and "t < 2 ^ 32"
  shows "\<exists>dt. DateTime_of_unix t = Some dt \<and> valid_DateTime dt \<and> seconds_of dt = t"
proof -
  define s where "s = t - SECONDS_FROM_1970_TO_2000"
  have t: "(t + 2 ^ 32 - SECONDS_FROM_1970_TO_2000) mod 2 ^ 32 = s"
  proof -
    have "t + 2 ^ 32 - SECONDS_FROM_1970_TO_2000 = s + 2 ^ 32" using assms(1) by (simp add: s_def)
    then show ?thesis using assms(2) by (simp only: mod_add_self2) (simp add: s_def)
  qed
  define days where "days = s div 60 div 60 div 24"
  have "s < 2 ^ 32 - 946684800" using assms by (simp add: s_def)
  then have lt: "days < 38755" by (simp add: days_def flip: div_mult2_eq)
  obtain y d leap where yl: "year_loop 0 days = (y, d, leap)" by (metis prod_cases3)
  have "year_start 0 = 0" by (simp add: year_start_def)
  then have y: "year_start y + d = days" "d < year_length y" "leap = (if y mod 4 = 0 then 1 else 0)"
    using year_loop_spec [OF yl] lt by simp_all
  then have "year_start y < 38755" using lt by simp
  then have y110: "y < 107" by (simp add: year_start_def)
  obtain m k where ml: "month_loop leap 1 d = Some (m, k)" "month_start y m + k = d" "1 \<le> m" "m \<le> 12"
    "k < month_length y m"
    using month_loop_spec [of y 1 d leap] y by auto
  let ?dt = "\<lparr>yOff = y, mon = m, mday = k + 1, hh = s div 60 div 60 mod 24, mm = s div 60 mod 60, ss = s mod 60\<rparr>"
  have made: "DateTime_of_unix t = Some ?dt"
    unfolding DateTime_of_unix_def Let_def t using lt by (simp add: yl ml(1) [simplified] flip: days_def)
  have valid: "valid_DateTime ?dt" using y110 ml(3-5) by (simp add: valid_DateTime_def)
  have "day_number ?dt = days" using y ml(2) by (simp add: day_number_def)
  moreover have "86400 * days + (3600 * (s div 60 div 60 mod 24) + (60 * (s div 60 mod 60) + s mod 60)) = s"
  proof -
    have "s = 60 * (s div 60) + s mod 60" "s div 60 = 60 * (s div 60 div 60) + s div 60 mod 60"
      "s div 60 div 60 = 24 * days + s div 60 div 60 mod 24"
      unfolding days_def by (simp_all only: mult_div_mod_eq)
    then show ?thesis by linarith
  qed
  moreover have "s + SECONDS_FROM_1970_TO_2000 = t" using assms(1) by (simp add: s_def)
  ultimately have "seconds_of ?dt = t" by (simp add: seconds_of_def)
  with made valid show ?thesis by blast
qed

text \<open>The days of two years, and of two months of a year, do not overlap, so a time has one date.\<close>

lemma year_start_mono: "y < y' \<Longrightarrow> year_start y + year_length y \<le> year_start y'"
  by (induction y' rule: less_Suc_induct [of y], auto simp: year_start_Suc)

lemma month_start_mono:
  assumes "m < m'" and "1 \<le> m" and "m' \<le> 12"
  shows "month_start y m + month_length y m \<le> month_start y m'"
  using assms
proof (induction m')
  case (Suc m')
  then show ?case by (cases "m = m'") (simp_all add: month_start_Suc less_Suc_eq)
qed simp

lemma year_unique:
  assumes "year_start y + d = year_start y' + d'" and "d < year_length y" and "d' < year_length y'"
  shows "y = y' \<and> d = d'"
  using assms year_start_mono [of y y'] year_start_mono [of y' y] by (cases y y' rule: linorder_cases) auto

lemma month_unique:
  assumes "month_start y m + d = month_start y m' + d'" and "d < month_length y m" and "d' < month_length y m'"
    and "1 \<le> m" "m \<le> 12" "1 \<le> m'" "m' \<le> 12"
  shows "m = m' \<and> d = d'"
  using assms month_start_mono [of m m' y] month_start_mono [of m' m y] by (cases m m' rule: linorder_cases) auto

lemma month_in_year:
  assumes "1 \<le> m" and "m \<le> 12"
  shows "month_start y m + month_length y m \<le> year_length y"
  using month_start_mono [of m 12 y] month_start_Suc [of 12 y] month_start_13 [of y] assms
  by (cases "m = 12") simp_all

lemma date2days_valid:
  assumes "valid_DateTime dt"
  shows "date2days (yOff dt) (mon dt) (mday dt) = Some (day_number dt)"
  unfolding day_number_def
  using assms month_in_year [of "mon dt" "yOff dt"] by (intro date2days_start) (auto simp: valid_DateTime_def)

lemma day_number_unique:
  assumes "valid_DateTime a" and "valid_DateTime b" and "day_number a = day_number b"
  shows "yOff a = yOff b \<and> mon a = mon b \<and> mday a = mday b"
proof -
  note v = assms(1,2) [unfolded valid_DateTime_def]
  define i j where "i = mday a - 1" and "j = mday b - 1"
  have d: "mday a = i + 1" "mday b = j + 1" using v by (simp_all add: i_def j_def)
  have a: "month_start (yOff a) (mon a) + i < year_length (yOff a)" "i < month_length (yOff a) (mon a)"
    using month_in_year [of "mon a" "yOff a"] v d by auto
  have b: "month_start (yOff b) (mon b) + j < year_length (yOff b)" "j < month_length (yOff b) (mon b)"
    using month_in_year [of "mon b" "yOff b"] v d by auto
  have "year_start (yOff a) + (month_start (yOff a) (mon a) + i) = year_start (yOff b) + (month_start (yOff b) (mon b) + j)"
    using assms(3) d by (simp add: day_number_def)
  from year_unique [OF this a(1) b(1)] have y: "yOff a = yOff b"
    and "month_start (yOff a) (mon a) + i = month_start (yOff a) (mon b) + j" by auto
  from month_unique [OF this(2) a(2)] b(2) v y have "mon a = mon b \<and> i = j" by simp
  with y d show ?thesis by simp
qed

lemma time2long_valid:
  assumes "valid_DateTime dt" and "seconds_of dt < 2 ^ 32"
  shows "unixtime dt = Some (seconds_of dt)"
proof -
  let ?n = "86400 * day_number dt + (3600 * hh dt + (60 * mm dt + ss dt))"
  have "((day_number dt * 24 + hh dt) * 60 + mm dt) * 60 + ss dt = ?n" by simp
  moreover have "?n < 2 ^ 32" using assms(2) by (simp add: seconds_of_def)
  ultimately have "time2long (day_number dt) (hh dt) (mm dt) (ss dt) = ?n"
    unfolding time2long_def by (simp only: mod_less)
  with assms(2) show ?thesis by (simp add: unixtime_def date2days_valid [OF assms(1)] seconds_of_def)
qed

lemma seconds_of_bound:
  assumes "valid_DateTime dt" and "yOff dt < 106"
  shows "seconds_of dt < 2 ^ 32"
proof -
  note v = assms(1) [unfolded valid_DateTime_def]
  have "year_start (yOff dt) + year_length (yOff dt) \<le> year_start 106"
    using year_start_mono [OF assms(2)] .
  moreover have "year_start 106 = 38717" by (simp add: year_start_def)
  moreover have "day_number dt < year_start (yOff dt) + year_length (yOff dt)"
    unfolding day_number_def using month_in_year [of "mon dt" "yOff dt"] v by linarith
  ultimately have "day_number dt \<le> 38716" by simp
  then show ?thesis using v by (simp add: seconds_of_def)
qed

lemma radix_unique:
  fixes m a b r q :: nat
  assumes "m * a + r = m * b + q" and "r < m" and "q < m"
  shows "a = b \<and> r = q"
proof -
  have "(m * a + r) div m = a" and "(m * b + q) div m = b" using assms(2,3) by simp_all
  with assms(1) show ?thesis by simp
qed

lemma seconds_of_unique:
  assumes "valid_DateTime a" and "valid_DateTime b" and "seconds_of a = seconds_of b"
  shows "a = b"
proof -
  note v = assms(1,2) [unfolded valid_DateTime_def]
  define ra where "ra = 3600 * hh a + (60 * mm a + ss a)"
  define rb where "rb = 3600 * hh b + (60 * mm b + ss b)"
  have "86400 * day_number a + ra = 86400 * day_number b + rb"
    using assms(3) by (simp add: seconds_of_def ra_def rb_def)
  moreover have "ra < 86400" "rb < 86400" using v by (simp_all add: ra_def rb_def)
  ultimately have day: "day_number a = day_number b" and "ra = rb" using radix_unique by blast+
  then have "60 * (60 * hh a + mm a) + ss a = 60 * (60 * hh b + mm b) + ss b"
    by (simp add: ra_def rb_def)
  moreover have "ss a < 60" "ss b < 60" using v by simp_all
  ultimately have "60 * hh a + mm a = 60 * hh b + mm b" and s: "ss a = ss b" using radix_unique by blast+
  moreover have "mm a < 60" "mm b < 60" using v by simp_all
  ultimately have "hh a = hh b" and "mm a = mm b" using radix_unique by blast+
  with s day_number_unique [OF assms(1,2) day] show ?thesis by (cases a; cases b) simp
qed

section \<open>The chip of the data sheet\<close>

text \<open>Bit 5 of the month register is the chip's own: it reads 1 in a leap year.\<close>

definition leap_year_reg :: "u8 \<Rightarrow> bool" where
  "leap_year_reg y \<longleftrightarrow> (10 * unat (drop_bit 4 y) + unat (y AND 0x0F)) mod 4 = 0"

definition month_reg :: "u8 \<Rightarrow> u8 \<Rightarrow> u8" where
  "month_reg m y = (m AND 0x1F) OR (if leap_year_reg y then 0x20 else 0)"

text \<open>What the driver relies on: seven registers written read back at once, less the bits the chip lacks or
  keeps for itself, and the 64 bytes from \<open>0x20\<close> on are memory.\<close>

locale rtc_chip =
  fixes io :: "('c, 'z) rtc_ops_scheme" and sram :: "'c \<Rightarrow> u8 list"
  assumes length_sram: "length (sram c) = 64"
    and time_read: "length bs = 7 \<Longrightarrow> \<exists>w. fst (bus_read io 0 7 (bus_write io 0 bs c)) =
      [bs ! 0, bs ! 1 AND 0x7F, bs ! 2 AND 0x7F, w, bs ! 4 AND 0x3F, month_reg (bs ! 5) (bs ! 6), bs ! 6]"
    and time_keeps: "length bs = 7 \<Longrightarrow> sram (bus_write io 0 bs c) = sram c"
    and sram_write: "off + length bs \<le> 64 \<Longrightarrow> sram (bus_write io (0x20 + of_nat off) bs c) = store (sram c) off bs"
    and sram_read: "off + n \<le> 64 \<Longrightarrow> fst (bus_read io (0x20 + of_nat off) n c) = load (sram c) off n"
    and read_keeps: "sram (snd (bus_read io reg n c)) = sram c"

text \<open>A chip with 96 registers, its address counter staying in its block.\<close>

definition mcp_next :: "nat \<Rightarrow> nat" where
  "mcp_next a = (if a = 0x1F then 0 else if a = 0x5F then 0x20 else a + 1)"

definition mcp_reg :: "nat \<Rightarrow> (nat \<Rightarrow> u8) \<Rightarrow> u8" where
  "mcp_reg a r =
     (if a = 1 \<or> a = 2 then r a AND 0x7F else if a = 4 then r a AND 0x3F
      else if a = 5 then month_reg (r 5) (r 6) else r a)"

primrec mcp_write :: "nat \<Rightarrow> u8 list \<Rightarrow> (nat \<Rightarrow> u8) \<Rightarrow> (nat \<Rightarrow> u8)" where
  "mcp_write a [] r = r"
| "mcp_write a (b # bs) r = mcp_write (mcp_next a) bs (r(a := b))"

primrec mcp_read :: "nat \<Rightarrow> nat \<Rightarrow> (nat \<Rightarrow> u8) \<Rightarrow> u8 list" where
  "mcp_read a 0 r = []"
| "mcp_read a (Suc n) r = mcp_reg a r # mcp_read (mcp_next a) n r"

definition mcp7940 :: "(nat \<Rightarrow> u8) rtc_ops" where
  "mcp7940 = \<lparr>bus_write = \<lambda>reg bs r. mcp_write (unat reg) bs r,
     bus_read = \<lambda>reg n r. (mcp_read (unat reg) n r, r)\<rparr>"

definition mcp_sram :: "(nat \<Rightarrow> u8) \<Rightarrow> u8 list" where
  "mcp_sram r = map r [0x20..<0x60]"

lemma mcp_write_sram:
  "0x20 \<le> a \<Longrightarrow> a + length bs \<le> 0x60 \<Longrightarrow>
    mcp_write a bs r i = (if a \<le> i \<and> i < a + length bs then bs ! (i - a) else r i)"
proof (induction bs arbitrary: a r)
  case (Cons b bs)
  show ?case
  proof (cases bs)
    case Nil
    then show ?thesis by auto
  next
    case (Cons b' bs')
    then have "mcp_next a = a + 1" using Cons.prems by (simp add: mcp_next_def)
    moreover have "mcp_write (a + 1) bs (r(a := b)) i =
        (if a + 1 \<le> i \<and> i < a + 1 + length bs then bs ! (i - (a + 1)) else (r(a := b)) i)"
      using Cons.prems by (intro Cons.IH) simp_all
    ultimately show ?thesis by (auto simp: nth_Cons')
  qed
qed auto

lemma mcp_read_sram:
  "0x20 \<le> a \<Longrightarrow> a + n \<le> 0x60 \<Longrightarrow> mcp_read a n r = map r [a..<a + n]"
proof (induction n arbitrary: a)
  case (Suc n)
  then have "mcp_reg a r = r a" by (simp add: mcp_reg_def)
  moreover have "mcp_read (mcp_next a) n r = map r [Suc a..<a + Suc n]"
  proof (cases "n = 0")
    case False
    then have "mcp_next a = Suc a" using Suc.prems by (simp add: mcp_next_def)
    then show ?thesis using Suc.IH [of "Suc a"] Suc.prems by simp
  qed simp
  moreover have "[a..<a + Suc n] = a # [Suc a..<a + Suc n]" by (simp add: upt_conv_Cons del: upt_Suc)
  ultimately show ?case by (simp del: upt_Suc)
qed simp

lemma unat_sram: "off \<le> 64 \<Longrightarrow> unat (0x20 + of_nat off :: u8) = 0x20 + off"
  by (subst unat_word_ariths) (simp add: unat_of_nat)

lemma mcp_read_numeral [simp]:
  "mcp_read a (numeral k) r = mcp_reg a r # mcp_read (mcp_next a) (pred_numeral k) r"
  by (simp add: numeral_eq_Suc)

lemma seven_bytes:
  assumes "length bs = 7"
  obtains b0 b1 b2 b3 b4 b5 b6 where "bs = [b0, b1, b2, b3, b4, b5, b6]"
  using assms by (auto simp: numeral_eq_Suc length_Suc_conv)

lemma mcp_next_time: "mcp_next 0 = 1" "mcp_next 1 = 2" "mcp_next 2 = 3" "mcp_next 3 = 4" "mcp_next 4 = 5"
    "mcp_next 5 = 6"
  by (simp_all add: mcp_next_def)

lemma mcp_write_seven:
  "mcp_write 0 [b0, b1, b2, b3, b4, b5, b6] r = r(0 := b0, 1 := b1, 2 := b2, 3 := b3, 4 := b4, 5 := b5, 6 := b6)"
  by (simp only: mcp_write.simps mcp_next_time)

lemma mcp_read_seven:
  "mcp_read 0 7 r = [r 0, r 1 AND 0x7F, r 2 AND 0x7F, r 3, r 4 AND 0x3F, month_reg (r 5) (r 6), r 6]"
proof -
  have "mcp_read 0 7 r = map (\<lambda>a. mcp_reg a r) [0, 1, 2, 3, 4, 5, 6]"
    by (simp only: mcp_read_numeral pred_numeral_simps mcp_read.simps mcp_next_time list.map BitM.simps
        arith_simps num.simps)
  then show ?thesis by (simp add: mcp_reg_def)
qed

interpretation mcp: rtc_chip mcp7940 mcp_sram
proof
  fix c :: "nat \<Rightarrow> u8" and bs :: "u8 list" and reg :: u8 and off n :: nat
  show "length (mcp_sram c) = 64" by (simp add: mcp_sram_def)
  show "mcp_sram (snd (bus_read mcp7940 reg n c)) = mcp_sram c" by (simp add: mcp7940_def)
  show "mcp_sram (bus_write mcp7940 0 bs c) = mcp_sram c" if "length bs = 7"
    using that by (elim seven_bytes) (simp add: mcp_sram_def mcp7940_def mcp_write_seven del: mcp_write.simps)
  show "\<exists>w. fst (bus_read mcp7940 0 7 (bus_write mcp7940 0 bs c)) =
      [bs ! 0, bs ! 1 AND 0x7F, bs ! 2 AND 0x7F, w, bs ! 4 AND 0x3F, month_reg (bs ! 5) (bs ! 6), bs ! 6]"
    if "length bs = 7"
    using that by (elim seven_bytes) (simp add: mcp7940_def mcp_write_seven mcp_read_seven del: mcp_write.simps
        mcp_read_numeral)
  show "mcp_sram (bus_write mcp7940 (0x20 + of_nat off) bs c) = store (mcp_sram c) off bs" if "off + length bs \<le> 64"
  proof (rule nth_equalityI)
    show "length (mcp_sram (bus_write mcp7940 (0x20 + of_nat off) bs c)) = length (store (mcp_sram c) off bs)"
      using that by (simp add: mcp_sram_def)
  next
    fix i assume "i < length (mcp_sram (bus_write mcp7940 (0x20 + of_nat off) bs c))"
    then have "i < 64" by (simp add: mcp_sram_def)
    with that show "mcp_sram (bus_write mcp7940 (0x20 + of_nat off) bs c) ! i = store (mcp_sram c) off bs ! i"
      by (simp add: mcp_sram_def mcp7940_def unat_sram mcp_write_sram nth_store del: upt_rec_numeral)
  qed
  show "fst (bus_read mcp7940 (0x20 + of_nat off) n c) = load (mcp_sram c) off n" if "off + n \<le> 64"
    using that by (simp add: mcp_sram_def mcp7940_def unat_sram mcp_read_sram load_def drop_map take_map
        del: upt_rec_numeral)
qed

section \<open>Setting and reading the clock\<close>

text \<open>The BCD bytes of the calendar, checked number by number.\<close>

lemma bcd_all:
  "list_all (\<lambda>n. unat (bcd2bin (bin2bcd (of_nat n))) = n \<and> leap_year_reg (bin2bcd (of_nat n)) = (n mod 4 = 0)) [0..<100]"
  by code_simp

lemma bcd_minutes:
  "list_all (\<lambda>n. bin2bcd (of_nat n) AND 0x7F = bin2bcd (of_nat n) \<and>
     (bin2bcd (of_nat n) OR 0x80) AND 0x7F = bin2bcd (of_nat n)) [0..<60]"
  by code_simp

lemma bcd_days: "list_all (\<lambda>n. bin2bcd (of_nat n) AND 0x3F = bin2bcd (of_nat n)) [0..<32]"
  by code_simp

lemma bcd_months:
  "list_all (\<lambda>n. bin2bcd (of_nat n) AND 0x1F = bin2bcd (of_nat n) \<and>
     unat (bcd2bin (bin2bcd (of_nat n) OR 0x20)) = n + 20) [1..<13]"
  by code_simp

lemma bcd_round_trip: "n < 100 \<Longrightarrow> unat (bcd2bin (bin2bcd (of_nat n))) = n"
  and leap_year_bcd: "n < 100 \<Longrightarrow> leap_year_reg (bin2bcd (of_nat n)) = (n mod 4 = 0)"
  using bcd_all by (simp_all add: list_all_iff)

lemma bcd_minute: "n < 60 \<Longrightarrow> bin2bcd (of_nat n) AND 0x7F = bin2bcd (of_nat n)"
  and bcd_second: "n < 60 \<Longrightarrow> (bin2bcd (of_nat n) OR 0x80) AND 0x7F = bin2bcd (of_nat n)"
  using bcd_minutes by (simp_all add: list_all_iff)

lemma bcd_day: "n < 32 \<Longrightarrow> bin2bcd (of_nat n) AND 0x3F = bin2bcd (of_nat n)"
  using bcd_days by (simp add: list_all_iff)

lemma bcd_month: "1 \<le> n \<Longrightarrow> n < 13 \<Longrightarrow> bin2bcd (of_nat n) AND 0x1F = bin2bcd (of_nat n)"
  and bcd_leap_month: "1 \<le> n \<Longrightarrow> n < 13 \<Longrightarrow> unat (bcd2bin (bin2bcd (of_nat n) OR 0x20)) = n + 20"
  using bcd_months by (simp_all add: list_all_iff)

text \<open>The date the driver reads where the chip holds \<open>dt\<close>: in a leap year the chip's own bit counts as twenty
  months.\<close>

definition as_read :: "DateTime \<Rightarrow> DateTime" where
  "as_read dt = (if yOff dt mod 4 = 0 then dt\<lparr>mon := mon dt + 20\<rparr> else dt)"

lemma month_length_le: "1 \<le> m \<Longrightarrow> m \<le> 12 \<Longrightarrow> month_length y m \<le> 31"
  by (erule (1) month_cases) (simp_all add: month_length_def daysInMonth_def)

context rtc_chip
begin

lemma now_after_adjust:
  assumes "valid_DateTime dt" and "yOff dt < 100"
  shows "fst (rtc_now io (rtc_adjust io dt c)) = as_read dt"
proof -
  let ?b = "\<lambda>n. bin2bcd (of_nat n)"
  note v = assms(1) [unfolded valid_DateTime_def]
  have m: "1 \<le> mon dt" "mon dt < 13" and d: "mday dt < 32"
    using v month_length_le [of "mon dt" "yOff dt"] by auto
  obtain w where r: "fst (bus_read io 0 7 (rtc_adjust io dt c)) =
      [?b (ss dt) OR 0x80, ?b (mm dt), ?b (hh dt), w, ?b (mday dt), month_reg (?b (mon dt)) (?b (yOff dt)), ?b (yOff dt)]"
    using time_read [of "[?b (ss dt) OR 0x80, ?b (mm dt), ?b (hh dt), 0x8, ?b (mday dt), ?b (mon dt), ?b (yOff dt)]" c]
      v d by (auto simp: rtc_adjust_def bcd_minute bcd_day)
  have month: "unat (bcd2bin (month_reg (?b (mon dt)) (?b (yOff dt)))) = mon (as_read dt)"
    using m assms(2) by (simp add: month_reg_def leap_year_bcd bcd_month bcd_leap_month bcd_round_trip as_read_def)
  have "fst (rtc_now io (rtc_adjust io dt c)) =
      \<lparr>yOff = yOff dt, mon = mon (as_read dt), mday = mday dt, hh = hh dt, mm = mm dt, ss = ss dt\<rparr>"
    using v d assms(2) month by (simp add: rtc_now_def split_beta r DateTime_of_fields_def bcd_second bcd_round_trip)
  also have "\<dots> = as_read dt" by (cases dt) (simp add: as_read_def)
  finally show ?thesis .
qed

lemma adjust_keeps_sram: "sram (rtc_adjust io dt c) = sram c"
  by (simp add: rtc_adjust_def time_keeps)

lemma nvram_window:
  assumes "k + length bs \<le> 32"
  shows "drop 32 (sram (writenvram io (MCP7940_NVRAM + of_nat k) bs c)) = store (drop 32 (sram c)) k bs"
proof -
  have "(0x20 + (0x20 + of_nat k) :: u8) = 0x20 + of_nat (32 + k)" by simp
  then have "sram (writenvram io (MCP7940_NVRAM + of_nat k) bs c) = store (sram c) (32 + k) bs"
    unfolding writenvram_def using assms by (simp only: sram_write)
  then show ?thesis using length_sram [of c] assms by (simp add: store_def drop_take ac_simps)
qed

lemma nvram_read:
  assumes "k + n \<le> 32"
  shows "fst (readnvram io n (MCP7940_NVRAM + of_nat k) c) = load (drop 32 (sram c)) k n"
proof -
  have "(0x20 + (0x20 + of_nat k) :: u8) = 0x20 + of_nat (32 + k)" by simp
  then have "fst (readnvram io n (MCP7940_NVRAM + of_nat k) c) = load (sram c) (32 + k) n"
    unfolding readnvram_def using assms by (simp only: sram_read)
  then show ?thesis by (simp add: load_def add.commute)
qed

end

section \<open>Properties\<close>



text \<open>C26: The clock that is set and read at once gives the date back in the years 2000 to 2099 that are no leap
  years; in a leap year the driver keeps the chip's leap bit in the month, so \<open>now\<close> answers a month twenty too
  high, whose Unix time reads behind the table of months.\<close>

theorem clock_set_and_read:
  assumes "rtc_chip io sram" and "valid_DateTime dt" and "yOff dt < 100"
  shows "fst (rtc_now io (rtc_adjust io dt c)) = (if yOff dt mod 4 = 0 then dt\<lparr>mon := mon dt + 20\<rparr> else dt) \<and>
    (unixtime (fst (rtc_now io (rtc_adjust io dt c))) = None) = (yOff dt mod 4 = 0)"
proof -
  have r: "fst (rtc_now io (rtc_adjust io dt c)) = as_read dt"
    using assms by (rule rtc_chip.now_after_adjust)
  have "unixtime dt \<noteq> None"
    using date2days_valid [OF assms(2)] by (simp add: unixtime_def)
  moreover have "unixtime (dt\<lparr>mon := mon dt + 20\<rparr>) = None"
    using assms(2) by (simp add: unixtime_def date2days_def valid_DateTime_def daysInMonth_def Let_def)
  ultimately show ?thesis unfolding r by (simp add: as_read_def)
qed


section \<open>Witnesses\<close>



theorem clock_set_and_read_witness:
  "fst (rtc_now mcp7940 (rtc_adjust mcp7940 \<lparr>yOff = 20, mon = 3, mday = 1, hh = 12, mm = 0, ss = 5\<rparr> (\<lambda>a. 0))) =
     \<lparr>yOff = 20, mon = 23, mday = 1, hh = 12, mm = 0, ss = 5\<rparr>"
  using clock_set_and_read [OF mcp.rtc_chip_axioms, of "\<lparr>yOff = 20, mon = 3, mday = 1, hh = 12, mm = 0, ss = 5\<rparr>" "\<lambda>a. 0"]
  by (simp add: valid_DateTime_def month_length_def daysInMonth_def)


end
