(* ===== verification/CTime.thy ===== *)
theory CTime
  imports RtcClock
begin

text \<open>
  The calendar of the C library, as \<open>main.cpp\<close> and the NTP client use it: \<open>localtime\<close> without a time zone
  (none is set) and \<open>mktime\<close>, on the Gregorian calendar and with months out of range carried into the year.
  They are related to the dates of \<open>RTClib\<close>, whose years are leap years every four years.
\<close>

section \<open>Broken-down time\<close>

record tm =
  tm_year :: int
  tm_mon :: int
  tm_mday :: int
  tm_hour :: int
  tm_min :: int
  tm_sec :: int

definition gregorian_leap :: "int \<Rightarrow> bool" where
  "gregorian_leap y \<longleftrightarrow> y mod 4 = 0 \<and> (y mod 100 \<noteq> 0 \<or> y mod 400 = 0)"

definition year_days :: "int \<Rightarrow> int" where
  "year_days y = (if gregorian_leap y then 366 else 365)"

definition month_table :: "int \<Rightarrow> nat list" where
  "month_table y = [31, if gregorian_leap y then 29 else 28, 31, 30, 31, 30, 31, 31, 30, 31, 30, 31]"

definition month_days :: "int \<Rightarrow> nat \<Rightarrow> int" where
  "month_days y m = int (month_table y ! m)"

text \<open>The days from 1 January 1970 to the first day of a year, and from there to the first day of a month.\<close>

definition days_to_year :: "int \<Rightarrow> int" where
  "days_to_year y = 365 * (y - 1970) + (y - 1969) div 4 - (y - 1901) div 100 + (y - 1601) div 400"

definition days_to_month :: "int \<Rightarrow> nat \<Rightarrow> int" where
  "days_to_month y m = int (sum_list (take m (month_table y)))"

text \<open>The year of a day, and the month of a day of a year.\<close>

function find_year :: "int \<Rightarrow> int \<Rightarrow> int \<times> int" where
  "find_year y d =
     (if d < 0 then find_year (y - 1) (d + year_days (y - 1))
      else if year_days y \<le> d then find_year (y + 1) (d - year_days y)
      else (y, d))"
  by pat_completeness auto
termination
  by (relation "measures [\<lambda>(y, d). if d < 0 then 1 else 0, \<lambda>(y, d). nat \<bar>d\<bar>]") (auto simp: year_days_def split: if_splits)

declare find_year.simps [simp del]

function find_month :: "int \<Rightarrow> nat \<Rightarrow> int \<Rightarrow> nat \<times> int" where
  "find_month y m d = (if m < 11 \<and> month_days y m \<le> d then find_month y (m + 1) (d - month_days y m) else (m, d))"
  by pat_completeness auto
termination by (relation "measure (\<lambda>(y, m, d). 11 - m)") auto

declare find_month.simps [simp del]

definition localtime :: "int \<Rightarrow> tm" where
  "localtime t =
     (let (y, d) = find_year 1970 (t div 86400); (m, k) = find_month y 0 d; s = t mod 86400
      in \<lparr>tm_year = y - 1900, tm_mon = int m, tm_mday = k + 1,
          tm_hour = s div 3600, tm_min = s div 60 mod 60, tm_sec = s mod 60\<rparr>)"

definition tm_seconds :: "tm \<Rightarrow> int" where
  "tm_seconds t =
     (let y = tm_year t + 1900 + tm_mon t div 12; m = nat (tm_mon t mod 12)
      in (days_to_year y + days_to_month y m + tm_mday t - 1) * 86400 +
         tm_hour t * 3600 + tm_min t * 60 + tm_sec t)"

definition mktime :: "tm \<Rightarrow> u32" where
  "mktime t = of_int (tm_seconds t)"

text \<open>The fields of a date, as \<open>main.cpp\<close> copies them.\<close>

definition tm_of_DateTime :: "DateTime \<Rightarrow> tm" where
  "tm_of_DateTime dt =
     \<lparr>tm_year = int (2000 + yOff dt) - 1900, tm_mon = int (mon dt) - 1, tm_mday = int (mday dt),
      tm_hour = int (hh dt), tm_min = int (mm dt), tm_sec = int (ss dt)\<rparr>"

section \<open>Years\<close>

lemma div_plus_one:
  fixes x n :: int
  assumes "0 < n"
  shows "(x + 1) div n = x div n + (if (x + 1) mod n = 0 then 1 else 0)"
proof (cases "x mod n + 1 = n")
  case True
  have "x + 1 = n * (x div n + 1) + 0"
    using mult_div_mod_eq [of n x] True by (simp only: distrib_left mult_1_right add_0_right)
  then have "(x + 1) div n = x div n + 1" "(x + 1) mod n = 0"
    using assms by (simp_all only: int_div_pos_eq [OF _ order_refl assms] int_mod_pos_eq [OF _ order_refl assms])
  then show ?thesis by simp
next
  case False
  have "x + 1 = n * (x div n) + (x mod n + 1)" by (simp add: algebra_simps)
  moreover have "0 \<le> x mod n + 1" "x mod n + 1 < n"
    using False pos_mod_bound [OF assms, of x] pos_mod_sign [OF assms, of x] by simp_all
  ultimately have "(x + 1) div n = x div n" "(x + 1) mod n = x mod n + 1"
    by (blast intro: int_div_pos_eq int_mod_pos_eq)+
  then show ?thesis using pos_mod_sign [OF assms, of x] by simp
qed

lemma div_step:
  fixes y k n :: int
  assumes "0 < n" and "n dvd k"
  shows "(y - k) div n = (y - k - 1) div n + (if y mod n = 0 then 1 else 0)"
proof -
  have "n dvd y - k \<longleftrightarrow> n dvd y" by (rule dvd_diff_left_iff [OF assms(2)])
  then show "(y - k) div n = (y - k - 1) div n + (if y mod n = 0 then 1 else 0)"
    using div_plus_one [OF assms(1), of "y - k - 1"] by (simp add: mod_eq_0_iff_dvd)
qed

lemma days_to_year_Suc: "days_to_year (y + 1) = days_to_year y + year_days y"
proof -
  have "(y - 1968) div 4 = (y - 1969) div 4 + (if y mod 4 = 0 then 1 else 0)"
    using div_step [of 4 1968 y] by simp
  moreover have "(y - 1900) div 100 = (y - 1901) div 100 + (if y mod 100 = 0 then 1 else 0)"
    using div_step [of 100 1900 y] by simp
  moreover have "(y - 1600) div 400 = (y - 1601) div 400 + (if y mod 400 = 0 then 1 else 0)"
    using div_step [of 400 1600 y] by simp
  moreover have "400 dvd y \<Longrightarrow> 100 dvd y" and "100 dvd y \<Longrightarrow> 4 dvd y"
    by (rule dvd_trans [of 100 400], simp_all, rule dvd_trans [of 4 100], simp_all)
  moreover have "y + 1 - 1969 = y - 1968" "y + 1 - 1901 = y - 1900" "y + 1 - 1601 = y - 1600"
    "365 * (y + 1 - 1970) = 365 * (y - 1970) + 365" by simp_all
  then have "days_to_year (y + 1) =
      365 * (y - 1970) + 365 + (y - 1968) div 4 - (y - 1900) div 100 + (y - 1600) div 400"
    by (simp only: days_to_year_def)
  moreover have "gregorian_leap y \<longleftrightarrow> 4 dvd y \<and> (\<not> 100 dvd y \<or> 400 dvd y)"
    by (simp only: gregorian_leap_def mod_eq_0_iff_dvd)
  moreover have "days_to_year y = 365 * (y - 1970) + (y - 1969) div 4 - (y - 1901) div 100 + (y - 1601) div 400"
    by (rule days_to_year_def)
  ultimately show ?thesis
    unfolding year_days_def mod_eq_0_iff_dvd by (smt (verit))
qed

lemma days_to_year_mono: "y < z \<Longrightarrow> days_to_year y + year_days y \<le> days_to_year z"
proof (induction z rule: int_gr_induct)
  case base
  then show ?case by (simp add: days_to_year_Suc)
next
  case (step i)
  then show ?case using days_to_year_Suc [of i] by (simp add: year_days_def split: if_splits)
qed

lemma find_year_spec:
  "find_year y d = (y', d') \<Longrightarrow> days_to_year y' + d' = days_to_year y + d \<and> 0 \<le> d' \<and> d' < year_days y'"
proof (induction y d rule: find_year.induct)
  case (1 y d)
  consider "d < 0" | "0 \<le> d" "year_days y \<le> d" | "0 \<le> d" "d < year_days y" by linarith
  then show ?case
  proof cases
    case 1
    then have "find_year (y - 1) (d + year_days (y - 1)) = (y', d')"
      using "1.prems" by (subst (asm) find_year.simps) simp
    with "1.IH"(1) [OF 1] show ?thesis using days_to_year_Suc [of "y - 1"] by simp
  next
    case 2
    then have "find_year (y + 1) (d - year_days y) = (y', d')"
      using "1.prems" by (subst (asm) find_year.simps) simp
    with "1.IH"(2) 2 show ?thesis using days_to_year_Suc [of y] by simp
  next
    case 3
    then show ?thesis using "1.prems" by (subst (asm) find_year.simps) simp
  qed
qed

lemma find_year_unique:
  assumes "days_to_year y + d = days_to_year z + e" and "0 \<le> e" and "e < year_days z"
  shows "find_year y d = (z, e)"
proof -
  obtain y' d' where f: "find_year y d = (y', d')" by fastforce
  from find_year_spec [OF f] assms have "days_to_year y' + d' = days_to_year z + e" "0 \<le> d'" "d' < year_days y'"
    by simp_all
  with assms(2,3) days_to_year_mono [of y' z] days_to_year_mono [of z y'] have "y' = z"
    by (cases y' z rule: linorder_cases) auto
  with f \<open>days_to_year y' + d' = _\<close> show ?thesis by simp
qed

section \<open>The dates of this century\<close>

text \<open>In the years 2000 to 2099 both calendars have the same years and months.\<close>

lemma century_leap:
  assumes "y < 100"
  shows "gregorian_leap (2000 + int y) = (y mod 4 = 0)"
proof -
  have "(2000 + int y) mod 100 = int y" "(2000 + int y) mod 400 = int y"
    using mod_mult_self1 [of "int y" 20 100] mod_mult_self1 [of "int y" 5 400] assms by (simp_all add: add.commute)
  moreover have "(2000 + int y) mod 4 = int (y mod 4)" 
    using mod_mult_self1 [of "int y" 500 4] by (simp add: add.commute zmod_int)
  ultimately show ?thesis using assms by (auto simp: gregorian_leap_def)
qed

lemma century_start:
  assumes "y \<le> 100"
  shows "days_to_year (2000 + int y) = 10957 + int (year_start y)"
  using assms
proof (induction y)
  case 0
  show ?case by (simp add: days_to_year_def year_start_def)
next
  case (Suc y)
  then show ?case
    using days_to_year_Suc [of "2000 + int y"] century_leap [of y]
    by (simp add: year_days_def year_start_Suc year_length_def algebra_simps)
qed

lemma century_months:
  assumes "y < 100" and "1 \<le> m" and "m \<le> 12"
  shows "month_days (2000 + int y) (m - 1) = int (month_length y m)"
    and "days_to_month (2000 + int y) (m - 1) = int (month_start y m)"
proof -
  show "month_days (2000 + int y) (m - 1) = int (month_length y m)"
    using assms(2,3) by (rule month_cases) (simp_all add: month_days_def month_table_def month_length_def daysInMonth_def century_leap [OF assms(1)])
  show "days_to_month (2000 + int y) (m - 1) = int (month_start y m)"
    using assms(2,3)
    by (rule month_cases) (simp_all add: days_to_month_def month_table_def month_start_def daysInMonth_def
        century_leap [OF assms(1)])
qed

section \<open>Months\<close>

lemma length_month_table [simp]: "length (month_table y) = 12"
  by (simp add: month_table_def)

lemma days_to_month_Suc: "m < 12 \<Longrightarrow> days_to_month y (Suc m) = days_to_month y m + month_days y m"
  by (simp add: days_to_month_def month_days_def take_Suc_conv_app_nth)

lemma days_to_month_mono:
  assumes "m < n" and "n \<le> 12"
  shows "days_to_month y m + month_days y m \<le> days_to_month y n"
  using assms
proof (induction n)
  case (Suc n)
  have "0 \<le> month_days y n" by (simp add: month_days_def)
  with Suc show ?case by (cases "m = n") (simp_all add: days_to_month_Suc)
qed simp

lemma days_to_month_12: "days_to_month y 12 = year_days y"
  by (simp add: days_to_month_def month_table_def year_days_def)

lemma month_in_the_year: "m < 12 \<Longrightarrow> days_to_month y m + month_days y m \<le> year_days y"
  using days_to_month_mono [of m 12 y] by (simp add: days_to_month_12)

lemma find_month_finds:
  assumes "days_to_month y i + d = days_to_month y m + k" and "i \<le> m" and "m < 12"
    and "0 \<le> k" and "k < month_days y m"
  shows "find_month y i d = (m, k)"
  using assms
proof (induction "m - i" arbitrary: i d)
  case 0
  then have "i = m" "d = k" by simp_all
  with assms(5) show ?case by (subst find_month.simps) simp
next
  case (Suc n)
  then have i: "i < m" "i < 11" "n = m - (i + 1)" by simp_all
  have "month_days y i \<le> d"
    using days_to_month_mono [OF i(1), of y] assms(3,4) Suc.prems(1) by simp
  moreover have "days_to_month y (i + 1) + (d - month_days y i) = days_to_month y m + k"
    using Suc.prems(1) i(2) by (simp add: days_to_month_Suc)
  with Suc.hyps(1) [OF i(3)] i(1) assms(3-5) have "find_month y (i + 1) (d - month_days y i) = (m, k)" by simp
  ultimately show ?case using i(2) by (subst find_month.simps) simp
qed

section \<open>The two calendars agree\<close>

lemma localtime_of_date:
  assumes "valid_DateTime dt" and "yOff dt < 100"
  shows "localtime (int (seconds_of dt)) = tm_of_DateTime dt"
proof -
  note v = assms(1) [unfolded valid_DateTime_def]
  let ?y = "2000 + int (yOff dt)" and ?m = "mon dt - 1" and ?k = "int (mday dt) - 1"
  let ?s = "3600 * int (hh dt) + (60 * int (mm dt) + int (ss dt))"
  have s: "0 \<le> ?s" "?s < 86400" using v by simp_all
  note months = century_months [OF assms(2), of "mon dt"]
  have k: "0 \<le> ?k" "?k < month_days ?y ?m" using v months by simp_all
  have days: "int (day_number dt) = int (year_start (yOff dt)) + days_to_month ?y ?m + ?k"
    using v months by (simp add: day_number_def)
  have t: "int (seconds_of dt) = 86400 * (int (day_number dt) + 10957) + ?s"
    by (simp add: seconds_of_def)
  then have div: "int (seconds_of dt) div 86400 = int (day_number dt) + 10957"
    and mod: "int (seconds_of dt) mod 86400 = ?s"
    using s by (simp_all only: div_mult_self4 mod_mult_self4) simp_all
  let ?d = "days_to_month ?y ?m + ?k"
  have "month_days ?y ?m + days_to_month ?y ?m \<le> year_days ?y"
    using month_in_the_year [of ?m ?y] v by linarith
  then have d: "0 \<le> ?d" "?d < year_days ?y" using k by (simp_all add: days_to_month_def)
  have "days_to_year 1970 = 0" by (simp add: days_to_year_def)
  then have "find_year 1970 (int (day_number dt) + 10957) = (?y, ?d)"
    by (intro find_year_unique) (use d days century_start [of "yOff dt"] assms(2) in simp_all)
  moreover have "?m < 12" using v by linarith
  then have "find_month ?y 0 ?d = (?m, ?k)"
    by (intro find_month_finds) (use k in \<open>simp_all add: days_to_month_def\<close>)
  moreover have "?s div 3600 = int (hh dt)" "?s div 60 mod 60 = int (mm dt)" "?s mod 60 = int (ss dt)"
  proof -
    show "?s div 3600 = int (hh dt)" using v by simp
    have "?s = 60 * (60 * int (hh dt) + int (mm dt)) + int (ss dt)" by simp
    then have "?s div 60 = 60 * int (hh dt) + int (mm dt)" "?s mod 60 = int (ss dt)"
      using v by (simp_all only: div_mult_self4 mod_mult_self4) simp_all
    then show "?s div 60 mod 60 = int (mm dt)" "?s mod 60 = int (ss dt)" using v by simp_all
  qed
  ultimately show ?thesis using v by (simp add: localtime_def Let_def div mod tm_of_DateTime_def)
qed

text \<open>The seconds of a date that \<open>mktime\<close> counts; a month twenty too high, as the clock reads in a leap year, is
  carried into the next years, 607 to 610 days ahead.\<close>

lemma tm_seconds_of_date:
  assumes "valid_DateTime dt" and "yOff dt < 100"
  shows "tm_seconds (tm_of_DateTime dt) = int (seconds_of dt)"
proof -
  note v = assms(1) [unfolded valid_DateTime_def]
  have m: "(int (mon dt) - 1) div 12 = 0" "(int (mon dt) - 1) mod 12 = int (mon dt) - 1"
    "nat (int (mon dt) - 1) = mon dt - 1" using v by simp_all
  show ?thesis
    using century_start [of "yOff dt"] assms(2) century_months(2) [OF assms(2), of "mon dt"] v
    by (simp add: tm_seconds_def tm_of_DateTime_def m Let_def seconds_of_def day_number_def algebra_simps)
qed

lemma tm_seconds_as_read:
  assumes "valid_DateTime dt" and "yOff dt < 100" and "yOff dt mod 4 = 0"
  shows "int (seconds_of dt) + 607 * 86400 \<le> tm_seconds (tm_of_DateTime (as_read dt))"
    and "tm_seconds (tm_of_DateTime (as_read dt)) \<le> int (seconds_of dt) + 610 * 86400"
proof -
  note v = assms(1) [unfolded valid_DateTime_def]
  let ?y = "2000 + int (yOff dt)" and ?m = "mon dt"
  have leap: "gregorian_leap ?y" using century_leap [OF assms(2)] assms(3) by simp
  have "\<not> 4 dvd ?y + 1" "\<not> 4 dvd ?y + 2"
    using assms(3) by presburger+
  then have common: "\<not> gregorian_leap (?y + 1)" "\<not> gregorian_leap (?y + 2)"
    by (simp_all only: gregorian_leap_def mod_eq_0_iff_dvd) simp_all
  have y1: "days_to_year (2001 + int (yOff dt)) = days_to_year ?y + 366"
    using days_to_year_Suc [of ?y] leap by (simp add: year_days_def)
  have y2: "days_to_year (2002 + int (yOff dt)) = days_to_year ?y + 731"
    using days_to_year_Suc [of "?y + 1"] y1 common(1) by (simp add: year_days_def)
  let ?shift = "days_to_year (?y + (int ?m + 19) div 12) +
      days_to_month (?y + (int ?m + 19) div 12) (nat ((int ?m + 19) mod 12)) - (days_to_year ?y + days_to_month ?y (?m - 1))"
  have "607 \<le> ?shift \<and> ?shift \<le> 610"
    using v leap common
    by (elim conjE month_cases [of ?m]) (simp_all add: y1 y2 days_to_month_def month_table_def)
  moreover have "tm_seconds (tm_of_DateTime (as_read dt)) = tm_seconds (tm_of_DateTime dt) + ?shift * 86400"
  proof -
    have m: "(int (mon dt) - 1) div 12 = 0" "(int (mon dt) - 1) mod 12 = int (mon dt) - 1"
      "nat (int (mon dt) - 1) = mon dt - 1" using v by simp_all
    show ?thesis using assms(3) by (simp add: tm_seconds_def tm_of_DateTime_def as_read_def Let_def m algebra_simps)
  qed
  ultimately show "int (seconds_of dt) + 607 * 86400 \<le> tm_seconds (tm_of_DateTime (as_read dt))"
    "tm_seconds (tm_of_DateTime (as_read dt)) \<le> int (seconds_of dt) + 610 * 86400"
    unfolding tm_seconds_of_date [OF assms(1,2)] by simp_all
qed

end
