(* ===== verification/TimeSync.thy ===== *)
theory TimeSync
  imports CTime ReadingQueue
begin

unbundle bit_operations_syntax

text \<open>
  The time of the logger: \<open>NTPClient.cpp\<close> and the first part of \<open>loop\<close> and of the end of \<open>setup\<close> in
  \<open>main.cpp\<close>, which set the clock chip from the network and take the time of every turn from the chip.
  The network is a parameter of each request: what \<open>parsePacket\<close> answers at each poll and the packet that is
  read then. \<open>millis()\<close> is read at several points of a turn; each has its value.
\<close>

section \<open>The NTP client\<close>

record ntp_client =
  udpSetup :: bool
  ntp_port :: nat
  timeOffset :: u32
  updateInterval :: u32
  currentEpoc :: u32
  lastUpdate :: u32
  packetBuffer :: "u8 list"
  sent_packets :: "u8 list list"

text \<open>The network during a turn: the answers to the polls, \<open>millis()\<close> after each poll and at the start, and the
  packet.\<close>

record ntp_env =
  ms_start :: u32
  ms_poll :: "nat \<Rightarrow> u32"
  udp_poll :: "nat \<Rightarrow> int"
  udp_packet :: "u8 list"

abbreviation (input) SEVENZYYEARS :: u32 where "SEVENZYYEARS \<equiv> 2208988800"
abbreviation (input) NTP_PACKET_SIZE :: nat where "NTP_PACKET_SIZE \<equiv> 48"
abbreviation (input) NTP_DEFAULT_LOCAL_PORT :: nat where "NTP_DEFAULT_LOCAL_PORT \<equiv> 1337"

definition NTPClient :: "u32 \<Rightarrow> ntp_client" where
  "NTPClient offset =
     \<lparr>udpSetup = False, ntp_port = NTP_DEFAULT_LOCAL_PORT, timeOffset = offset, updateInterval = 60000,
      currentEpoc = 0, lastUpdate = 0, packetBuffer = replicate NTP_PACKET_SIZE 0, sent_packets = []\<rparr>"

definition ntp_begin :: "nat \<Rightarrow> ntp_client \<Rightarrow> ntp_client" where
  "ntp_begin port c = c\<lparr>ntp_port := port, udpSetup := True\<rparr>"

definition ntp_end :: "ntp_client \<Rightarrow> ntp_client" where
  "ntp_end c = c\<lparr>udpSetup := False\<rparr>"

definition setTimeOffset :: "u32 \<Rightarrow> ntp_client \<Rightarrow> ntp_client" where
  "setTimeOffset offset c = c\<lparr>timeOffset := offset\<rparr>"

definition setUpdateInterval :: "u32 \<Rightarrow> ntp_client \<Rightarrow> ntp_client" where
  "setUpdateInterval ms c = c\<lparr>updateInterval := ms\<rparr>"

definition ntp_request :: "u8 list" where
  "ntp_request = (replicate NTP_PACKET_SIZE 0)[0 := 0xE3, 1 := 0, 2 := 6, 3 := 0xEC, 12 := 49, 13 := 0x4E, 14 := 49, 15 := 52]"

definition sendNTPPacket :: "ntp_client \<Rightarrow> ntp_client" where
  "sendNTPPacket c = c\<lparr>packetBuffer := ntp_request, sent_packets := sent_packets c @ [ntp_request]\<rparr>"

text \<open>The loop that waits for the answer: the value of \<open>timeout\<close> after it.\<close>

function ntp_wait :: "(nat \<Rightarrow> int) \<Rightarrow> nat \<Rightarrow> nat option" where
  "ntp_wait polls timeout =
     (if 100 < timeout then None
      else if polls timeout = 0 then ntp_wait polls (timeout + 1)
      else Some (timeout + 1))"
  by pat_completeness auto
termination by (relation "measure (\<lambda>(polls, timeout). 101 - timeout)") auto

declare ntp_wait.simps [simp del]

definition udp_read :: "u8 list \<Rightarrow> u8 list \<Rightarrow> u8 list" where
  "udp_read packet buf = take (length buf) packet @ drop (length packet) buf"

definition ntp_seconds :: "u8 list \<Rightarrow> u32" where
  "ntp_seconds buf =
     push_bit 16 (ucast (makeWord (buf ! 40) (buf ! 41))) OR ucast (makeWord (buf ! 42) (buf ! 43))"

definition forceUpdate :: "'z ntp_env_scheme \<Rightarrow> ntp_client \<Rightarrow> bool \<times> ntp_client" where
  "forceUpdate e c0 =
     (let c = sendNTPPacket c0
      in case ntp_wait (udp_poll e) 0 of
           None \<Rightarrow> (False, c)
         | Some timeout \<Rightarrow>
             let buf = udp_read (udp_packet e) (packetBuffer c)
             in (True, c\<lparr>lastUpdate := ms_poll e timeout - 10 * (of_nat timeout + 1), packetBuffer := buf,
                         currentEpoc := ntp_seconds buf - SEVENZYYEARS\<rparr>))"

definition ntp_update :: "'z ntp_env_scheme \<Rightarrow> ntp_client \<Rightarrow> bool \<times> ntp_client" where
  "ntp_update e c =
     (if updateInterval c \<le> ms_start e - lastUpdate c \<or> lastUpdate c = 0
      then forceUpdate e (if udpSetup c then c else ntp_begin NTP_DEFAULT_LOCAL_PORT c)
      else (True, c))"

definition getEpochTime :: "u32 \<Rightarrow> ntp_client \<Rightarrow> u32" where
  "getEpochTime ms c = timeOffset c + currentEpoc c + (ms - lastUpdate c) div 1000"

definition getDay :: "u32 \<Rightarrow> ntp_client \<Rightarrow> u32" where
  "getDay ms c = (getEpochTime ms c div 86400 + 4) mod 7"

definition getHours :: "u32 \<Rightarrow> ntp_client \<Rightarrow> u32" where
  "getHours ms c = getEpochTime ms c mod 86400 div 3600"

definition getMinutes :: "u32 \<Rightarrow> ntp_client \<Rightarrow> u32" where
  "getMinutes ms c = getEpochTime ms c mod 3600 div 60"

definition getSeconds :: "u32 \<Rightarrow> ntp_client \<Rightarrow> u32" where
  "getSeconds ms c = getEpochTime ms c mod 60"

section \<open>The clock in the main loop\<close>

record clock =
  timeClient :: ntp_client
  tAdj :: bool
  lastUpdateRTC :: u32

record turn_env = ntp_env +
  ms_epoch :: u32
  ms_first :: u32
  ms_check :: u32
  ms_again :: u32

abbreviation (input) GMT :: u32 where "GMT \<equiv> 7"

definition DateTime_of_tm :: "tm \<Rightarrow> DateTime" where
  "DateTime_of_tm t =
     DateTime_of_fields (nat ((tm_year t + 1900) mod 2 ^ 16)) (nat ((tm_mon t + 1) mod 2 ^ 8))
       (nat (tm_mday t mod 2 ^ 8)) (nat (tm_hour t mod 2 ^ 8)) (nat (tm_min t mod 2 ^ 8)) (nat (tm_sec t mod 2 ^ 8))"

text \<open>After a successful update the chip is set the first time and every 15 minutes.\<close>

definition adjust_clock ::
    "('r, 'y) rtc_ops_scheme \<Rightarrow> turn_env \<Rightarrow> clock \<times> 'r \<times> 'c logger \<Rightarrow> clock \<times> 'r \<times> 'c logger" where
  "adjust_clock rio e s =
     (case s of (ck, r, st) \<Rightarrow>
        let ntpTime = sint (getEpochTime (ms_epoch e) (timeClient ck));
            dt = DateTime_of_tm (localtime ntpTime);
            (ck1, r1, st1) =
              (if \<not> tAdj ck then (ck\<lparr>lastUpdateRTC := ms_first e, tAdj := True\<rparr>, rtc_adjust rio dt r, st\<lparr>lastTime := 0\<rparr>)
               else (ck, r, st))
        in if 15 * 60000 \<le> ms_check e - lastUpdateRTC ck1
           then (ck1\<lparr>lastUpdateRTC := ms_again e\<rparr>, rtc_adjust rio dt r1, st1)
           else (ck1, r1, st1))"

text \<open>The first part of \<open>loop\<close>: the time of the turn is \<open>mktime(&timeinfo)\<close>.\<close>

definition clock_turn ::
    "('r, 'y) rtc_ops_scheme \<Rightarrow> turn_env \<Rightarrow> clock \<times> 'r \<times> 'c logger \<Rightarrow> u32 \<times> clock \<times> 'r \<times> 'c logger" where
  "clock_turn rio e s =
     (case s of (ck, r, st) \<Rightarrow>
        let (ok, ntp) = ntp_update e (timeClient ck);
            s1 = (ck\<lparr>timeClient := ntp\<rparr>, r, st);
            (ck2, r2, st2) = (if ok then adjust_clock rio e s1 else s1);
            (now, r3) = rtc_now rio r2
        in (mktime (tm_of_DateTime now), ck2, r3, st2))"

text \<open>The end of \<open>setup\<close> waits for the network's time unless the chip's year is 2017 or later; \<open>now\<close> is read once,
  before the loop. \<open>es\<close> is the network at each attempt.\<close>

partial_function (option) await_time :: "(nat \<Rightarrow> turn_env) \<Rightarrow> DateTime \<Rightarrow> nat \<Rightarrow> ntp_client \<Rightarrow> ntp_client option" where
  "await_time es now k c =
     (let (ok, c1) = ntp_update (es k) c
      in if ok \<or> 2017 \<le> 2000 + yOff now then Some c1 else await_time es now (k + 1) c1)"

section \<open>What the client knows\<close>

lemma ntp_wait_first:
  assumes "i \<le> k" and "k \<le> 100" and "polls k \<noteq> 0" and "\<forall>j. i \<le> j \<and> j < k \<longrightarrow> polls j = 0"
  shows "ntp_wait polls i = Some (k + 1)"
  using assms
proof (induction "k - i" arbitrary: i)
  case 0
  then show ?case by (subst ntp_wait.simps) simp
next
  case (Suc n)
  then have "polls i = 0" "n = k - (i + 1)" "i < k" by simp_all
  with Suc.hyps(1) [of "i + 1"] Suc.prems show ?case by (subst ntp_wait.simps) simp
qed

lemma ntp_wait_never:
  assumes "\<forall>j. i \<le> j \<and> j \<le> 100 \<longrightarrow> polls j = 0"
  shows "ntp_wait polls i = None"
  using assms
proof (induction "101 - i" arbitrary: i)
  case 0
  then show ?case by (subst ntp_wait.simps) simp
next
  case (Suc n)
  then have "n = 101 - (i + 1)" "polls i = 0" "i \<le> 100" by simp_all
  with Suc.hyps(1) [of "i + 1"] Suc.prems show ?case by (subst ntp_wait.simps) simp
qed

text \<open>The four bytes of the packet, big-endian.\<close>

lemma ntp_seconds_bytes:
  assumes "44 \<le> length buf" and "load buf 40 4 = rev (le32 w)"
  shows "ntp_seconds buf = w"
proof -
  have n: "load buf 40 4 ! i = buf ! (40 + i)" if "i < 4" for i
    using that assms(1) by (intro nth_load) simp_all
  have "rev (load buf 40 4) = [buf ! 43, buf ! 42, buf ! 41, buf ! 40]"
    using n [of 0] n [of 1] n [of 2] n [of 3] assms(1)
    by (intro nth_equalityI) (auto simp: rev_nth less_Suc_eq numeral_eq_Suc)
  then have "le32 w = [buf ! 43, buf ! 42, buf ! 41, buf ! 40]" using assms(2) by simp
  then have "w = of_le32 [buf ! 43, buf ! 42, buf ! 41, buf ! 40]" by (metis of_le32_le32)
  moreover have "ntp_seconds buf = of_le32 [buf ! 43, buf ! 42, buf ! 41, buf ! 40]"
  proof (rule bit_word_eqI)
    fix n assume "n < LENGTH(32)"
    then have "n < 8 \<or> 8 \<le> n \<and> n < 16 \<or> 16 \<le> n \<and> n < 24 \<or> 24 \<le> n \<and> n < 32" by auto
    moreover have "8 \<le> k \<Longrightarrow> \<not> bit (b :: u8) k" for b k using bit_imp_le_length [of b k] by auto
    ultimately show "bit (ntp_seconds buf) n \<longleftrightarrow> bit (of_le32 [buf ! 43, buf ! 42, buf ! 41, buf ! 40]) n"
      by (elim disjE) (auto simp: ntp_seconds_def bit_makeWord bit_simps)
  qed
  ultimately show ?thesis by simp
qed

lemma udp_read_long:
  assumes "44 \<le> length packet" and "length buf = NTP_PACKET_SIZE"
  shows "length (udp_read packet buf) = NTP_PACKET_SIZE" and "load (udp_read packet buf) 40 4 = load packet 40 4"
  using assms by (simp_all add: udp_read_def load_def min_def drop_take) arith

lemma length_ntp_request [simp]: "length ntp_request = NTP_PACKET_SIZE"
  by (simp add: ntp_request_def)

lemma forceUpdate_answer:
  assumes "k \<le> 100" and "udp_poll e k \<noteq> 0" and "\<forall>j < k. udp_poll e j = 0"
    and "44 \<le> length (udp_packet e)" and "load (udp_packet e) 40 4 = rev (le32 (t + SEVENZYYEARS))"
  shows "\<exists>c'. forceUpdate e c = (True, c') \<and> currentEpoc c' = t \<and> timeOffset c' = timeOffset c \<and>
    lastUpdate c' = ms_poll e (k + 1) - 10 * (of_nat k + 2) \<and> sent_packets c' = sent_packets c @ [ntp_request]"
proof -
  have w: "ntp_wait (udp_poll e) 0 = Some (k + 1)" by (rule ntp_wait_first) (use assms(1-3) in simp_all)
  let ?buf = "udp_read (udp_packet e) ntp_request"
  have "length ?buf = NTP_PACKET_SIZE" "load ?buf 40 4 = rev (le32 (t + SEVENZYYEARS))"
    using udp_read_long [of "udp_packet e" ntp_request] assms(4,5) by simp_all
  then have "ntp_seconds ?buf = t + SEVENZYYEARS" by (intro ntp_seconds_bytes) simp_all
  then show ?thesis by (simp add: forceUpdate_def w sendNTPPacket_def Let_def algebra_simps)
qed

lemma forceUpdate_silence:
  assumes "\<forall>j \<le> 100. udp_poll e j = 0"
  shows "forceUpdate e c = (False, sendNTPPacket c)"
  using assms by (simp add: forceUpdate_def ntp_wait_never)

section \<open>Setting the chip\<close>

lemma century_date:
  assumes "SECONDS_FROM_1970_TO_2000 \<le> t" and "t < 4102444800"
  obtains dt where "DateTime_of_unix t = Some dt" and "valid_DateTime dt" and "seconds_of dt = t" and "yOff dt < 100"
proof -
  obtain dt where dt: "DateTime_of_unix t = Some dt" "valid_DateTime dt" "seconds_of dt = t"
    using unix_date [OF assms(1)] assms(2) by auto
  have "yOff dt < 100"
  proof (rule ccontr)
    assume "\<not> yOff dt < 100"
    then have "year_start 100 \<le> year_start (yOff dt)"
      using year_start_mono [of 100 "yOff dt"] by (cases "yOff dt = 100") auto
    moreover have "year_start 100 = 36525" by (simp add: year_start_def)
    moreover have "year_start (yOff dt) \<le> day_number dt"
      using dt(2) unfolding day_number_def valid_DateTime_def by linarith
    ultimately have "36525 \<le> day_number dt" by simp
    then have "4102444800 \<le> seconds_of dt" by (simp add: seconds_of_def)
    with dt(3) assms(2) show False by simp
  qed
  with dt that show thesis by blast
qed

lemma DateTime_of_tm_of_DateTime:
  assumes "valid_DateTime dt" and "yOff dt < 100"
  shows "DateTime_of_tm (tm_of_DateTime dt) = dt"
proof -
  note v = assms(1) [unfolded valid_DateTime_def]
  have "mday dt < 32" using v month_length_le [of "mon dt" "yOff dt"] by auto
  then show ?thesis
    using v assms(2)
    by (cases dt) (simp add: DateTime_of_tm_def tm_of_DateTime_def DateTime_of_fields_def nat_add_distrib nat_mod_distrib)
qed

text \<open>Whether once or twice, the chip is set to the network's time.\<close>

lemma adjust_clock_sets:
  assumes "\<not> tAdj ck \<or> 15 * 60000 \<le> ms_check e - lastUpdateRTC ck"
    and "DateTime_of_tm (localtime (sint (getEpochTime (ms_epoch e) (timeClient ck)))) = dt"
  shows "\<exists>ck' r0 st'. adjust_clock rio e (ck, r, st) = (ck', rtc_adjust rio dt r0, st') \<and>
    (r0 = r \<or> r0 = rtc_adjust rio dt r) \<and> tAdj ck' \<and> timeClient ck' = timeClient ck \<and>
    st' = (if tAdj ck then st else st\<lparr>lastTime := 0\<rparr>)"
  using assms by (auto simp: adjust_clock_def Let_def)

section \<open>Properties\<close>

lemma div_between:
  fixes a b n d :: nat
  assumes "a \<le> b" and "b \<le> a + 2 * n" and "0 < n"
  shows "a div n \<le> b div n \<and> b div n \<le> a div n + 2"
proof -
  have "b div n \<le> (a + 2 * n) div n" using assms(2) by (rule div_le_mono)
  with assms(1,3) show ?thesis by (simp add: div_le_mono)
qed


text \<open>
  The calendars agree: for every second of the years 2000 to 2099 the date that \<open>RTClib\<close> computes is what
  \<open>localtime\<close> answers, and \<open>mktime\<close> counts it back.
\<close>

theorem calendars_agree:
  assumes "SECONDS_FROM_1970_TO_2000 \<le> t" and "t < 4102444800"
  shows "map_option tm_of_DateTime (DateTime_of_unix t) = Some (localtime (int t)) \<and>
    mktime (localtime (int t)) = of_nat t"
proof -
  from assms obtain dt where dt: "DateTime_of_unix t = Some dt" "valid_DateTime dt" "seconds_of dt = t" "yOff dt < 100"
    by (rule century_date)
  have "localtime (int t) = tm_of_DateTime dt" using localtime_of_date [OF dt(2,4)] dt(3) by simp
  moreover have "mktime (tm_of_DateTime dt) = of_nat t"
    using tm_seconds_of_date [OF dt(2,4)] dt(3) by (simp add: mktime_def)
  ultimately show ?thesis by (simp add: dt(1))
qed


text \<open>The end of \<open>setup\<close>.\<close>

definition silent :: "'z ntp_env_scheme \<Rightarrow> bool" where
  "silent e \<longleftrightarrow> (\<forall>j \<le> 100. udp_poll e j = 0)"

definition answers :: "'z ntp_env_scheme \<Rightarrow> u32 \<Rightarrow> bool" where
  "answers e t \<longleftrightarrow> (\<exists>k \<le> 100. udp_poll e k \<noteq> 0 \<and> (\<forall>j < k. udp_poll e j = 0)) \<and>
     44 \<le> length (udp_packet e) \<and> load (udp_packet e) 40 4 = rev (le32 (t + SEVENZYYEARS))"

lemma update_silent:
  assumes "silent e" and "lastUpdate c = 0"
  shows "\<exists>c'. ntp_update e c = (False, c') \<and> lastUpdate c' = 0 \<and> length (sent_packets c') = length (sent_packets c) + 1"
  using assms by (simp add: ntp_update_def silent_def forceUpdate_silence sendNTPPacket_def ntp_begin_def)

lemma update_answers:
  assumes "answers e t" and "lastUpdate c = 0"
  shows "\<exists>c'. ntp_update e c = (True, c') \<and> currentEpoc c' = t \<and> length (sent_packets c') = length (sent_packets c) + 1"
proof -
  from assms(1) obtain k where k: "k \<le> 100" "udp_poll e k \<noteq> 0" "\<forall>j < k. udp_poll e j = 0"
    "44 \<le> length (udp_packet e)" "load (udp_packet e) 40 4 = rev (le32 (t + SEVENZYYEARS))"
    by (auto simp: answers_def)
  let ?c = "if udpSetup c then c else ntp_begin NTP_DEFAULT_LOCAL_PORT c"
  have "sent_packets ?c = sent_packets c" by (simp add: ntp_begin_def)
  with forceUpdate_answer [OF k, of ?c] assms(2) show ?thesis by (auto simp: ntp_update_def)
qed

lemma await_time_silent:
  assumes "await_time es now k c = Some c'"
  shows "yOff now < 17 \<longrightarrow> lastUpdate c = 0 \<longrightarrow> (\<exists>i. \<not> silent (es i))"
proof (rule await_time.raw_induct [where P = "\<lambda>es now k c c'. yOff now < 17 \<longrightarrow> lastUpdate c = 0 \<longrightarrow>
    (\<exists>i. \<not> silent (es i))", OF _ assms], intro impI)
  fix f es now k c c'
  assume IH: "\<And>es now k c c'. f es now k c = Some c' \<Longrightarrow> yOff now < 17 \<longrightarrow> lastUpdate c = 0 \<longrightarrow> (\<exists>i. \<not> silent (es i))"
    and run: "(let (ok, c1) = ntp_update (es k) c in if ok \<or> 2017 \<le> 2000 + yOff now then Some c1 else f es now (k + 1) c1) = Some c'"
    and now: "yOff now < 17" "lastUpdate c = 0"
  show "\<exists>i. \<not> silent (es i)"
  proof (cases "silent (es k)")
    case True
    then obtain c1 where c1: "ntp_update (es k) c = (False, c1)" "lastUpdate c1 = 0"
      using update_silent [OF True now(2)] by blast
    with run now(1) have "f es now (k + 1) c1 = Some c'" by simp
    from IH [OF this] now(1) c1(2) show ?thesis by blast
  qed blast
qed

lemma await_time_answers:
  assumes "\<forall>i < n. silent (es (k + i))" and "answers (es (k + n)) t" and "yOff now < 17" and "lastUpdate c = 0"
  shows "\<exists>c'. await_time es now k c = Some c' \<and> currentEpoc c' = t \<and>
    length (sent_packets c') = length (sent_packets c) + n + 1"
  using assms
proof (induction n arbitrary: k c)
  case 0
  then show ?case using update_answers [of "es k" t c] by (subst await_time.simps) (auto simp: Let_def)
next
  case (Suc n)
  from update_silent [of "es k" c] Suc.prems obtain c1 where
    c1: "ntp_update (es k) c = (False, c1)" "lastUpdate c1 = 0" "length (sent_packets c1) = length (sent_packets c) + 1"
    by fastforce
  have "\<forall>i < n. silent (es (k + 1 + i))" using Suc.prems(1) by (metis Suc_less_eq add_Suc_right add_Suc_shift Suc_eq_plus1)
  from Suc.IH [OF this _ Suc.prems(3) c1(2)] Suc.prems(2) obtain c' where
    "await_time es now (k + 1) c1 = Some c'" "currentEpoc c' = t" "length (sent_packets c') = length (sent_packets c1) + n + 1"
    by auto
  with c1 Suc.prems(3) show ?case by (subst await_time.simps) (simp add: Let_def)
qed

text \<open>
  C35: A device whose chip is not set waits at the end of \<open>setup\<close> until the network gives it the time: if no
  request is ever answered it stays there, and if the first \<open>n\<close> are not and the next one is, it goes on with
  the time of that answer after \<open>n + 1\<close> requests.
\<close>

theorem setup_waits_for_time:
  assumes "yOff now < 17" and "lastUpdate c = 0"
  shows "((\<forall>i. silent (es i)) \<longrightarrow> await_time es now 0 c = None) \<and>
    (\<forall>n t. (\<forall>i < n. silent (es i)) \<and> answers (es n) t \<longrightarrow>
      (\<exists>c'. await_time es now 0 c = Some c' \<and> currentEpoc c' = t \<and>
        length (sent_packets c') = length (sent_packets c) + n + 1))"
proof (intro conjI impI allI)
  assume "\<forall>i. silent (es i)"
  then show "await_time es now 0 c = None" using await_time_silent [of es now 0 c] assms by (cases "await_time es now 0 c") auto
next
  fix n t assume "(\<forall>i < n. silent (es i)) \<and> answers (es n) t"
  then show "\<exists>c'. await_time es now 0 c = Some c' \<and> currentEpoc c' = t \<and>
      length (sent_packets c') = length (sent_packets c) + n + 1"
    using await_time_answers [of n es 0 t now c] assms by auto
qed

section \<open>A request answered at the third poll\<close>

definition sync_env :: turn_env where
  "sync_env =
     \<lparr>ms_start = 5000, ms_poll = \<lambda>k. of_nat (5000 + 10 * k), udp_poll = \<lambda>k. if k = 2 then 48 else 0,
      udp_packet = replicate 40 0 @ rev (le32 (of_nat 1546300800 + SEVENZYYEARS)) @ replicate 4 0,
      ms_epoch = 5030, ms_first = 5031, ms_check = 5032, ms_again = 5033\<rparr>"

lemma sync_env_answer:
  "udp_poll sync_env 2 \<noteq> 0" "\<forall>j < 2. udp_poll sync_env j = 0" "44 \<le> length (udp_packet sync_env)"
  "load (udp_packet sync_env) 40 4 = rev (le32 (of_nat 1546300800 + SEVENZYYEARS))"
  by (simp_all add: sync_env_def load_def le32_def)


theorem calendars_agree_witness:
  "map_option tm_of_DateTime (DateTime_of_unix 1709251199) = Some (localtime (int 1709251199)) \<and>
     mktime (localtime (int 1709251199)) = of_nat 1709251199"
  by (rule calendars_agree) simp_all


theorem setup_waits_for_time_witness:
  "await_time (\<lambda>i. sync_env\<lparr>udp_poll := \<lambda>k. 0\<rparr>) \<lparr>yOff = 0, mon = 1, mday = 1, hh = 0, mm = 0, ss = 0\<rparr> 0 (NTPClient 0) = None"
  using setup_waits_for_time [of "\<lparr>yOff = 0, mon = 1, mday = 1, hh = 0, mm = 0, ss = 0\<rparr>" "NTPClient 0"
      "\<lambda>i. sync_env\<lparr>udp_poll := \<lambda>k. 0\<rparr>"]
  by (simp add: NTPClient_def silent_def)

end
