(* ===== verification/Device.thy ===== *)
theory Device
  imports TimeSync
begin

text \<open>
  The whole device: \<open>setup\<close> and \<open>loop\<close> of \<open>main.cpp\<close> with the flash identified again, the configuration read
  again and the indices restored after every restart. A run of the device is any sequence of turns, restarts
  it asks for, and power failures between turns.
\<close>

section \<open>Identifying the flash\<close>

text \<open>What the data sheet says of the identification commands; the capacity is a power of two that the driver
  knows by its code.\<close>

locale nor_flash_id = nor_flash +
  fixes manufacturer memory_type capacity_code :: u8
  assumes identify: "idle c \<Longrightarrow> command io [JEDECID, NULLBYTE, NULLBYTE, NULLBYTE] c = (rs, c') \<Longrightarrow>
      drop 1 rs = [manufacturer, memory_type, capacity_code] \<and> idle c' \<and> cells c' = cells c \<and> wel c' = wel c"
    and discover: "idle c \<Longrightarrow> command io (READSFDP # address_bytes 0 @ DUMMYBYTE # replicate 4 NULLBYTE) c = (rs, c') \<Longrightarrow>
      idle c' \<and> cells c' = cells c \<and> wel c' = wel c"
    and maker: "manufacturer = WINBOND_MANID \<or> manufacturer = MICROCHIP_MANID"
    and kind: "memory_type \<noteq> 0"
    and power_of_two: "0x10 \<le> unat capacity_code \<and> unat capacity_code \<le> 0x18 \<and> cap = 2 ^ unat capacity_code"

text \<open>The search of the capacity table.\<close>

definition find_capacity :: "'c spiflash \<Rightarrow> 'c spiflash" where
  "find_capacity f0 = for_upto 11 (\<lambda>i f. if capacityID f = capID ! i
     then f\<lparr>capacity := memSize ! i, eraseTime := eraseTimes ! i\<rparr> else f) f0"

lemma code_cases:
  fixes b :: u8
  assumes "0x10 \<le> unat b" and "unat b \<le> 0x18"
  obtains "b = 0x10" | "b = 0x11" | "b = 0x12" | "b = 0x13" | "b = 0x14" | "b = 0x15" | "b = 0x16" | "b = 0x17" | "b = 0x18"
proof -
  have "unat b = 0x10 \<or> unat b = 0x11 \<or> unat b = 0x12 \<or> unat b = 0x13 \<or> unat b = 0x14 \<or> unat b = 0x15 \<or>
      unat b = 0x16 \<or> unat b = 0x17 \<or> unat b = 0x18"
    using assms by arith
  then show thesis using that by (auto simp: word_unat_eq_iff)
qed

lemma find_capacity_finds:
  assumes "0x10 \<le> unat (capacityID f)" and "unat (capacityID f) \<le> 0x18"
  shows "find_capacity f =
      f\<lparr>capacity := 2 ^ unat (capacityID f), eraseTime := eraseTime (find_capacity f)\<rparr> \<and> eraseTime (find_capacity f) \<noteq> 0"
proof -
  define b where "b = capacityID f"
  have "find_capacity f = f\<lparr>capacity := 2 ^ unat b, eraseTime := eraseTime (find_capacity f)\<rparr> \<and>
      eraseTime (find_capacity f) \<noteq> 0"
    using assms unfolding b_def [symmetric]
    by (rule code_cases) (simp_all add: find_capacity_def loop_simps flip: b_def)
  then show ?thesis by (simp add: b_def)
qed

context nor_flash_id
begin

lemma getSFDP_ok:
  assumes "idle (chip f)"
  shows "\<exists>ok f'. getSFDP io f = Some (ok, f') \<and> idle (chip f') \<and> cells (chip f') = cells (chip f) \<and> kept f f'"
proof -
  from notBusy_settles [OF settles_idle [OF assms, of BUSY_TIMEOUT]] obtain f1 where
    f1: "notBusy io BUSY_TIMEOUT f = Some (True, f1)" "idle (chip f1)" "cells (chip f1) = cells (chip f)" "kept f f1" by auto
  let ?ds = "address_bytes 0 @ [DUMMYBYTE]" and ?nulls = "[NULLBYTE, NULLBYTE, NULLBYTE, NULLBYTE]"
  obtain rs c' where cmd: "command io (READSFDP # address_bytes 0 @ DUMMYBYTE # replicate 4 NULLBYTE) (chip f1) = (rs, c')"
    by fastforce
  from discover [OF f1(2) cmd] have c': "idle c'" "cells c' = cells (chip f1)" by simp_all
  have opc: "opcode_bytes READSFDP a = [READSFDP]" for a by (simp add: opcode_bytes_def)
  have four: "replicate 4 NULLBYTE = ?nulls" by (simp add: numeral_eq_Suc)
  have "snd (command io (opcode_bytes READSFDP a @ ?ds @ ?nulls) (chip f1)) = c'" for a
    using cmd unfolding opc four by simp
  then have "cs_high io (snd (xfers io ?nulls (snd (xfers io ?ds (snd (xfers io (opcode_bytes READSFDP (currentAddress f1))
      (cs_low io (chip f1)))))))) = c'"
    by (simp add: command_def xfers_append split_beta Let_def)
  then show ?thesis
    using f1 c' by (simp add: getSFDP_def beginSPI_def nextBytes_def chip_deselect_def split_beta Let_def kept_def del: xfers.simps)
qed

lemma getJedecId_ok:
  assumes "idle (chip f)"
  shows "\<exists>f'. getJedecId io f = Some (True, f') \<and> idle (chip f') \<and> cells (chip f') = cells (chip f) \<and> kept f f' \<and>
    manufacturerID f' = manufacturer \<and> capacityID f' = capacity_code"
proof -
  from notBusy_settles [OF settles_idle [OF assms, of BUSY_TIMEOUT]] obtain f1 where
    f1: "notBusy io BUSY_TIMEOUT f = Some (True, f1)" "idle (chip f1)" "cells (chip f1) = cells (chip f)" "kept f f1" by auto
  let ?nulls = "[NULLBYTE, NULLBYTE, NULLBYTE]"
  obtain rs1 c1 where x1: "xfers io [JEDECID] (cs_low io (chip f1)) = (rs1, c1)" by fastforce
  obtain rs c2 where x2: "xfers io ?nulls c1 = (rs, c2)" by fastforce
  have "length rs1 = 1" using length_xfers [of io "[JEDECID]" "cs_low io (chip f1)"] x1 by simp
  moreover have "command io [JEDECID, NULLBYTE, NULLBYTE, NULLBYTE] (chip f1) = (rs1 @ rs, cs_high io c2)"
    using xfers_append [of io "[JEDECID]" ?nulls "cs_low io (chip f1)"] x1 x2 by (simp add: command_def del: xfers.simps)
  from identify [OF f1(2) this] have "drop 1 (rs1 @ rs) = [manufacturer, memory_type, capacity_code]"
    and c: "idle (cs_high io c2)" "cells (cs_high io c2) = cells (chip f1)" by simp_all
  ultimately have rs: "rs = [manufacturer, memory_type, capacity_code]" by simp
  have ne: "manufacturer \<noteq> 0" "capacity_code \<noteq> 0" using maker power_of_two by auto
  have opc: "opcode_bytes JEDECID a = [JEDECID]" for a by (simp add: opcode_bytes_def)
  show ?thesis
    using f1 c ne kind rs
    by (simp add: getJedecId_def beginSPI_def nextBytes_def opc x1 x2 chip_deselect_def Let_def kept_def del: xfers.simps)
qed

lemma flash_begin_ok:
  assumes "idle (chip f)" and "capacity f = 0" and "errorcode f \<noteq> UNKNOWNCAP" and "errorcode f \<noteq> NORESPONSE"
  shows "\<exists>f'. flash_begin io 0 f = Some (True, f') \<and> calm idle cap f' \<and> cells (chip f') = cells (chip f)"
proof -
  from getSFDP_ok [OF assms(1)] obtain ok f1 where
    f1: "getSFDP io f = Some (ok, f1)" "idle (chip f1)" "cells (chip f1) = cells (chip f)" "kept f f1" by blast
  from getJedecId_ok [OF f1(2)] obtain f2 where
    f2: "getJedecId io f1 = Some (True, f2)" "idle (chip f2)" "cells (chip f2) = cells (chip f1)" "kept f1 f2"
    "manufacturerID f2 = manufacturer" "capacityID f2 = capacity_code" by blast
  let ?f3 = "f2\<lparr>supported := ucast (manufacturerID f2)\<rparr>"
  have code: "0x10 \<le> unat (capacityID ?f3)" "unat (capacityID ?f3) \<le> 0x18" using power_of_two f2(6) by simp_all
  from find_capacity_finds [OF code] obtain t where
    f4: "find_capacity ?f3 = ?f3\<lparr>capacity := 2 ^ unat capacity_code, eraseTime := t\<rparr>" "t \<noteq> 0"
    using f2(6) by auto
  have "capacity f2 = 0" "errorcode f2 = errorcode f" using f1(4) f2(4) assms(2) by (simp_all add: kept_def)
  then have run: "flash_begin io 0 f = Some (True, find_capacity ?f3)"
    using f1(1) f2(1,5) maker
    by (auto simp: flash_begin_def chipID_def find_capacity_def Let_def)
  have "unat (2 ^ unat capacity_code :: u32) = cap"
    using power_of_two by (elim conjE code_cases) simp_all
  then have "calm idle cap (find_capacity ?f3)"
    using f4 f2(2) assms(3,4) \<open>errorcode f2 = errorcode f\<close> by (simp add: calm_def usable_def)
  moreover have "cells (chip (find_capacity ?f3)) = cells (chip f)" using f4(1) f2(3) f1(3) by simp
  ultimately show ?thesis using run by blast
qed

lemma flash_meter_begin_ok:
  assumes "idle (chip (flash fm))" and "capacity (flash fm) = 0" and "errorcode (flash fm) = 0"
  shows "\<exists>fm'. flash_meter_begin io 64 fm = Some (True, fm') \<and> ring_geometry cap fm' \<and> recordSize fm' = 64 \<and>
    calm idle cap (flash fm') \<and> cells (chip (flash fm')) = cells (chip (flash fm))"
proof -
  have "errorcode (flash fm) \<noteq> UNKNOWNCAP" "errorcode (flash fm) \<noteq> NORESPONSE" using assms(3) by simp_all
  from flash_begin_ok [OF assms(1,2) this] obtain f where
    f: "flash_begin io 0 (flash fm) = Some (True, f)" "calm idle cap f" "cells (chip f) = cells (chip (flash fm))" by blast
  let ?max = "(getCapacity f - reserveSize) div ucast (64 :: u8)"
  have cap: "unat (capacity f) = cap" using f(2) by (simp add: calm_def usable_def)
  define k where "k = unat capacity_code - 16"
  have "unat capacity_code = k + 16" using power_of_two by (simp add: k_def)
  then have k: "cap = 65536 * 2 ^ k" using power_of_two by (simp add: power_add)
  have "2 ^ k \<ge> (1 :: nat)" by simp
  then have big: "65536 \<le> cap" using k by simp
  have "unat (getCapacity f - reserveSize) = cap - 8192"
    unfolding getCapacity_def using big cap by (subst unat_sub) (simp_all add: word_le_nat_alt)
  then have "unat ?max = (cap - 8192) div 64" by (simp add: unat_div)
  moreover have "cap - 8192 = 64 * (1024 * 2 ^ k - 128)" unfolding k by simp
  ultimately have "unat ?max * 64 = cap - 8192" by simp
  moreover have "4096 dvd cap" unfolding k by simp
  ultimately have "ring_geometry cap (fm\<lparr>recordSize := 64, flash := f, maxRecord := ?max\<rparr>)"
    using big cap_24 by (simp add: ring_geometry_def)
  with f show ?thesis by (simp add: flash_meter_begin_def)
qed

end

section \<open>Start and restart\<close>

text \<open>
  The globals of a device that starts: the buffers and indices are zero, the flash object knows no chip. What
  lasts is outside: the flash chip, the clock's RAM, the bus and the server.
\<close>

definition no_meterData :: meterData where
  "no_meterData = \<lparr>md_mdt = 0, md_watt = 0, md_wattHour = 0, md_pf = 0, md_varh = 0, md_i0 = 0, md_i1 = 0, md_i2 = 0,
     md_v0 = 0, md_v1 = 0, md_v2 = 0\<rparr>"

definition power_on :: "'c logger \<Rightarrow> 'c logger" where
  "power_on st = st\<lparr>
     md := replicate (length (md st)) no_meterData, wBuff := replicate (RECSIZE * MAXMETER) 0,
     rBuff := replicate (RECSIZE * MAXMETER) 0, wIndex := 0, rIndex := 0, lastTime := 0, fErrorCnt := 0, errlog := 0,
     ring := \<lparr>flash = \<lparr>chip = chip (flash (ring st)), currentAddress = 0, status = 0, errorcode = 0, SPIBusState = False,
         manufacturerID = 0, memoryTypeID = 0, capacityID = 0, supported = 0, sfdp = 0, capacity = 0, eraseTime = 0,
         pageOverflow = True\<rparr>, recordSize = 0, maxRecord = 0\<rparr>\<rparr>"

text \<open>
  \<open>setup\<close>, for what the logger keeps: the flash, the configuration from the card or, without one, from the flash,
  and the indices. \<open>parse\<close> stands for \<open>SDConfig::phaseConfig\<close> with the JSON library; \<open>stack\<close> is the uninitialised
  buffer of the configuration functions. The flag is false if the flash is not found and the device restarts.
\<close>

definition device_setup :: "('c, 'z) chip_ops_scheme \<Rightarrow> (u8 list \<Rightarrow> config) \<Rightarrow> u8 list \<Rightarrow> u8 list option \<Rightarrow> 'c logger \<Rightarrow>
    (bool \<times> 'c logger) option" where
  "device_setup io parse stack sd st =
     (case flash_meter_begin io 64 (ring st) of
        None \<Rightarrow> None
      | Some (ok, fm) \<Rightarrow>
          if \<not> ok then Some (False, st\<lparr>ring := fm\<rparr>)
          else case (case sd of
                       Some config \<Rightarrow> map_option (\<lambda>(_, fm1). (config, fm1)) (writeConfigFlash io config stack fm)
                     | None \<Rightarrow> readConfigFlash io stack fm) of
                 None \<Rightarrow> None
               | Some (config, fm1) \<Rightarrow>
                   Some (True, log_bit bit_restart True (restore_indices (st\<lparr>ring := fm1, cfg := parse config\<rparr>))))"

section \<open>Turns and runs of the device\<close>

record ('c, 'r) device =
  dlogger :: "'c logger"
  dclock :: clock
  drtc :: 'r
  serverMillisChk :: u32
  rstMillisChk :: u32

text \<open>What the world does during a turn.\<close>

record world =
  w_clock :: turn_env
  w_line :: bus
  w_http :: "u16 list"
  w_sample :: "nat \<Rightarrow> u32"
  w_wifi :: bool
  w_answer :: "(u16 \<times> u8) option"
  w_millis :: u32

definition loop :: "fpu \<Rightarrow> ('c, 'z) chip_ops_scheme \<Rightarrow> ('r, 'y) rtc_ops_scheme \<Rightarrow> string \<Rightarrow> world \<Rightarrow>
    ('c, 'r) device \<Rightarrow> (bool \<times> ('c, 'r) device) option" where
  "loop fp io rio log_url w d =
     (let (now, ck, r, st) = clock_turn rio (w_clock w) (dclock d, drtc d, dlogger d)
      in case loop_tasks fp io (w_sample w) now (w_wifi w) (st\<lparr>line := w_line w, http := w_http w\<rparr>) of
           None \<Rightarrow> None
         | Some st1 \<Rightarrow>
             let (restarted, t1, t2, st2) =
               loop_checks (w_millis w) (w_answer w) log_url now (w_wifi w) (serverMillisChk d, rstMillisChk d, st1)
             in Some (restarted, \<lparr>dlogger = st2, dclock = ck, drtc = r, serverMillisChk = t1, rstMillisChk = t2\<rparr>))"

text \<open>A start: the globals, then \<open>setup\<close>.\<close>

definition boot :: "('c, 'z) chip_ops_scheme \<Rightarrow> (u8 list \<Rightarrow> config) \<Rightarrow> u8 list \<Rightarrow> u8 list option \<Rightarrow> ('c, 'r) device \<Rightarrow>
    (bool \<times> ('c, 'r) device) option" where
  "boot io parse stack sd d =
     map_option (\<lambda>(ok, st). (ok, \<lparr>dlogger = st,
         dclock = \<lparr>timeClient = NTPClient (GMT * 3600), tAdj = False, lastUpdateRTC = 0\<rparr>,
         drtc = drtc d, serverMillisChk = 0, rstMillisChk = 0\<rparr>))
       (device_setup io parse stack sd (power_on (dlogger d)))"

text \<open>
  A run: turns of \<open>loop\<close> as long as there is room, and starts after a restart that the device asked for or after
  a loss of power, which may come between any two turns. \<open>hist\<close> lists the readings stored so far.
\<close>

inductive device_run ::
    "fpu \<Rightarrow> ('c, 'z) chip_ops_scheme \<Rightarrow> ('r, 'y) rtc_ops_scheme \<Rightarrow> string \<Rightarrow> (u8 list \<Rightarrow> config) \<Rightarrow> u8 list \<Rightarrow> nat \<Rightarrow>
     ('c, 'r) device \<Rightarrow> reading list \<Rightarrow> ('c, 'r) device \<Rightarrow> bool"
  for fp io rio log_url parse sd cap d0 where
  start: "device_run fp io rio log_url parse sd cap d0 [] d0"
| turn: "device_run fp io rio log_url parse sd cap d0 hist d \<Longrightarrow> has_room cap (dlogger d) \<Longrightarrow>
    unat (wIndex (dlogger d)) + 256 < 2 ^ 32 \<Longrightarrow> loop fp io rio log_url w d = Some (False, d') \<Longrightarrow>
    device_run fp io rio log_url parse sd cap d0 (hist @ new_readings (dlogger d) (dlogger d')) d'"
| restart: "device_run fp io rio log_url parse sd cap d0 hist d \<Longrightarrow> has_room cap (dlogger d) \<Longrightarrow>
    unat (wIndex (dlogger d)) + 256 < 2 ^ 32 \<Longrightarrow> loop fp io rio log_url w d = Some (True, d1) \<Longrightarrow>
    length stack = configSize \<Longrightarrow> boot io parse stack (Some sd) d1 = Some (True, d') \<Longrightarrow>
    device_run fp io rio log_url parse sd cap d0 (hist @ new_readings (dlogger d) (dlogger d1)) d'"
| power_loss: "device_run fp io rio log_url parse sd cap d0 hist d \<Longrightarrow> length stack = configSize \<Longrightarrow>
    boot io parse stack (Some sd) d = Some (True, d') \<Longrightarrow>
    device_run fp io rio log_url parse sd cap d0 hist d'"

inductive_cases device_runE: "device_run fp io rio log_url parse sd cap d0 hist d"

text \<open>What holds between turns: the indices are mirrored and everything is in order.\<close>

definition device_ok ::
    "('c \<Rightarrow> nat \<Rightarrow> u8) \<Rightarrow> ('c \<Rightarrow> bool) \<Rightarrow> nat \<Rightarrow> reading list \<Rightarrow> 'c logger \<Rightarrow> reading list \<Rightarrow> 'c logger \<Rightarrow> bool" where
  "device_ok cells idle cap q0 st0 hist st \<longleftrightarrow> indices_ok st \<and> in_order cells idle cap q0 st0 hist st"

text \<open>A start keeps the queue: the chip's cells above the configuration and the mirrored indices are all it needs.\<close>

lemma ring_holds_cong:
  assumes "\<forall>a \<ge> 8192. m' a = m a"
  shows "ring_holds m' n w log = ring_holds m n w log"
  using assms by (simp add: ring_holds_def cell_of_def)

lemma holds_queue_log: "holds_queue cells idle cap q (log_bit b v st) = holds_queue cells idle cap q st"
  unfolding holds_queue_def store_ok_def by simp

context nor_flash_id
begin

lemma setup_keeps_queue:
  assumes "holds_queue cells idle cap q st" and "indices_ok st" and "parse config = cfg st"
    and "config \<noteq> []" and "length config < configSize" and "0 \<notin> set config" and "length stack = configSize"
  shows "\<exists>st'. device_setup io parse stack (Some config) (power_on st) = Some (True, st') \<and>
    holds_queue cells idle cap q st' \<and> indices_ok st' \<and> cfg st' = cfg st \<and> posts st' = posts st \<and>
    wIndex st' = wIndex st \<and> rIndex st' = rIndex st"
proof -
  let ?st = "power_on st"
  from assms(1) obtain log where q: "unat (wIndex st) = unat (rIndex st) + length q"
    "next_sector (RECSIZE * unat (wIndex st)) \<le> RECSIZE * unat (rIndex st) + (cap - 8192)"
    "store_ok cells idle cap log st" "log_holds log (unat (rIndex st)) q"
    by (auto simp: holds_queue_def)
  have "idle (chip (flash (ring ?st)))" "capacity (flash (ring ?st)) = 0" "errorcode (flash (ring ?st)) = 0"
    using q(3) by (simp_all add: power_on_def store_ok_def calm_def)
  from flash_meter_begin_ok [OF this] obtain fm where
    fm: "flash_meter_begin io 64 (ring ?st) = Some (True, fm)" "ring_geometry cap fm" "recordSize fm = 64"
    "calm idle cap (flash fm)" "cells (chip (flash fm)) = cells (chip (flash (ring st)))"
    by (auto simp: power_on_def)
  have big: "configSize \<le> cap" using fm(2) by (simp add: ring_geometry_def)
  from config_round_trip [OF fm(4) big assms(7,7,4,5,6)] obtain fm1 f where
    fm1: "writeConfigFlash io config stack fm = Some (True, fm1)" "fm1 = fm\<lparr>flash := f\<rparr>" "calm idle cap (flash fm1)"
    "\<forall>a \<ge> 4096. cells (chip (flash fm1)) a = cells (chip (flash fm)) a" by blast
  let ?X = "st\<lparr>md := replicate (length (md st)) no_meterData, wBuff := replicate (RECSIZE * MAXMETER) 0,
     rBuff := replicate (RECSIZE * MAXMETER) 0, lastTime := 0, fErrorCnt := 0, errlog := 0, ring := fm1\<rparr>"
  have X: "indices_ok ?X" using assms(2) by (simp add: indices_ok_def)
  have "?st\<lparr>ring := fm1, cfg := parse config\<rparr> = ?X\<lparr>wIndex := 0, rIndex := 0\<rparr>"
    by (simp add: power_on_def assms(3))
  then have run: "device_setup io parse stack (Some config) ?st = Some (True, log_bit bit_restart True ?X)"
    using indices_restored [OF X, of 0 0] by (simp add: device_setup_def fm(1) fm1(1))
  have "ring_holds (cells (chip (flash fm1))) (cap - 8192) w log =
      ring_holds (cells (chip (flash (ring st)))) (cap - 8192) w log" for w
    using fm1(4) fm(5) by (intro ring_holds_cong) simp
  then have "store_ok cells idle cap log ?X"
    using q(3) fm(2,3) fm1(2,3) by (simp add: store_ok_def)
  then have "holds_queue cells idle cap q ?X" using q by (auto simp: holds_queue_def)
  then have "holds_queue cells idle cap q (log_bit bit_restart True ?X)"
    by (simp add: holds_queue_log)
  moreover have "indices_ok (log_bit bit_restart True ?X)" using X by (simp add: indices_ok_def)
  ultimately show ?thesis using run by simp
qed

lemma turn_keeps_order:
  assumes "device_ok cells idle cap q0 st0 hist (dlogger d)" and "batch_mode (cfg st0)" and "log_use (cfg st0) \<noteq> 1"
    and "has_room cap (dlogger d)" and "unat (wIndex (dlogger d)) + 256 < 2 ^ 32"
    and "loop fp io rio log_url w d = Some (restarted, d')"
  shows "device_ok cells idle cap q0 st0 (hist @ new_readings (dlogger d) (dlogger d')) (dlogger d')"
proof -
  let ?st = "dlogger d"
  obtain now ck r st where c: "clock_turn rio (w_clock w) (dclock d, drtc d, ?st) = (now, ck, r, st)"
    by (metis prod_cases4)
  obtain lt where st: "st = ?st\<lparr>lastTime := lt\<rparr>"
  proof -
    have "st = ?st\<lparr>lastTime := lastTime ?st\<rparr> \<or> st = ?st\<lparr>lastTime := 0\<rparr>"
      using c by (auto simp: clock_turn_def adjust_clock_def Let_def split: prod.splits if_splits)
    then show thesis using that by blast
  qed
  let ?st1 = "?st\<lparr>line := w_line w, http := w_http w, lastTime := lt\<rparr>"
  have eq: "st\<lparr>line := w_line w, http := w_http w\<rparr> = ?st1" by (simp add: st)
  from assms(6) obtain st2 where st2: "loop_tasks fp io (w_sample w) now (w_wifi w) ?st1 = Some st2"
    and checks: "snd (snd (snd (loop_checks (w_millis w) (w_answer w) log_url now (w_wifi w)
      (serverMillisChk d, rstMillisChk d, st2)))) = dlogger d'"
    unfolding loop_def c prod.case Let_def eq by (auto split: option.splits prod.splits)
  have inv: "indices_ok ?st" "in_order cells idle cap q0 st0 hist ?st" using assms(1) by (simp_all add: device_ok_def)
  have "indices_ok ?st1" using inv(1) by (simp add: indices_ok_def)
  moreover have "unat (wIndex ?st1) + 256 < 2 ^ 32" using assms(5) by simp
  ultimately have i: "indices_ok st2" using st2 by (rule loop_indices_ok)
  have o: "in_order cells idle cap q0 st0 (hist @ new_readings ?st st2) st2"
    using nor_flash_axioms assms(2) inv(2) assms(4) st2 by (rule turn_in_order)
  then have "cfg st2 = cfg st0" by (simp add: in_order_def)
  then have "dlogger d' = st2" using checks assms(3) by (auto simp: loop_checks_def Let_def split: if_splits)
  with i o show ?thesis by (simp add: device_ok_def)
qed

lemma boot_keeps_order:
  assumes "device_ok cells idle cap q0 st0 hist (dlogger d)" and "parse config = cfg st0"
    and "config \<noteq> []" and "length config < configSize" and "0 \<notin> set config" and "length stack = configSize"
  shows "\<exists>d'. boot io parse stack (Some config) d = Some (True, d') \<and> device_ok cells idle cap q0 st0 hist (dlogger d')"
proof -
  from assms(1) obtain bs q where o: "indices_ok (dlogger d)" "cfg (dlogger d) = cfg st0" "delivered st0 bs (dlogger d)"
    "holds_queue cells idle cap q (dlogger d)" "concat bs @ q = q0 @ hist"
    by (auto simp: device_ok_def in_order_def)
  have "parse config = cfg (dlogger d)" using assms(2) o(2) by simp
  from setup_keeps_queue [where parse = parse, OF o(4,1) this assms(3-6)] obtain st' where
    st': "device_setup io parse stack (Some config) (power_on (dlogger d)) = Some (True, st')"
    "holds_queue cells idle cap q st'" "indices_ok st'" "cfg st' = cfg st0" "posts st' = posts (dlogger d)"
    using o(2) by auto
  have "delivered st0 bs st'" using o(3) st'(5) by (simp add: delivered_def)
  then have "in_order cells idle cap q0 st0 hist st'" using st'(2,4) o(5) unfolding in_order_def by blast
  then show ?thesis using st'(1,3) by (simp add: boot_def device_ok_def)
qed

lemma device_run_ok:
  assumes "device_run fp io rio log_url parse sd cap d0 hist d"
    and "batch_mode (cfg (dlogger d0))" and "log_use (cfg (dlogger d0)) \<noteq> 1" and "parse sd = cfg (dlogger d0)"
    and "sd \<noteq> []" and "length sd < configSize" and "0 \<notin> set sd"
    and "holds_queue cells idle cap q0 (dlogger d0)" and "indices_ok (dlogger d0)"
  shows "device_ok cells idle cap q0 (dlogger d0) hist (dlogger d)"
  using assms(1)
proof (induction rule: device_run.induct)
  case start
  show ?case using assms(8,9)
    by (auto simp: device_ok_def in_order_def delivered_def intro!: exI [of _ "[]"] exI [of _ q0])
next
  case (turn hist d w d')
  from turn.IH assms(2,3) turn.hyps(2-4) show ?case by (rule turn_keeps_order)
next
  case (restart hist d w d1 stack d')
  from restart.IH assms(2,3) restart.hyps(2-4) have
    "device_ok cells idle cap q0 (dlogger d0) (hist @ new_readings (dlogger d) (dlogger d1)) (dlogger d1)"
    by (rule turn_keeps_order)
  from boot_keeps_order [where parse = parse and config = sd, OF this assms(4-7) restart.hyps(5)] restart.hyps(6) show ?case by auto
next
  case (power_loss hist d stack d')
  from boot_keeps_order [where parse = parse and config = sd, OF power_loss.IH assms(4-7) power_loss.hyps(2)] power_loss.hyps(3) show ?case by auto
qed

end

section \<open>The guarantees\<close>


text \<open>
  C2: A start finds everything again. Whatever the globals held when the power went, \<open>setup\<close> identifies the flash,
  stores the configuration of the card beside the records, and restores the indices: the queue of readings is
  the one before, and so are the configuration and the mirrored indices.
\<close>

theorem start_keeps_readings:
  assumes "nor_flash_id io cells wel idle cap manufacturer memory_type capacity_code"
    and "holds_queue cells idle cap q st" and "indices_ok st" and "parse sd = cfg st"
    and "sd \<noteq> []" and "length sd < configSize" and "0 \<notin> set sd" and "length stack = configSize"
  shows "\<exists>st'. device_setup io parse stack (Some sd) (power_on st) = Some (True, st') \<and>
    holds_queue cells idle cap q st' \<and> indices_ok st' \<and> wIndex st' = wIndex st \<and> rIndex st' = rIndex st"
  using nor_flash_id.setup_keeps_queue [OF assms(1), where parse = parse, OF assms(2-8)] by blast

section \<open>On the chip with timing\<close>

interpretation w25id: nor_flash_id nor_chip nor_cells nor_wel nor_idle "2 * 1024 * 1024" "0xEF" "0x40" "0x15"
proof unfold_locales
  fix c c' :: nor and rs
  assume c: "nor_idle c"
  show "drop 1 rs = [0xEF, 0x40, 0x15] \<and> nor_idle c' \<and> nor_cells c' = nor_cells c \<and> nor_wel c' = nor_wel c"
    if "command nor_chip [JEDECID, NULLBYTE, NULLBYTE, NULLBYTE] c = (rs, c')"
    using that c by (auto simp: command_def Let_def nor_reply_def nor_execute_def nor_idle_def)
  show "nor_idle c' \<and> nor_cells c' = nor_cells c \<and> nor_wel c' = nor_wel c"
    if "command nor_chip (READSFDP # address_bytes 0 @ DUMMYBYTE # replicate 4 NULLBYTE) c = (rs, c')"
  proof -
    have "replicate 4 NULLBYTE = [NULLBYTE, NULLBYTE, NULLBYTE, NULLBYTE]" by (simp add: numeral_eq_Suc)
    then show ?thesis using that c
      by (auto simp: command_def Let_def nor_reply_def nor_execute_def nor_idle_def address_bytes_def)
  qed
qed simp_all

text \<open>A device with one meter and its configuration on the card.\<close>

definition demo_device :: "(nor, nat \<Rightarrow> u8) device" where
  "demo_device = \<lparr>dlogger = demo_logger,
     dclock = \<lparr>timeClient = NTPClient (GMT * 3600), tAdj = False, lastUpdateRTC = 0\<rparr>,
     drtc = (\<lambda>a. 0), serverMillisChk = 0, rstMillisChk = 0\<rparr>"

lemma demo_indices: "indices_ok demo_logger"
  by (simp add: indices_ok_def demo_logger_def load_def le32_def numeral_eq_Suc)

lemma demo_modes: "batch_mode (cfg demo_logger)" "log_use (cfg demo_logger) \<noteq> 1"
  by (simp_all add: demo_ok(2)) (simp add: demo_logger_def demo_config_def)

theorem start_keeps_readings_witness:
  "\<exists>st'. device_setup nor_chip (\<lambda>_. cfg demo_logger) (replicate 4096 0) (Some [123, 125]) (power_on demo_logger) = Some (True, st') \<and>
     holds_queue nor_cells nor_idle (2 * 1024 * 1024) [] st' \<and> wIndex st' = 0"
proof -
  have "wIndex demo_logger = 0" by (simp add: demo_logger_def)
  then show ?thesis
    using start_keeps_readings [OF w25id.nor_flash_id_axioms demo_ok(1) demo_indices,
        of "\<lambda>_. cfg demo_logger" "[123, 125]" "replicate 4096 0"]
    by auto
qed


end
