(* ===== verification/NetPost.thy ===== *)
theory NetPost
  imports HttpPost Device
begin

text \<open>
  The logger on the network: the post task of \<open>main.cpp\<close> with its request made by the HTTP client over the
  sockets, down to the bytes the server gets. \<open>Logger\<close> takes the status codes from a list; here they are what
  the client gives, so the theorems on the queue of readings hold for what is on the wire.
\<close>

section \<open>The bytes of a request\<close>

text \<open>\<open>strftime(tbuff, 64, "%Y%m%d%H%M", localtime(\<dots>))\<close>, on a signed time of 32 bits.\<close>

definition two_digits :: "int \<Rightarrow> u8 list" where
  "two_digits n = [48 + of_int (n div 10), 48 + of_int (n mod 10)]"

definition stamp_text :: "u32 \<Rightarrow> u8 list" where
  "stamp_text t = (let d = localtime (sint t) in
     number_text 10 (nat (tm_year d + 1900)) @ two_digits (tm_mon d + 1) @ two_digits (tm_mday d) @
     two_digits (tm_hour d) @ two_digits (tm_min d))"

text \<open>How \<open>String(x, 4)\<close> prints a float is the parameter \<open>show_float\<close>.\<close>

fun tok_text :: "(u32 \<Rightarrow> u8 list) \<Rightarrow> tok \<Rightarrow> u8 list" where
  "tok_text show_float (Lit s) = chars s"
| "tok_text show_float (UInt n) = number_text 10 (unat n)"
| "tok_text show_float (Float4 x) = show_float x"
| "tok_text show_float (Stamp t) = stamp_text t"

definition render :: "(u32 \<Rightarrow> u8 list) \<Rightarrow> tok list \<Rightarrow> u8 list" where
  "render show_float toks = concat (map (tok_text show_float) toks)"

section \<open>The task\<close>

text \<open>A request of \<open>main.cpp\<close>, as \<open>Logger.POST\<close> records it, with the code the client gives.\<close>

definition net_POST ::
    "(u32 \<Rightarrow> u8 list) \<Rightarrow> ('s, 'y) sockets_scheme \<Rightarrow> string \<Rightarrow> tok list \<Rightarrow> tok list \<Rightarrow> 'c logger \<Rightarrow> 's \<Rightarrow>
     (u16 \<times> 'c logger \<times> 's) option" where
  "net_POST show_float sk p extra body st s = do {
     let target = render show_float ([Lit p] @ extra @ [Lit (''?access_token='' @ token (cfg st))]);
     (code, response, c, s') \<leftarrow>
       post_json (\<lambda>_. True) (wifi_tcp sk) (chars (url (cfg st))) target (render show_float body) (WiFiClient, s);
     let (code, st') = POST (post_target p extra st) body (st\<lparr>http := [code]\<rparr>);
     Some (code, st', s')
   }"

fun net_post_meters ::
    "(u32 \<Rightarrow> u8 list) \<Rightarrow> ('s, 'y) sockets_scheme \<Rightarrow> nat \<Rightarrow> nat \<Rightarrow> 'c logger \<Rightarrow> 's \<Rightarrow> (bool \<times> 'c logger \<times> 's) option" where
  "net_post_meters show_float sk 0 index st s = Some (True, st, s)"
| "net_post_meters show_float sk (Suc k) index st s =
     (let body = Lit ''[{'' # time_field ''mdt'' (read32 (rBuff st) (index + 4)) @
            number_fields (rBuff st) (index + 8) meter_keys ''}]'';
          index' = index + 48
      in do {
        (code, st1, s1) \<leftarrow> net_POST show_float sk (path (cfg st)) [UInt (read32 (rBuff st) index)] body st s;
        if code \<noteq> 200 then Some (False, log_bit bit_server True st1, s1)
        else net_post_meters show_float sk k (index' + to_record_end index') (log_bit bit_server False st1) s1
      })"

definition net_flashMeterToPost ::
    "(u32 \<Rightarrow> u8 list) \<Rightarrow> ('c, 'z) chip_ops_scheme \<Rightarrow> ('s, 'y) sockets_scheme \<Rightarrow> u32 \<Rightarrow> 'c logger \<Rightarrow> 's \<Rightarrow>
     ('c logger \<times> 's) option" where
  "net_flashMeterToPost show_float io sk num st s = do {
     (ok, buf, fm) \<leftarrow> readMeterRecord io (rIndex st) (rBuff st) (of_nat RECSIZE * num) (ring st);
     let st1 = st\<lparr>rBuff := buf, ring := fm\<rparr>;
     if \<not> ok then Some (st1, s)
     else do {
       (ok2, st2, s2) \<leftarrow> net_post_meters show_float sk (unat num) 0 st1 s;
       Some (if ok2 then advance_read num st2 else st2, s2)
     }
   }"

definition net_batch_post ::
    "(u32 \<Rightarrow> u8 list) \<Rightarrow> ('s, 'y) sockets_scheme \<Rightarrow> string \<Rightarrow> tok list \<Rightarrow> u32 \<Rightarrow> 'c logger \<Rightarrow> 's \<Rightarrow> ('c logger \<times> 's) option" where
  "net_batch_post show_float sk p body num st s = do {
     (code, st1, s1) \<leftarrow> net_POST show_float sk p [] ([Lit ''[''] @ body @ [Lit '']'']) st s;
     Some (if code \<noteq> 200 then log_bit bit_server True st1 else advance_read num (log_bit bit_server False st1), s1)
   }"

definition net_flashMeterToBatchPost ::
    "(u32 \<Rightarrow> u8 list) \<Rightarrow> ('c, 'z) chip_ops_scheme \<Rightarrow> ('s, 'y) sockets_scheme \<Rightarrow> u32 \<Rightarrow> 'c logger \<Rightarrow> 's \<Rightarrow>
     ('c logger \<times> 's) option" where
  "net_flashMeterToBatchPost show_float io sk num st s = do {
     (ok, buf, fm) \<leftarrow> readMeterRecord io (rIndex st) (rBuff st) (of_nat RECSIZE * num) (ring st);
     let st1 = st\<lparr>rBuff := buf, ring := fm\<rparr>;
     if \<not> ok then Some (st1, s)
     else net_batch_post show_float sk (batch_path (cfg st)) (batch_items (meter_item buf) (unat num) 0) num st1 s
   }"

definition net_post_task ::
    "(u32 \<Rightarrow> u8 list) \<Rightarrow> ('c, 'z) chip_ops_scheme \<Rightarrow> ('s, 'y) sockets_scheme \<Rightarrow> bool \<Rightarrow> 'c logger \<Rightarrow> 's \<Rightarrow>
     ('c logger \<times> 's) option" where
  "net_post_task show_float io sk wifi_up st s =
     (if wifi_up \<and> rIndex st < wIndex st then
        let numPost = wIndex st - rIndex st
        in if batch (cfg st) = 0
           then net_flashMeterToPost show_float io sk (if MAXPOST < numPost then MAXPOST else numPost) st s
           else net_flashMeterToBatchPost show_float io sk
             (if ucast (batch (cfg st)) < numPost then ucast (batch (cfg st)) else numPost) st s
      else Some (st, s))"

section \<open>The codes come from the network\<close>

text \<open>
  A task on any network is the task of \<open>Logger\<close> with a list of codes, so what is proved there for every list holds
  here for every network.
\<close>

lemma logger_http_simps:
  "wIndex (st\<lparr>http := hs\<rparr>) = wIndex st" "rIndex (st\<lparr>http := hs\<rparr>) = rIndex st" "cfg (st\<lparr>http := hs\<rparr>) = cfg st"
  "rBuff (st\<lparr>http := hs\<rparr>) = rBuff st" "ring (st\<lparr>http := hs\<rparr>) = ring st"
  "log_bit b v (st\<lparr>http := hs\<rparr>) = (log_bit b v st)\<lparr>http := hs\<rparr>"
  "advance_read n (st\<lparr>http := hs\<rparr>) = (advance_read n st)\<lparr>http := hs\<rparr>"
  "st\<lparr>http := hs, http := hs'\<rparr> = st\<lparr>http := hs'\<rparr>"
  "post_target p extra (st\<lparr>http := hs\<rparr>) = post_target p extra st"
  by (simp_all add: log_bit_def advance_read_def setRIndex_def post_target_def)

lemma http_over_buffers: "st\<lparr>http := hs, rBuff := b, ring := r\<rparr> = st\<lparr>rBuff := b, ring := r, http := hs\<rparr>"
  by (cases st) simp

lemma net_POST_is_POST:
  assumes "net_POST show_float sk p extra body st s = Some (code, st', s')"
  shows "POST (post_target p extra st) body (st\<lparr>http := code # hs\<rparr>) = (code, st'\<lparr>http := hs\<rparr>)"
    and "cfg st' = cfg st"
  using assms by (auto simp: net_POST_def POST_def bind_eq_Some_conv)

lemma net_post_meters_codes:
  "net_post_meters show_float sk n i st s = Some (ok, st', s') \<Longrightarrow>
   \<exists>codes. \<forall>hs. post_meters n i (st\<lparr>http := codes @ hs\<rparr>) = (ok, st'\<lparr>http := hs\<rparr>)"
proof (induction n arbitrary: i st s)
  case 0
  then show ?case by (auto intro: exI [of _ "[]"])
next
  case (Suc n)
  let ?body = "Lit ''[{'' # time_field ''mdt'' (read32 (rBuff st) (i + 4)) @
    number_fields (rBuff st) (i + 8) meter_keys ''}]''"
  from Suc.prems obtain code st1 s1 where
    p: "net_POST show_float sk (path (cfg st)) [UInt (read32 (rBuff st) i)] ?body st s = Some (code, st1, s1)"
    and rest: "(if code \<noteq> 200 then Some (False, log_bit bit_server True st1, s1)
      else net_post_meters show_float sk n (i + 48 + to_record_end (i + 48)) (log_bit bit_server False st1) s1) = Some (ok, st', s')"
    by (auto simp: Let_def bind_eq_Some_conv)
  note post = net_POST_is_POST(1) [OF p]
  show ?case
  proof (cases "code = 200")
    case True
    with rest have "net_post_meters show_float sk n (i + 48 + to_record_end (i + 48)) (log_bit bit_server False st1) s1 =
        Some (ok, st', s')" by simp
    from Suc.IH [OF this] obtain codes where
      "\<forall>hs. post_meters n (i + 48 + to_record_end (i + 48)) ((log_bit bit_server False st1)\<lparr>http := codes @ hs\<rparr>) =
        (ok, st'\<lparr>http := hs\<rparr>)" by blast
    then have "\<forall>hs. post_meters (Suc n) i (st\<lparr>http := (code # codes) @ hs\<rparr>) = (ok, st'\<lparr>http := hs\<rparr>)"
      using True by (simp only: post_meters.simps logger_http_simps post [unfolded True] append_Cons Let_def prod.case simp_thms if_False)
    then show ?thesis by blast
  next
    case False
    with rest have "ok = False" "st' = log_bit bit_server True st1" by auto
    with False have "\<forall>hs. post_meters (Suc n) i (st\<lparr>http := [code] @ hs\<rparr>) = (ok, st'\<lparr>http := hs\<rparr>)"
      by (simp only: post_meters.simps logger_http_simps post append_Cons append_Nil Let_def prod.case simp_thms if_True)
    then show ?thesis by blast
  qed
qed

lemma net_single_codes:
  assumes "net_flashMeterToPost show_float io sk num st s = Some (st', s')"
  shows "\<exists>codes. flashMeterToPost io num (st\<lparr>http := codes\<rparr>) = Some (st'\<lparr>http := []\<rparr>)"
proof -
  from assms obtain ok buf fm where r: "readMeterRecord io (rIndex st) (rBuff st) (of_nat RECSIZE * num) (ring st) = Some (ok, buf, fm)"
    by (auto simp: net_flashMeterToPost_def bind_eq_Some_conv)
  let ?st1 = "st\<lparr>rBuff := buf, ring := fm\<rparr>"
  show ?thesis
  proof (cases ok)
    case False
    then have "flashMeterToPost io num (st\<lparr>http := []\<rparr>) = Some (?st1\<lparr>http := []\<rparr>)"
      using r by (simp only: flashMeterToPost_def logger_http_simps http_over_buffers option.case prod.case Let_def if_True simp_thms)
    moreover have "st' = ?st1" using assms r False by (simp add: net_flashMeterToPost_def)
    ultimately show ?thesis by blast
  next
    case True
    with assms r obtain ok2 st2 where n: "net_post_meters show_float sk (unat num) 0 ?st1 s = Some (ok2, st2, s')"
      and st': "st' = (if ok2 then advance_read num st2 else st2)"
      by (auto simp: net_flashMeterToPost_def bind_eq_Some_conv)
    from net_post_meters_codes [OF n] obtain codes where
      "post_meters (unat num) 0 (?st1\<lparr>http := codes\<rparr>) = (ok2, st2\<lparr>http := []\<rparr>)" by (metis append_Nil2)
    then have "flashMeterToPost io num (st\<lparr>http := codes\<rparr>) = Some (st'\<lparr>http := []\<rparr>)"
      using r True st' by (simp only: flashMeterToPost_def logger_http_simps http_over_buffers option.case prod.case Let_def
          if_False simp_thms) (simp add: logger_http_simps)
    then show ?thesis by blast
  qed
qed

lemma net_batch_codes:
  assumes "net_flashMeterToBatchPost show_float io sk num st s = Some (st', s')"
  shows "\<exists>codes. flashMeterToBatchPost io num (st\<lparr>http := codes\<rparr>) = Some (st'\<lparr>http := []\<rparr>)"
proof -
  from assms obtain ok buf fm where r: "readMeterRecord io (rIndex st) (rBuff st) (of_nat RECSIZE * num) (ring st) = Some (ok, buf, fm)"
    by (auto simp: net_flashMeterToBatchPost_def bind_eq_Some_conv)
  let ?st1 = "st\<lparr>rBuff := buf, ring := fm\<rparr>"
  show ?thesis
  proof (cases ok)
    case False
    then have "flashMeterToBatchPost io num (st\<lparr>http := []\<rparr>) = Some (?st1\<lparr>http := []\<rparr>)"
      using r by (simp only: flashMeterToBatchPost_def logger_http_simps http_over_buffers option.case prod.case Let_def if_True simp_thms)
    moreover have "st' = ?st1" using assms r False by (simp add: net_flashMeterToBatchPost_def)
    ultimately show ?thesis by blast
  next
    case True
    let ?items = "batch_items (meter_item buf) (unat num) 0"
    from True assms r obtain code st2 where
      p: "net_POST show_float sk (batch_path (cfg st)) [] ([Lit ''[''] @ ?items @ [Lit '']'']) ?st1 s = Some (code, st2, s')"
      and st': "st' = (if code \<noteq> 200 then log_bit bit_server True st2 else advance_read num (log_bit bit_server False st2))"
      by (auto simp: net_flashMeterToBatchPost_def net_batch_post_def bind_eq_Some_conv)
    have "flashMeterToBatchPost io num (st\<lparr>http := [code]\<rparr>) = Some (st'\<lparr>http := []\<rparr>)"
      using r True st' net_POST_is_POST(1) [OF p]
      by (simp only: flashMeterToBatchPost_def batch_post_def logger_http_simps http_over_buffers option.case prod.case Let_def
          if_False simp_thms) (simp add: logger_http_simps)
    then show ?thesis by blast
  qed
qed

lemma net_task_codes:
  assumes "net_post_task show_float io sk wifi_up st s = Some (st', s')"
  shows "\<exists>codes. ReadFlashMeterToPost_Task io wifi_up (st\<lparr>http := codes\<rparr>) = Some (st'\<lparr>http := []\<rparr>)"
proof (cases "wifi_up \<and> rIndex st < wIndex st")
  case True
  let ?n = "wIndex st - rIndex st"
  show ?thesis
  proof (cases "batch (cfg st) = 0")
    case zero: True
    then have "net_flashMeterToPost show_float io sk (if MAXPOST < ?n then MAXPOST else ?n) st s = Some (st', s')"
      using assms True by (simp only: net_post_task_def Let_def if_True simp_thms)
    from net_single_codes [OF this] True zero show ?thesis
      by (simp only: ReadFlashMeterToPost_Task_def post_task_def logger_http_simps Let_def if_True simp_thms)
  next
    case False
    then have "net_flashMeterToBatchPost show_float io sk (if ucast (batch (cfg st)) < ?n then ucast (batch (cfg st)) else ?n) st s =
        Some (st', s')"
      using assms True by (simp only: net_post_task_def Let_def if_True if_False simp_thms)
    from net_batch_codes [OF this] True False show ?thesis
      by (simp only: ReadFlashMeterToPost_Task_def post_task_def logger_http_simps Let_def if_True if_False simp_thms)
  qed
next
  case False
  then have "st' = st" using assms by (auto simp: net_post_task_def)
  moreover have "ReadFlashMeterToPost_Task io wifi_up (st\<lparr>http := []\<rparr>) = Some (st\<lparr>http := []\<rparr>)"
    using False by (simp only: ReadFlashMeterToPost_Task_def post_task_def logger_http_simps if_False)
  ultimately show ?thesis by blast
qed

text \<open>\<open>k\<close> turns of a connected logger; \<open>tx\<close> looks at what the server has got of each request.\<close>

fun net_tasks ::
    "(u32 \<Rightarrow> u8 list) \<Rightarrow> ('c, 'z) chip_ops_scheme \<Rightarrow> ('s, 'y) sockets_scheme \<Rightarrow> ('s \<Rightarrow> u8 list) \<Rightarrow> nat \<Rightarrow>
     'c logger \<Rightarrow> 's \<Rightarrow> (u8 list list \<times> 'c logger \<times> 's) option" where
  "net_tasks show_float io sk tx 0 st s = Some ([], st, s)"
| "net_tasks show_float io sk tx (Suc k) st s =
     (if \<not> rIndex st < wIndex st then net_tasks show_float io sk tx k st s
      else do {
        (st1, s1) \<leftarrow> net_post_task show_float io sk True st s;
        (rs, st2, s2) \<leftarrow> net_tasks show_float io sk tx k st1 s1;
        Some (tx s1 # rs, st2, s2)
      })"

section \<open>The request of a batch\<close>

definition batch_target :: "config \<Rightarrow> u8 list" where
  "batch_target c = chars (batch_path c @ ''?access_token='' @ token c)"

definition batch_request :: "(u32 \<Rightarrow> u8 list) \<Rightarrow> config \<Rightarrow> reading list \<Rightarrow> u8 list" where
  "batch_request show_float c b =
     (let payload = render show_float (batch_body b) in request_head (chars (url c)) (batch_target c) payload @ payload)"

text \<open>A server that takes every request to a host and path.\<close>

definition takes_all :: "(u8 list \<Rightarrow> u8 list \<Rightarrow> u8 list) \<Rightarrow> u8 list \<Rightarrow> u8 list \<Rightarrow> bool" where
  "takes_all reply host target \<longleftrightarrow>
     (\<forall>payload. payload \<noteq> [] \<longrightarrow> (\<exists>minor reason fs body bytes.
        reply [] (request_head host target payload) @ reply (request_head host target payload) payload =
          answer_text minor 200 reason fs bytes \<and>
        good_answer 200 reason fs \<and> minor \<noteq> 10 \<and> encodes fs body bytes \<and> 0 \<notin> set body \<and> length body < 2 ^ 31 - 1))"

definition plain_address :: "config \<Rightarrow> bool" where
  "plain_address c \<longleftrightarrow> 47 \<notin> set (chars (url c)) \<and> 58 \<notin> set (chars (url c)) \<and> 64 \<notin> set (chars (url c)) \<and>
     length (url c) < 2 ^ 31 \<and> (\<exists>p. batch_target c = 47 # p)"

lemma render_nonempty: "render show_float (batch_body b) \<noteq> []"
  by (simp add: render_def batch_body_def json_array_def chars_def)

text \<open>On a queue, the task comes back when its request does, and the code decides.\<close>

lemma net_task_returns:
  assumes chip: "nor_flash io cells wel idle cap" and q: "holds_queue cells idle cap q st"
    and mode: "batch_mode (cfg st)" and "q \<noteq> []"
    and post: "post_json (\<lambda>_. True) (wifi_tcp sk) (chars (url (cfg st))) (batch_target (cfg st))
      (render show_float (batch_body (take (batch_size st (length q)) q))) (WiFiClient, s) = Some (code, response, c, s')"
  shows "\<exists>st'. net_post_task show_float io sk True st s = Some (st', s') \<and>
    ReadFlashMeterToPost_Task io True (st\<lparr>http := [code]\<rparr>) = Some (st'\<lparr>http := []\<rparr>)"
proof -
  let ?m = "wIndex st - rIndex st" and ?b = "ucast (batch (cfg st)) :: u32"
  let ?num = "if ?b < ?m then ?b else ?m"
  have b: "0 < unat (batch (cfg st))" "unat (batch (cfg st)) \<le> MAXMETER" using mode by (simp_all add: batch_mode_def)
  have w: "unat (wIndex st) = unat (rIndex st) + length q" using q by (simp add: holds_queue_def)
  then have m: "unat ?m = length q" by (simp add: unat_sub word_le_nat_alt)
  have lt: "rIndex st < wIndex st" using w \<open>q \<noteq> []\<close> by (simp add: word_less_nat_alt)
  have num: "unat ?num = batch_size st (length q)"
    by (simp add: batch_size_def word_less_nat_alt m)
  have nz: "batch (cfg st) \<noteq> 0" using b(1) by auto
  have le: "unat ?num \<le> length q" "unat ?num \<le> MAXMETER" using b(2) unfolding num by (simp_all add: batch_size_def)
  from batch_is_read [OF chip q le] obtain buf f' where
    r: "readMeterRecord io (rIndex st) (rBuff st) (of_nat RECSIZE * ?num) (ring st) =
      Some (True, buf, (ring st)\<lparr>flash := f'\<rparr>)"
    and body: "[Lit ''[''] @ batch_items (meter_item buf) (unat ?num) 0 @ [Lit '']''] = batch_body (take (unat ?num) q)"
    by blast
  let ?st1 = "st\<lparr>rBuff := buf, ring := (ring st)\<lparr>flash := f'\<rparr>\<rparr>"
  have same: "url (cfg ?st1) = url (cfg st)" "render show_float ([Lit (batch_path (cfg st))] @ [] @
      [Lit (''?access_token='' @ token (cfg ?st1))]) = batch_target (cfg st)"
    by (simp_all add: batch_target_def render_def chars_def)
  have "\<exists>st2. net_POST show_float sk (batch_path (cfg st)) [] (batch_body (take (unat ?num) q)) ?st1 s = Some (code, st2, s')"
    unfolding net_POST_def same num using post by (simp add: POST_def)
  then obtain st2 where p: "net_POST show_float sk (batch_path (cfg st)) []
      ([Lit ''[''] @ batch_items (meter_item buf) (unat ?num) 0 @ [Lit '']'']) ?st1 s = Some (code, st2, s')"
    unfolding body by blast
  let ?st' = "if code \<noteq> 200 then log_bit bit_server True st2 else advance_read ?num (log_bit bit_server False st2)"
  have "net_flashMeterToBatchPost show_float io sk ?num st s = Some (?st', s')"
    unfolding net_flashMeterToBatchPost_def r net_batch_post_def by (simp only: bind.bind_lunit prod.case Let_def p if_False simp_thms)
  then have net: "net_post_task show_float io sk True st s = Some (?st', s')"
    using lt nz by (simp only: net_post_task_def Let_def simp_thms if_True if_False)
  have "flashMeterToBatchPost io ?num (st\<lparr>http := [code]\<rparr>) = Some (?st'\<lparr>http := []\<rparr>)"
    using r net_POST_is_POST(1) [OF p]
    by (simp only: flashMeterToBatchPost_def batch_post_def logger_http_simps http_over_buffers option.case prod.case Let_def
        if_False simp_thms) (simp add: logger_http_simps)
  then have "ReadFlashMeterToPost_Task io True (st\<lparr>http := [code]\<rparr>) = Some (?st'\<lparr>http := []\<rparr>)"
    using lt nz by (simp only: ReadFlashMeterToPost_Task_def post_task_def logger_http_simps Let_def if_True if_False simp_thms)
  with net show ?thesis by blast
qed

text \<open>So what the task does to the queue follows from the code.\<close>

lemma net_task_posts:
  assumes "nor_flash io cells wel idle cap" and "holds_queue cells idle cap q st" and "batch_mode (cfg st)" and "q \<noteq> []"
    and "post_json (\<lambda>_. True) (wifi_tcp sk) (chars (url (cfg st))) (batch_target (cfg st))
      (render show_float (batch_body (take (batch_size st (length q)) q))) (WiFiClient, s) = Some (code, response, c, s')"
  shows "\<exists>st'. net_post_task show_float io sk True st s = Some (st', s') \<and>
    posts st' = posts st @ [meter_batch st (take (batch_size st (length q)) q) code] \<and>
    holds_queue cells idle cap (if code = 200 then drop (batch_size st (length q)) q else q) st' \<and>
    cfg st' = cfg st \<and> wIndex st' = wIndex st"
proof -
  let ?st = "st\<lparr>http := [code]\<rparr>"
  have same: "next_code ?st = code" "batch_size ?st = batch_size st" "meter_batch ?st = meter_batch st"
    by (simp_all add: next_code_def batch_size_def [abs_def] meter_batch_def [abs_def] post_target_def)
  have b: "0 < unat (batch (cfg ?st))" "unat (batch (cfg ?st)) \<le> MAXMETER" and q: "holds_queue cells idle cap q ?st"
    using assms(2,3) by (simp_all add: batch_mode_def)
  from net_task_returns [OF assms] obtain st' where st':
      "net_post_task show_float io sk True st s = Some (st', s')" "ReadFlashMeterToPost_Task io True ?st = Some (st'\<lparr>http := []\<rparr>)" by blast
  from batch_task_posts [OF assms(1) q b assms(4)] st'(2) show ?thesis
    unfolding same using st'(1) by auto
qed

section \<open>The backlog over the network\<close>

context stream_sockets
begin

lemma request_taken:
  assumes "free s" and "port = 80" and "plain_address c" and "host = chars (url c)" and "takes_all reply host (batch_target c)"
  shows "\<exists>response s'. post_json (\<lambda>_. True) (wifi_tcp sk) (chars (url c)) (batch_target c) (render show_float (batch_body b)) (WiFiClient, s) =
      Some (200, response, WiFiClient, s') \<and> free s' \<and> tx s' = batch_request show_float c b"
proof -
  let ?payload = "render show_float (batch_body b)"
  have h: "47 \<notin> set host" "58 \<notin> set host" "64 \<notin> set host" "length host < 2 ^ 31"
    using assms(3,4) by (simp_all add: plain_address_def chars_def)
  obtain p where p: "batch_target c = 47 # p" using assms(3) by (auto simp: plain_address_def)
  obtain minor reason fs body bytes where a: "reply [] (request_head host (47 # p) ?payload) @
        reply (request_head host (47 # p) ?payload) ?payload = answer_text minor 200 reason fs bytes"
      "good_answer 200 reason fs" "minor \<noteq> 10" "encodes fs body bytes" "0 \<notin> set body" "length body < 2 ^ 31 - 1"
    using assms(5) render_nonempty [of show_float b] unfolding takes_all_def p by blast
  have "wifi_idle free (WiFiClient, s)" using assms(1) by (simp add: wifi_idle_def)
  from posts_over_sockets [OF this assms(2) h, of p ?payload minor 200 reason fs bytes body] a render_nonempty [of show_float b]
  show ?thesis unfolding assms(4) [symmetric] p
    by (auto simp: wifi_idle_def batch_request_def p assms(4) Let_def)
qed

lemma backlog_is_sent:
  assumes chip: "nor_flash io cells wel idle cap" and "port = 80"
  shows "free s \<Longrightarrow> holds_queue cells idle cap q st \<Longrightarrow> batch_mode (cfg st) \<Longrightarrow> plain_address (cfg st) \<Longrightarrow>
    host = chars (url (cfg st)) \<Longrightarrow> takes_all reply host (batch_target (cfg st)) \<Longrightarrow> length q \<le> k * unat (batch (cfg st)) \<Longrightarrow>
    \<exists>bs st' s'. net_tasks show_float io sk tx k st s = Some (map (batch_request show_float (cfg st)) bs, st', s') \<and>
      concat bs = q \<and> holds_queue cells idle cap [] st' \<and> free s' \<and> rIndex st' = wIndex st \<and> wIndex st' = wIndex st"
proof (induction k arbitrary: q st s)
  case 0
  then have "q = []" by simp
  with 0 show ?case by (auto simp: holds_queue_def word_unat_eq_iff intro!: exI [of _ "[]"])
next
  case (Suc k)
  have w: "unat (wIndex st) = unat (rIndex st) + length q" using Suc.prems(2) by (simp add: holds_queue_def)
  show ?case
  proof (cases "q = []")
    case True
    then have "\<not> rIndex st < wIndex st" using w by (simp add: word_less_nat_alt)
    then show ?thesis using Suc.IH [OF Suc.prems(1-6)] True by simp
  next
    case False
    then have lt: "rIndex st < wIndex st" using w by (simp add: word_less_nat_alt)
    let ?n = "batch_size st (length q)"
    from request_taken [OF Suc.prems(1) assms(2) Suc.prems(4-6)] obtain response s1 where
      s1: "post_json (\<lambda>_. True) (wifi_tcp sk) (chars (url (cfg st))) (batch_target (cfg st))
          (render show_float (batch_body (take ?n q))) (WiFiClient, s) = Some (200, response, WiFiClient, s1)"
        "free s1" "tx s1 = batch_request show_float (cfg st) (take ?n q)" by blast
    from net_task_posts [OF chip Suc.prems(2,3) False s1(1)] obtain st1 where
      st1: "net_post_task show_float io sk True st s = Some (st1, s1)" "holds_queue cells idle cap (drop ?n q) st1"
        "cfg st1 = cfg st" "wIndex st1 = wIndex st" by auto
    have len: "length (drop ?n q) \<le> k * unat (batch (cfg st))"
    proof -
      have "length q - unat (batch (cfg st)) \<le> k * unat (batch (cfg st))" using Suc.prems(7) by simp
      then show ?thesis by (simp add: batch_size_def min_def)
    qed
    from Suc.IH [OF s1(2) st1(2), unfolded st1(3), OF Suc.prems(3-6) len] obtain bs st2 s2 where
      r: "net_tasks show_float io sk tx k st1 s1 = Some (map (batch_request show_float (cfg st)) bs, st2, s2)"
        "concat bs = drop ?n q" "holds_queue cells idle cap [] st2" "free s2" "rIndex st2 = wIndex st" "wIndex st2 = wIndex st"
      unfolding st1(4) by blast
    have "net_tasks show_float io sk tx (Suc k) st s = Some (map (batch_request show_float (cfg st)) (take ?n q # bs), st2, s2)"
      using lt st1(1) r(1) s1(3) by simp
    moreover have "concat (take ?n q # bs) = q" using r(2) by simp
    ultimately show ?thesis using r(3-6) by blast
  qed
qed

lemma silence_keeps:
  assumes chip: "nor_flash io cells wel idle cap" and "port = 80" and "patience = 5000" and "free s"
    and "holds_queue cells idle cap q st" and "batch_mode (cfg st)" and "q \<noteq> []" and "plain_address (cfg st)"
    and "host = chars (url (cfg st))" and "\<And>w bs. reply w bs = []"
  shows "\<exists>st' s'. net_post_task show_float io sk True st s = Some (st', s') \<and> holds_queue cells idle cap q st' \<and>
    posts st' = posts st @ [meter_batch st (take (batch_size st (length q)) q) 0xFFF5] \<and> free s' \<and>
    cfg st' = cfg st \<and> wIndex st' = wIndex st"
proof -
  have h: "47 \<notin> set host" "58 \<notin> set host" "64 \<notin> set host" "length host < 2 ^ 31"
    using assms(8,9) by (simp_all add: plain_address_def chars_def)
  obtain p where p: "batch_target (cfg st) = 47 # p" using assms(8) by (auto simp: plain_address_def)
  have "wifi_idle free (WiFiClient, s)" using assms(4) by (simp add: wifi_idle_def)
  from times_out_over_sockets [OF this assms(2,3) h assms(10,10)] obtain response s' where
    "post_json (\<lambda>_. True) (wifi_tcp sk) (chars (url (cfg st))) (batch_target (cfg st))
      (render show_float (batch_body (take (batch_size st (length q)) q))) (WiFiClient, s) = Some (0xFFF5, response, WiFiClient, s')"
    "free s'" unfolding assms(9) [symmetric] p by (fastforce simp: wifi_idle_def)
  from net_task_posts [OF chip assms(5-7) this(1)] this(2) show ?thesis by auto
qed

end

section \<open>Time stamps\<close>

lemma stamp_of_date:
  assumes "valid_DateTime dt" and "yOff dt < 100" and "seconds_of dt < 2 ^ 31"
  shows "stamp_text (of_nat (seconds_of dt)) = number_text 10 (2000 + yOff dt) @ two_digits (int (mon dt)) @
    two_digits (int (mday dt)) @ two_digits (int (hh dt)) @ two_digits (int (mm dt))"
proof -
  have "sint (of_nat (seconds_of dt) :: u32) = int (seconds_of dt)"
    using assms(3) by (simp add: sint_uint uint_nat unat_of_nat signed_take_bit_int_eq_self)
  then show ?thesis
    using localtime_of_date [OF assms(1,2)] by (simp add: stamp_text_def tm_of_DateTime_def nat_add_distrib)
qed

section \<open>Properties\<close>

text \<open>
  C7: The readings reach the server. A logger with any backlog of readings in flash, connected to a server that
  takes every request, sends it in as many post tasks as it takes: the server gets one request for each batch,
  with the headers of the logger and the JSON of the readings of that batch as the body, byte for byte; the
  batches one after the other are the backlog in order, and the logger's queue is empty.
\<close>

theorem backlog_reaches_server:
  assumes "nor_flash io cells wel idle cap"
    and "stream_sockets sk live free rx tx srank sleft reply (chars (url (cfg st))) 80 patience" and "free s"
    and "holds_queue cells idle cap q st" and "batch_mode (cfg st)" and "plain_address (cfg st)"
    and "takes_all reply (chars (url (cfg st))) (batch_target (cfg st))" and "length q \<le> k * unat (batch (cfg st))"
  shows "\<exists>bs st' s'. net_tasks show_float io sk tx k st s = Some (map (batch_request show_float (cfg st)) bs, st', s') \<and>
    concat bs = q \<and> holds_queue cells idle cap [] st' \<and> rIndex st' = wIndex st \<and> wIndex st' = wIndex st"
  using stream_sockets.backlog_is_sent [OF assms(2,1) refl assms(3-6) refl assms(7,8)] by blast

text \<open>
  C11: An outage of the server loses nothing. A post task to a server that takes the request and never answers
  comes back with the code of a read time-out, which is recorded, and keeps the readings; when the server
  answers again the tasks after it send every reading, in order, from the first one on.
\<close>

theorem outage_is_survived:
  assumes "nor_flash io cells wel idle cap"
    and "stream_sockets sk1 live1 free rx1 tx1 srank1 sleft1 (\<lambda>w bs. []) (chars (url (cfg st))) 80 5000"
    and "stream_sockets sk2 live2 free rx2 tx2 srank2 sleft2 reply (chars (url (cfg st))) 80 5000" and "free s"
    and "holds_queue cells idle cap q st" and "q \<noteq> []" and "batch_mode (cfg st)" and "plain_address (cfg st)"
    and "takes_all reply (chars (url (cfg st))) (batch_target (cfg st))" and "length q \<le> k * unat (batch (cfg st))"
  shows "\<exists>st1 s1 bs st2 s2. net_post_task show_float io sk1 True st s = Some (st1, s1) \<and>
    posts st1 = posts st @ [meter_batch st (take (batch_size st (length q)) q) 0xFFF5] \<and>
    net_tasks show_float io sk2 tx2 k st1 s1 = Some (map (batch_request show_float (cfg st)) bs, st2, s2) \<and>
    concat bs = q \<and> holds_queue cells idle cap [] st2 \<and> rIndex st2 = wIndex st"
proof -
  from stream_sockets.silence_keeps [OF assms(2,1) refl refl assms(4,5,7,6,8) refl refl] obtain st1 s1 where
    st1: "net_post_task show_float io sk1 True st s = Some (st1, s1)" "holds_queue cells idle cap q st1"
      "posts st1 = posts st @ [meter_batch st (take (batch_size st (length q)) q) 0xFFF5]" "free s1"
      "cfg st1 = cfg st" "wIndex st1 = wIndex st" by blast
  from stream_sockets.backlog_is_sent [OF assms(3,1) refl st1(4,2), unfolded st1(5,6), OF assms(7,8) refl assms(9,10)]
    st1(1,3) show ?thesis by blast
qed

section \<open>A logger on a network\<close>

definition online_logger :: "nor logger" where
  "online_logger = demo_logger\<lparr>cfg := demo_config\<lparr>url := ''a.io'', batch_path := ''/log''\<rparr>\<rparr>"

lemma holds_queue_cfg: "holds_queue cells idle cap q (st\<lparr>cfg := c\<rparr>) = holds_queue cells idle cap q st"
  unfolding holds_queue_def store_ok_def by simp

lemma online_round:
  "\<exists>st. meterToFlash nor_chip online_logger = Some (True, st) \<and> cfg st = cfg online_logger \<and>
    holds_queue nor_cells nor_idle (2 * 1024 * 1024) [(7, no_data)] st"
proof -
  have q: "holds_queue nor_cells nor_idle (2 * 1024 * 1024) [] online_logger"
    using demo_ok(1) by (simp add: online_logger_def holds_queue_cfg)
  have r: "round_readings online_logger = [(7, no_data)]"
    by (simp add: round_readings_def online_logger_def demo_logger_def demo_config_def)
  from round_is_appended [OF w25.nor_flash_axioms q] r show ?thesis
    by (auto simp: online_logger_def demo_logger_def demo_config_def next_sector_def)
qed

lemma online_address:
  "plain_address (cfg online_logger)" "batch_mode (cfg online_logger)" "batch (cfg online_logger) = 5"
  "chars (url (cfg online_logger)) = chars ''a.io''"
  using demo_ok(2)
  by (simp_all add: online_logger_def plain_address_def batch_target_def demo_config_def demo_logger_def chars_def batch_mode_def)

lemma ok_server_takes_all: "takes_all ok_server host target"
  unfolding takes_all_def
proof (intro allI impI)
  fix payload :: "u8 list"
  assume "payload \<noteq> []"
  have "request_head host target payload \<noteq> []" by (simp add: request_head_def chars_def)
  then have "ok_server [] (request_head host target payload) @ ok_server (request_head host target payload) payload =
      answer_text 49 200 (chars ''OK'') [(chars ''Transfer-Encoding'', chars ''chunked'')] (chunks_text [chars ''done''] @ crlf)"
    by (simp add: ok_server_def)
  moreover have "0 \<notin> set (chars ''done'')" "length (chars ''done'') < 2 ^ 31 - 1" "(49 :: u8) \<noteq> 10" by (simp_all add: chars_def)
  ultimately show "\<exists>minor reason fs body bytes.
      ok_server [] (request_head host target payload) @ ok_server (request_head host target payload) payload =
        answer_text minor 200 reason fs bytes \<and>
      good_answer 200 reason fs \<and> minor \<noteq> 10 \<and> encodes fs body bytes \<and> 0 \<notin> set body \<and> length body < 2 ^ 31 - 1"
    using ok_answer by blast
qed

lemma backlog_reaches_server_witness:
  "\<exists>st bs st' s'. meterToFlash nor_chip online_logger = Some (True, st) \<and>
    net_tasks (\<lambda>x. [48]) nor_chip (net_sockets ok_server) net_tx 1 st \<lparr>net_open = False, net_rx = [], net_tx = [], net_now = 0\<rparr> =
      Some (map (batch_request (\<lambda>x. [48]) (cfg online_logger)) bs, st', s') \<and> concat bs = [(7, no_data)] \<and> rIndex st' = wIndex st"
proof -
  obtain st where st: "meterToFlash nor_chip online_logger = Some (True, st)" "cfg st = cfg online_logger"
    "holds_queue nor_cells nor_idle (2 * 1024 * 1024) [(7, no_data)] st" using online_round by blast
  have "length [(7 :: u32, no_data)] \<le> 1 * unat (batch (cfg st))" by (simp add: st(2) online_address)
  from backlog_reaches_server [where show_float = "\<lambda>x. [48]", OF w25.nor_flash_axioms
      net.stream_sockets_axioms [where reply = ok_server and host = "chars (url (cfg st))" and port = 80 and patience = 5000] TrueI
      st(3) _ _ ok_server_takes_all this]
  show ?thesis using st(1) unfolding st(2) by (metis online_address(1,2))
qed

lemma outage_is_survived_witness:
  "\<exists>st st1 s1 bs st2 s2. meterToFlash nor_chip online_logger = Some (True, st) \<and>
    net_post_task (\<lambda>x. [48]) nor_chip (net_sockets (\<lambda>w bs. [])) True st
      \<lparr>net_open = False, net_rx = [], net_tx = [], net_now = 0\<rparr> = Some (st1, s1) \<and>
    net_tasks (\<lambda>x. [48]) nor_chip (net_sockets ok_server) net_tx 1 st1 s1 =
      Some (map (batch_request (\<lambda>x. [48]) (cfg online_logger)) bs, st2, s2) \<and> concat bs = [(7, no_data)] \<and> rIndex st2 = wIndex st"
proof -
  obtain st where st: "meterToFlash nor_chip online_logger = Some (True, st)" "cfg st = cfg online_logger"
    "holds_queue nor_cells nor_idle (2 * 1024 * 1024) [(7, no_data)] st" using online_round by blast
  have n: "length [(7 :: u32, no_data)] \<le> 1 * unat (batch (cfg st))" by (simp add: st(2) online_address)
  note net = net.stream_sockets_axioms [where host = "chars (url (cfg st))" and port = 80 and patience = 5000]
  from outage_is_survived [where show_float = "\<lambda>x. [48]", OF w25.nor_flash_axioms net [where reply = "\<lambda>w bs. []"] net [where reply = ok_server] TrueI
      st(3) _ _ _ ok_server_takes_all n]
  show ?thesis using st(1) unfolding st(2) by (metis online_address(1,2) list.distinct(1))
qed

end
