(* ===== verification/SdDriver.thy ===== *)
theory SdDriver
  imports SdCrc "HOL-Library.Monad_Syntax"
begin

unbundle bit_operations_syntax

text \<open>
  \<open>sd_diskio.cpp\<close>: the driver of the SD card on which the configuration lies. The bus is the parameter \<open>io\<close>:
  transfers of a byte, the select line and the clock. The waiting loops have no bound of their own, so that an
  operation that does not return is \<open>None\<close>. A buffer is the list of its bytes, and a read gives the bytes it
  leaves in the buffer.
\<close>

section \<open>The bus and the card\<close>

record 'b spi_bus =
  transfer :: "u8 \<Rightarrow> 'b \<Rightarrow> u8 \<times> 'b"
  chip_select :: "bool \<Rightarrow> 'b \<Rightarrow> 'b"
  bus_millis :: "'b \<Rightarrow> u32 \<times> 'b"
  bus_delay :: "nat \<Rightarrow> 'b \<Rightarrow> 'b"

datatype sdcard_type = CARD_NONE | CARD_MMC | CARD_SD | CARD_SDHC | CARD_UNKNOWN

text \<open>Of the status only two bits are used.\<close>

record sd_card =
  card_type :: sdcard_type
  card_sectors :: u32
  supports_crc :: bool
  sta_noinit :: bool
  sta_protect :: bool
  card_hz :: int

abbreviation (input) GO_IDLE_STATE :: u8 where "GO_IDLE_STATE \<equiv> 0"
abbreviation (input) SEND_OP_COND :: u8 where "SEND_OP_COND \<equiv> 1"
abbreviation (input) SEND_IF_COND :: u8 where "SEND_IF_COND \<equiv> 8"
abbreviation (input) SEND_CSD :: u8 where "SEND_CSD \<equiv> 9"
abbreviation (input) STOP_TRANSMISSION :: u8 where "STOP_TRANSMISSION \<equiv> 12"
abbreviation (input) SEND_STATUS :: u8 where "SEND_STATUS \<equiv> 13"
abbreviation (input) SET_BLOCKLEN :: u8 where "SET_BLOCKLEN \<equiv> 16"
abbreviation (input) READ_BLOCK_SINGLE :: u8 where "READ_BLOCK_SINGLE \<equiv> 17"
abbreviation (input) READ_BLOCK_MULTIPLE :: u8 where "READ_BLOCK_MULTIPLE \<equiv> 18"
abbreviation (input) SEND_NUM_WR_BLOCKS :: u8 where "SEND_NUM_WR_BLOCKS \<equiv> 22"
abbreviation (input) SET_WR_BLK_ERASE_COUNT :: u8 where "SET_WR_BLK_ERASE_COUNT \<equiv> 23"
abbreviation (input) WRITE_BLOCK_SINGLE :: u8 where "WRITE_BLOCK_SINGLE \<equiv> 24"
abbreviation (input) WRITE_BLOCK_MULTIPLE :: u8 where "WRITE_BLOCK_MULTIPLE \<equiv> 25"
abbreviation (input) APP_OP_COND :: u8 where "APP_OP_COND \<equiv> 41"
abbreviation (input) APP_CLR_CARD_DETECT :: u8 where "APP_CLR_CARD_DETECT \<equiv> 42"
abbreviation (input) APP_CMD :: u8 where "APP_CMD \<equiv> 55"
abbreviation (input) READ_OCR :: u8 where "READ_OCR \<equiv> 58"
abbreviation (input) CRC_ON_OFF :: u8 where "CRC_ON_OFF \<equiv> 59"

text \<open>Bytes out and in; a word comes with its high byte first.\<close>

primrec spi_send :: "('b, 'z) spi_bus_scheme \<Rightarrow> u8 list \<Rightarrow> 'b \<Rightarrow> 'b" where
  "spi_send io [] b = b"
| "spi_send io (x # xs) b = spi_send io xs (snd (transfer io x b))"

primrec spi_receive :: "('b, 'z) spi_bus_scheme \<Rightarrow> nat \<Rightarrow> 'b \<Rightarrow> u8 list \<times> 'b" where
  "spi_receive io 0 b = ([], b)"
| "spi_receive io (Suc n) b =
     (let (x, b1) = transfer io 0xFF b; (xs, b2) = spi_receive io n b1 in (x # xs, b2))"

definition be_word :: "u8 list \<Rightarrow> 'a::len word" where
  "be_word xs = foldl (\<lambda>w x. push_bit 8 w OR ucast x) 0 xs"

definition be16_bytes :: "u16 \<Rightarrow> u8 list" where
  "be16_bytes w = [ucast (drop_bit 8 w), ucast w]"

section \<open>Commands\<close>

partial_function (option) sd_wait_ready :: "('b, 'z) spi_bus_scheme \<Rightarrow> u32 \<Rightarrow> u32 \<Rightarrow> 'b \<Rightarrow> (bool \<times> 'b) option" where
  "sd_wait_ready io timeout start b =
     (let (resp, b1) = transfer io 0xFF b
      in if resp \<noteq> 0 then Some (True, b1)
         else let (now, b2) = bus_millis io b1
              in if now - start < timeout then sd_wait_ready io timeout start b2 else Some (False, b2))"

definition sdWait :: "('b, 'z) spi_bus_scheme \<Rightarrow> u32 \<Rightarrow> 'b \<Rightarrow> (bool \<times> 'b) option" where
  "sdWait io timeout b = (let (start, b1) = bus_millis io b in sd_wait_ready io timeout start b1)"

definition sdStop :: "('b, 'z) spi_bus_scheme \<Rightarrow> 'b \<Rightarrow> 'b" where
  "sdStop io b = spi_send io [0xFD] b"

definition sdDeselectCard :: "('b, 'z) spi_bus_scheme \<Rightarrow> 'b \<Rightarrow> 'b" where
  "sdDeselectCard io b = chip_select io False b"

text \<open>Selecting a card always succeeds, whether it is ready or not.\<close>

definition sdSelectCard :: "('b, 'z) spi_bus_scheme \<Rightarrow> 'b \<Rightarrow> 'b option" where
  "sdSelectCard io b = do { (_, b1) \<leftarrow> sdWait io 300 (chip_select io True b); Some b1 }"

definition sd_packet :: "bool \<Rightarrow> u8 \<Rightarrow> u32 \<Rightarrow> u8 list" where
  "sd_packet crc cmd arg =
     (let front = [cmd OR 0x40, ucast (drop_bit 24 arg), ucast (drop_bit 16 arg), ucast (drop_bit 8 arg), ucast arg]
      in front @ [if crc \<or> cmd = GO_IDLE_STATE \<or> cmd = SEND_IF_COND then push_bit 1 (CRC7 front) OR 1 else 1] @
         (if cmd = STOP_TRANSMISSION then [0xFF] else []))"

primrec read_token :: "nat \<Rightarrow> ('b, 'z) spi_bus_scheme \<Rightarrow> 'b \<Rightarrow> u8 \<times> 'b" where
  "read_token 0 io b = transfer io 0xFF b"
| "read_token (Suc n) io b =
     (let (token, b1) = transfer io 0xFF b in if token AND 0x80 = 0 then (token, b1) else read_token n io b1)"

text \<open>One try: whether it is to be repeated, the token, and what is stored through \<open>resp\<close>.\<close>

definition sd_try ::
  "('b, 'z) spi_bus_scheme \<Rightarrow> bool \<Rightarrow> u8 \<Rightarrow> u32 \<Rightarrow> bool \<Rightarrow> 'b \<Rightarrow> (bool \<times> u8 \<times> u32 option \<times> 'b) option" where
  "sd_try io crc cmd arg resp b =
     (let (token, b1) = read_token 8 io (spi_send io (sd_packet crc cmd arg) b)
      in if token = 0xFF \<or> token AND 8 \<noteq> 0
         then do { b2 \<leftarrow> sdSelectCard io (bus_delay io 100 (sdDeselectCard io b1)); Some (True, token, None, b2) }
         else if 1 < token then Some (False, token, None, b1)
         else if cmd = SEND_STATUS \<and> resp
         then let (x, b2) = transfer io 0xFF b1 in Some (False, token, Some (ucast x), b2)
         else if (cmd = SEND_IF_COND \<or> cmd = READ_OCR) \<and> resp
         then let (xs, b2) = spi_receive io 4 b1 in Some (False, token, Some (be_word xs), b2)
         else Some (False, token, None, b1))"

primrec sd_tries ::
  "nat \<Rightarrow> ('b, 'z) spi_bus_scheme \<Rightarrow> bool \<Rightarrow> u8 \<Rightarrow> u32 \<Rightarrow> bool \<Rightarrow> u8 \<Rightarrow> 'b \<Rightarrow> (u8 \<times> u32 option \<times> 'b) option" where
  "sd_tries 0 io crc cmd arg resp token b = Some (token, None, b)"
| "sd_tries (Suc n) io crc cmd arg resp token b = do {
     (again, token1, r, b1) \<leftarrow> sd_try io crc cmd arg resp b;
     if again then sd_tries n io crc cmd arg resp token1 b1 else Some (token1, r, b1)
   }"

definition is_app_command :: "u8 \<Rightarrow> bool" where
  "is_app_command cmd \<longleftrightarrow>
     cmd = SEND_NUM_WR_BLOCKS \<or> cmd = SET_WR_BLK_ERASE_COUNT \<or> cmd = APP_OP_COND \<or> cmd = APP_CLR_CARD_DETECT"

text \<open>An application command is announced before every try.\<close>

primrec sd_app_tries ::
  "nat \<Rightarrow> ('b, 'z) spi_bus_scheme \<Rightarrow> bool \<Rightarrow> u8 \<Rightarrow> u32 \<Rightarrow> bool \<Rightarrow> u8 \<Rightarrow> 'b \<Rightarrow> (u8 \<times> u32 option \<times> 'b) option" where
  "sd_app_tries 0 io crc cmd arg resp token b = Some (token, None, b)"
| "sd_app_tries (Suc n) io crc cmd arg resp token b = do {
     (token1, _, b1) \<leftarrow> sd_tries 3 io crc APP_CMD 0 False token b;
     let b2 = sdDeselectCard io b1;
     if 1 < token1 then Some (token1, None, b2)
     else do {
       b3 \<leftarrow> sdSelectCard io b2;
       (again, token2, r, b4) \<leftarrow> sd_try io crc cmd arg resp b3;
       if again then sd_app_tries n io crc cmd arg resp token2 b4 else Some (token2, r, b4)
     }
   }"

definition sdCommand ::
  "('b, 'z) spi_bus_scheme \<Rightarrow> sd_card \<Rightarrow> u8 \<Rightarrow> u32 \<Rightarrow> bool \<Rightarrow> 'b \<Rightarrow> (u8 \<times> u32 option \<times> 'b) option" where
  "sdCommand io sd cmd arg resp b =
     (if is_app_command cmd then sd_app_tries 3 io (supports_crc sd) cmd arg resp 0 b
      else sd_tries 3 io (supports_crc sd) cmd arg resp 0 b)"

definition sdTransaction ::
  "('b, 'z) spi_bus_scheme \<Rightarrow> sd_card \<Rightarrow> u8 \<Rightarrow> u32 \<Rightarrow> bool \<Rightarrow> 'b \<Rightarrow> (u8 \<times> u32 option \<times> 'b) option" where
  "sdTransaction io sd cmd arg resp b = do {
     b1 \<leftarrow> sdSelectCard io b;
     (token, r, b2) \<leftarrow> sdCommand io sd cmd arg resp b1;
     Some (token, r, sdDeselectCard io b2)
   }"

section \<open>Data\<close>

partial_function (option) wait_token :: "('b, 'z) spi_bus_scheme \<Rightarrow> u32 \<Rightarrow> 'b \<Rightarrow> (u8 \<times> 'b) option" where
  "wait_token io start b =
     (let (token, b1) = transfer io 0xFF b
      in if token \<noteq> 0xFF then Some (token, b1)
         else let (now, b2) = bus_millis io b1
              in if now - start < 500 then wait_token io start b2 else Some (token, b2))"

text \<open>\<open>None\<close> in the result: the buffer was not touched.\<close>

definition sdReadBytes ::
  "('b, 'z) spi_bus_scheme \<Rightarrow> sd_card \<Rightarrow> nat \<Rightarrow> 'b \<Rightarrow> (bool \<times> u8 list option \<times> 'b) option" where
  "sdReadBytes io sd n b = do {
     let (start, b1) = bus_millis io b;
     (token, b2) \<leftarrow> wait_token io start b1;
     if token \<noteq> 0xFE then Some (False, None, b2)
     else let (data, b3) = spi_receive io n b2; (crc, b4) = spi_receive io 2 b3
          in Some (\<not> supports_crc sd \<or> be_word crc = CRC16 data, Some data, b4)
   }"

text \<open>The answer 0 when the card is busy is \<open>false\<close> as a \<open>char\<close>.\<close>

definition sdWriteBytes :: "('b, 'z) spi_bus_scheme \<Rightarrow> sd_card \<Rightarrow> u8 list \<Rightarrow> u8 \<Rightarrow> 'b \<Rightarrow> (u8 \<times> 'b) option" where
  "sdWriteBytes io sd buffer token b = do {
     let crc = (if supports_crc sd then CRC16 buffer else 0xFFFF);
     (ready, b1) \<leftarrow> sdWait io 500 b;
     if \<not> ready then Some (0, b1)
     else let (x, b2) = transfer io 0xFF (spi_send io (token # buffer @ be16_bytes crc) b1) in Some (x AND 0x1F, b2)
   }"

section \<open>Sectors\<close>

definition sd_address :: "sd_card \<Rightarrow> u64 \<Rightarrow> u32" where
  "sd_address sd sector = (if card_type sd = CARD_SDHC then ucast sector else ucast (push_bit 9 sector))"

text \<open>The buffer \<open>buf\<close> of 512 bytes.\<close>

primrec read_sector_tries ::
  "nat \<Rightarrow> ('b, 'z) spi_bus_scheme \<Rightarrow> sd_card \<Rightarrow> u64 \<Rightarrow> u8 list \<Rightarrow> 'b \<Rightarrow> (bool \<times> u8 list \<times> 'b) option" where
  "read_sector_tries 0 io sd sector buf b = Some (False, buf, sdDeselectCard io b)"
| "read_sector_tries (Suc n) io sd sector buf b = do {
     b1 \<leftarrow> sdSelectCard io b;
     (token, _, b2) \<leftarrow> sdCommand io sd READ_BLOCK_SINGLE (sd_address sd sector) False b1;
     if token \<noteq> 0 then Some (False, buf, sdDeselectCard io b2)
     else do {
       (success, data, b3) \<leftarrow> sdReadBytes io sd 512 b2;
       let buf1 = (case data of None \<Rightarrow> buf | Some xs \<Rightarrow> xs);
       let b4 = sdDeselectCard io b3;
       if success then Some (True, buf1, b4) else read_sector_tries n io sd sector buf1 b4
     }
   }"

definition sdReadSector ::
  "('b, 'z) spi_bus_scheme \<Rightarrow> sd_card \<Rightarrow> u64 \<Rightarrow> u8 list \<Rightarrow> 'b \<Rightarrow> (bool \<times> u8 list \<times> 'b) option" where
  "sdReadSector io sd sector buf b = read_sector_tries 3 io sd sector buf b"

text \<open>The inner loop over the sectors of one command: the buffer is \<open>buf\<close>, of which \<open>pos\<close> bytes are read; the first
  component tells whether a read failed. \<open>count\<close> sectors remain, at least one.\<close>

primrec read_run ::
  "nat \<Rightarrow> ('b, 'z) spi_bus_scheme \<Rightarrow> sd_card \<Rightarrow> nat \<Rightarrow> u8 list \<Rightarrow> 'b \<Rightarrow> (bool \<times> nat \<times> nat \<times> u8 list \<times> 'b) option" where
  "read_run 0 io sd pos buf b = Some (False, 0, pos, buf, b)"
| "read_run (Suc count) io sd pos buf b = do {
     (success, data, b1) \<leftarrow> sdReadBytes io sd 512 b;
     let buf1 = (case data of None \<Rightarrow> buf | Some xs \<Rightarrow> store buf pos xs);
     if \<not> success then Some (True, Suc count, pos, buf1, b1)
     else read_run count io sd (pos + 512) buf1 b1
   }"

text \<open>\<open>f\<close> counts the failures in a row; a sector that was read resets it.\<close>

partial_function (option) read_sectors_loop ::
  "('b, 'z) spi_bus_scheme \<Rightarrow> sd_card \<Rightarrow> nat \<Rightarrow> u64 \<Rightarrow> nat \<Rightarrow> nat \<Rightarrow> u8 list \<Rightarrow> 'b \<Rightarrow> (bool \<times> u8 list \<times> 'b) option" where
  "read_sectors_loop io sd f sector count pos buf b =
     (if 3 \<le> f then Some (False, buf, sdDeselectCard io b)
      else do {
        b1 \<leftarrow> sdSelectCard io b;
        (token, _, b2) \<leftarrow> sdCommand io sd READ_BLOCK_MULTIPLE (sd_address sd sector) False b1;
        if token \<noteq> 0 then Some (False, buf, sdDeselectCard io b2)
        else do {
          (failed, count1, pos1, buf1, b3) \<leftarrow> read_run count io sd pos buf b2;
          let f1 = (if failed then (if pos1 = pos then f else 0) + 1 else 0);
          (token, _, b4) \<leftarrow> sdCommand io sd STOP_TRANSMISSION 0 False b3;
          let b5 = sdDeselectCard io b4;
          if token \<noteq> 0 then Some (False, buf1, b5)
          else if count1 = 0 then Some (True, buf1, b5)
          else read_sectors_loop io sd f1 (sector + of_nat ((pos1 - pos) div 512)) count1 pos1 buf1 b5
        }
      })"

definition sdReadSectors ::
  "('b, 'z) spi_bus_scheme \<Rightarrow> sd_card \<Rightarrow> u64 \<Rightarrow> nat \<Rightarrow> u8 list \<Rightarrow> 'b \<Rightarrow> (bool \<times> u8 list \<times> 'b) option" where
  "sdReadSectors io sd sector count buf b = read_sectors_loop io sd 0 sector count 0 buf b"

primrec write_sector_tries ::
  "nat \<Rightarrow> ('b, 'z) spi_bus_scheme \<Rightarrow> sd_card \<Rightarrow> u8 list \<Rightarrow> u64 \<Rightarrow> 'b \<Rightarrow> (bool \<times> 'b) option" where
  "write_sector_tries 0 io sd buffer sector b = Some (False, sdDeselectCard io b)"
| "write_sector_tries (Suc n) io sd buffer sector b = do {
     b1 \<leftarrow> sdSelectCard io b;
     (token, _, b2) \<leftarrow> sdCommand io sd WRITE_BLOCK_SINGLE (sd_address sd sector) False b1;
     if token \<noteq> 0 then Some (False, sdDeselectCard io b2)
     else do {
       (token1, b3) \<leftarrow> sdWriteBytes io sd buffer 0xFE b2;
       let b4 = sdDeselectCard io b3;
       if token1 = 0x0A then write_sector_tries n io sd buffer sector b4
       else if token1 = 0x0C then Some (False, b4)
       else do {
         (token2, resp, b5) \<leftarrow> sdTransaction io sd SEND_STATUS 0 True b4;
         Some (token2 = 0 \<and> resp = Some 0, b5)
       }
     }
   }"

definition sdWriteSector :: "('b, 'z) spi_bus_scheme \<Rightarrow> sd_card \<Rightarrow> u8 list \<Rightarrow> u64 \<Rightarrow> 'b \<Rightarrow> (bool \<times> 'b) option" where
  "sdWriteSector io sd buffer sector b = write_sector_tries 3 io sd buffer sector b"

text \<open>The inner loop of a write of several sectors: the last token, and how many sectors remain.\<close>

primrec write_run ::
  "nat \<Rightarrow> ('b, 'z) spi_bus_scheme \<Rightarrow> sd_card \<Rightarrow> u8 list \<Rightarrow> u8 \<Rightarrow> 'b \<Rightarrow> (u8 \<times> nat \<times> 'b) option" where
  "write_run 0 io sd data token b = Some (token, 0, b)"
| "write_run (Suc count) io sd data token b = do {
     (token1, b1) \<leftarrow> sdWriteBytes io sd (take 512 data) 0xFC b;
     if token1 \<noteq> 5 then Some (token1, Suc count, b1) else write_run count io sd (drop 512 data) token1 b1
   }"

definition written_blocks :: "('b, 'z) spi_bus_scheme \<Rightarrow> sd_card \<Rightarrow> 'b \<Rightarrow> (u32 \<times> 'b) option" where
  "written_blocks io sd b =
     (if card_type sd = CARD_MMC then Some (0, b)
      else do {
        b1 \<leftarrow> sdSelectCard io b;
        (token, _, b2) \<leftarrow> sdCommand io sd SEND_NUM_WR_BLOCKS 0 False b1;
        if token \<noteq> 0 then Some (0, sdDeselectCard io b2)
        else do {
          (success, data, b3) \<leftarrow> sdReadBytes io sd 4 b2;
          Some (if success then (case data of None \<Rightarrow> 0 | Some xs \<Rightarrow> be_word xs) else 0, sdDeselectCard io b3)
        }
      })"

text \<open>\<open>cur\<close> sectors from the start are done. A written count that is not below the count, with which the code runs beyond
  the buffer, is \<open>None\<close>.\<close>

partial_function (option) write_sectors_loop ::
  "('b, 'z) spi_bus_scheme \<Rightarrow> sd_card \<Rightarrow> nat \<Rightarrow> u8 list \<Rightarrow> u64 \<Rightarrow> nat \<Rightarrow> nat \<Rightarrow> 'b \<Rightarrow> (bool \<times> 'b) option" where
  "write_sectors_loop io sd f buffer sector count cur b =
     (if 3 \<le> f then Some (False, sdDeselectCard io b)
      else do {
        (token, _, b1) \<leftarrow> (if card_type sd \<noteq> CARD_MMC
                         then sdTransaction io sd SET_WR_BLK_ERASE_COUNT (of_nat (count - cur)) False b
                         else Some (0, None, b));
        if token \<noteq> 0 then Some (False, sdDeselectCard io b1)
        else do {
          b2 \<leftarrow> sdSelectCard io b1;
          (token, _, b3) \<leftarrow> sdCommand io sd WRITE_BLOCK_MULTIPLE (sd_address sd (sector + of_nat cur)) False b2;
          if token \<noteq> 0 then Some (False, sdDeselectCard io b3)
          else do {
            (token, left, b4) \<leftarrow> write_run (count - cur) io sd (drop (512 * cur) buffer) 5 b3;
            let f1 = (if token \<noteq> 5 then (if left = count - cur then f else 0) + 1 else 0);
            (ready, b5) \<leftarrow> sdWait io 500 b4;
            if \<not> ready then Some (False, sdDeselectCard io b5)
            else if left = 0 then do {
              (token, resp, b6) \<leftarrow> sdTransaction io sd SEND_STATUS 0 True (sdDeselectCard io (sdStop io b5));
              Some (token = 0 \<and> resp = Some 0, b6)
            }
            else do {
              (stop, _, b6) \<leftarrow> sdCommand io sd STOP_TRANSMISSION 0 False b5;
              let b7 = sdDeselectCard io b6;
              if stop \<noteq> 0 then Some (False, b7)
              else if token \<noteq> 0x0A then Some (False, b7)
              else do {
                (written, b8) \<leftarrow> written_blocks io sd b7;
                if count \<le> unat written then None
                else write_sectors_loop io sd f1 buffer sector count (unat written) b8
              }
            }
          }
        }
      })"

definition sdWriteSectors :: "('b, 'z) spi_bus_scheme \<Rightarrow> sd_card \<Rightarrow> u8 list \<Rightarrow> u64 \<Rightarrow> nat \<Rightarrow> 'b \<Rightarrow> (bool \<times> 'b) option" where
  "sdWriteSectors io sd buffer sector count b = write_sectors_loop io sd 0 buffer sector count 0 b"

section \<open>Size and start\<close>

definition csd_sectors :: "u8 list \<Rightarrow> u32" where
  "csd_sectors csd =
     (if drop_bit 6 (csd ! 0) = 1
      then push_bit 10 ((push_bit 16 (ucast (csd ! 7 AND 0x3F)) OR push_bit 8 (ucast (csd ! 8)) OR ucast (csd ! 9)) + 1)
      else let size = (push_bit 10 (ucast (csd ! 6 AND 3)) OR push_bit 2 (ucast (csd ! 7)) OR
                       ucast (drop_bit 6 (csd ! 8 AND 0xC0))) + 1;
               size1 = push_bit (unat (push_bit 1 (csd ! 9 AND 3) OR drop_bit 7 (csd ! 10 AND 0x80)) + 2) size
           in drop_bit 9 (push_bit (unat (csd ! 5 AND 0x0F)) size1))"

primrec csd_tries :: "nat \<Rightarrow> ('b, 'z) spi_bus_scheme \<Rightarrow> sd_card \<Rightarrow> 'b \<Rightarrow> (u32 \<times> 'b) option" where
  "csd_tries 0 io sd b = Some (0, sdDeselectCard io b)"
| "csd_tries (Suc n) io sd b = do {
     b1 \<leftarrow> sdSelectCard io b;
     (token, _, b2) \<leftarrow> sdCommand io sd SEND_CSD 0 False b1;
     if token \<noteq> 0 then Some (0, sdDeselectCard io b2)
     else do {
       (success, data, b3) \<leftarrow> sdReadBytes io sd 16 b2;
       let b4 = sdDeselectCard io b3;
       case data of
         Some csd \<Rightarrow> if success then Some (csd_sectors csd, b4) else csd_tries n io sd b4
       | None \<Rightarrow> csd_tries n io sd b4
     }
   }"

definition sdGetSectorsCount :: "('b, 'z) spi_bus_scheme \<Rightarrow> sd_card \<Rightarrow> 'b \<Rightarrow> (u32 \<times> 'b) option" where
  "sdGetSectorsCount io sd b = csd_tries 3 io sd b"

partial_function (option) sd_poll ::
  "('b, 'z) spi_bus_scheme \<Rightarrow> sd_card \<Rightarrow> u8 \<Rightarrow> u32 \<Rightarrow> (u8 \<Rightarrow> bool) \<Rightarrow> u32 \<Rightarrow> 'b \<Rightarrow> (u8 \<times> 'b) option" where
  "sd_poll io sd cmd arg again start b = do {
     (token, _, b1) \<leftarrow> sdTransaction io sd cmd arg False b;
     if \<not> again token then Some (token, b1)
     else let (now, b2) = bus_millis io b1
          in if now - start < 1000 then sd_poll io sd cmd arg again start b2 else Some (token, b2)
   }"

text \<open>The kind of a card that knows \<open>SEND_IF_COND\<close>, and of one that does not; \<open>CARD_UNKNOWN\<close> stands for the jump to the
  end.\<close>

definition identify_new :: "('b, 'z) spi_bus_scheme \<Rightarrow> sd_card \<Rightarrow> u32 option \<Rightarrow> 'b \<Rightarrow> (sdcard_type \<times> 'b) option" where
  "identify_new io sd resp b =
     (case resp of
        None \<Rightarrow> None
      | Some r \<Rightarrow>
          if r AND 0xFFF \<noteq> 0x1AA then Some (CARD_UNKNOWN, b)
          else do {
            (token, ocr, b1) \<leftarrow> sdTransaction io sd READ_OCR 0 True b;
            if token \<noteq> 1 \<or> \<not> (case ocr of None \<Rightarrow> False | Some o1 \<Rightarrow> bit o1 20) then Some (CARD_UNKNOWN, b1)
            else do {
              let (start, b2) = bus_millis io b1;
              (token, b3) \<leftarrow> sd_poll io sd APP_OP_COND 0x40100000 (\<lambda>t. t = 1) start b2;
              if token \<noteq> 0 then Some (CARD_UNKNOWN, b3)
              else do {
                (token, ocr, b4) \<leftarrow> sdTransaction io sd READ_OCR 0 True b3;
                Some (if token = 0
                      then if (case ocr of None \<Rightarrow> False | Some o2 \<Rightarrow> bit o2 30) then CARD_SDHC else CARD_SD
                      else CARD_UNKNOWN, b4)
              }
            }
          })"

definition identify_old :: "('b, 'z) spi_bus_scheme \<Rightarrow> sd_card \<Rightarrow> 'b \<Rightarrow> (sdcard_type \<times> 'b) option" where
  "identify_old io sd b = do {
     (token, ocr, b1) \<leftarrow> sdTransaction io sd READ_OCR 0 True b;
     if token \<noteq> 1 \<or> \<not> (case ocr of None \<Rightarrow> False | Some o1 \<Rightarrow> bit o1 20) then Some (CARD_UNKNOWN, b1)
     else do {
       let (start, b2) = bus_millis io b1;
       (token, b3) \<leftarrow> sd_poll io sd APP_OP_COND 0x100000 (\<lambda>t. t = 1) start b2;
       if token = 0 then Some (CARD_SD, b3)
       else do {
         let (start, b4) = bus_millis io b3;
         (token, b5) \<leftarrow> sd_poll io sd SEND_OP_COND 0x100000 (\<lambda>t. t \<noteq> 0) start b4;
         Some (if token = 0 then CARD_MMC else CARD_UNKNOWN, b5)
       }
     }
   }"

definition sd_finish :: "('b, 'z) spi_bus_scheme \<Rightarrow> sd_card \<Rightarrow> 'b \<Rightarrow> (sd_card \<times> 'b) option" where
  "sd_finish io sd b = do {
     (token, _, b1) \<leftarrow> (if card_type sd \<noteq> CARD_MMC then sdTransaction io sd APP_CLR_CARD_DETECT 0 False b
                      else Some (0, None, b));
     if token \<noteq> 0 then Some (sd\<lparr>card_type := CARD_UNKNOWN\<rparr>, b1)
     else do {
       (token, _, b2) \<leftarrow> (if card_type sd \<noteq> CARD_SDHC then sdTransaction io sd SET_BLOCKLEN 512 False b1
                        else Some (0, None, b1));
       if token \<noteq> 0 then Some (sd\<lparr>card_type := CARD_UNKNOWN\<rparr>, b2)
       else do {
         (n, b3) \<leftarrow> sdGetSectorsCount io sd b2;
         Some (sd\<lparr>card_sectors := n, card_hz := min (card_hz sd) 25000000, sta_noinit := False\<rparr>, b3)
       }
     }
   }"

definition ff_sd_initialize :: "('b, 'z) spi_bus_scheme \<Rightarrow> sd_card \<Rightarrow> 'b \<Rightarrow> (sd_card \<times> 'b) option" where
  "ff_sd_initialize io sd b =
     (if \<not> sta_noinit sd then Some (sd, b)
      else do {
        let b1 = spi_send io (replicate 20 0xFF) (chip_select io False b);
        (token, _, b2) \<leftarrow> sdTransaction io sd GO_IDLE_STATE 0 False b1;
        if token \<noteq> 1 then Some (sd\<lparr>card_type := CARD_UNKNOWN\<rparr>, b2)
        else do {
          (token, _, b3) \<leftarrow> sdTransaction io sd CRC_ON_OFF 1 False b2;
          if token \<noteq> 5 \<and> token \<noteq> 1 then Some (sd\<lparr>card_type := CARD_UNKNOWN\<rparr>, b3)
          else do {
            let sd1 = (if token = 5 then sd\<lparr>supports_crc := False\<rparr> else sd);
            (token, resp, b4) \<leftarrow> sdTransaction io sd1 SEND_IF_COND 0x1AA True b3;
            (kind, b5) \<leftarrow> (if token = 1 then identify_new io sd1 resp b4 else identify_old io sd1 b4);
            if kind = CARD_UNKNOWN then Some (sd1\<lparr>card_type := CARD_UNKNOWN\<rparr>, b5)
            else sd_finish io (sd1\<lparr>card_type := kind\<rparr>) b5
          }
        }
      })"

section \<open>The calls of the file system\<close>

datatype dresult = RES_OK | RES_ERROR | RES_WRPRT | RES_NOTRDY | RES_PARERR

definition ff_sd_read ::
  "('b, 'z) spi_bus_scheme \<Rightarrow> sd_card \<Rightarrow> u8 list \<Rightarrow> u32 \<Rightarrow> nat \<Rightarrow> 'b \<Rightarrow> (dresult \<times> u8 list \<times> 'b) option" where
  "ff_sd_read io sd buffer sector count b =
     (if sta_noinit sd then Some (RES_NOTRDY, buffer, b)
      else do {
        (ok, buf, b1) \<leftarrow> (if 1 < count then sdReadSectors io sd (ucast sector) count buffer b
                        else sdReadSector io sd (ucast sector) buffer b);
        Some (if ok then RES_OK else RES_ERROR, buf, b1)
      })"

text \<open>The last write decides, and it is done for several sectors as well.\<close>

definition ff_sd_write ::
  "('b, 'z) spi_bus_scheme \<Rightarrow> sd_card \<Rightarrow> u8 list \<Rightarrow> u32 \<Rightarrow> nat \<Rightarrow> 'b \<Rightarrow> (dresult \<times> 'b) option" where
  "ff_sd_write io sd buffer sector count b =
     (if sta_noinit sd then Some (RES_NOTRDY, b)
      else if sta_protect sd then Some (RES_WRPRT, b)
      else do {
        (_, b1) \<leftarrow> (if 1 < count then sdWriteSectors io sd buffer (ucast sector) count b else Some (False, b));
        (ok, b2) \<leftarrow> sdWriteSector io sd (take 512 buffer) (ucast sector) b1;
        Some (if ok then RES_OK else RES_ERROR, b2)
      })"

definition sd_sync :: "('b, 'z) spi_bus_scheme \<Rightarrow> 'b \<Rightarrow> (dresult \<times> 'b) option" where
  "sd_sync io b = do { b1 \<leftarrow> sdSelectCard io b; Some (RES_OK, sdDeselectCard io b1) }"

definition sd_card_new :: "int \<Rightarrow> sd_card" where
  "sd_card_new hz = \<lparr>card_type = CARD_NONE, card_sectors = 0, supports_crc = True, sta_noinit = True, sta_protect = False,
     card_hz = hz\<rparr>"

definition sdcard_unmount :: "sd_card \<Rightarrow> sd_card" where
  "sdcard_unmount sd = sd\<lparr>sta_noinit := True, card_type := CARD_NONE\<rparr>"

end
