(* ===== verification/SdCard.thy ===== *)
theory SdCard
  imports SdDriver
begin

unbundle bit_operations_syntax

text \<open>
  The SD card driver with a card: the locale \<open>sd_protocol\<close> states the protocol of the card on the bus (commands are
  answered within eight bytes, data come with their checksum after a token, a card is busy for a while when it is
  selected) and allows damage: answers that arrive damaged, and data blocks the card refuses. A sector is read or
  the read is reported as failed; what a write reports is another matter.
\<close>

section \<open>What a card promises\<close>

text \<open>\<open>mem b\<close>: the blocks by the argument of a command, how many answers in a row will be damaged, and whether the next
  block that is sent will be. \<open>queue b\<close> is what the card will shift out, \<open>target b\<close> the block it waits for.\<close>

type_synonym sd_memory = "(u32 \<Rightarrow> u8 list) \<times> nat \<times> bool"

locale sd_protocol =
  fixes io :: "('b, 'z) spi_bus_scheme" and sel :: "'b \<Rightarrow> bool" and queue :: "'b \<Rightarrow> u8 list"
    and target :: "'b \<Rightarrow> u32 option" and mem :: "'b \<Rightarrow> sd_memory" and now :: "'b \<Rightarrow> u32"
  assumes transfer_out: "sel b \<Longrightarrow> queue b = c # cs \<Longrightarrow> \<exists>b'. transfer io 0xFF b = (c, b') \<and> sel b' \<and> queue b' = cs \<and>
      target b' = target b \<and> mem b' = mem b \<and> (now b' = now b \<or> now b' = now b + 1)"
    and transfer_idle: "sel b \<Longrightarrow> queue b = [] \<Longrightarrow> \<exists>b'. transfer io 0xFF b = (0xFF, b') \<and> sel b' \<and> queue b' = [] \<and>
      target b' = target b \<and> mem b' = mem b"
    and select: "sel (chip_select io True b) \<and> target (chip_select io True b) = None \<and> mem (chip_select io True b) = mem b \<and>
      (\<exists>k < 300. queue (chip_select io True b) = replicate k 0)"
    and deselect: "mem (chip_select io False b) = mem b"
    and clock: "\<exists>b'. bus_millis io b = (now b, b') \<and> now b' = now b \<and> sel b' = sel b \<and> queue b' = queue b \<and>
      target b' = target b \<and> mem b' = mem b"
    and read_command: "sel b \<Longrightarrow> queue b = [] \<Longrightarrow> target b = None \<Longrightarrow> mem b = (block, faults, spoils) \<Longrightarrow>
      \<exists>b' n d frame faults'. spi_send io (sd_packet True READ_BLOCK_SINGLE a) b = b' \<and> sel b' \<and> n \<le> 8 \<and> d < 500 \<and>
        queue b' = replicate n 0xFF @ 0 # replicate d 0xFF @ 0xFE # frame \<and> length frame = 514 \<and> mem b' = (block, faults', spoils) \<and>
        (if faults = 0 then frame = block a @ be16_bytes (CRC16 (block a)) \<and> faults' = 0
         else be_word (drop 512 frame) \<noteq> CRC16 (take 512 frame) \<and> faults = Suc faults')"
    and write_command: "sel b \<Longrightarrow> queue b = [] \<Longrightarrow> target b = None \<Longrightarrow>
      \<exists>b' n. spi_send io (sd_packet True WRITE_BLOCK_SINGLE a) b = b' \<and> sel b' \<and> n \<le> 8 \<and> queue b' = replicate n 0xFF @ [0] \<and>
        target b' = Some a \<and> mem b' = mem b"
    and write_data: "sel b \<Longrightarrow> queue b = [] \<Longrightarrow> target b = Some a \<Longrightarrow> length data = 512 \<Longrightarrow> mem b = (block, faults, spoils) \<Longrightarrow>
      \<exists>b' r. spi_send io (0xFE # data @ be16_bytes (CRC16 data)) b = b' \<and> sel b' \<and> queue b' = [r] \<and>
        (if spoils then r AND 0x1F = 0x0B \<and> mem b' = (block, faults, False)
         else r AND 0x1F = 5 \<and> mem b' = (block(a := data), faults, False))"
    and status_command: "sel b \<Longrightarrow> queue b = [] \<Longrightarrow> target b = None \<Longrightarrow>
      \<exists>b' n. spi_send io (sd_packet True SEND_STATUS 0) b = b' \<and> sel b' \<and> n \<le> 8 \<and> queue b' = replicate n 0xFF @ [0, 0] \<and>
        target b' = None \<and> mem b' = mem b"
    and block_length: "length (fst (mem b) a) = 512"
begin

text \<open>A poll takes at most a millisecond.\<close>

lemma later_poll:
  assumes "now b' = now b \<or> now b' = now b + 1" and "unat (now b - start) + Suc k < unat (timeout :: u32)"
  shows "now b' - start < timeout" and "unat (now b' - start) + k < unat timeout"
proof -
  have "unat timeout < 2 ^ 32" using unsigned_less [where ?'a = nat and w = timeout] by simp
  then have "unat (now b - start) + 1 < 2 ^ 32" using assms(2) by simp
  then have "unat (now b - start + 1) = unat (now b - start) + 1" by (simp add: unat_word_ariths(1))
  moreover have "now b + 1 - start = now b - start + 1" by simp
  ultimately have "unat (now b' - start) \<le> unat (now b - start) + 1" using assms(1) by (metis le_add1 order_refl)
  then show "now b' - start < timeout" "unat (now b' - start) + k < unat timeout"
    using assms(2) by (simp_all add: word_less_nat_alt)
qed

lemma sd_wait_ready_waits:
  assumes "sel b" and "queue b = replicate k 0" and "unat (now b - start) + k < unat timeout"
  shows "\<exists>b'. sd_wait_ready io timeout start b = Some (True, b') \<and> sel b' \<and> queue b' = [] \<and> target b' = target b \<and> mem b' = mem b"
  using assms
proof (induction k arbitrary: b)
  case 0
  from transfer_idle [OF 0(1)] 0(2) show ?case by (subst sd_wait_ready.simps) auto
next
  case (Suc k)
  from transfer_out [OF Suc.prems(1), of 0 "replicate k 0"] Suc.prems(2) obtain b1 where b1: "transfer io 0xFF b = (0, b1)"
      "sel b1" "queue b1 = replicate k 0" "target b1 = target b" "mem b1 = mem b" "now b1 = now b \<or> now b1 = now b + 1" by auto
  from clock [of b1] b1 obtain b2 where b2: "bus_millis io b1 = (now b1, b2)" "now b2 = now b1" "sel b2"
      "queue b2 = replicate k 0" "target b2 = target b" "mem b2 = mem b" by auto
  from later_poll [OF b1(6) Suc.prems(3)] have t: "now b1 - start < timeout" "unat (now b2 - start) + k < unat timeout"
    using b2(2) by simp_all
  from Suc.IH [OF b2(3,4) t(2)] b1(1) b2 t(1) show ?case by (subst sd_wait_ready.simps) auto
qed

lemma sdWait_waits:
  assumes "sel b" and "queue b = replicate k 0" and "k < unat timeout"
  shows "\<exists>b'. sdWait io timeout b = Some (True, b') \<and> sel b' \<and> queue b' = [] \<and> target b' = target b \<and> mem b' = mem b"
proof -
  from clock [of b] assms obtain b1 where b1: "bus_millis io b = (now b, b1)" "now b1 = now b" "sel b1"
      "queue b1 = replicate k 0" "target b1 = target b" "mem b1 = mem b" by auto
  from sd_wait_ready_waits [OF b1(3,4), of "now b" timeout] b1 assms(3) show ?thesis by (simp add: sdWait_def)
qed

lemma select_selects:
  "\<exists>b'. sdSelectCard io b = Some b' \<and> sel b' \<and> queue b' = [] \<and> target b' = None \<and> mem b' = mem b"
proof -
  from select [of b] obtain k where "k < 300" "queue (chip_select io True b) = replicate k 0" by blast
  with sdWait_waits [of "chip_select io True b" k 300] select [of b] show ?thesis by (auto simp: sdSelectCard_def)
qed

lemma read_token_reads:
  assumes "sel b" and "queue b = replicate n 0xFF @ t # rest" and "n \<le> m" and "t AND 0x80 = 0"
  shows "\<exists>b'. read_token m io b = (t, b') \<and> sel b' \<and> queue b' = rest \<and> target b' = target b \<and> mem b' = mem b"
  using assms(1-3)
proof (induction m arbitrary: n b)
  case 0
  with transfer_out [OF 0(1), of t rest] show ?case by auto
next
  case (Suc m)
  show ?case
  proof (cases n)
    case 0
    with Suc.prems transfer_out [OF Suc.prems(1), of t rest] assms(4) show ?thesis by auto
  next
    case j: (Suc j)
    with Suc.prems transfer_out [OF Suc.prems(1), of "0xFF" "replicate j 0xFF @ t # rest"] obtain b1 where b1:
        "transfer io 0xFF b = (0xFF, b1)" "sel b1" "queue b1 = replicate j 0xFF @ t # rest" "target b1 = target b" "mem b1 = mem b"
      by auto
    from Suc.IH [OF b1(2,3)] j Suc.prems(3) b1 show ?thesis by auto
  qed
qed

lemma receive_receives:
  assumes "sel b" and "queue b = xs @ ys"
  shows "\<exists>b'. spi_receive io (length xs) b = (xs, b') \<and> sel b' \<and> queue b' = ys \<and> target b' = target b \<and> mem b' = mem b"
  using assms
proof (induction xs arbitrary: b)
  case (Cons x xs)
  from transfer_out [OF Cons.prems(1), of x "xs @ ys"] Cons.prems(2) obtain b1 where b1: "transfer io 0xFF b = (x, b1)"
      "sel b1" "queue b1 = xs @ ys" "target b1 = target b" "mem b1 = mem b" by auto
  from Cons.IH [OF b1(2,3)] b1 show ?case by auto
qed simp

lemma wait_token_waits:
  assumes "sel b" and "queue b = replicate d 0xFF @ t # rest" and "t \<noteq> 0xFF" and "unat (now b - start) + d < 500"
  shows "\<exists>b'. wait_token io start b = Some (t, b') \<and> sel b' \<and> queue b' = rest \<and> target b' = target b \<and> mem b' = mem b"
  using assms
proof (induction d arbitrary: b)
  case 0
  with transfer_out [OF 0(1), of t rest] show ?case by (subst wait_token.simps) auto
next
  case (Suc d)
  from transfer_out [OF Suc.prems(1), of "0xFF" "replicate d 0xFF @ t # rest"] Suc.prems(2) obtain b1 where b1:
      "transfer io 0xFF b = (0xFF, b1)" "sel b1" "queue b1 = replicate d 0xFF @ t # rest" "target b1 = target b" "mem b1 = mem b"
      "now b1 = now b \<or> now b1 = now b + 1" by auto
  from clock [of b1] b1 obtain b2 where b2: "bus_millis io b1 = (now b1, b2)" "now b2 = now b1" "sel b2"
      "queue b2 = replicate d 0xFF @ t # rest" "target b2 = target b" "mem b2 = mem b" by auto
  have "unat (now b - start) + Suc d < unat (500 :: u32)" using Suc.prems(4) by simp
  from later_poll [OF b1(6) this] have t: "now b1 - start < 500" "unat (now b2 - start) + d < 500" using b2(2) by simp_all
  from Suc.IH [OF b2(3,4) Suc.prems(3) t(2)] b1(1) b2 t(1) show ?case by (subst wait_token.simps) auto
qed

section \<open>Reading\<close>

lemma read_bytes_reads:
  assumes "sel b" and "queue b = replicate d 0xFF @ 0xFE # data @ crc" and "d < 500" and "length crc = 2" and "supports_crc sd"
  shows "\<exists>b'. sdReadBytes io sd (length data) b = Some (be_word crc = CRC16 data, Some data, b') \<and> mem b' = mem b"
proof -
  from clock [of b] assms(1,2) obtain b1 where b1: "bus_millis io b = (now b, b1)" "now b1 = now b" "sel b1"
      "queue b1 = replicate d 0xFF @ 0xFE # data @ crc" "mem b1 = mem b" by auto
  from wait_token_waits [OF b1(3,4), of "now b"] b1 assms(3) obtain b2 where b2: "wait_token io (now b) b1 = Some (0xFE, b2)"
      "sel b2" "queue b2 = data @ crc" "mem b2 = mem b" by auto
  from receive_receives [OF b2(2,3)] b2(4) obtain b3 where b3: "spi_receive io (length data) b2 = (data, b3)" "sel b3"
      "queue b3 = crc @ []" "mem b3 = mem b" by auto
  from receive_receives [OF b3(2,3)] b3(4) assms(4) obtain b4 where b4: "spi_receive io 2 b3 = (crc, b4)" "mem b4 = mem b" by auto
  show ?thesis using b1(1) b2(1) b3(1) b4 assms(5) by (simp add: sdReadBytes_def)
qed

lemma be_word_be16: "be_word (be16_bytes w) = w" for w :: u16
  by (rule bit_word_eqI) (auto simp: be_word_def be16_bytes_def bit_simps)

text \<open>One try: a damaged answer is noticed.\<close>

lemma read_command_answers:
  assumes "sel b" and "queue b = []" and "target b = None" and "mem b = (block, faults, spoils)" and "supports_crc sd"
  shows "\<exists>b1 b2 data. sdCommand io sd READ_BLOCK_SINGLE a False b = Some (0, None, b1) \<and>
    sdReadBytes io sd 512 b1 = Some (faults = 0, Some data, b2) \<and> (faults = 0 \<longrightarrow> data = block a) \<and>
    mem b2 = (block, faults - 1, spoils)"
proof -
  from read_command [OF assms(1-4), of a] obtain b0 n d frame faults' where b0:
      "spi_send io (sd_packet True READ_BLOCK_SINGLE a) b = b0" "sel b0" "n \<le> 8" "d < 500"
      "queue b0 = replicate n 0xFF @ 0 # replicate d 0xFF @ 0xFE # frame" "length frame = 514" "mem b0 = (block, faults', spoils)"
      "if faults = 0 then frame = block a @ be16_bytes (CRC16 (block a)) \<and> faults' = 0
       else be_word (drop 512 frame) \<noteq> CRC16 (take 512 frame) \<and> faults = Suc faults'" by blast
  from read_token_reads [OF b0(2,5,3)] b0(7) obtain b1 where b1: "read_token 8 io b0 = (0, b1)" "sel b1"
      "queue b1 = replicate d 0xFF @ 0xFE # take 512 frame @ drop 512 frame" "mem b1 = (block, faults', spoils)" by auto
  have cmd: "sdCommand io sd READ_BLOCK_SINGLE a False b = Some (0, None, b1)"
    using b0(1) b1(1) assms(5) by (simp add: sdCommand_def is_app_command_def sd_try_def numeral_3_eq_3)
  have len: "length (take 512 frame) = 512" using b0(6) by simp
  have "length (drop 512 frame) = 2" using b0(6) by simp
  from read_bytes_reads [OF b1(2,3) b0(4) this assms(5)] b1(4) obtain b2 where b2:
      "sdReadBytes io sd 512 b1 = Some (be_word (drop 512 frame) = CRC16 (take 512 frame), Some (take 512 frame), b2)"
      "mem b2 = (block, faults', spoils)" unfolding len by auto
  have blk: "length (block a) = 512" using block_length [of b a] assms(4) by simp
  show ?thesis
  proof (cases "faults = 0")
    case True
    then have "take 512 frame = block a" "drop 512 frame = be16_bytes (CRC16 (block a))" "faults' = 0" using b0(8) blk by simp_all
    with cmd b2 True show ?thesis by (auto simp: be_word_be16)
  next
    case False
    with cmd b2 b0(8) show ?thesis by auto
  qed
qed

lemma read_sector_tries_reads:
  assumes "mem b = (block, faults, spoils)" and "supports_crc sd"
  shows "\<exists>buf' b'. read_sector_tries n io sd sector buf b = Some (faults < n, buf', b') \<and>
    (faults < n \<longrightarrow> buf' = block (sd_address sd sector)) \<and> mem b' = (block, faults - n, spoils)"
  using assms(1)
proof (induction n arbitrary: faults buf b)
  case 0
  then show ?case using deselect [of b] by (simp add: sdDeselectCard_def)
next
  case (Suc n)
  from select_selects [of b] Suc.prems obtain b1 where b1: "sdSelectCard io b = Some b1" "sel b1" "queue b1 = []"
      "target b1 = None" "mem b1 = (block, faults, spoils)" by auto
  from read_command_answers [OF b1(2-5) assms(2), of "sd_address sd sector"] obtain b2 b3 data where b2:
      "sdCommand io sd READ_BLOCK_SINGLE (sd_address sd sector) False b1 = Some (0, None, b2)"
      "sdReadBytes io sd 512 b2 = Some (faults = 0, Some data, b3)" "faults = 0 \<longrightarrow> data = block (sd_address sd sector)"
      "mem b3 = (block, faults - 1, spoils)" by blast
  have d: "mem (sdDeselectCard io b3) = (block, faults - 1, spoils)" using deselect [of b3] b2(4) by (simp add: sdDeselectCard_def)
  show ?case
  proof (cases "faults = 0")
    case True
    with b1(1) b2 d show ?thesis by simp
  next
    case False
    with Suc.IH [OF d, of data] b1(1) b2(1,2) show ?thesis by (auto simp: less_diff_conv)
  qed
qed

section \<open>Writing\<close>

lemma write_command_takes:
  assumes "supports_crc sd"
  shows "\<exists>b1 b2. sdSelectCard io b = Some b1 \<and> sdCommand io sd WRITE_BLOCK_SINGLE a False b1 = Some (0, None, b2) \<and>
    sel b2 \<and> queue b2 = [] \<and> target b2 = Some a \<and> mem b2 = mem b"
proof -
  from select_selects [of b] obtain b1 where b1: "sdSelectCard io b = Some b1" "sel b1" "queue b1 = []" "target b1 = None"
      "mem b1 = mem b" by auto
  from write_command [OF b1(2-4), of a] obtain b2 n where b2: "spi_send io (sd_packet True WRITE_BLOCK_SINGLE a) b1 = b2"
      "sel b2" "n \<le> 8" "queue b2 = replicate n 0xFF @ 0 # []" "target b2 = Some a" "mem b2 = mem b" using b1(5) by auto
  from read_token_reads [OF b2(2,4,3)] b2 obtain b3 where "read_token 8 io b2 = (0, b3)" "sel b3" "queue b3 = []"
      "target b3 = Some a" "mem b3 = mem b" by auto
  with b1(1) b2(1) assms show ?thesis
    by (auto simp: sdCommand_def is_app_command_def sd_try_def numeral_3_eq_3)
qed

lemma status_is_good:
  assumes "supports_crc sd"
  shows "\<exists>b'. sdTransaction io sd SEND_STATUS 0 True b = Some (0, Some 0, b') \<and> mem b' = mem b"
proof -
  from select_selects [of b] obtain b1 where b1: "sdSelectCard io b = Some b1" "sel b1" "queue b1 = []" "target b1 = None"
      "mem b1 = mem b" by auto
  from status_command [OF b1(2-4)] obtain b2 n where b2: "spi_send io (sd_packet True SEND_STATUS 0) b1 = b2"
      "sel b2" "n \<le> 8" "queue b2 = replicate n 0xFF @ 0 # [0]" "mem b2 = mem b" using b1(5) by auto
  from read_token_reads [OF b2(2,4,3)] b2(5) obtain b3 where b3: "read_token 8 io b2 = (0, b3)" "sel b3" "queue b3 = [0]"
      "mem b3 = mem b" by auto
  from transfer_out [OF b3(2,3)] b3(4) obtain b4 where b4: "transfer io 0xFF b3 = (0, b4)" "mem b4 = mem b" by auto
  have "sdCommand io sd SEND_STATUS 0 True b1 = Some (0, Some 0, b4)"
    using b2(1) b3(1) b4(1) assms by (simp add: sdCommand_def is_app_command_def sd_try_def numeral_3_eq_3)
  with b1(1) b4(2) deselect [of b4] show ?thesis by (auto simp: sdTransaction_def sdDeselectCard_def)
qed

lemma write_sector_reports:
  assumes "mem b = (block, faults, spoils)" and "supports_crc sd" and "length data = 512"
  shows "\<exists>b'. sdWriteSector io sd data sector b = Some (True, b') \<and>
    mem b' = (if spoils then block else block(sd_address sd sector := data), faults, False)"
proof -
  let ?a = "sd_address sd sector"
  from write_command_takes [OF assms(2), of b ?a] assms(1) obtain b1 b2 where b2: "sdSelectCard io b = Some b1"
      "sdCommand io sd WRITE_BLOCK_SINGLE ?a False b1 = Some (0, None, b2)" "sel b2" "queue b2 = replicate 0 0"
      "target b2 = Some ?a" "mem b2 = (block, faults, spoils)" by auto
  from sdWait_waits [OF b2(3,4), of 500] b2(5,6) obtain b3 where b3: "sdWait io 500 b2 = Some (True, b3)" "sel b3"
      "queue b3 = []" "target b3 = Some ?a" "mem b3 = (block, faults, spoils)" by auto
  from write_data [OF b3(2-4) assms(3) b3(5)] obtain b4 r where b4:
      "spi_send io (0xFE # data @ be16_bytes (CRC16 data)) b3 = b4" "sel b4" "queue b4 = [r]"
      "if spoils then r AND 0x1F = 0x0B \<and> mem b4 = (block, faults, False)
       else r AND 0x1F = 5 \<and> mem b4 = (block(?a := data), faults, False)" by blast
  from transfer_out [OF b4(2,3)] obtain b5 where b5: "transfer io 0xFF b4 = (r, b5)" "mem b5 = mem b4" by auto
  have bytes: "sdWriteBytes io sd data 0xFE b2 = Some (r AND 0x1F, b5)"
    using b3(1) b4(1) b5(1) assms(2) by (simp add: sdWriteBytes_def)
  have tok: "r AND 0x1F \<noteq> 0x0A" "r AND 0x1F \<noteq> 0x0C" using b4(4) by (auto split: if_splits)
  from status_is_good [OF assms(2), of "sdDeselectCard io b5"] obtain b6 where b6:
      "sdTransaction io sd SEND_STATUS 0 True (sdDeselectCard io b5) = Some (0, Some 0, b6)" "mem b6 = mem b4"
    using deselect [of b5] b5(2) by (auto simp: sdDeselectCard_def)
  have "sdWriteSector io sd data sector b = Some (True, b6)"
    using b2(1,2) bytes tok b6(1) by (simp add: sdWriteSector_def numeral_3_eq_3)
  with b4(4) b6(2) show ?thesis by (auto split: if_splits)
qed

end

section \<open>A card\<close>

text \<open>A card in the transfer state: it collects a command of six bytes, or a block of 512 bytes between its token and its
  checksum, and has answers to shift out. It answers after one byte, has data after three more, and is busy for two
  bytes when it is selected; the clock runs with the transfers.\<close>

record sim_card =
  sc_sel :: bool
  sc_in :: "u8 list"
  sc_out :: "u8 list"
  sc_target :: "u32 option"
  sc_blocks :: "u32 \<Rightarrow> u8 list"
  sc_faults :: nat
  sc_spoils :: bool
  sc_now :: u32

definition whole_block :: "u8 list \<Rightarrow> u8 list" where
  "whole_block xs = take 512 (xs @ replicate 512 0)"

definition sim_read :: "u32 \<Rightarrow> sim_card \<Rightarrow> sim_card" where
  "sim_read a c =
     (let data = whole_block (sc_blocks c a); damage = (if sc_faults c = 0 then 0 else 1)
      in c\<lparr>sc_out := [0xFF, 0, 0xFF, 0xFF, 0xFF, 0xFE] @ data @ be16_bytes (CRC16 data XOR damage),
           sc_faults := sc_faults c - 1\<rparr>)"

definition sim_command :: "u8 list \<Rightarrow> sim_card \<Rightarrow> sim_card" where
  "sim_command xs c =
     (let a = be_word (take 4 (tl xs))
      in if last xs \<noteq> push_bit 1 (CRC7 (butlast xs)) OR 1 then c\<lparr>sc_out := [8]\<rparr>
         else if hd xs = 0x51 then sim_read a c
         else if hd xs = 0x58 then c\<lparr>sc_out := [0xFF, 0], sc_target := Some a\<rparr>
         else if hd xs = 0x4D then c\<lparr>sc_out := [0xFF, 0, 0]\<rparr>
         else c\<lparr>sc_out := [4]\<rparr>)"

definition sim_store :: "u32 \<Rightarrow> u8 list \<Rightarrow> sim_card \<Rightarrow> sim_card" where
  "sim_store a xs c =
     (let data = take 512 (tl xs); c1 = c\<lparr>sc_target := None, sc_spoils := False\<rparr>
      in if sc_spoils c \<or> be_word (drop 513 xs) \<noteq> CRC16 data then c1\<lparr>sc_out := [0xEB]\<rparr>
         else c1\<lparr>sc_out := [0xE5], sc_blocks := (sc_blocks c)(a := data)\<rparr>)"

definition sim_take :: "u8 \<Rightarrow> sim_card \<Rightarrow> sim_card" where
  "sim_take x c =
     (if sc_in c = [] \<and> x = 0xFF then c
      else let xs = sc_in c @ [x]
           in case sc_target c of
                None \<Rightarrow> if length xs = 6 then sim_command xs (c\<lparr>sc_in := []\<rparr>) else c\<lparr>sc_in := xs\<rparr>
              | Some a \<Rightarrow> if length xs = 515 then sim_store a xs (c\<lparr>sc_in := []\<rparr>) else c\<lparr>sc_in := xs\<rparr>)"

definition sim_bus :: "sim_card spi_bus" where
  "sim_bus =
     \<lparr>transfer = (\<lambda>x c. if \<not> sc_sel c then (0xFF, c)
        else case sc_out c of
               [] \<Rightarrow> (0xFF, sim_take x c)
             | y # ys \<Rightarrow> (y, c\<lparr>sc_out := ys, sc_now := sc_now c + 1\<rparr>)),
      chip_select = (\<lambda>v c. c\<lparr>sc_sel := v, sc_in := [], sc_target := None, sc_out := (if v then [0, 0] else [])\<rparr>),
      bus_millis = (\<lambda>c. (sc_now c, c)),
      bus_delay = (\<lambda>n c. c\<lparr>sc_now := sc_now c + of_nat n\<rparr>)\<rparr>"

definition sim_sel :: "sim_card \<Rightarrow> bool" where
  "sim_sel c \<longleftrightarrow> sc_sel c \<and> sc_in c = []"

definition sim_mem :: "sim_card \<Rightarrow> sd_memory" where
  "sim_mem c = (\<lambda>a. whole_block (sc_blocks c a), sc_faults c, sc_spoils c)"

lemma length_whole_block [simp]: "length (whole_block xs) = 512"
  by (simp add: whole_block_def)

lemma whole_block_id: "length xs = 512 \<Longrightarrow> whole_block xs = xs"
  by (simp add: whole_block_def)

lemma be_word_packet:
  "be_word [ucast (drop_bit 24 a), ucast (drop_bit 16 a), ucast (drop_bit 8 a), ucast a] = a" for a :: u32
proof (rule bit_word_eqI)
  fix n
  assume "n < LENGTH(32)"
  then consider "n < 8" | "8 \<le> n" "n < 16" | "16 \<le> n" "n < 24" | "24 \<le> n" "n < 32" by fastforce
  then show "bit (be_word [ucast (drop_bit 24 a), ucast (drop_bit 16 a), ucast (drop_bit 8 a), ucast a] :: u32) n = bit a n"
    by cases (auto simp: be_word_def bit_simps)
qed

lemma be_word_be16_bytes: "be_word (be16_bytes w) = w" for w :: u16
  by (rule bit_word_eqI) (auto simp: be_word_def be16_bytes_def bit_simps)

text \<open>Six bytes are a command.\<close>

lemma sim_send_packet:
  assumes "sim_sel c" and "sc_out c = []" and "sc_target c = None" and "length xs = 6" and "hd xs \<noteq> 0xFF"
  shows "spi_send sim_bus xs c = sim_command xs c"
proof -
  obtain x1 x2 x3 x4 x5 x6 where xs: "xs = [x1, x2, x3, x4, x5, x6]"
    using assms(4) by (auto simp: length_Suc_conv numeral_eq_Suc)
  show ?thesis using assms(1-3,5) by (cases c) (simp add: xs sim_bus_def sim_take_def sim_sel_def)
qed

text \<open>The bytes of a block are collected.\<close>

lemma sim_send_collects:
  assumes "sc_sel c" and "sc_out c = []" and "sc_target c = Some a" and "sc_in c \<noteq> []" and "length (sc_in c) + length xs < 515"
  shows "spi_send sim_bus xs c = c\<lparr>sc_in := sc_in c @ xs\<rparr>"
  using assms
proof (induction xs arbitrary: c)
  case (Cons x xs)
  have "snd (transfer sim_bus x c) = c\<lparr>sc_in := sc_in c @ [x]\<rparr>"
    using Cons.prems by (simp add: sim_bus_def sim_take_def)
  with Cons.IH [of "c\<lparr>sc_in := sc_in c @ [x]\<rparr>"] Cons.prems show ?case by simp
qed simp

lemma spi_send_append: "spi_send io (xs @ ys) b = spi_send io ys (spi_send io xs b)"
  by (induction xs arbitrary: b) simp_all

lemma sim_send_block:
  assumes "sim_sel c" and "sc_out c = []" and "sc_target c = Some a" and "length xs = 515" and "hd xs = 0xFE"
  shows "spi_send sim_bus xs c = sim_store a xs c"
proof -
  obtain ys z where xs: "xs = (0xFE # ys) @ [z]" and ys: "length ys = 513"
  proof -
    from assms(4,5) obtain ws where "xs = 0xFE # ws" "length ws = 514" by (cases xs) auto
    moreover from this obtain ys z where "ws = ys @ [z]" by (cases ws rule: rev_cases) auto
    ultimately show thesis by (intro that [of ys z]) simp_all
  qed
  have c: "sc_sel c" "sc_in c = []" "sc_sel c" using assms(1) by (simp_all add: sim_sel_def)
  have "snd (transfer sim_bus 0xFE c) = c\<lparr>sc_in := [0xFE]\<rparr>" using c(2,3) assms(2,3) by (simp add: sim_bus_def sim_take_def)
  then have "spi_send sim_bus (0xFE # ys) c = c\<lparr>sc_in := 0xFE # ys\<rparr>"
    using sim_send_collects [of "c\<lparr>sc_in := [0xFE]\<rparr>" a ys] c(3) assms(2,3) ys by simp
  then show ?thesis unfolding xs spi_send_append
    using c(2,3) assms(2,3) ys by (cases c) (simp add: sim_bus_def sim_take_def)
qed

lemma sim_packet_accepted:
  assumes "cmd \<in> {17, 24, 13 :: u8}"
  shows "length (sd_packet True cmd a) = 6" and "hd (sd_packet True cmd a) = cmd OR 0x40"
    and "last (sd_packet True cmd a) = push_bit 1 (CRC7 (butlast (sd_packet True cmd a))) OR 1"
    and "be_word (take 4 (tl (sd_packet True cmd a))) = a"
  using assms be_word_packet [of a] by (auto simp: sd_packet_def Let_def)

lemma sim_answers:
  assumes "sim_sel c" and "sc_out c = []" and "sc_target c = None" and "cmd \<in> {17, 24, 13 :: u8}"
  shows "spi_send sim_bus (sd_packet True cmd a) c =
    (if cmd = 17 then sim_read a c else if cmd = 24 then c\<lparr>sc_out := [0xFF, 0], sc_target := Some a\<rparr>
     else c\<lparr>sc_out := [0xFF, 0, 0]\<rparr>)"
proof -
  have "cmd OR 0x40 \<noteq> 0xFF" using assms(4) by auto
  then have "spi_send sim_bus (sd_packet True cmd a) c = sim_command (sd_packet True cmd a) c"
    using sim_packet_accepted(1,2) [OF assms(4)] by (intro sim_send_packet [OF assms(1-3)]) simp_all
  also have "\<dots> = (if cmd OR 0x40 = 0x51 then sim_read a c
      else if cmd OR 0x40 = 0x58 then c\<lparr>sc_out := [0xFF, 0], sc_target := Some a\<rparr>
      else if cmd OR 0x40 = 0x4D then c\<lparr>sc_out := [0xFF, 0, 0]\<rparr> else c\<lparr>sc_out := [4]\<rparr>)"
    unfolding sim_command_def Let_def sim_packet_accepted(2,4) [OF assms(4)] using sim_packet_accepted(3) [OF assms(4), of a] by simp
  finally show ?thesis using assms(4) by auto
qed

lemma sim_stores:
  assumes "sim_sel c" and "sc_out c = []" and "sc_target c = Some a" and "length data = 512"
  shows "spi_send sim_bus (0xFE # data @ be16_bytes (CRC16 data)) c =
    (if sc_spoils c then c\<lparr>sc_target := None, sc_spoils := False, sc_out := [0xEB]\<rparr>
     else c\<lparr>sc_target := None, sc_spoils := False, sc_out := [0xE5], sc_blocks := (sc_blocks c)(a := data)\<rparr>)"
proof -
  have "length (0xFE # data @ be16_bytes (CRC16 data)) = 515" using assms(4) by (simp add: be16_bytes_def)
  from sim_send_block [OF assms(1-3) this] assms(4) show ?thesis by (simp add: sim_store_def be_word_be16_bytes)
qed

interpretation sim: sd_protocol sim_bus sim_sel sc_out sc_target sim_mem sc_now
proof
  fix b :: sim_card and block faults spoils a
  assume b: "sim_sel b" "sc_out b = []" "sc_target b = None" and m: "sim_mem b = (block, faults, spoils)"
  define data where "data = whole_block (sc_blocks b a)"
  define frame where "frame = data @ be16_bytes (CRC16 data XOR (if faults = 0 then 0 else 1))"
  have blk: "block a = data" "sc_faults b = faults" using m by (auto simp: sim_mem_def data_def)
  have "length data = 512" by (simp add: data_def)
  then have frame: "length frame = 514" "take 512 frame = data"
    "be_word (drop 512 frame) = CRC16 data XOR (if faults = 0 then 0 else 1)"
    by (simp_all add: frame_def be_word_be16_bytes) (simp add: be16_bytes_def)
  have "CRC16 data XOR 1 \<noteq> CRC16 data" using xor_self_eq [of "CRC16 data"] by (metis xor.assoc xor_self_eq one_neq_zero xor.left_neutral)
  then have ok: "if faults = 0 then frame = block a @ be16_bytes (CRC16 (block a)) \<and> faults - 1 = 0
       else be_word (drop 512 frame) \<noteq> CRC16 (take 512 frame) \<and> faults = Suc (faults - 1)"
    using frame blk by (auto simp: frame_def)
  have run: "spi_send sim_bus (sd_packet True 17 a) b = sim_read a b" using sim_answers [OF b, of 17] by simp
  have out: "sc_out (sim_read a b) = replicate 1 0xFF @ 0 # replicate 3 0xFF @ 0xFE # frame"
    using blk by (simp add: sim_read_def frame_def data_def Let_def numeral_eq_Suc)
  have rest: "sim_sel (sim_read a b)" "sim_mem (sim_read a b) = (block, faults - 1, spoils)"
    using b m by (auto simp: sim_read_def sim_sel_def sim_mem_def Let_def)
  show "\<exists>b' n d frame faults'. spi_send sim_bus (sd_packet True 17 a) b = b' \<and> sim_sel b' \<and> n \<le> 8 \<and> d < 500 \<and>
      sc_out b' = replicate n 0xFF @ 0 # replicate d 0xFF @ 0xFE # frame \<and> length frame = 514 \<and> sim_mem b' = (block, faults', spoils) \<and>
      (if faults = 0 then frame = block a @ be16_bytes (CRC16 (block a)) \<and> faults' = 0
       else be_word (drop 512 frame) \<noteq> CRC16 (take 512 frame) \<and> faults = Suc faults')"
    by (rule exI [of _ "sim_read a b"], rule exI [of _ 1], rule exI [of _ 3], rule exI [of _ frame], rule exI [of _ "faults - 1"])
      (use run out rest ok frame(1) in simp)
next
  fix b :: sim_card and data :: "u8 list" and a block faults spoils
  assume b: "sim_sel b" "sc_out b = []" "sc_target b = Some a" "length data = 512" and m: "sim_mem b = (block, faults, spoils)"
  have "(0xEB :: u8) AND 0x1F = 0x0B" "(0xE5 :: u8) AND 0x1F = 5" by simp_all
  then show "\<exists>b' r. spi_send sim_bus (0xFE # data @ be16_bytes (CRC16 data)) b = b' \<and> sim_sel b' \<and> sc_out b' = [r] \<and>
      (if spoils then r AND 0x1F = 0x0B \<and> sim_mem b' = (block, faults, False)
       else r AND 0x1F = 5 \<and> sim_mem b' = (block(a := data), faults, False))"
    unfolding sim_stores [OF b] using b m by (auto simp: sim_sel_def sim_mem_def whole_block_id fun_eq_iff)
next
  fix b :: sim_card and a
  assume b: "sim_sel b" "sc_out b = []" "sc_target b = None"
  show "\<exists>b' n. spi_send sim_bus (sd_packet True 24 a) b = b' \<and> sim_sel b' \<and> n \<le> 8 \<and> sc_out b' = replicate n 0xFF @ [0] \<and>
      sc_target b' = Some a \<and> sim_mem b' = sim_mem b"
    using sim_answers [OF b, of 24] b by (intro exI [of _ "b\<lparr>sc_out := [0xFF, 0], sc_target := Some a\<rparr>"] exI [of _ 1])
      (simp add: sim_sel_def sim_mem_def)
  show "\<exists>b' n. spi_send sim_bus (sd_packet True 13 0) b = b' \<and> sim_sel b' \<and> n \<le> 8 \<and> sc_out b' = replicate n 0xFF @ [0, 0] \<and>
      sc_target b' = None \<and> sim_mem b' = sim_mem b"
    using sim_answers [OF b, of 13] b by (intro exI [of _ "b\<lparr>sc_out := [0xFF, 0, 0]\<rparr>"] exI [of _ 1])
      (simp add: sim_sel_def sim_mem_def)
next
  fix b :: sim_card
  show "sim_sel (chip_select sim_bus True b) \<and> sc_target (chip_select sim_bus True b) = None \<and>
      sim_mem (chip_select sim_bus True b) = sim_mem b \<and> (\<exists>k<300. sc_out (chip_select sim_bus True b) = replicate k 0)"
    by (simp add: sim_bus_def sim_sel_def sim_mem_def exI [of _ 2] numeral_2_eq_2)
qed (auto simp: sim_bus_def sim_sel_def sim_mem_def sim_take_def)

section \<open>Properties\<close>

text \<open>C38: A read of a sector tries three times: it succeeds exactly when fewer than three answers in a row are damaged, and
  then the buffer is the sector; no damaged sector is ever taken, and the card keeps all its blocks.\<close>

theorem sector_is_read:
  assumes "sd_protocol io sel queue target mem now" and "mem b = (block, faults, spoils)" and "supports_crc sd"
  shows "\<exists>buf' b'. sdReadSector io sd sector buf b = Some (faults < 3, buf', b') \<and>
    (faults < 3 \<longrightarrow> buf' = block (sd_address sd sector)) \<and> mem b' = (block, faults - 3, spoils)"
  using sd_protocol.read_sector_tries_reads [OF assms] by (simp add: sdReadSector_def)

definition demo_card :: "nat \<Rightarrow> bool \<Rightarrow> sim_card" where
  "demo_card faults spoils = \<lparr>sc_sel = False, sc_in = [], sc_out = [], sc_target = None, sc_blocks = (\<lambda>a. replicate 512 (ucast a)),
     sc_faults = faults, sc_spoils = spoils, sc_now = 0xFFFFFFF0\<rparr>"

lemma sector_is_read_witness:
  "\<exists>buf' b'. sdReadSector sim_bus ((sd_card_new 4000000)\<lparr>card_type := CARD_SDHC\<rparr>) 7 (replicate 512 0) (demo_card 2 False) =
      Some (2 < (3 :: nat), buf', b') \<and>
    (2 < (3 :: nat) \<longrightarrow> buf' = (\<lambda>a. whole_block (replicate 512 (ucast a)))
      (sd_address ((sd_card_new 4000000)\<lparr>card_type := CARD_SDHC\<rparr>) 7)) \<and>
    sim_mem b' = (\<lambda>a. whole_block (replicate 512 (ucast a)), 2 - 3, False)"
  by (rule sector_is_read [OF sim.sd_protocol_axioms]) (simp_all add: demo_card_def sim_mem_def sd_card_new_def)

text \<open>C39: What a write of a sector reports: with a card whose next block arrives damaged, so that the card refuses it and
  keeps the old block, the write is reported as done all the same, just as when the block is stored. The codes the
  driver looks for, 0x0A and 0x0C, are not those that a card sends.\<close>

theorem refused_write_is_reported_done:
  assumes "sd_protocol io sel queue target mem now" and "mem b = (block, faults, spoils)" and "supports_crc sd"
    and "length data = 512"
  shows "\<exists>b'. sdWriteSector io sd data sector b = Some (True, b') \<and>
    mem b' = (if spoils then block else block(sd_address sd sector := data), faults, False)"
  using sd_protocol.write_sector_reports [OF assms] .

lemma refused_write_is_reported_done_witness:
  "\<exists>b'. sdWriteSector sim_bus (sd_card_new 4000000) (replicate 512 1) 7 (demo_card 0 True) = Some (True, b') \<and>
    sim_mem b' = (if True then (\<lambda>a. whole_block (replicate 512 (ucast a)))
      else (\<lambda>a. whole_block (replicate 512 (ucast a)))(sd_address (sd_card_new 4000000) 7 := replicate 512 1), 0, False)"
  by (rule refused_write_is_reported_done [OF sim.sd_protocol_axioms]) (simp_all add: demo_card_def sim_mem_def sd_card_new_def)

end
