(* ===== verification/WifiMulti.thy ===== *)
theory WifiMulti
  imports Prelude "HOL-Library.Monad_Syntax"
begin

text \<open>
  \<open>WiFiMulti.cpp\<close>: the logger's way into a network before every request. The access points of the configuration are a
  list; \<open>run\<close> scans and connects to the strongest network of the list. The WiFi driver is the parameter \<open>wifi\<close>. The
  memory is there for the copies of the names.
\<close>

section \<open>The code\<close>

record ap_entry =
  ap_ssid :: "u8 list"
  ap_pass :: "u8 list option"

record network =
  nw_ssid :: "u8 list"
  nw_open :: bool
  nw_rssi :: int
  nw_bssid :: "u8 list"
  nw_channel :: int

record 'w wifi_ops =
  wf_status :: "'w \<Rightarrow> nat \<times> 'w"
  wf_scan :: "bool \<Rightarrow> 'w \<Rightarrow> int \<times> 'w"
  wf_info :: "nat \<Rightarrow> 'w \<Rightarrow> network"
  wf_delete :: "'w \<Rightarrow> 'w"
  wf_begin :: "u8 list \<Rightarrow> u8 list option \<Rightarrow> int \<Rightarrow> u8 list \<Rightarrow> 'w \<Rightarrow> 'w"
  wf_disconnect :: "'w \<Rightarrow> 'w"
  wf_delay :: "nat \<Rightarrow> 'w \<Rightarrow> 'w"

abbreviation (input) WL_NO_SSID_AVAIL :: nat where "WL_NO_SSID_AVAIL \<equiv> 1"
abbreviation (input) WL_CONNECTED :: nat where "WL_CONNECTED \<equiv> 3"
abbreviation (input) WL_CONNECT_FAILED :: nat where "WL_CONNECT_FAILED \<equiv> 4"
abbreviation (input) WIFI_SCAN_RUNNING :: int where "WIFI_SCAN_RUNNING \<equiv> - 1"

text \<open>An empty pass phrase leaves the pointer of the entry as it is on the stack: \<open>stale\<close>.\<close>

definition APlistAdd ::
  "u8 list option \<Rightarrow> u8 list option \<Rightarrow> u8 list option \<Rightarrow> ap_entry list \<Rightarrow> bool \<times> ap_entry list" where
  "APlistAdd stale ssid passphrase aps =
     (case ssid of
        None \<Rightarrow> (False, aps)
      | Some name \<Rightarrow>
          if name = [] \<or> 31 < length name then (False, aps)
          else if (case passphrase of None \<Rightarrow> False | Some p \<Rightarrow> 63 < length p) then (False, aps)
          else (True, aps @ [\<lparr>ap_ssid = name,
                              ap_pass = (case passphrase of None \<Rightarrow> stale | Some p \<Rightarrow> if p = [] then stale else Some p)\<rparr>]))"

record best_network =
  best_entry :: "ap_entry option"
  best_db :: int
  best_channel :: int
  best_bssid :: "u8 list"

definition no_network :: best_network where
  "no_network = \<lparr>best_entry = None, best_db = - (2 ^ 31), best_channel = 0, best_bssid = []\<rparr>"

definition best_step :: "ap_entry list \<Rightarrow> network \<Rightarrow> best_network \<Rightarrow> best_network" where
  "best_step aps nw best =
     (case List.find (\<lambda>e. nw_ssid nw = ap_ssid e) aps of
        None \<Rightarrow> best
      | Some e \<Rightarrow>
          if best_db best < nw_rssi nw \<and> (nw_open nw \<or> ap_pass e \<noteq> None)
          then \<lparr>best_entry = Some e, best_db = nw_rssi nw, best_channel = nw_channel nw, best_bssid = nw_bssid nw\<rparr>
          else best)"

partial_function (option) await_status :: "('w, 'z) wifi_ops_scheme \<Rightarrow> 'w \<Rightarrow> (nat \<times> 'w) option" where
  "await_status wifi w =
     (let (status, w1) = wf_status wifi w
      in if status = WL_CONNECTED \<or> status = WL_NO_SSID_AVAIL \<or> status = WL_CONNECT_FAILED then Some (status, w1)
         else await_status wifi (wf_delay wifi 10 w1))"

definition multi_run :: "('w, 'z) wifi_ops_scheme \<Rightarrow> ap_entry list \<Rightarrow> 'w \<Rightarrow> (nat \<times> 'w) option" where
  "multi_run wifi aps w =
     (let (status, w1) = wf_status wifi w
      in if status = WL_CONNECTED then Some (status, w1)
         else let (n, w2) = wf_scan wifi False w1
              in if n = WIFI_SCAN_RUNNING then Some (WL_NO_SSID_AVAIL, w2)
                 else if 0 < n
                 then let best = fold (best_step aps) (map (\<lambda>i. wf_info wifi i w2) [0..<nat n]) no_network;
                          w3 = wf_delete wifi w2
                      in case best_entry best of
                           None \<Rightarrow> Some (status, w3)
                         | Some e \<Rightarrow>
                             await_status wifi (wf_begin wifi (ap_ssid e) (ap_pass e) (best_channel best) (best_bssid best) w3)
                 else Some (status, snd (wf_scan wifi True (wf_disconnect wifi w2))))"

section \<open>The strongest network\<close>

text \<open>A network can be used when the first entry of its name has what it asks for.\<close>

definition usable :: "ap_entry list \<Rightarrow> network \<Rightarrow> ap_entry \<Rightarrow> bool" where
  "usable aps nw e \<longleftrightarrow> List.find (\<lambda>e. nw_ssid nw = ap_ssid e) aps = Some e \<and> (nw_open nw \<or> ap_pass e \<noteq> None)"

definition strongest :: "ap_entry list \<Rightarrow> network list \<Rightarrow> network \<Rightarrow> ap_entry \<Rightarrow> bool" where
  "strongest aps nws nw e \<longleftrightarrow> (\<exists>before after. nws = before @ nw # after \<and> usable aps nw e \<and>
     (\<forall>n\<in>set before. \<forall>d. usable aps n d \<longrightarrow> nw_rssi n < nw_rssi nw) \<and>
     (\<forall>n\<in>set after. \<forall>d. usable aps n d \<longrightarrow> nw_rssi n \<le> nw_rssi nw))"

definition chosen :: "network \<Rightarrow> ap_entry \<Rightarrow> best_network" where
  "chosen nw e = \<lparr>best_entry = Some e, best_db = nw_rssi nw, best_channel = nw_channel nw, best_bssid = nw_bssid nw\<rparr>"

lemma best_step_takes: "usable aps nw e \<Longrightarrow> best_db best < nw_rssi nw \<Longrightarrow> best_step aps nw best = chosen nw e"
  by (auto simp: best_step_def usable_def chosen_def)

lemma best_step_keeps: "(\<And>e. usable aps nw e \<Longrightarrow> nw_rssi nw \<le> best_db best) \<Longrightarrow> best_step aps nw best = best"
  by (auto simp: best_step_def usable_def split: option.splits)

lemma best_networks:
  assumes "\<forall>nw\<in>set nws. - (2 ^ 31) < nw_rssi nw"
  shows "(fold (best_step aps) nws no_network = no_network \<and> (\<forall>nw\<in>set nws. \<forall>e. \<not> usable aps nw e)) \<or>
    (\<exists>nw e. fold (best_step aps) nws no_network = chosen nw e \<and> strongest aps nws nw e)"
  using assms
proof (induction nws rule: rev_induct)
  case (snoc n nws)
  let ?best = "fold (best_step aps) nws no_network"
  have step: "fold (best_step aps) (nws @ [n]) no_network = best_step aps n ?best" by simp
  consider (none) "?best = no_network" "\<forall>nw\<in>set nws. \<forall>e. \<not> usable aps nw e"
    | (some) nw e where "?best = chosen nw e" "strongest aps nws nw e" using snoc by auto
  then show ?case
  proof cases
    case none
    show ?thesis
    proof (cases "\<exists>e. usable aps n e")
      case True
      then obtain e where e: "usable aps n e" by blast
      have "best_step aps n ?best = chosen n e"
        using snoc.prems unfolding none(1) by (intro best_step_takes [OF e]) (simp add: no_network_def)
      moreover have "strongest aps (nws @ [n]) n e"
        unfolding strongest_def using e none(2) by (intro exI [of _ nws] exI [of _ "[]"]) auto
      ultimately show ?thesis unfolding step by blast
    next
      case False
      then have "best_step aps n ?best = ?best" by (intro best_step_keeps) blast
      with none False show ?thesis unfolding step by auto
    qed
  next
    case some
    then obtain before after where sp: "nws = before @ nw # after" "usable aps nw e"
        "\<forall>n\<in>set before. \<forall>d. usable aps n d \<longrightarrow> nw_rssi n < nw_rssi nw"
        "\<forall>n\<in>set after. \<forall>d. usable aps n d \<longrightarrow> nw_rssi n \<le> nw_rssi nw" by (auto simp: strongest_def)
    show ?thesis
    proof (cases "\<exists>d. usable aps n d \<and> nw_rssi nw < nw_rssi n")
      case True
      then obtain d where d: "usable aps n d" "nw_rssi nw < nw_rssi n" by blast
      have "best_step aps n ?best = chosen n d"
        using d(2) unfolding some(1) by (intro best_step_takes [OF d(1)]) (simp add: chosen_def)
      moreover have "strongest aps (nws @ [n]) n d"
      proof -
        have "nw_rssi m < nw_rssi n" if "m \<in> set nws" "usable aps m k" for m k
          using that sp d(2) by (auto dest: order.strict_trans order.strict_trans1)
        then show ?thesis
          unfolding strongest_def using d(1) by (intro exI [of _ nws] exI [of _ "[]"]) simp
      qed
      ultimately show ?thesis unfolding step by blast
    next
      case False
      then have "best_step aps n ?best = chosen nw e" unfolding some(1) by (intro best_step_keeps) (auto simp: chosen_def not_less)
      moreover have "strongest aps (nws @ [n]) nw e"
        unfolding strongest_def using sp False by (intro exI [of _ before] exI [of _ "after @ [n]"]) (auto simp: not_less)
      ultimately show ?thesis unfolding step by blast
    qed
  qed
qed simp

text \<open>The wait has no limit of its own: it comes back with a status that ends it, or not at all.\<close>

lemma await_status_ends:
  assumes "await_status wifi w = Some r"
  shows "fst r \<in> {WL_CONNECTED, WL_NO_SSID_AVAIL, WL_CONNECT_FAILED}"
proof (rule await_status.raw_induct [where P = "\<lambda>wifi w r. fst r \<in> {WL_CONNECTED, WL_NO_SSID_AVAIL, WL_CONNECT_FAILED}",
    OF _ assms])
  fix f and wifi :: "('a, 'b) wifi_ops_scheme" and w r
  assume IH: "\<And>wifi w r. f wifi w = Some r \<Longrightarrow> fst r \<in> {WL_CONNECTED, WL_NO_SSID_AVAIL, WL_CONNECT_FAILED}"
    and run: "(let (status, w1) = wf_status wifi w
      in if status = WL_CONNECTED \<or> status = WL_NO_SSID_AVAIL \<or> status = WL_CONNECT_FAILED then Some (status, w1)
         else f wifi (wf_delay wifi 10 w1)) = Some r"
  obtain s w1 where s: "wf_status wifi w = (s, w1)" by fastforce
  show "fst r \<in> {WL_CONNECTED, WL_NO_SSID_AVAIL, WL_CONNECT_FAILED}"
  proof (cases "s \<in> {WL_CONNECTED, WL_NO_SSID_AVAIL, WL_CONNECT_FAILED}")
    case True
    then show ?thesis using run s by auto
  next
    case False
    then have "f wifi (wf_delay wifi 10 w1) = Some r" using run s by simp
    then show ?thesis by (rule IH)
  qed
qed

text \<open>C40: A device that is not connected and finds networks starts a connection to the strongest of those whose name is in
  the list with a pass phrase where one is needed, the first of them if several are as strong, on the channel and the
  station that were scanned, and comes back when that has come to an end; with no such network it comes back at
  once, without a connection.\<close>

theorem strongest_network_is_taken:
  assumes "wf_status wifi w = (status, w1)" and "status \<noteq> WL_CONNECTED" and "wf_scan wifi False w1 = (int n, w2)" and "0 < n"
    and "nws = map (\<lambda>i. wf_info wifi i w2) [0..<n]" and "\<forall>nw\<in>set nws. - (2 ^ 31) < nw_rssi nw"
  shows "(\<forall>nw\<in>set nws. \<forall>e. \<not> usable aps nw e) \<and> multi_run wifi aps w = Some (status, wf_delete wifi w2) \<or>
    (\<exists>nw e. strongest aps nws nw e \<and>
      multi_run wifi aps w = await_status wifi (wf_begin wifi (ap_ssid e) (ap_pass e) (nw_channel nw) (nw_bssid nw) (wf_delete wifi w2)))"
proof -
  have run: "multi_run wifi aps w = (case best_entry (fold (best_step aps) nws no_network) of
      None \<Rightarrow> Some (status, wf_delete wifi w2)
    | Some e \<Rightarrow> await_status wifi (wf_begin wifi (ap_ssid e) (ap_pass e) (best_channel (fold (best_step aps) nws no_network))
        (best_bssid (fold (best_step aps) nws no_network)) (wf_delete wifi w2)))"
    unfolding assms(5) using assms(1-4) by (simp add: multi_run_def Let_def)
  from best_networks [OF assms(6), of aps] show ?thesis
  proof (elim disjE conjE exE)
    assume "fold (best_step aps) nws no_network = no_network" "\<forall>nw\<in>set nws. \<forall>e. \<not> usable aps nw e"
    then show ?thesis unfolding run by (simp add: no_network_def)
  next
    fix nw e
    assume "fold (best_step aps) nws no_network = chosen nw e" "strongest aps nws nw e"
    then show ?thesis unfolding run by (auto simp: chosen_def)
  qed
qed

text \<open>A place with two networks: the second is the stronger one, but it is not in the list.\<close>

definition two_networks :: "nat wifi_ops" where
  "two_networks =
     \<lparr>wf_status = (\<lambda>w. (w, w)), wf_scan = (\<lambda>later w. (2, w)),
      wf_info = (\<lambda>i w. if i = 0 then \<lparr>nw_ssid = [65], nw_open = True, nw_rssi = - 70, nw_bssid = [1, 2, 3, 4, 5, 6], nw_channel = 11\<rparr>
                 else \<lparr>nw_ssid = [66], nw_open = False, nw_rssi = - 50, nw_bssid = [6, 5, 4, 3, 2, 1], nw_channel = 1\<rparr>),
      wf_delete = (\<lambda>w. w), wf_begin = (\<lambda>name pass channel station w. 3), wf_disconnect = (\<lambda>w. w), wf_delay = (\<lambda>n w. w)\<rparr>"

lemma strongest_network_is_taken_witness:
  "(\<forall>nw\<in>set (map (\<lambda>i. wf_info two_networks i 6) [0..<2]). \<forall>e. \<not> usable [\<lparr>ap_ssid = [65], ap_pass = None\<rparr>] nw e) \<and>
      multi_run two_networks [\<lparr>ap_ssid = [65], ap_pass = None\<rparr>] 6 = Some (6, wf_delete two_networks 6) \<or>
    (\<exists>nw e. strongest [\<lparr>ap_ssid = [65], ap_pass = None\<rparr>] (map (\<lambda>i. wf_info two_networks i 6) [0..<2]) nw e \<and>
      multi_run two_networks [\<lparr>ap_ssid = [65], ap_pass = None\<rparr>] 6 =
        await_status two_networks (wf_begin two_networks (ap_ssid e) (ap_pass e) (nw_channel nw) (nw_bssid nw) (wf_delete two_networks 6)))"
  by (rule strongest_network_is_taken [where status = 6 and ?w1.0 = 6 and n = 2]) (auto simp: two_networks_def)

end
