(* ===== verification/Spec2Isabelle.thy ===== *)
theory Spec2Isabelle
  imports LoggerEdges SdCrc Base64 WStringEdit FlashTyped CircBuf AnalogInput IpAddress NetPost SdCard WifiMulti
begin

text \<open>
  The ENRES energy logger: a model of the firmware and its correctness.

  \<^bold>\<open>The program.\<close> An ESP32 reads energy meters and a flow meter over Modbus RTU and analog sensors over an
  ADC, stores every round of readings as a fixed-size record in a serial flash, and posts the records in
  order to a server as JSON; a read and a write index, mirrored in the battery-backed RAM of the clock chip,
  survive a restart (\<open>src/main/main.cpp\<close>). The libraries it stands on are under
  \<open>src/components/arduino\<close>; calls go downwards only:

  \<^item> \<open>main.cpp\<close> calls \<open>ModbusMeter\<close>, \<open>ModbusFlow\<close>, \<open>SPIFlashMeter\<close>, \<open>RTClib\<close> and the core;
  \<^item> \<open>ModbusMeter\<close> and \<open>ModbusFlow\<close> contain the Modbus master and use the CRC of \<open>util/crc16.h\<close>;
  \<^item> \<open>SPIFlashMeter\<close>, a ring of records, stands on the NOR flash driver \<open>SPIFlash\<close>;
  \<^item> \<open>String\<close>, the number conversions, the Base64 codec and the circular buffer are the core's data types.

  \<^bold>\<open>The theories.\<close>

  \<^item> \<open>Prelude\<close>: the C integers as words, bytes of words (\<open>bytes_simps\<close>), loads and stores in byte lists, loops
    over a range and loops that wait (\<open>wait_until\<close>).
  \<^item> \<open>Crc16\<close>: \<open>crc16_update\<close> and the word helpers; every change confined to two adjacent bytes is detected.
  \<^item> \<open>Modbus\<close>, \<open>Transaction\<close>: the master's state and all public requests as \<open>masterTransaction\<close>, over a
    stream of what the UART gives at each moment. It ends, accepts well-formed responses only, reports
    damage, and keeps its buffer on failure.
  \<^item> \<open>Drivers\<close>: \<open>readMeterData\<close> with the seven meter types and \<open>readFlowData\<close>, as lists of request steps; the
    drivers see the bus only through the locale \<open>register_bus\<close>, which the master interprets.
  \<^item> \<open>SpiFlash\<close>, \<open>FlashTyped\<close>: \<open>SPIFlash.cpp\<close> and \<open>.h\<close>. The chip is the parameter \<open>io\<close>; the locales \<open>nor_flash\<close> and
    \<open>nor_flash_blocks\<close> state the data sheet (erase sets bits, program clears them, both take time, the write
    latch) and are interpreted on the executable chip \<open>nor_chip\<close>. What is written to erased cells is read
    back, what is not erased is refused, erases hit their block.
  \<^item> \<open>FlashRing\<close>: \<open>SPIFlashMeter.cpp\<close> against an append-only stream of bytes.
  \<^item> \<open>Logger\<close>, \<open>LoggerProofs\<close>, \<open>StoreForward\<close>, \<open>ReadingQueue\<close>, \<open>LoggerEdges\<close>: the tasks and the loop of
    \<open>main.cpp\<close> over the record \<open>logger\<close> (indices, buffers, configuration, error counters, the flash ring). The
    contract is a first-in first-out queue of readings; \<open>logger_run\<close> is the step relation of the main loop, and
    the invariant along it says that what was acknowledged followed by what is in flash is what was read.
    \<open>LoggerEdges\<close> holds what happens off that path.
  \<^item> \<open>RtcClock\<close>: \<open>DateTime\<close>, \<open>TimeSpan\<close> and the MCP7940 driver of \<open>RTClib\<close>; the chip is the locale \<open>rtc_chip\<close>,
    interpreted on the registers of \<open>mcp7940\<close>.
  \<^item> \<open>Noniso\<close>, \<open>WString\<close>, \<open>WStringEdit\<close>: \<open>ltoa\<close>, \<open>ultoa\<close>, and class \<open>String\<close> with its buffer, capacity and length;
    the allocator is a parameter that may fail. Programs of edits refine edits of texts.
  \<^item> \<open>CircBuf\<close>: \<open>cbuf.cpp\<close>, whose programs of calls refine a bounded queue.
  \<^item> \<open>SdCrc\<close>, \<open>Base64\<close>: the SD card's CRC tables against the bit-serial definition; the streaming Base64 coder and
    decoder with their states.

  \<^bold>\<open>Conventions.\<close> Bytes are \<open>8 word\<close>, C integers are words of their width or naturals and integers with the
  wrap-around written out; \<open>long\<close> and \<open>time_t\<close> have 32 bits, \<open>char\<close> is unsigned, as on the target. An access
  outside a buffer is \<open>None\<close>, so a theorem that an operation gives \<open>Some\<close> says that it stays inside. Floating
  point is a parameter (\<open>fpu\<close>): no theorem depends on its results.

  \<^bold>\<open>Loops and fuel.\<close> Waiting loops are \<open>partial_function (option)\<close>, where a loop that never ends is \<open>None\<close>; that
  the program's loops end is proved from the time that passes with every poll. No loop of the model needs fuel:
  all others recurse structurally or by a measure.

  \<^bold>\<open>Not modelled.\<close> Network and modem (\<open>WiFi\<close>, \<open>HTTPClient\<close>, \<open>UC20\<close>, \<open>ENRES3G\<close>): the logger sees the outcome of a
  request, which is a parameter. File systems and configuration parsing (\<open>FS\<close>, \<open>SD\<close>, \<open>SDConfig\<close>, \<open>ArduinoJson\<close>):
  the parsed configuration is a field of the state. The hardware abstraction layer (\<open>esp32-hal-*.c\<close>) writes
  registers of the chip and calls FreeRTOS. Floating point formatting (\<open>dtostrf\<close>) and the pin set-up. The SDK's
  headers declare interfaces of libraries that are not in the repository.
\<close>

end
